(* ===== verification/Prelude.thy ===== *)
theory Prelude
  imports Main "HOL-Library.Word"
begin

text \<open>
  Vocabulary shared by the components of the development: the machine integer types of the
  C sources (LP64: \<open>size_t\<close>, \<open>unsigned long\<close> and pointers have 64 bits, \<open>int\<close> has 32),
  the conversions between them that the code makes implicitly, named collections of
  simplification rules, and generic facts on words, lists and option values.
\<close>

unbundle bit_operations_syntax

section \<open>Machine integers\<close>

type_synonym u8 = "8 word"
type_synonym u16 = "16 word"
type_synonym u32 = "32 word"
type_synonym u64 = "64 word"

text \<open>The value an integer of the mathematical type takes when C converts it to \<open>int\<close>.\<close>

definition to_int32 :: "int \<Rightarrow> int" where
  "to_int32 x = signed_take_bit 31 x"

lemma to_int32_id [simp]:
  assumes "0 \<le> x" and "x < 2 ^ 31"
  shows "to_int32 x = x"
  using assms by (simp add: to_int32_def signed_take_bit_int_eq_self)

section \<open>Collections of rules\<close>

named_theorems word_nat_simps \<open>readings of word operations as operations on nat\<close>
named_theorems step_simps \<open>effects of the steps of a component on the fields of its state\<close>

lemma of_nat_word_eq_iff:
  assumes "a < 2 ^ LENGTH('a::len)" and "b < 2 ^ LENGTH('a)"
  shows "(of_nat a :: 'a word) = of_nat b \<longleftrightarrow> a = b"
proof
  assume "(of_nat a :: 'a word) = of_nat b"
  then have "unat (of_nat a :: 'a word) = unat (of_nat b :: 'a word)" by simp
  with assms show "a = b" by (simp add: unat_of_nat)
qed simp

lemma unat_of_nat_small [word_nat_simps]:
  "a < 2 ^ LENGTH('a::len) \<Longrightarrow> unat (of_nat a :: 'a word) = a"
  by (simp add: unat_of_nat)

lemma of_nat_word_diff_eq_0_iff:
  assumes "a < 2 ^ LENGTH('a::len)" and "b < 2 ^ LENGTH('a)"
  shows "(of_nat a - of_nat b :: 'a word) = 0 \<longleftrightarrow> a = b"
  using of_nat_word_eq_iff [OF assms] by simp

lemma sint_of_nat_small:
  assumes "n < 2 ^ (LENGTH('a::len) - 1)"
  shows "sint (of_nat n :: 'a word) = int n"
proof -
  have "int n < 2 ^ (LENGTH('a) - 1)" using assms by (metis of_nat_less_numeral_power_cancel_iff)
  then have "signed_take_bit (LENGTH('a) - Suc 0) (int n) = int n"
    by (intro signed_take_bit_int_eq_self) (auto intro: order_trans [of _ 0])
  then show ?thesis by (subst of_int_of_nat_eq [symmetric], subst sint_sbintrunc') simp
qed

lemma unat_add_small:
  "unat x + unat y < 2 ^ LENGTH('a) \<Longrightarrow> unat (x + y :: 'a::len word) = unat x + unat y"
  by (simp add: unat_word_ariths)

lemma unat_eq_of_nat_word: "unat (x :: 'a::len word) = n \<Longrightarrow> x = of_nat n"
  by auto

lemma unat_diff_le: "b \<le> a \<Longrightarrow> unat (a - b :: 'a::len word) = unat a - unat b"
  by (simp add: unat_sub)

lemma unat_add_mod:
  assumes "b = 2 ^ e" and "e \<le> LENGTH('a::len)"
  shows "unat ((p :: 'a word) + of_nat k) mod b = (unat p + k) mod b"
proof -
  have d: "b dvd 2 ^ LENGTH('a)" unfolding assms(1) using assms(2) by (rule le_imp_power_dvd)
  have "unat (p + of_nat k) = (unat p + k) mod 2 ^ LENGTH('a)"
    by (simp add: unat_word_ariths unat_of_nat mod_simps)
  with d show ?thesis by (simp add: mod_mod_cancel)
qed

lemma mod_add_inj:
  assumes "(j :: nat) < b" and "k < b"
  shows "(p + j) mod b = (p + k) mod b \<longleftrightarrow> j = k"
proof
  have aux: "j = k" if "j \<le> k" "k < b" "(p + j) mod b = (p + k) mod b" for j k
  proof (rule ccontr)
    assume "j \<noteq> k"
    with that have "b dvd (p + k) - (p + j)" "0 < k - j"
      using mod_eq_dvd_iff_nat [of "p + j" "p + k" b] by simp_all
    then have "b \<le> k - j" by (auto dest: dvd_imp_le)
    with that show False by simp
  qed
  assume "(p + j) mod b = (p + k) mod b"
  then show "j = k" using aux [of j k] aux [of k j] assms by (cases "j \<le> k") auto
qed simp

lemma and_pred_eq_0_pow2_nat: "n AND (n - 1) = 0 \<Longrightarrow> 0 < n \<Longrightarrow> \<exists>e. (n :: nat) = 2 ^ e"
proof (induction n rule: less_induct)
  case (less n)
  show ?case
  proof (cases "even n")
    case True
    with \<open>0 < n\<close> obtain m where m: "n = 2 * m" "0 < m" by auto
    have "(2 * m - Suc 0) div 2 = m - 1" using m(2) by (cases m) auto
    with m have "n AND (n - 1) = 2 * (m AND (m - 1))"
      by (subst and_nat_rec) (auto simp: even_diff_nat)
    with less.prems have "m AND (m - 1) = 0" by simp
    with m less.IH [of m] obtain e where "m = 2 ^ e" by auto
    with m have "n = 2 ^ Suc e" by simp
    then show ?thesis ..
  next
    case False
    then obtain m where m: "n = 2 * m + 1" by (elim oddE)
    then have "n AND (n - 1) = 2 * m"
      by (subst and_nat_rec) simp
    with less.prems m have "n = 2 ^ 0" by simp
    then show ?thesis ..
  qed
qed

lemma and_pred_eq_0_pow2:
  fixes n :: "'a::len word"
  assumes "n AND (n - 1) = 0" and "n \<noteq> 0"
  shows "\<exists>e. unat n = 2 ^ e"
proof -
  have "unat n AND (unat n - 1) = 0"
    using assms by (metis unat_minus_one unsigned_and_eq unsigned_0)
  then show ?thesis using assms and_pred_eq_0_pow2_nat [of "unat n"]
    by (simp add: unat_gt_0)
qed

section \<open>Memory\<close>

text \<open>The C library's copy, on a memory of bytes; addresses wrap around.\<close>

definition memcpy :: "u64 \<Rightarrow> u64 \<Rightarrow> u64 \<Rightarrow> (u64 \<Rightarrow> u8) \<Rightarrow> u64 \<Rightarrow> u8" where
  "memcpy dst src n bytes = (\<lambda>a. if a - dst < n then bytes (src + (a - dst)) else bytes a)"

lemma memcpy_dst: "i < n \<Longrightarrow> memcpy dst src n bytes (dst + i) = bytes (src + i)"
  by (simp add: memcpy_def)

text \<open>The bytes of an area, and a memory with an area overwritten.\<close>

definition load_bytes :: "(u64 \<Rightarrow> u8) \<Rightarrow> u64 \<Rightarrow> nat \<Rightarrow> u8 list" where
  "load_bytes m a n = map (\<lambda>i. m (a + of_nat i)) [0..<n]"

definition write_bytes :: "u64 \<Rightarrow> u8 list \<Rightarrow> (u64 \<Rightarrow> u8) \<Rightarrow> (u64 \<Rightarrow> u8)" where
  "write_bytes off bs f = (\<lambda>x. if unat (x - off) < length bs then bs ! unat (x - off) else f x)"

lemma load_bytes_append: "load_bytes f a (j + k) = load_bytes f a j @ load_bytes f (a + of_nat j) k"
  unfolding load_bytes_def by (rule nth_equalityI) (auto simp: nth_append add.assoc)

lemma length_load_bytes [simp]: "length (load_bytes f a n) = n"
  by (simp add: load_bytes_def)

text \<open>A word is put together from its bytes.\<close>

lemma join_byte: "push_bit 8 (drop_bit 8 x) OR take_bit 8 x = (x :: 'a::len word)"
  by (rule bit_word_eqI) (auto simp: bit_simps)

lemma join_bytes: "foldr (\<lambda>i w. push_bit 8 w OR take_bit 8 (drop_bit (8 * i) v)) [0..<n] (drop_bit (8 * n) v) = (v :: 'a::len word)"
proof (induction n)
  case (Suc n)
  have "drop_bit (8 * Suc n) v = drop_bit 8 (drop_bit (8 * n) v)" by (simp add: drop_bit_drop_bit add.commute)
  then show ?case using Suc join_byte [of "drop_bit (8 * n) v"] by simp
qed simp

section \<open>Interleavings\<close>

text \<open>
  The states a system of \<open>n\<close> threads reaches from \<open>init\<close> when \<open>step i s s'\<close> are the steps of
  thread \<open>i\<close>, and the same with the number of steps taken.
\<close>

inductive reach :: "'s \<Rightarrow> (nat \<Rightarrow> 's \<Rightarrow> 's \<Rightarrow> bool) \<Rightarrow> nat \<Rightarrow> 's \<Rightarrow> bool" for init step n where
  reach_init: "reach init step n init"
| reach_step: "reach init step n s \<Longrightarrow> i < n \<Longrightarrow> step i s s' \<Longrightarrow> reach init step n s'"

inductive reach_in :: "'s \<Rightarrow> (nat \<Rightarrow> 's \<Rightarrow> 's \<Rightarrow> bool) \<Rightarrow> nat \<Rightarrow> nat \<Rightarrow> 's \<Rightarrow> bool" for init step n where
  reach_in_init: "reach_in init step n 0 init"
| reach_in_step: "reach_in init step n k s \<Longrightarrow> i < n \<Longrightarrow> step i s s' \<Longrightarrow> reach_in init step n (Suc k) s'"

lemma reach_invariant:
  assumes "reach init step n s" and "I init"
    and "\<And>i s s'. I s \<Longrightarrow> i < n \<Longrightarrow> step i s s' \<Longrightarrow> I s'"
  shows "I s"
  using assms by (induction rule: reach.induct) blast+

section \<open>Lists\<close>

lemma nth_list_update_cases:
  "i < length xs \<Longrightarrow> (xs[j := x]) ! i = (if i = j then x else xs ! i)"
  by (simp add: nth_list_update)

lemma distinct_hd_index:
  "distinct xs \<Longrightarrow> i < length xs \<Longrightarrow> xs ! i = hd xs \<longleftrightarrow> i = 0"
  by (cases xs) (auto simp: nth_eq_iff_index_eq nth_Cons split: nat.splits)

end
