(* ===== verification/Bitops.thy ===== *)
theory Bitops
  imports Prelude
begin

text \<open>
  The bitmap operations of \<^verbatim>\<open>src/include/bitops.h\<close>. A bitmap is the list of its 64 bit words;
  \<open>unsigned long\<close> sizes and offsets are natural numbers, \<open>int\<close> variables are integers (the
  bitmaps the program uses have fewer than \<open>2 ^ 31\<close> bits, and an overflow of \<open>int\<close> is
  undefined in C). A shift by a count outside 0 to 63 takes the count modulo 64, as the
  processor does: the header relies on it in \<open>BITMAP_LAST_WORD_MASK\<close>.
\<close>

section \<open>Single words\<close>

definition BITMAP_FIRST_WORD_MASK :: "int \<Rightarrow> u64" where
  "BITMAP_FIRST_WORD_MASK start = push_bit (nat (start mod 64)) (- 1)"

definition BITMAP_LAST_WORD_MASK :: "int \<Rightarrow> u64" where
  "BITMAP_LAST_WORD_MASK n = drop_bit (nat ((64 - n) mod 64)) (- 1)"

text \<open>The loops of \<open>fls\<close> and \<open>flsl\<close>; the argument of the loop is not zero.\<close>

function fls_loop :: "'a::len word \<Rightarrow> int \<Rightarrow> int" where
  "fls_loop msk b = (if msk = 1 \<or> msk = 0 then b else fls_loop (drop_bit 1 msk) (b + 1))"
  by pat_completeness auto
termination
proof (relation "measure (unat \<circ> fst)", simp, goal_cases)
  case (1 msk b)
  then have "unat msk \<noteq> 0" by (simp add: unat_eq_0)
  then have "unat msk div 2 < unat msk" by simp
  then show ?case by (simp add: drop_bit_eq_div unat_div)
qed

declare fls_loop.simps [simp del]

definition fls :: "u32 \<Rightarrow> int" where
  "fls msk = (if msk = 0 then 0 else fls_loop msk 1)"

definition flsl :: "u64 \<Rightarrow> int" where
  "flsl msk = (if msk = 0 then 0 else fls_loop msk 1)"

text \<open>\<open>__builtin_ffs\<close> and \<open>__builtin_ffsl\<close>: one plus the index of the least significant set bit.\<close>

definition ffs_gen :: "'a::len word \<Rightarrow> int" where
  "ffs_gen x = (case find (bit x) [0..<LENGTH('a)] of None \<Rightarrow> 0 | Some i \<Rightarrow> int i + 1)"

definition ffs' :: "u32 \<Rightarrow> int" where
  "ffs' x = ffs_gen x"

definition ffsl :: "u64 \<Rightarrow> int" where
  "ffsl x = ffs_gen x"

definition ffs_m1 :: "u32 \<Rightarrow> int" where
  "ffs_m1 msk = ffs' msk - 1"

definition fls_m1 :: "u32 \<Rightarrow> int" where
  "fls_m1 msk = fls msk - 1"

definition ffsl_m1 :: "u64 \<Rightarrow> int" where
  "ffsl_m1 msk = ffsl msk - 1"

definition flsl_m1 :: "u64 \<Rightarrow> int" where
  "flsl_m1 msk = flsl msk - 1"

definition get_count_order :: "u32 \<Rightarrow> int" where
  "get_count_order count =
     (let order = fls count - 1 in if count AND (count - 1) \<noteq> 0 then order + 1 else order)"

section \<open>Searching\<close>

text \<open>
  The scanning loop that ends \<open>find_first_bit\<close> and \<open>find_next_bit\<close>, and the one that ends their
  counterparts for zero bits, with \<open>p\<close> the index of the word \<open>addr\<close> points to.
\<close>

function scan_bit :: "u64 list \<Rightarrow> nat \<Rightarrow> nat \<Rightarrow> int \<Rightarrow> int" where
  "scan_bit addr p sz b =
     (if sz \<ge> 64
      then if addr ! p = 0 then scan_bit addr (p + 1) (sz - 64) (b + 64)
           else b + ffsl_m1 (addr ! p)
      else if sz \<noteq> 0
      then let msk = (addr ! p) AND BITMAP_LAST_WORD_MASK (int sz)
           in if msk \<noteq> 0 then b + ffsl_m1 msk else b + int sz
      else b)"
  by pat_completeness auto
termination by (relation "measure (\<lambda>(_, _, sz, _). sz)") auto

function scan_zero_bit :: "u64 list \<Rightarrow> nat \<Rightarrow> nat \<Rightarrow> int \<Rightarrow> int" where
  "scan_zero_bit addr p sz b =
     (if sz \<ge> 64
      then if NOT (addr ! p) = 0 then scan_zero_bit addr (p + 1) (sz - 64) (b + 64)
           else b + ffsl_m1 (NOT (addr ! p))
      else if sz \<noteq> 0
      then let msk = NOT (addr ! p) AND BITMAP_LAST_WORD_MASK (int sz)
           in if msk \<noteq> 0 then b + ffsl_m1 msk else b + int sz
      else b)"
  by pat_completeness auto
termination by (relation "measure (\<lambda>(_, _, sz, _). sz)") auto

declare scan_bit.simps [simp del] scan_zero_bit.simps [simp del]

definition find_first_bit :: "u64 list \<Rightarrow> nat \<Rightarrow> nat" where
  "find_first_bit addr sz = nat (scan_bit addr 0 sz 0)"

definition find_first_zero_bit :: "u64 list \<Rightarrow> nat \<Rightarrow> nat" where
  "find_first_zero_bit addr sz = nat (scan_zero_bit addr 0 sz 0)"

definition find_next_bit :: "u64 list \<Rightarrow> nat \<Rightarrow> nat \<Rightarrow> nat" where
  "find_next_bit addr sz offset =
     (if offset \<ge> sz then sz
      else
        let pos = offset div 64; offs = offset mod 64; b = int (64 * pos)
        in if offs \<noteq> 0
           then let msk = (addr ! pos) AND NOT (BITMAP_LAST_WORD_MASK (int offs))
                in if msk \<noteq> 0 then nat (b + ffsl_m1 msk)
                   else if sz - nat b \<le> 64 then sz
                   else nat (scan_bit addr (pos + 1) (sz - nat (b + 64)) (b + 64))
           else nat (scan_bit addr pos (sz - nat b) b))"

definition find_next_zero_bit :: "u64 list \<Rightarrow> nat \<Rightarrow> nat \<Rightarrow> nat" where
  "find_next_zero_bit addr sz offset =
     (if offset \<ge> sz then sz
      else
        let pos = offset div 64; offs = offset mod 64; b = int (64 * pos)
        in if offs \<noteq> 0
           then let msk = NOT (addr ! pos) AND NOT (BITMAP_LAST_WORD_MASK (int offs))
                in if msk \<noteq> 0 then nat (b + ffsl_m1 msk)
                   else if sz - nat b \<le> 64 then sz
                   else nat (scan_zero_bit addr (pos + 1) (sz - nat (b + 64)) (b + 64))
           else nat (scan_zero_bit addr pos (sz - nat b) b))"

section \<open>Ranges\<close>

function bitmap_set_loop :: "u64 list \<Rightarrow> nat \<Rightarrow> int \<Rightarrow> int \<Rightarrow> u64 \<Rightarrow> int \<Rightarrow> u64 list" where
  "bitmap_set_loop m p nr bits_to_set mask_to_set sz =
     (if nr - bits_to_set \<ge> 0
      then bitmap_set_loop (m[p := (m ! p) OR mask_to_set]) (p + 1) (nr - bits_to_set) 64 (- 1) sz
      else if nr \<noteq> 0
      then m[p := (m ! p) OR (mask_to_set AND BITMAP_LAST_WORD_MASK sz)]
      else m)"
  by pat_completeness auto
termination
  by (relation "measures [\<lambda>(_, _, _, b, _). if b = 64 then 0 else 1, \<lambda>(_, _, nr, _). nat nr]") auto

function bitmap_clear_loop :: "u64 list \<Rightarrow> nat \<Rightarrow> int \<Rightarrow> int \<Rightarrow> u64 \<Rightarrow> int \<Rightarrow> u64 list" where
  "bitmap_clear_loop m p nr bits_to_clear mask_to_clear sz =
     (if nr - bits_to_clear \<ge> 0
      then bitmap_clear_loop (m[p := (m ! p) AND NOT mask_to_clear]) (p + 1) (nr - bits_to_clear)
             64 (- 1) sz
      else if nr \<noteq> 0
      then m[p := (m ! p) AND NOT (mask_to_clear AND BITMAP_LAST_WORD_MASK sz)]
      else m)"
  by pat_completeness auto
termination
  by (relation "measures [\<lambda>(_, _, _, b, _). if b = 64 then 0 else 1, \<lambda>(_, _, nr, _). nat nr]") auto

declare bitmap_set_loop.simps [simp del] bitmap_clear_loop.simps [simp del]

definition bitmap_set :: "u64 list \<Rightarrow> int \<Rightarrow> int \<Rightarrow> u64 list" where
  "bitmap_set m start nr =
     bitmap_set_loop m (nat (start div 64)) nr (64 - start mod 64)
       (BITMAP_FIRST_WORD_MASK start) (start + nr)"

definition bitmap_clear :: "u64 list \<Rightarrow> int \<Rightarrow> int \<Rightarrow> u64 list" where
  "bitmap_clear m start nr =
     bitmap_clear_loop m (nat (start div 64)) nr (64 - start mod 64)
       (BITMAP_FIRST_WORD_MASK start) (start + nr)"

section \<open>The bits of a bitmap\<close>

definition bm_bit :: "u64 list \<Rightarrow> nat \<Rightarrow> bool" where
  "bm_bit m i = bit (m ! (i div 64)) (i mod 64)"

definition least_from :: "(nat \<Rightarrow> bool) \<Rightarrow> nat \<Rightarrow> nat \<Rightarrow> nat \<Rightarrow> bool" where
  "least_from P lo hi r \<longleftrightarrow> lo \<le> r \<and> r \<le> hi \<and> (\<forall>i. lo \<le> i \<longrightarrow> i < r \<longrightarrow> \<not> P i) \<and> (r < hi \<longrightarrow> P r)"

lemma least_from_unique: "least_from P lo hi r \<Longrightarrow> least_from P lo hi r' \<Longrightarrow> r = r'"
  unfolding least_from_def by (metis le_neq_implies_less linorder_neqE_nat order.strict_trans2)

lemma least_from_skip:
  assumes "least_from P mid hi r" and "lo \<le> mid" and "\<And>i. lo \<le> i \<Longrightarrow> i < mid \<Longrightarrow> \<not> P i"
  shows "least_from P lo hi r"
  using assms unfolding least_from_def by (meson le_trans linorder_not_less)

lemma bit_last_word_mask:
  assumes "0 < n"
  shows "bit (BITMAP_LAST_WORD_MASK (int n)) i \<longleftrightarrow> i < 64 \<and> (n mod 64 = 0 \<or> i < n mod 64)"
proof -
  define c where "c = nat ((64 - int n) mod 64)"
  have lt: "n mod 64 < 64" by simp
  have "(64 - int n) mod 64 = (64 - int (n mod 64)) mod 64"
    by (simp only: of_nat_mod mod_diff_right_eq of_nat_numeral)
  also have "\<dots> = (if n mod 64 = 0 then 0 else 64 - int (n mod 64))"
    using lt by (cases "n mod 64 = 0") (simp, subst mod_pos_pos_trivial, linarith+, simp)
  finally have c: "c = (if n mod 64 = 0 then 0 else 64 - n mod 64)"
    unfolding c_def by (simp add: nat_diff_distrib)
  show ?thesis
    unfolding BITMAP_LAST_WORD_MASK_def c_def [symmetric]
    using c by (auto simp: bit_simps)
qed

lemma bit_first_word_mask:
  "bit (BITMAP_FIRST_WORD_MASK (int s)) i \<longleftrightarrow> s mod 64 \<le> i \<and> i < 64"
  by (auto simp: BITMAP_FIRST_WORD_MASK_def bit_simps nat_mod_distrib)

lemma ffsl_m1_least:
  assumes "x \<noteq> 0"
  obtains j where "ffsl_m1 x = int j" and "j < 64" and "bit x j" and "\<And>i. i < j \<Longrightarrow> \<not> bit x i"
proof -
  obtain i where i: "bit x i" using assms bit_eq_iff [of x 0] by auto
  then have "i < 64" by (auto dest: bit_imp_le_length)
  with i have "find (bit x) [0..<64] \<noteq> None" by (auto simp: find_None_iff)
  then obtain j where j: "find (bit x) [0..<64] = Some j" by blast
  then obtain k where k: "k < 64" "bit x ([0..<64] ! k)" "j = [0..<64] ! k"
    "\<And>l. l < k \<Longrightarrow> \<not> bit x ([0..<64] ! l)"
    by (auto simp: find_Some_iff)
  then have "j = k" by simp
  show ?thesis
  proof (rule that)
    show "ffsl_m1 x = int j" using j by (simp add: ffsl_m1_def ffsl_def ffs_gen_def)
    show "j < 64" "bit x j" using k by simp_all
    show "\<not> bit x i" if "i < j" for i using k(4) [of i] that k(1) \<open>j = k\<close> by simp
  qed
qed

lemma bm_bit_word: "i < 64 \<Longrightarrow> bm_bit m (64 * p + i) = bit (m ! p) i"
  by (simp add: bm_bit_def)

lemma scan_bit_least:
  "\<exists>r. scan_bit m p sz (int (64 * p)) = int r \<and> least_from (bm_bit m) (64 * p) (64 * p + sz) r"
proof (induction sz arbitrary: p rule: less_induct)
  case (less sz)
  show ?case
  proof (cases "64 \<le> sz")
    case True
    show ?thesis
    proof (cases "m ! p = 0")
      case zero: True
      have "\<not> bm_bit m i" if "64 * p \<le> i" "i < 64 * (p + 1)" for i
        using that bm_bit_word [of "i - 64 * p" m p] zero by simp
      moreover from less.IH [of "sz - 64" "p + 1"] True
      obtain r where "scan_bit m (p + 1) (sz - 64) (int (64 * (p + 1))) = int r"
        "least_from (bm_bit m) (64 * (p + 1)) (64 * p + sz) r"
        by auto
      moreover have "scan_bit m p sz (int (64 * p)) =
          scan_bit m (p + 1) (sz - 64) (int (64 * (p + 1)))"
        using True zero by (subst scan_bit.simps) (simp add: algebra_simps)
      ultimately show ?thesis
        using least_from_skip [of "bm_bit m" "64 * (p + 1)" "64 * p + sz" r "64 * p"] by simp
    next
      case False
      then obtain j where j: "ffsl_m1 (m ! p) = int j" "j < 64" "bit (m ! p) j"
        "\<And>i. i < j \<Longrightarrow> \<not> bit (m ! p) i" by (rule ffsl_m1_least) blast
      then have "least_from (bm_bit m) (64 * p) (64 * p + sz) (64 * p + j)"
        using True bm_bit_word [of _ m p] unfolding least_from_def
        by (auto dest!: le_Suc_ex)
      then show ?thesis using True False j(1) scan_bit.simps [of m p sz]
        by (auto intro!: exI [of _ "64 * p + j"])
    qed
  next
    case False
    show ?thesis
    proof (cases "sz = 0")
      case True
      then show ?thesis
        by (intro exI [of _ "64 * p"]) (simp add: scan_bit.simps [of m p 0] least_from_def)
    next
      case pos: False
      let ?msk = "(m ! p) AND BITMAP_LAST_WORD_MASK (int sz)"
      have b: "bit ?msk i \<longleftrightarrow> i < sz \<and> bm_bit m (64 * p + i)" for i
        using pos False bm_bit_word [of i m p] by (auto simp: bit_and_iff bit_last_word_mask)
      show ?thesis
      proof (cases "?msk = 0")
        case True
        then have "\<not> bm_bit m (64 * p + i)" if "i < sz" for i using b [of i] that by simp
        then have "least_from (bm_bit m) (64 * p) (64 * p + sz) (64 * p + sz)"
          unfolding least_from_def by (auto dest!: le_Suc_ex)
        then show ?thesis using True False pos scan_bit.simps [of m p sz]
          by (auto intro!: exI [of _ "64 * p + sz"])
      next
        case nz: False
        then obtain j where j: "ffsl_m1 ?msk = int j" "bit ?msk j" "\<And>i. i < j \<Longrightarrow> \<not> bit ?msk i"
          by (rule ffsl_m1_least) blast
        then have "least_from (bm_bit m) (64 * p) (64 * p + sz) (64 * p + j)"
          using b unfolding least_from_def by (auto dest!: le_Suc_ex)
        then show ?thesis using nz False pos j(1) scan_bit.simps [of m p sz]
          by (auto intro!: exI [of _ "64 * p + j"])
      qed
    qed
  qed
qed

text \<open>
  What the searches promise: the first set position from \<open>lo\<close> on when there is one below
  \<open>hi\<close>, and otherwise a position that is not below \<open>hi\<close> (it may exceed it by less than a
  word, when the word that \<open>hi\<close> cuts has a bit set beyond it).
\<close>

definition next_from :: "(nat \<Rightarrow> bool) \<Rightarrow> nat \<Rightarrow> nat \<Rightarrow> nat \<Rightarrow> bool" where
  "next_from P lo hi r \<longleftrightarrow>
     (\<forall>i. lo \<le> i \<longrightarrow> i < r \<longrightarrow> i < hi \<longrightarrow> \<not> P i) \<and> (r < hi \<longrightarrow> lo \<le> r \<and> P r) \<and>
     r < hi + 64 \<and> (lo \<le> hi \<longrightarrow> lo \<le> r)"

lemma next_fromD:
  assumes "next_from P lo hi r"
  shows "r < hi \<Longrightarrow> P r" and "r < hi \<Longrightarrow> lo \<le> r" and "lo \<le> i \<Longrightarrow> i < r \<Longrightarrow> i < hi \<Longrightarrow> \<not> P i"
    and "hi \<le> r \<Longrightarrow> lo \<le> i \<Longrightarrow> i < hi \<Longrightarrow> \<not> P i" and "r < hi + 64" and "lo \<le> hi \<Longrightarrow> lo \<le> r"
  using assms by (auto simp: next_from_def)

lemma least_imp_next: "least_from P lo hi r \<Longrightarrow> next_from P lo hi r"
  by (auto simp: least_from_def next_from_def)

lemma next_from_skip:
  assumes "next_from P mid hi r" and "lo \<le> mid" and "mid \<le> hi"
    and "\<And>i. lo \<le> i \<Longrightarrow> i < mid \<Longrightarrow> i < hi \<Longrightarrow> \<not> P i"
  shows "next_from P lo hi r"
  using assms unfolding next_from_def by (meson le_trans linorder_not_less)

lemma scan_bit_next: "next_from (bm_bit m) (64 * p) (64 * p + sz) (nat (scan_bit m p sz (int (64 * p))))"
  using scan_bit_least [of m p sz] least_imp_next by fastforce

theorem find_next_bit_next: "next_from (bm_bit m) offset sz (find_next_bit m sz offset)"
proof (cases "offset < sz")
  case False
  then show ?thesis by (simp add: find_next_bit_def next_from_def)
next
  case lt: True
  define p where "p = offset div 64"
  define j where "j = offset mod 64"
  have off: "offset = 64 * p + j" "j < 64" by (simp_all add: p_def j_def)
  show ?thesis
  proof (cases "j = 0")
    case True
    with lt off have "find_next_bit m sz offset = nat (scan_bit m p (sz - 64 * p) (int (64 * p)))"
      by (simp add: find_next_bit_def Let_def p_def [symmetric] nat_mult_distrib)
    with scan_bit_next [of m p "sz - 64 * p"] True lt off show ?thesis by simp
  next
    case False
    let ?msk = "(m ! p) AND NOT (BITMAP_LAST_WORD_MASK (int j))"
    have b: "bit ?msk i \<longleftrightarrow> j \<le> i \<and> i < 64 \<and> bm_bit m (64 * p + i)" for i
      using False off(2) bm_bit_word [of i m p] bit_imp_le_length [of "m ! p" i]
      by (auto simp: bit_and_iff bit_not_iff bit_last_word_mask)
    have run: "find_next_bit m sz offset =
      (if ?msk \<noteq> 0 then nat (int (64 * p) + ffsl_m1 ?msk) else if sz - 64 * p \<le> 64 then sz
       else nat (scan_bit m (p + 1) (sz - 64 * (p + 1)) (int (64 * (p + 1)))))"
      using False lt
      by (simp add: find_next_bit_def Let_def p_def [symmetric] j_def [symmetric] nat_mult_distrib
          nat_add_distrib algebra_simps)
    show ?thesis
    proof (cases "?msk = 0")
      case True
      have "\<not> bm_bit m i" if "offset \<le> i" "i < 64 * (p + 1)" for i
        using b [of "i - 64 * p"] True that off by simp
      note none = this
      show ?thesis
      proof (cases "sz - 64 * p \<le> 64")
        case True
        then have "find_next_bit m sz offset = sz" using run \<open>?msk = 0\<close> by simp
        then show ?thesis using none True lt by (simp add: next_from_def)
      next
        case False
        then have r: "find_next_bit m sz offset =
            nat (scan_bit m (p + 1) (sz - 64 * (p + 1)) (int (64 * (p + 1))))"
          using run \<open>?msk = 0\<close> by simp
        have "64 * (p + 1) + (sz - 64 * (p + 1)) = sz" using False by simp
        with scan_bit_next [of m "p + 1" "sz - 64 * (p + 1)"]
        have "next_from (bm_bit m) (64 * (p + 1)) sz (find_next_bit m sz offset)"
          unfolding r by simp
        then show ?thesis by (rule next_from_skip) (use none off False in auto)
      qed
    next
      case nz: False
      then obtain i where i: "ffsl_m1 ?msk = int i" "bit ?msk i" "\<And>k. k < i \<Longrightarrow> \<not> bit ?msk k"
        by (rule ffsl_m1_least) blast
      then have r: "find_next_bit m sz offset = 64 * p + i"
        using run nz by (simp add: nat_add_distrib nat_mult_distrib)
      have "\<not> bm_bit m k" if "offset \<le> k" "k < 64 * p + i" for k
        using i(3) [of "k - 64 * p"] b [of "k - 64 * p"] b [of i] i(2) that off by auto
      then show ?thesis
        using i(2) b [of i] off lt unfolding r next_from_def by simp
    qed
  qed
qed

lemma scan_zero_bit_eq:
  "64 * p + sz \<le> 64 * length m \<Longrightarrow> scan_zero_bit m p sz b = scan_bit (map NOT m) p sz b"
proof (induction m p sz b rule: scan_zero_bit.induct)
  case (1 addr p sz b)
  have "p < length addr" if "sz \<noteq> 0" using 1(2) that by simp
  then show ?case using 1
    by (subst scan_zero_bit.simps, subst scan_bit.simps) (auto simp: Let_def)
qed

theorem find_next_zero_bit_next:
  assumes "sz \<le> 64 * length m"
  shows "next_from (\<lambda>i. \<not> bm_bit m i) offset sz (find_next_zero_bit m sz offset)"
proof -
  have "find_next_zero_bit m sz offset = find_next_bit (map NOT m) sz offset"
  proof (cases "offset < sz")
    case True
    have "offset div 64 < length m" using True assms by (simp add: less_mult_imp_div_less)
    then show ?thesis
      using scan_zero_bit_eq [of "offset div 64" "sz - 64 * (offset div 64)" m]
        scan_zero_bit_eq [of "offset div 64 + 1" "sz - 64 * (offset div 64 + 1)" m] assms True
      by (auto simp: find_next_zero_bit_def find_next_bit_def Let_def nat_mult_distrib
          nat_add_distrib add.commute)
  qed (simp add: find_next_zero_bit_def find_next_bit_def)
  moreover have "bm_bit (map NOT m) i = (\<not> bm_bit m i)" if "i < sz" for i
    using that assms by (auto simp: bm_bit_def bit_not_iff)
  ultimately show ?thesis using find_next_bit_next [of "map NOT m" offset sz]
    by (simp add: next_from_def)
qed

section \<open>Setting and clearing ranges\<close>

lemma bm_bit_update:
  assumes "p < length m"
  shows "bm_bit (m[p := w]) i = (if i div 64 = p then bit w (i mod 64) else bm_bit m i)"
  using assms by (simp add: bm_bit_def nth_list_update)

lemma bm_bit_update_word:
  "p < length m \<Longrightarrow> j < 64 \<Longrightarrow>
     bm_bit (m[p := w]) (64 * q + j) = (if q = p then bit w j else bm_bit m (64 * q + j))"
  by (simp add: bm_bit_def nth_list_update)

lemma bit_index_cases:
  fixes i p :: nat
  obtains j where "i = 64 * p + j" "j < 64" | q j where "i = 64 * q + j" "j < 64" "q < p"
  | q j where "i = 64 * q + j" "j < 64" "p < q"
  by (metis div_mod_decomp linorder_neqE_nat mod_less_divisor mult.commute zero_less_numeral)

lemma bitmap_set_loop_bits:
  assumes "bits \<le> 64" and "0 < bits" and "\<And>j. bit msk j \<longleftrightarrow> 64 - bits \<le> j \<and> j < 64"
    and "sz = 64 * p + (64 - bits) + nr" and "sz \<le> 64 * length m"
  shows "length (bitmap_set_loop m p (int nr) (int bits) msk (int sz)) = length m \<and>
    (\<forall>i. bm_bit (bitmap_set_loop m p (int nr) (int bits) msk (int sz)) i \<longleftrightarrow>
      bm_bit m i \<or> 64 * p + (64 - bits) \<le> i \<and> i < sz)"
  using assms
proof (induction nr arbitrary: m p bits msk rule: less_induct)
  case (less nr)
  show ?case
  proof (cases "bits \<le> nr")
    case True
    let ?m = "m[p := (m ! p) OR msk]"
    have p: "p < length m" using less.prems True by simp
    have step: "bitmap_set_loop m p (int nr) (int bits) msk (int sz) =
        bitmap_set_loop ?m (p + 1) (int (nr - bits)) (int 64) (- 1) (int sz)"
      using True by (subst bitmap_set_loop.simps) (simp add: of_nat_diff)
    have b: "bm_bit ?m i \<longleftrightarrow> bm_bit m i \<or> 64 * p + (64 - bits) \<le> i \<and> i < 64 * (p + 1)" for i
      using p less.prems(3) bm_bit_word [of _ m p]
      by (cases rule: bit_index_cases [of i p]) (auto simp: bm_bit_update_word bit_or_iff)
    have "length (bitmap_set_loop ?m (p + 1) (int (nr - bits)) (int 64) (- 1) (int sz)) = length ?m \<and>
      (\<forall>i. bm_bit (bitmap_set_loop ?m (p + 1) (int (nr - bits)) (int 64) (- 1) (int sz)) i \<longleftrightarrow>
        bm_bit ?m i \<or> 64 * (p + 1) + (64 - 64) \<le> i \<and> i < sz)"
      using less.prems True by (intro less.IH) (auto simp: bit_simps)
    then show ?thesis unfolding step b using less.prems True by auto
  next
    case False
    show ?thesis
    proof (cases "nr = 0")
      case True
      with False have "bitmap_set_loop m p (int nr) (int bits) msk (int sz) = m"
        by (subst bitmap_set_loop.simps) simp
      with True less.prems(4) show ?thesis by auto
    next
      case pos: False
      have p: "p < length m" using less.prems pos False by simp
      have step: "bitmap_set_loop m p (int nr) (int bits) msk (int sz) =
          m[p := (m ! p) OR (msk AND BITMAP_LAST_WORD_MASK (int sz))]"
        using False pos by (subst bitmap_set_loop.simps) simp
      have r: "64 - bits + nr < 64" using False less.prems(1,2) by linarith
      have "sz = 64 * p + (64 - bits + nr)" using less.prems(4) by simp
      then have sz: "0 < sz" "sz mod 64 = 64 - bits + nr" using r pos by simp_all
      have "bm_bit (m[p := (m ! p) OR (msk AND BITMAP_LAST_WORD_MASK (int sz))]) i \<longleftrightarrow>
        bm_bit m i \<or> 64 * p + (64 - bits) \<le> i \<and> i < sz" for i
      proof -
        have last: "bit (BITMAP_LAST_WORD_MASK (int sz)) j \<longleftrightarrow> j < 64 - bits + nr" for j
          using bit_last_word_mask [OF sz(1), of j] sz(2) pos r by auto
        have "sz = 64 * p + (64 - bits + nr)" using less.prems(4) by simp
        then show ?thesis
          using p less.prems(3) last r bm_bit_word [of _ m p]
          by (cases rule: bit_index_cases [of i p])
            (auto simp: bm_bit_update_word bit_or_iff bit_and_iff simp del: of_nat_add)
      qed
      then show ?thesis unfolding step by simp
    qed
  qed
qed

theorem bitmap_set_bits:
  assumes "start + nr \<le> 64 * length m"
  shows "length (bitmap_set m (int start) (int nr)) = length m"
    and "bm_bit (bitmap_set m (int start) (int nr)) i \<longleftrightarrow> bm_bit m i \<or> start \<le> i \<and> i < start + nr"
proof -
  have *: "bitmap_set m (int start) (int nr) =
      bitmap_set_loop m (start div 64) (int nr) (int (64 - start mod 64))
        (BITMAP_FIRST_WORD_MASK (int start)) (int (start + nr))"
    by (simp add: bitmap_set_def nat_div_distrib of_nat_diff zmod_int)
  have at: "64 * (start div 64) + (64 - (64 - start mod 64)) = start" by simp
  note loop = bitmap_set_loop_bits [of "64 - start mod 64" "BITMAP_FIRST_WORD_MASK (int start)"
      "start + nr" "start div 64" nr m, unfolded at]
  show "length (bitmap_set m (int start) (int nr)) = length m"
    and "bm_bit (bitmap_set m (int start) (int nr)) i \<longleftrightarrow> bm_bit m i \<or> start \<le> i \<and> i < start + nr"
    unfolding * using loop assms by (simp_all add: bit_first_word_mask)
qed

lemma bitmap_clear_loop_eq:
  "bitmap_clear_loop m p nr b msk sz = map NOT (bitmap_set_loop (map NOT m) p nr b msk sz)"
proof (induction m p nr b msk sz rule: bitmap_clear_loop.induct)
  case (1 m p nr b msk sz)
  have upd: "m[p := (m ! p) AND NOT w] = map NOT ((map NOT m)[p := ((map NOT m) ! p) OR w])" for w
    by (cases "p < length m") (simp_all add: map_update list_update_beyond comp_def)
  have "map NOT (m[p := (m ! p) AND NOT w]) = (map NOT m)[p := ((map NOT m) ! p) OR w]" for w
    unfolding upd by (simp add: comp_def)
  then show ?case
    unfolding bitmap_clear_loop.simps [of m p nr b msk sz]
      bitmap_set_loop.simps [of "map NOT m" p nr b msk sz] upd
    using 1 [unfolded upd] by (simp add: comp_def)
qed

lemma bm_bit_not: "i < 64 * length m \<Longrightarrow> bm_bit (map NOT m) i \<longleftrightarrow> \<not> bm_bit m i"
  by (simp add: bm_bit_def bit_not_iff)

theorem bitmap_clear_bits:
  assumes "start + nr \<le> 64 * length m"
  shows "length (bitmap_clear m (int start) (int nr)) = length m"
    and "i < 64 * length m \<Longrightarrow>
      bm_bit (bitmap_clear m (int start) (int nr)) i \<longleftrightarrow> bm_bit m i \<and> \<not> (start \<le> i \<and> i < start + nr)"
proof -
  have *: "bitmap_clear m (int start) (int nr) = map NOT (bitmap_set (map NOT m) (int start) (int nr))"
    by (simp add: bitmap_clear_def bitmap_set_def bitmap_clear_loop_eq)
  show "length (bitmap_clear m (int start) (int nr)) = length m"
    and "i < 64 * length m \<Longrightarrow>
      bm_bit (bitmap_clear m (int start) (int nr)) i \<longleftrightarrow> bm_bit m i \<and> \<not> (start \<le> i \<and> i < start + nr)"
    unfolding * using assms bitmap_set_bits [of start nr "map NOT m"] by (simp_all add: bm_bit_not)
qed

end
