(* ===== verification/Bitmap_Regions.thy ===== *)
theory Bitmap_Regions
  imports Bitops
begin

text \<open>
  The rest of \<^verbatim>\<open>src/include/bitops.h\<close>: whole bitmaps (clearing, filling, comparing, counting), the
  last set bit, atomic updates of one bit, and the aligned regions of \<open>2 ^ order\<close> bits. The
  conventions are those of the theory \<open>Bitops\<close>.
\<close>

section \<open>Whole bitmaps\<close>

definition BITS_TO_LONGS :: "nat \<Rightarrow> nat" where
  "BITS_TO_LONGS n = (n + (64 - 1)) div 64"

text \<open>\<open>memset\<close> on the first \<open>k\<close> words of a bitmap.\<close>

definition memset_words :: "u64 list \<Rightarrow> u64 \<Rightarrow> nat \<Rightarrow> u64 list" where
  "memset_words m w k = replicate k w @ drop k m"

definition bitmap_zero :: "u64 list \<Rightarrow> nat \<Rightarrow> u64 list" where
  "bitmap_zero m sz = memset_words m 0 (BITS_TO_LONGS sz)"

definition bitmap_fill :: "u64 list \<Rightarrow> nat \<Rightarrow> u64 list" where
  "bitmap_fill m sz =
     (let m' = memset_words m (- 1) (sz div 64); tail = sz mod 64
      in if tail \<noteq> 0 then m'[sz div 64 := BITMAP_LAST_WORD_MASK (int tail)] else m')"

text \<open>The tests return at the first word that decides them.\<close>

definition bitmap_full :: "u64 list \<Rightarrow> nat \<Rightarrow> bool" where
  "bitmap_full m sz =
     (let len = sz div 64; tail = sz mod 64; msk = BITMAP_LAST_WORD_MASK (int tail)
      in list_all (\<lambda>i. m ! i = - 1) [0..<len] \<and> (tail \<noteq> 0 \<longrightarrow> m ! len AND msk = msk))"

definition bitmap_empty :: "u64 list \<Rightarrow> nat \<Rightarrow> bool" where
  "bitmap_empty m sz =
     (let len = sz div 64; tail = sz mod 64; msk = BITMAP_LAST_WORD_MASK (int tail)
      in list_all (\<lambda>i. m ! i = 0) [0..<len] \<and> (tail \<noteq> 0 \<longrightarrow> m ! len AND msk = 0))"

definition bitmap_equal :: "u64 list \<Rightarrow> u64 list \<Rightarrow> nat \<Rightarrow> bool" where
  "bitmap_equal pa pb bits =
     (let y = bits div 64; tail = bits mod 64
      in list_all (\<lambda>x. pa ! x = pb ! x) [0..<y] \<and>
         (tail \<noteq> 0 \<longrightarrow> (pa ! y XOR pb ! y) AND BITMAP_LAST_WORD_MASK (int tail) = 0))"

text \<open>\<open>for_each_set_bit\<close> as \<open>bitmap_weight\<close> uses it.\<close>

function weight_loop :: "u64 list \<Rightarrow> nat \<Rightarrow> nat \<Rightarrow> nat \<Rightarrow> nat" where
  "weight_loop m nbits b retval =
     (if b < nbits then weight_loop m nbits (find_next_bit m nbits (b + 1)) (retval + 1) else retval)"
  by pat_completeness auto
termination
proof (relation "measure (\<lambda>(m, nbits, b, _). nbits - b)", simp, goal_cases)
  case (1 m nbits b r)
  then have "b + 1 \<le> find_next_bit m nbits (b + 1)" by (intro next_fromD(6) [OF find_next_bit_next]) simp
  with 1 show ?case by simp
qed

declare weight_loop.simps [simp del]

definition bitmap_weight :: "u64 list \<Rightarrow> nat \<Rightarrow> nat" where
  "bitmap_weight m nbits = weight_loop m nbits (find_first_bit m nbits) 0"

text \<open>
  \<open>find_last_bit\<close>: \<open>garbage\<close> is the value of the variable \<open>mask\<close> when no last partial word sets it;
  the result is \<open>None\<close> when the word before the bitmap is read.
\<close>

fun last_loop :: "u64 list \<Rightarrow> nat \<Rightarrow> int \<Rightarrow> u64 \<Rightarrow> nat \<Rightarrow> int option" where
  "last_loop m 0 b msk sz = None"
| "last_loop m (Suc 0) b msk sz = Some (int sz)"
| "last_loop m (Suc (Suc pos)) b msk sz =
     (if m ! Suc pos \<noteq> 0 then Some (b - 64 + flsl_m1 msk) else last_loop m (Suc pos) (b - 64) msk sz)"

definition find_last_bit :: "u64 \<Rightarrow> u64 list \<Rightarrow> nat \<Rightarrow> int option" where
  "find_last_bit garbage m sz =
     (let pos = sz div 64; offs = sz mod 64; b = int (64 * pos);
          msk = (if offs \<noteq> 0 then (m ! pos) AND BITMAP_LAST_WORD_MASK (int offs) else garbage)
      in if offs \<noteq> 0 \<and> msk \<noteq> 0 then Some (b + flsl_m1 msk) else last_loop m pos b msk sz)"

section \<open>Atomic updates of one bit\<close>

definition atomic_cmpset_long :: "u64 \<Rightarrow> u64 \<Rightarrow> u64 \<Rightarrow> u64 \<times> bool" where
  "atomic_cmpset_long dst expect src = (if dst = expect then (src, True) else (dst, False))"

text \<open>
  The loop that retries until the compare-and-set succeeds. The list has, per iteration, what other
  processors do to the word between the load and the compare-and-set; they are quiet once it ends.
\<close>

fun cmpset_loop :: "(u64 \<Rightarrow> u64) \<Rightarrow> u64 \<Rightarrow> (u64 \<Rightarrow> u64) list \<Rightarrow> u64 \<times> u64" where
  "cmpset_loop upd var [] = (fst (atomic_cmpset_long var var (upd var)), var)"
| "cmpset_loop upd var (other # others) =
     (let val = var; (var', res) = atomic_cmpset_long (other var) val (upd val)
      in if res then (var', val) else cmpset_loop upd var' others)"

definition test_and_clear_bit :: "nat \<Rightarrow> u64 list \<Rightarrow> (u64 \<Rightarrow> u64) list \<Rightarrow> u64 list \<times> bool" where
  "test_and_clear_bit b m others =
     (let p = b div 64; msk = push_bit (b mod 64) 1;
          (new, val) = cmpset_loop (\<lambda>val. val AND NOT msk) (m ! p) others
      in (m[p := new], val AND msk \<noteq> 0))"

definition test_and_set_bit :: "nat \<Rightarrow> u64 list \<Rightarrow> (u64 \<Rightarrow> u64) list \<Rightarrow> u64 list \<times> bool" where
  "test_and_set_bit b m others =
     (let p = b div 64; msk = push_bit (b mod 64) 1;
          (new, val) = cmpset_loop (\<lambda>val. val OR msk) (m ! p) others
      in (m[p := new], val AND msk \<noteq> 0))"

section \<open>Regions\<close>

datatype reg_kind = REG_OP_ISFREE | REG_OP_ALLOC | REG_OP_RELEASE

definition reg_mask :: "nat \<Rightarrow> nat \<Rightarrow> u64" where
  "reg_mask pos order =
     (let nbitsinlong = min (2 ^ order) 64; msk = push_bit (nbitsinlong - 1) 1
      in push_bit (pos - (pos div 64) * 64) (msk + (msk - 1)))"

definition reg_op :: "u64 list \<Rightarrow> nat \<Rightarrow> nat \<Rightarrow> reg_kind \<Rightarrow> u64 list \<times> int" where
  "reg_op m pos order k =
     (let index = pos div 64; nlongs_reg = BITS_TO_LONGS (2 ^ order); msk = reg_mask pos order
      in case k of
           REG_OP_ISFREE \<Rightarrow> (m, if list_all (\<lambda>i. m ! (index + i) AND msk = 0) [0..<nlongs_reg] then 1 else 0)
         | REG_OP_ALLOC \<Rightarrow> (fold (\<lambda>i m. m[index + i := m ! (index + i) OR msk]) [0..<nlongs_reg] m, 0)
         | REG_OP_RELEASE \<Rightarrow> (fold (\<lambda>i m. m[index + i := m ! (index + i) AND NOT msk]) [0..<nlongs_reg] m, 0))"

definition ENOMEM' :: int where "ENOMEM' = 12"
definition EBUSY' :: int where "EBUSY' = 16"

text \<open>
  Positions and \<open>1 << order\<close> are of type \<open>int\<close> in the code; numbers are unbounded here, so that orders from 31 on, where
  the shift is undefined in C, are outside of what the model says of the code.
\<close>

function region_loop :: "u64 list \<Rightarrow> nat \<Rightarrow> nat \<Rightarrow> nat \<Rightarrow> u64 list \<times> int" where
  "region_loop m pos bits order =
     (let e = pos + 2 ^ order
      in if e \<le> bits
         then if snd (reg_op m pos order REG_OP_ISFREE) = 0 then region_loop m e bits order
              else (fst (reg_op m pos order REG_OP_ALLOC), int pos)
         else (m, - ENOMEM'))"
  by pat_completeness auto
termination
proof (relation "measure (\<lambda>(_, pos, bits, _). bits - pos)", simp, goal_cases)
  case (1 m pos bits order e)
  moreover have "0 < (2::nat) ^ order" by simp
  ultimately have "bits - e < bits - pos" by linarith
  then show ?case by simp
qed

declare region_loop.simps [simp del]

definition bitmap_find_free_region :: "u64 list \<Rightarrow> nat \<Rightarrow> nat \<Rightarrow> u64 list \<times> int" where
  "bitmap_find_free_region m bits order = region_loop m 0 bits order"

definition bitmap_allocate_region :: "u64 list \<Rightarrow> nat \<Rightarrow> nat \<Rightarrow> u64 list \<times> int" where
  "bitmap_allocate_region m pos order =
     (if snd (reg_op m pos order REG_OP_ISFREE) = 0 then (m, - EBUSY')
      else (fst (reg_op m pos order REG_OP_ALLOC), 0))"

definition bitmap_release_region :: "u64 list \<Rightarrow> nat \<Rightarrow> nat \<Rightarrow> u64 list" where
  "bitmap_release_region m pos order = fst (reg_op m pos order REG_OP_RELEASE)"

section \<open>Whole bitmaps: proofs\<close>

lemma word_eqI64: "(\<And>i. i < 64 \<Longrightarrow> bit (w :: u64) i = bit v i) \<Longrightarrow> w = v"
  by (rule bit_word_eqI) simp

lemma div_mod_64: "64 * (n div 64) + n mod 64 = n \<and> n mod 64 < 64" for n :: nat
  by simp

lemma all_below_words:
  "(\<forall>i < sz. P i) \<longleftrightarrow> (\<forall>p < sz div 64. \<forall>j < 64. P (64 * p + j)) \<and> (\<forall>j < sz mod 64. P (64 * (sz div 64) + j))" for sz :: nat
proof safe
  fix i assume a: "\<forall>p < sz div 64. \<forall>j<64. P (64 * p + j)" "\<forall>j < sz mod 64. P (64 * (sz div 64) + j)" "i < sz"
  have i: "64 * (i div 64) + i mod 64 = i" "i mod 64 < 64" by simp_all
  show "P i"
  proof (cases "i div 64 < sz div 64")
    case True
    with a(1) i show ?thesis by metis
  next
    case False
    with a(3) have "i div 64 = sz div 64" by (simp add: div_le_mono le_antisym)
    moreover from this a(3) i(1) have "i mod 64 < sz mod 64" by (metis add_less_cancel_left mult_div_mod_eq)
    ultimately show ?thesis using a(2) i(1) by metis
  qed
next
  fix p j :: nat assume a: "\<forall>i < sz. P i" and pj: "p < sz div 64" "j < 64"
  from pj div_mod_64 [of sz] have "64 * p + j < sz" by linarith
  with a show "P (64 * p + j)" by blast
next
  fix j :: nat assume a: "\<forall>i < sz. P i" and j: "j < sz mod 64"
  from j div_mod_64 [of sz] have "64 * (sz div 64) + j < sz" by linarith
  with a show "P (64 * (sz div 64) + j)" by blast
qed

lemma bit_tail_mask: "0 < t \<Longrightarrow> t < 64 \<Longrightarrow> bit (BITMAP_LAST_WORD_MASK (int t)) j \<longleftrightarrow> j < t"
  by (auto simp: bit_last_word_mask)

text \<open>What a test of all the words and of the last partial word says about the bits.\<close>

lemma words_all:
  assumes "\<And>p. w p = v \<longleftrightarrow> (\<forall>j < 64. P (64 * p + j))" and "\<And>p t. 0 < t \<Longrightarrow> t < 64 \<Longrightarrow> T p t \<longleftrightarrow> (\<forall>j < t. P (64 * p + j))"
  shows "list_all (\<lambda>i. w i = v) [0..<sz div 64] \<and> (sz mod 64 \<noteq> 0 \<longrightarrow> T (sz div 64) (sz mod 64)) \<longleftrightarrow> (\<forall>i < sz. P i)"
  unfolding all_below_words [of sz P] list_all_iff using assms(2) [of "sz mod 64" "sz div 64"] by (auto simp: assms(1))

lemma bitmap_full_exact: "bitmap_full m sz \<longleftrightarrow> (\<forall>i < sz. bm_bit m i)"
proof -
  have "m ! p = - 1 \<longleftrightarrow> (\<forall>j < 64. bm_bit m (64 * p + j))" for p
    by (auto simp: bm_bit_word intro!: word_eqI64)
  moreover have "m ! p AND BITMAP_LAST_WORD_MASK (int t) = BITMAP_LAST_WORD_MASK (int t) \<longleftrightarrow>
      (\<forall>j < t. bm_bit m (64 * p + j))" if t: "0 < t" "t < 64" for p t
  proof -
    have "m ! p AND BITMAP_LAST_WORD_MASK (int t) = BITMAP_LAST_WORD_MASK (int t) \<longleftrightarrow> (\<forall>j < t. bit (m ! p) j)"
      using t by (auto simp: bit_eq_iff bit_simps bit_tail_mask) (metis less_trans)+
    with t show ?thesis by (simp add: bm_bit_word)
  qed
  ultimately show ?thesis unfolding bitmap_full_def Let_def by (rule words_all)
qed

lemma bitmap_empty_exact: "bitmap_empty m sz \<longleftrightarrow> (\<forall>i < sz. \<not> bm_bit m i)"
proof -
  have "m ! p = 0 \<longleftrightarrow> (\<forall>j < 64. \<not> bm_bit m (64 * p + j))" for p
    by (auto simp: bm_bit_word intro!: word_eqI64)
  moreover have "m ! p AND BITMAP_LAST_WORD_MASK (int t) = 0 \<longleftrightarrow> (\<forall>j < t. \<not> bm_bit m (64 * p + j))"
    if t: "0 < t" "t < 64" for p t
  proof -
    have "m ! p AND BITMAP_LAST_WORD_MASK (int t) = 0 \<longleftrightarrow> (\<forall>j < t. \<not> bit (m ! p) j)"
      using t by (auto simp: bit_eq_iff bit_simps bit_tail_mask) (metis less_trans)+
    with t show ?thesis by (simp add: bm_bit_word)
  qed
  ultimately show ?thesis unfolding bitmap_empty_def Let_def by (rule words_all)
qed

lemma bitmap_equal_exact: "bitmap_equal pa pb sz \<longleftrightarrow> (\<forall>i < sz. bm_bit pa i = bm_bit pb i)"
proof -
  have "(pa ! p = pb ! p) = True \<longleftrightarrow> (\<forall>j < 64. bm_bit pa (64 * p + j) = bm_bit pb (64 * p + j))" for p
    by (auto simp: bm_bit_word intro!: word_eqI64)
  moreover have "(pa ! p XOR pb ! p) AND BITMAP_LAST_WORD_MASK (int t) = 0 \<longleftrightarrow>
      (\<forall>j < t. bm_bit pa (64 * p + j) = bm_bit pb (64 * p + j))" if t: "0 < t" "t < 64" for p t
  proof -
    have "(pa ! p XOR pb ! p) AND BITMAP_LAST_WORD_MASK (int t) = 0 \<longleftrightarrow> (\<forall>j < t. bit (pa ! p) j = bit (pb ! p) j)"
      using t by (auto simp: bit_eq_iff bit_simps bit_tail_mask) (metis less_trans)+
    with t show ?thesis by (simp add: bm_bit_word)
  qed
  ultimately show ?thesis unfolding bitmap_equal_def Let_def eq_True
    using words_all [of "\<lambda>p. pa ! p = pb ! p" True "\<lambda>i. bm_bit pa i = bm_bit pb i"] by simp
qed

lemma weight_loop_exact:
  "nbits \<le> b \<or> bm_bit m b \<Longrightarrow> weight_loop m nbits b r = r + card {i. b \<le> i \<and> i < nbits \<and> bm_bit m i}"
proof (induction m nbits b r rule: weight_loop.induct)
  case (1 m nbits b r)
  show ?case
  proof (cases "b < nbits")
    case True
    define b' where "b' = find_next_bit m nbits (b + 1)"
    note n = next_fromD [OF find_next_bit_next [of m "b + 1" nbits], folded b'_def]
    have gap: "\<not> bm_bit m i" if "b < i" "i < b'" "i < nbits" for i using n(3) [of i] that by simp
    have le: "b < b'" using n(6) True by simp
    have "i \<ge> b' \<or> i = b" if "b \<le> i" "i < nbits" "bm_bit m i" for i
      using gap [of i] that by (cases "i = b") (auto simp: not_less [symmetric])
    then have "{i. b \<le> i \<and> i < nbits \<and> bm_bit m i} = insert b {i. b' \<le> i \<and> i < nbits \<and> bm_bit m i}"
      using True 1(2) le by auto
    moreover have "nbits \<le> b' \<or> bm_bit m b'" using n(1) by force
    moreover have "weight_loop m nbits b r = weight_loop m nbits b' (r + 1)"
      unfolding b'_def using True by (subst weight_loop.simps) simp
    ultimately show ?thesis using 1(1) [OF True, folded b'_def] le by simp
  next
    case False
    then show ?thesis by (simp add: weight_loop.simps [of m nbits b])
  qed
qed

lemma find_first_bit_least: "least_from (bm_bit m) 0 sz (find_first_bit m sz)"
  using scan_bit_least [of m 0 sz] by (auto simp: find_first_bit_def)

lemma bitmap_weight_exact: "bitmap_weight m nbits = card {i. i < nbits \<and> bm_bit m i}"
proof -
  define b where "b = find_first_bit m nbits"
  have b: "least_from (bm_bit m) 0 nbits b" unfolding b_def by (rule find_first_bit_least)
  then have "{i. i < nbits \<and> bm_bit m i} = {i. b \<le> i \<and> i < nbits \<and> bm_bit m i}"
    unfolding least_from_def by (auto simp: not_less [symmetric])
  moreover have "nbits \<le> b \<or> bm_bit m b" using b unfolding least_from_def by force
  ultimately show ?thesis using weight_loop_exact [of nbits b m 0] by (simp add: bitmap_weight_def b_def)
qed

lemma length_memset_words: "k \<le> length m \<Longrightarrow> length (memset_words m w k) = length m"
  by (simp add: memset_words_def)

lemma bm_bit_memset:
  "k \<le> length m \<Longrightarrow> bm_bit (memset_words m w k) i = (if i div 64 < k then bit w (i mod 64) else bm_bit m i)"
  by (simp add: memset_words_def bm_bit_def nth_append)

lemma bitmap_zero_bits:
  assumes "sz \<le> 64 * length m"
  shows "length (bitmap_zero m sz) = length m" and "i < sz \<Longrightarrow> \<not> bm_bit (bitmap_zero m sz) i"
    and "64 * BITS_TO_LONGS sz \<le> i \<Longrightarrow> bm_bit (bitmap_zero m sz) i = bm_bit m i"
proof -
  have k: "BITS_TO_LONGS sz \<le> length m" using assms by (simp add: BITS_TO_LONGS_def)
  show "length (bitmap_zero m sz) = length m" using k by (simp add: bitmap_zero_def length_memset_words)
  have "i div 64 < BITS_TO_LONGS sz" if "i < sz" using that div_mod_64 [of i] div_mod_64 [of "sz + 63"] unfolding BITS_TO_LONGS_def by linarith
  then show "\<not> bm_bit (bitmap_zero m sz) i" if "i < sz" using that k by (simp add: bitmap_zero_def bm_bit_memset)
  have "\<not> i div 64 < BITS_TO_LONGS sz" if "64 * BITS_TO_LONGS sz \<le> i" using that div_mod_64 [of i] by linarith
  then show "bm_bit (bitmap_zero m sz) i = bm_bit m i" if "64 * BITS_TO_LONGS sz \<le> i"
    using that k by (simp add: bitmap_zero_def bm_bit_memset)
qed

lemma bitmap_fill_bits:
  assumes "sz \<le> 64 * length m"
  shows "length (bitmap_fill m sz) = length m" and "i < sz \<Longrightarrow> bm_bit (bitmap_fill m sz) i"
proof -
  have k: "sz div 64 \<le> length m" using assms by (simp add: div_le_mono)
  show "length (bitmap_fill m sz) = length m" using k by (simp add: bitmap_fill_def Let_def length_memset_words)
  show "bm_bit (bitmap_fill m sz) i" if i: "i < sz"
  proof (cases "sz mod 64 = 0")
    case True
    then have "i div 64 < sz div 64" using i div_mod_64 [of i] div_mod_64 [of sz] by linarith
    then show ?thesis using k True by (simp add: bitmap_fill_def bm_bit_memset)
  next
    case False
    then have l: "sz div 64 < length (memset_words m (- 1) (sz div 64))"
      unfolding length_memset_words [OF k] using assms div_mod_64 [of sz] by linarith
    have "i div 64 < sz div 64 \<or> i div 64 = sz div 64 \<and> i mod 64 < sz mod 64"
      using i div_mod_64 [of i] div_mod_64 [of sz] by linarith
    then show ?thesis using l k False
      by (auto simp: bitmap_fill_def bm_bit_update bm_bit_memset bit_tail_mask)
  qed
qed

lemma cmpset_loop_atomic:
  "\<exists>old. cmpset_loop upd var others = (upd old, old) \<and> (others = [] \<longrightarrow> old = var)"
proof (induction others arbitrary: var)
  case (Cons f fs)
  show ?case
  proof (cases "f var = var")
    case False
    with Cons.IH [of "f var"] show ?thesis by (auto simp: atomic_cmpset_long_def)
  qed (simp add: atomic_cmpset_long_def)
qed (simp add: atomic_cmpset_long_def)

lemma bit_and_single: "(w :: u64) AND push_bit j 1 = 0 \<longleftrightarrow> \<not> bit w j"
  by (simp add: push_bit_eq_mult and_exp_eq_0_iff_not_bit)

lemma bit_single: "j < 64 \<Longrightarrow> bit (2 ^ i :: u64) j \<longleftrightarrow> i = j"
  by (auto simp: bit_simps)

text \<open>Alone, the atomic updates return the old value of the bit and change that bit only.\<close>

lemma test_and_bits:
  assumes "b < 64 * length m"
  shows "snd (test_and_set_bit b m []) = bm_bit m b" "snd (test_and_clear_bit b m []) = bm_bit m b"
    "bm_bit (fst (test_and_set_bit b m [])) i \<longleftrightarrow> i = b \<or> bm_bit m i"
    "bm_bit (fst (test_and_clear_bit b m [])) i \<longleftrightarrow> i \<noteq> b \<and> bm_bit m i"
proof -
  have p: "b div 64 < length m" using assms by (simp add: less_mult_imp_div_less mult.commute)
  have c: "cmpset_loop upd var [] = (upd var, var)" for upd var by (simp add: atomic_cmpset_long_def)
  have ib: "i = b \<longleftrightarrow> i div 64 = b div 64 \<and> i mod 64 = b mod 64" by (metis mult_div_mod_eq)
  have w: "bm_bit m i = bit (m ! (b div 64)) (i mod 64)" if "i div 64 = b div 64" using that by (simp add: bm_bit_def)
  show "snd (test_and_set_bit b m []) = bm_bit m b" "snd (test_and_clear_bit b m []) = bm_bit m b"
    unfolding test_and_set_bit_def test_and_clear_bit_def Let_def c case_prod_conv snd_conv bit_and_single
    by (simp_all add: bm_bit_def)
  show "bm_bit (fst (test_and_set_bit b m [])) i \<longleftrightarrow> i = b \<or> bm_bit m i"
    by (cases "i div 64 = b div 64")
      (auto simp: test_and_set_bit_def Let_def c bm_bit_update p ib w bit_or_iff bit_single simp del: cmpset_loop.simps)
  show "bm_bit (fst (test_and_clear_bit b m [])) i \<longleftrightarrow> i \<noteq> b \<and> bm_bit m i"
    by (cases "i div 64 = b div 64")
      (auto simp: test_and_clear_bit_def Let_def c bm_bit_update p ib w bit_and_iff bit_not_iff bit_single simp del: cmpset_loop.simps)
qed

section \<open>Regions: proofs\<close>

lemma low_mask: "0 < n \<Longrightarrow> push_bit (n - 1) 1 + (push_bit (n - 1) 1 - 1) = (mask n :: u64)"
  by (cases n) (simp_all add: push_bit_eq_mult mask_eq_exp_minus_1)

lemma bit_reg_mask:
  "bit (reg_mask pos order) j \<longleftrightarrow> pos mod 64 \<le> j \<and> j < pos mod 64 + min (2 ^ order) 64 \<and> j < 64"
proof -
  have "pos - pos div 64 * 64 = pos mod 64" by (simp add: minus_div_mult_eq_mod)
  then have "reg_mask pos order = push_bit (pos mod 64) (mask (min (2 ^ order) 64))"
    using low_mask [of "min (2 ^ order) 64"] by (simp add: reg_mask_def Let_def)
  then show ?thesis by (auto simp: bit_push_bit_iff bit_mask_iff)
qed

text \<open>The words and the bits in them that the loops of \<open>__reg_op\<close> visit are the bits of the region.\<close>

lemma in_word:
  fixes pos :: nat
  assumes "pos = 64 * P + x" and "i = 64 * I + y" and "y < 64" and "x + r \<le> 64"
  shows "I = P \<and> x \<le> y \<and> y < x + r \<longleftrightarrow> pos \<le> i \<and> i < pos + r"
proof
  assume "pos \<le> i \<and> i < pos + r"
  then have "64 * P + x \<le> 64 * I + y" "64 * I + y < 64 * P + x + r" using assms by simp_all
  moreover from this assms(3,4) have "I = P" by linarith
  ultimately show "I = P \<and> x \<le> y \<and> y < x + r" by simp
qed (use assms in simp)

lemma small_region:
  assumes "order < 6" and "2 ^ order dvd pos"
  shows "i div 64 = pos div 64 \<and> bit (reg_mask pos order) (i mod 64) \<longleftrightarrow> pos \<le> i \<and> i < pos + 2 ^ order"
proof -
  define r where "r = (2::nat) ^ order"
  have pow: "64 = r * 2 ^ (6 - order)" using assms(1) unfolding r_def by (simp flip: power_add)
  have "0 < r" by (simp add: r_def)
  have "r \<le> 64" unfolding pow by simp
  have "r dvd pos mod 64" using assms(2) pow by (metis dvd_mod dvd_triv_left r_def)
  then obtain q where q: "pos mod 64 = r * q" by blast
  with pow have "r * q < r * 2 ^ (6 - order)" using mod_less_divisor [of 64 pos] by simp
  then have "q + 1 \<le> 2 ^ (6 - order)" by simp
  then have "r * (q + 1) \<le> 64" unfolding pow by (rule mult_le_mono2)
  then have e: "pos mod 64 + r \<le> 64" by (simp add: q)
  have m: "bit (reg_mask pos order) (i mod 64) \<longleftrightarrow> pos mod 64 \<le> i mod 64 \<and> i mod 64 < pos mod 64 + r"
    using \<open>r \<le> 64\<close> by (simp add: bit_reg_mask r_def min_def)
  show ?thesis
    unfolding m r_def [symmetric] using in_word [OF _ _ _ e, of pos "pos div 64" i "i div 64" "i mod 64"] by simp
qed

lemma small_longs: "order < 6 \<Longrightarrow> BITS_TO_LONGS (2 ^ order) = 1"
proof -
  assume "order < 6"
  then have "(2::nat) ^ order \<le> 2 ^ 6" by (intro power_increasing) auto
  moreover have "0 < (2::nat) ^ order" by simp
  ultimately show ?thesis unfolding BITS_TO_LONGS_def by (intro div_nat_eqI) auto
qed

lemma large_region:
  assumes "6 \<le> order" and "2 ^ order dvd pos"
  shows "pos mod 64 = 0" and "BITS_TO_LONGS (2 ^ order) * 64 = 2 ^ order" and "reg_mask pos order = - 1"
proof -
  have pow: "(2::nat) ^ order = 64 * 2 ^ (order - 6)" using assms(1) power_add [of "2::nat" 6 "order - 6"] by simp
  then show p: "pos mod 64 = 0" using assms(2) by (metis dvd_eq_mod_eq_0 dvd_mult_left)
  show "BITS_TO_LONGS (2 ^ order) * 64 = 2 ^ order" unfolding pow BITS_TO_LONGS_def by simp
  have "(64::nat) \<le> 2 ^ order" unfolding pow by simp
  then show "reg_mask pos order = - 1" using p by (intro word_eqI64) (simp add: bit_reg_mask min_def)
qed

lemma region_bits:
  assumes "2 ^ order dvd pos"
  shows "(\<exists>k < BITS_TO_LONGS (2 ^ order). i div 64 = pos div 64 + k) \<and> bit (reg_mask pos order) (i mod 64) \<longleftrightarrow>
    pos \<le> i \<and> i < pos + 2 ^ order"
proof (cases "order < 6")
  case True
  with small_region [OF True assms, of i] small_longs [OF True] show ?thesis by simp
next
  case False
  then have "6 \<le> order" by simp
  note l = large_region [OF this assms]
  have "(\<exists>k < n. i div 64 = pos div 64 + k) \<longleftrightarrow> pos div 64 \<le> i div 64 \<and> i div 64 < pos div 64 + n" for n
    by (auto simp: le_iff_add)
  moreover have "pos div 64 \<le> i div 64 \<and> i div 64 < pos div 64 + n \<longleftrightarrow> pos \<le> i \<and> i < pos + n * 64" for n
    using l(1) div_mod_64 [of i] div_mod_64 [of pos] by (auto; linarith)
  ultimately show ?thesis by (simp add: l)
qed

lemma fold_words:
  assumes "index + n \<le> length m"
  shows "length (fold (\<lambda>i m. m[index + i := f (m ! (index + i))]) [0..<n] m) = length m \<and>
    (\<forall>p. fold (\<lambda>i m. m[index + i := f (m ! (index + i))]) [0..<n] m ! p =
      (if \<exists>k < n. p = index + k then f (m ! p) else m ! p))"
  using assms
proof (induction n)
  case (Suc n)
  then show ?case by (auto simp: nth_list_update less_Suc_eq)
qed simp

lemma region_words:
  assumes "2 ^ order dvd pos" and "pos + 2 ^ order \<le> 64 * length m"
  shows "pos div 64 + BITS_TO_LONGS (2 ^ order) \<le> length m"
proof (cases "order < 6")
  case True
  have "pos < 64 * length m" using assms(2) zero_less_power [of "2::nat" order] by linarith
  then show ?thesis using small_longs [OF True] div_mod_64 [of pos] by linarith
next
  case False
  then have "6 \<le> order" by simp
  from large_region [OF this assms(1)] assms(2) show ?thesis using div_mod_64 [of pos] by linarith
qed

lemma reg_op_bits:
  assumes al: "2 ^ order dvd pos" and le: "pos + 2 ^ order \<le> 64 * length m"
  shows "fst (reg_op m pos order REG_OP_ISFREE) = m"
    and "snd (reg_op m pos order REG_OP_ISFREE) = (if \<exists>i. pos \<le> i \<and> i < pos + 2 ^ order \<and> bm_bit m i then 0 else 1)"
    and "bm_bit (fst (reg_op m pos order REG_OP_ALLOC)) i \<longleftrightarrow> bm_bit m i \<or> pos \<le> i \<and> i < pos + 2 ^ order"
    and "bm_bit (fst (reg_op m pos order REG_OP_RELEASE)) i \<longleftrightarrow> bm_bit m i \<and> \<not> (pos \<le> i \<and> i < pos + 2 ^ order)"
    and "length (fst (reg_op m pos order REG_OP_ALLOC)) = length m"
    and "length (fst (reg_op m pos order REG_OP_RELEASE)) = length m"
proof -
  let ?n = "BITS_TO_LONGS (2 ^ order)" and ?w = "reg_mask pos order"
  note w = fold_words [OF region_words [OF al le]] and r = region_bits [OF al]
  show "fst (reg_op m pos order REG_OP_ISFREE) = m" by (simp add: reg_op_def)
  show "length (fst (reg_op m pos order REG_OP_ALLOC)) = length m"
    "length (fst (reg_op m pos order REG_OP_RELEASE)) = length m"
    using w [of "\<lambda>x. x OR ?w"] w [of "\<lambda>x. x AND NOT ?w"] by (simp_all add: reg_op_def Let_def)
  show "bm_bit (fst (reg_op m pos order REG_OP_ALLOC)) i \<longleftrightarrow> bm_bit m i \<or> pos \<le> i \<and> i < pos + 2 ^ order"
    using w [of "\<lambda>x. x OR ?w"] r [of i] by (simp add: reg_op_def Let_def bm_bit_def bit_or_iff) blast
  show "bm_bit (fst (reg_op m pos order REG_OP_RELEASE)) i \<longleftrightarrow> bm_bit m i \<and> \<not> (pos \<le> i \<and> i < pos + 2 ^ order)"
    using w [of "\<lambda>x. x AND NOT ?w"] r [of i]
    by (simp add: reg_op_def Let_def bm_bit_def bit_and_iff bit_not_iff) blast
  have "(\<forall>k < ?n. m ! (pos div 64 + k) AND ?w = 0) \<longleftrightarrow> \<not> (\<exists>i. pos \<le> i \<and> i < pos + 2 ^ order \<and> bm_bit m i)"
  proof
    assume a: "\<forall>k < ?n. m ! (pos div 64 + k) AND ?w = 0"
    show "\<not> (\<exists>i. pos \<le> i \<and> i < pos + 2 ^ order \<and> bm_bit m i)"
    proof
      assume "\<exists>i. pos \<le> i \<and> i < pos + 2 ^ order \<and> bm_bit m i"
      then obtain i k where i: "bm_bit m i" "bit ?w (i mod 64)" "k < ?n" "i div 64 = pos div 64 + k" using r by blast
      then have "bit (m ! (pos div 64 + k) AND ?w) (i mod 64)" by (simp add: bm_bit_def bit_and_iff)
      with a i(3) show False by simp
    qed
  next
    assume a: "\<not> (\<exists>i. pos \<le> i \<and> i < pos + 2 ^ order \<and> bm_bit m i)"
    have "\<not> bit (m ! (pos div 64 + k) AND ?w) j" if k: "k < ?n" "j < 64" for k j
    proof -
      define i where "i = 64 * (pos div 64 + k) + j"
      have i: "i div 64 = pos div 64 + k" "i mod 64 = j" using k(2) i_def mod_mult_self4 [of 64 "pos div 64 + k" j]
        by (simp_all del: mod_mult_self4)
      from a r [of i] k i show ?thesis by (auto simp: bm_bit_def bit_and_iff)
    qed
    then show "\<forall>k < ?n. m ! (pos div 64 + k) AND ?w = 0" by (auto intro!: word_eqI64)
  qed
  then show "snd (reg_op m pos order REG_OP_ISFREE) = (if \<exists>i. pos \<le> i \<and> i < pos + 2 ^ order \<and> bm_bit m i then 0 else 1)"
    by (auto simp: reg_op_def Let_def list_all_iff)
qed


text \<open>The loop of \<open>bitmap_find_free_region\<close> takes the first aligned region that is free.\<close>

definition region_free :: "u64 list \<Rightarrow> nat \<Rightarrow> nat \<Rightarrow> bool" where
  "region_free m pos order \<longleftrightarrow> (\<forall>i. pos \<le> i \<longrightarrow> i < pos + 2 ^ order \<longrightarrow> \<not> bm_bit m i)"

lemma isfree_iff:
  "2 ^ order dvd pos \<Longrightarrow> pos + 2 ^ order \<le> 64 * length m \<Longrightarrow>
    snd (reg_op m pos order REG_OP_ISFREE) = 0 \<longleftrightarrow> \<not> region_free m pos order"
  by (auto simp: reg_op_bits(2) region_free_def split: if_splits)

lemma region_loop_exact:
  assumes "bits \<le> 64 * length m" and "2 ^ order dvd pos"
  shows "(\<exists>p. region_loop m pos bits order = (fst (reg_op m p order REG_OP_ALLOC), int p) \<and> pos \<le> p \<and>
      2 ^ order dvd p \<and> p + 2 ^ order \<le> bits \<and> region_free m p order \<and>
      (\<forall>q. pos \<le> q \<longrightarrow> q < p \<longrightarrow> 2 ^ order dvd q \<longrightarrow> \<not> region_free m q order)) \<or>
    region_loop m pos bits order = (m, - ENOMEM') \<and>
      (\<forall>q. pos \<le> q \<longrightarrow> q + 2 ^ order \<le> bits \<longrightarrow> 2 ^ order dvd q \<longrightarrow> \<not> region_free m q order)"
  using assms
proof (induction m pos bits order rule: region_loop.induct)
  case (1 m pos bits order)
  have later: "q = pos \<or> pos + 2 ^ order \<le> q" if "pos \<le> q" "2 ^ order dvd q" for q
  proof (cases "q = pos")
    case False
    with that have "2 ^ order dvd q - pos" "0 < q - pos" using 1(3) by (simp_all add: dvd_diff_nat)
    then have "2 ^ order \<le> q - pos" by (rule dvd_imp_le)
    with that(1) show ?thesis by linarith
  qed simp
  show ?case
  proof (cases "pos + 2 ^ order \<le> bits")
    case True
    then have le: "pos + 2 ^ order \<le> 64 * length m" using 1(2) by simp
    show ?thesis
    proof (cases "region_free m pos order")
      case free: True
      then have "region_loop m pos bits order = (fst (reg_op m pos order REG_OP_ALLOC), int pos)"
        using True isfree_iff [OF 1(3) le] by (simp add: region_loop.simps [of m pos])
      with free True 1(3) show ?thesis by auto
    next
      case False
      then have busy: "snd (reg_op m pos order REG_OP_ISFREE) = 0" using isfree_iff [OF 1(3) le] by simp
      then have e: "region_loop m pos bits order = region_loop m (pos + 2 ^ order) bits order"
        using True by (simp add: region_loop.simps [of m pos])
      have skip: "\<not> region_free m q order" if "pos \<le> q" "2 ^ order dvd q" "\<not> pos + 2 ^ order \<le> q" for q
        using later [OF that(1,2)] that(3) False by auto
      have "2 ^ order dvd pos + 2 ^ order" using 1(3) by simp
      from 1(1) [OF refl True busy 1(2) this] show ?thesis
      proof (elim disjE exE conjE, goal_cases)
        case (1 p)
        then show ?thesis unfolding e by (intro disjI1 exI [of _ p]) (use skip in \<open>auto intro: add_leD1\<close>)
      next
        case 2
        then show ?thesis unfolding e using skip by blast
      qed
    qed
  next
    case False
    then have "region_loop m pos bits order = (m, - ENOMEM')" by (simp add: region_loop.simps [of m pos])
    with False show ?thesis by auto
  qed
qed


section \<open>What the operations compute\<close>

definition bits_of :: "u64 list \<Rightarrow> nat \<Rightarrow> nat set" where
  "bits_of m sz = {i. i < sz \<and> bm_bit m i}"

text \<open>
  C34: the word-wise tests agree with the set of the bits of a bitmap below a size, for any size:
  \<open>bitmap_full\<close> and \<open>bitmap_empty\<close> say that it is everything and nothing, \<open>bitmap_equal\<close> that two
  bitmaps have the same set, and \<open>bitmap_weight\<close> is its number of elements; bits of the last word
  beyond the size do not matter.
\<close>

theorem bitmap_queries_exact:
  "(bitmap_full m sz \<longleftrightarrow> bits_of m sz = {..<sz}) \<and> (bitmap_empty m sz \<longleftrightarrow> bits_of m sz = {}) \<and>
   (bitmap_equal m m' sz \<longleftrightarrow> bits_of m sz = bits_of m' sz) \<and> bitmap_weight m sz = card (bits_of m sz)"
  unfolding bitmap_full_exact bitmap_empty_exact bitmap_equal_exact bitmap_weight_exact bits_of_def by auto

text \<open>
  C35: \<open>bitmap_find_free_region\<close> finds a region of \<open>2 ^ order\<close> bits when there is one: the first
  free one at a multiple of its size. It sets exactly the bits of that region, and
  \<open>bitmap_release_region\<close> restores the bitmap; otherwise it returns \<open>- ENOMEM\<close> and changes nothing.
\<close>

theorem find_free_region_first:
  assumes "bits \<le> 64 * length m" and "bitmap_find_free_region m bits order = (m', r)"
  shows "if \<exists>q. 2 ^ order dvd q \<and> q + 2 ^ order \<le> bits \<and> region_free m q order
    then \<exists>p. r = int p \<and> 2 ^ order dvd p \<and> p + 2 ^ order \<le> bits \<and> region_free m p order \<and>
      (\<forall>q < p. 2 ^ order dvd q \<longrightarrow> \<not> region_free m q order) \<and>
      (\<forall>i. bm_bit m' i \<longleftrightarrow> bm_bit m i \<or> p \<le> i \<and> i < p + 2 ^ order) \<and>
      (\<forall>i. bm_bit (bitmap_release_region m' p order) i \<longleftrightarrow> bm_bit m i)
    else m' = m \<and> r = - ENOMEM'"
  using region_loop_exact [OF assms(1) dvd_0_right, of order]
proof (elim disjE exE conjE)
  fix p assume p: "region_loop m 0 bits order = (fst (reg_op m p order REG_OP_ALLOC), int p)" "2 ^ order dvd p"
    "p + 2 ^ order \<le> bits" "region_free m p order" "\<forall>q. 0 \<le> q \<longrightarrow> q < p \<longrightarrow> 2 ^ order dvd q \<longrightarrow> \<not> region_free m q order"
  then have r: "m' = fst (reg_op m p order REG_OP_ALLOC)" "r = int p"
    using assms(2) by (simp_all add: bitmap_find_free_region_def)
  have le: "p + 2 ^ order \<le> 64 * length m" using p(3) assms(1) by simp
  have m': "bm_bit m' i \<longleftrightarrow> bm_bit m i \<or> p \<le> i \<and> i < p + 2 ^ order" "length m' = length m" for i
    unfolding r(1) by (rule reg_op_bits [OF p(2) le])+
  have "bm_bit (bitmap_release_region m' p order) i \<longleftrightarrow> bm_bit m i" for i
    unfolding bitmap_release_region_def using reg_op_bits(4) [OF p(2), of m' i] le p(4) m' by (auto simp: region_free_def)
  with p r m'(1) show ?thesis by auto
next
  assume "region_loop m 0 bits order = (m, - ENOMEM')"
    "\<forall>q. 0 \<le> q \<longrightarrow> q + 2 ^ order \<le> bits \<longrightarrow> 2 ^ order dvd q \<longrightarrow> \<not> region_free m q order"
  with assms(2) show ?thesis by (auto simp: bitmap_find_free_region_def)
qed

theorem find_free_region_first_witness:
  "\<exists>m'. bitmap_find_free_region [0xff, 0] 128 4 = (m', 16) \<and> bm_bit m' 16 \<and> \<not> bm_bit m' 32"
proof -
  have e: "bitmap_find_free_region [0xff, 0] 128 4 = ([0xffff00ff, 0], 16)" by code_simp
  have b: "\<not> bm_bit [0xff, 0] 32" by code_simp
  from find_free_region_first [OF _ e] b have "bm_bit [0xffff00ff, 0] 16 \<and> \<not> bm_bit [0xffff00ff, 0] 32"
    by (auto simp: ENOMEM'_def split: if_splits)
  with e show ?thesis by blast
qed

text \<open>
  \<open>find_last_bit\<close> does not look at the first word when the size is a multiple of 64, and reads the
  word before the bitmap when the only, partial word is empty.
\<close>

lemma find_last_bit_wrong: "find_last_bit garbage [1] 64 = Some 64" "find_last_bit garbage [0] 8 = None"
  by (simp_all add: find_last_bit_def)

end
