(* ===== verification/Lthread_Sched.thy ===== *)
theory Lthread_Sched
  imports Prelude
begin

text \<open>
  The life of a thread of \<^verbatim>\<open>src/sched/lthread.c\<close> under several schedulers: creation, the first
  and later resumptions by \<open>_lthread_resume\<close>, yielding with a callback, exit and join. Several
  schedulers and the threads they run interleave freely; a scheduler works on one thread at a
  time, and the thread runs on the scheduler. The scheduler queue is the list that the queue of
  the theory \<open>Mpmc_Concurrent\<close> implements. Touching a thread whose memory has been freed ends the
  execution in the state \<open>lt_bad\<close>.

  The steps are those of the code, for any calls: a second joiner is turned away, and a call on a freed thread touches its
  memory. The executions \<open>lt_reach\<close> are those in which the program keeps to the contract of joining: a thread is joined or
  detached by at most one call, made while its memory is there and, when it is detached, not at its creation
  already. Cancellation, timed sleep and pinning are not part of this model.
\<close>

section \<open>The thread object\<close>

definition LT_ST_NEW :: nat where "LT_ST_NEW = 0"
definition LT_ST_READY :: nat where "LT_ST_READY = 1"
definition LT_ST_EXITED :: nat where "LT_ST_EXITED = 2"
definition LT_ST_BUSY :: nat where "LT_ST_BUSY = 3"
definition LT_ST_DETACH :: nat where "LT_ST_DETACH = 6"

lemmas lt_st_defs = LT_ST_NEW_def LT_ST_READY_def LT_ST_EXITED_def LT_ST_BUSY_def LT_ST_DETACH_def

definition BIT :: "nat \<Rightarrow> u32" where
  "BIT x = push_bit x 1"

definition has :: "nat \<Rightarrow> u32 \<Rightarrow> bool" where
  "has x state \<longleftrightarrow> state AND BIT x \<noteq> 0"

text \<open>
  The callback a thread leaves for its scheduler, with its argument: \<open>__scheduler_enqueue\<close> of the
  thread itself, or \<open>_lthread_unlock\<close> of the thread it joins. The code keeps the argument in
  \<open>yield_cbarg\<close>; the field of that name here is the value a thread leaves at its exit, which the
  code stores in the same place when no callback is set.
\<close>

datatype callback = Cb_none | Cb_enqueue | Cb_unlock nat

record lthread =
  attr_state :: u32
  lt_join :: "nat option"
  yield_cb :: callback
  yield_cbarg :: u64

section \<open>Threads and schedulers\<close>

text \<open>
  Where the code of a thread stands: in its function; in \<open>lthread_exit\<close> (or at the end of \<open>_exec\<close>)
  before and after taking its own lock; in \<open>lthread_join\<close> or \<open>lthread_detach2\<close>; switched away for good.
\<close>

datatype thread_pc =
    T_user
  | T_exit u64
  | T_exit_locked u64
  | T_join nat
  | T_join_test nat
  | T_join_unlock nat
  | T_join_fail nat
  | T_join_wait nat
  | T_joined nat
  | T_detach nat
  | T_got nat u64
  | T_dead u64

text \<open>How far the scheduler that works on a thread is in \<open>_lthread_resume\<close>.\<close>

datatype resume_pc =
  P_resume | P_init | P_init_locked | P_switch | P_run | P_back | P_wake | P_clear | P_unlock | P_detach

text \<open>Who has a thread: nobody yet, the queue, a scheduler, the thread it joins, nobody any more.\<close>

datatype phase = Unborn | InQ | At nat resume_pc | Parked | Gone

text \<open>
  The fields \<open>lt_own\<close> (the thread on whose behalf the lock of a thread is held) and \<open>lt_claimed\<close>
  (who joins or detaches a thread) are not in the code; no step depends on them.
\<close>

record lt_sys =
  lt_obj :: "nat \<Rightarrow> lthread"
  lt_pc :: "nat \<Rightarrow> thread_pc"
  lt_phase :: "nat \<Rightarrow> phase"
  lt_cur :: "nat \<Rightarrow> nat option"
  lt_queue :: "nat list"
  lt_freed :: "nat \<Rightarrow> bool"
  lt_own :: "nat \<Rightarrow> nat option"
  lt_claimed :: "nat \<Rightarrow> nat option"
  lt_bad :: bool

definition lt_state :: "lt_sys \<Rightarrow> nat \<Rightarrow> u32" where
  "lt_state s t = attr_state (lt_obj s t)"

definition touch :: "nat \<Rightarrow> lt_sys \<Rightarrow> lt_sys \<Rightarrow> lt_sys" where
  "touch x s s' = (if lt_freed s x then s\<lparr>lt_bad := True\<rparr> else s')"

definition set_obj :: "nat \<Rightarrow> (lthread \<Rightarrow> lthread) \<Rightarrow> lt_sys \<Rightarrow> lt_sys" where
  "set_obj t f s = s\<lparr>lt_obj := (lt_obj s)(t := f (lt_obj s t))\<rparr>"

definition goto :: "nat \<Rightarrow> thread_pc \<Rightarrow> lt_sys \<Rightarrow> lt_sys" where
  "goto t pc s = s\<lparr>lt_pc := (lt_pc s)(t := pc)\<rparr>"

definition at :: "nat \<Rightarrow> phase \<Rightarrow> lt_sys \<Rightarrow> lt_sys" where
  "at t p s = s\<lparr>lt_phase := (lt_phase s)(t := p)\<rparr>"

text \<open>\<open>_lthread_lock\<close> when its compare-and-swap succeeds (the busy bit is clear), and \<open>_lthread_unlock\<close>.\<close>

definition lthread_lock :: "nat \<Rightarrow> nat \<Rightarrow> lt_sys \<Rightarrow> lt_sys" where
  "lthread_lock who t s = (set_obj t (\<lambda>l. l\<lparr>attr_state := attr_state l OR BIT LT_ST_BUSY\<rparr>) s)
     \<lparr>lt_own := (lt_own s)(t := Some who)\<rparr>"

definition lthread_unlock :: "nat \<Rightarrow> lt_sys \<Rightarrow> lt_sys" where
  "lthread_unlock t s = (set_obj t (\<lambda>l. l\<lparr>attr_state := attr_state l AND NOT (BIT LT_ST_BUSY)\<rparr>) s)
     \<lparr>lt_own := (lt_own s)(t := None)\<rparr>"

definition scheduler_enqueue :: "nat \<Rightarrow> lt_sys \<Rightarrow> lt_sys" where
  "scheduler_enqueue t s = at t InQ (s\<lparr>lt_queue := lt_queue s @ [t]\<rparr>)"

definition lthread_free :: "nat \<Rightarrow> lt_sys \<Rightarrow> lt_sys" where
  "lthread_free t s = s\<lparr>lt_freed := (lt_freed s)(t := True)\<rparr>"

definition sched_idle :: "nat \<Rightarrow> lt_sys \<Rightarrow> lt_sys" where
  "sched_idle i s = s\<lparr>lt_cur := (lt_cur s)(i := None)\<rparr>"

section \<open>What a running thread does\<close>

definition lthread_create :: "bool \<Rightarrow> nat \<Rightarrow> lt_sys \<Rightarrow> lt_sys" where
  "lthread_create detached c s =
     scheduler_enqueue c (s\<lparr>lt_obj := (lt_obj s)(c :=
       \<lparr>attr_state = BIT LT_ST_NEW OR (if detached then BIT LT_ST_DETACH else 0), lt_join = None,
        yield_cb = Cb_none, yield_cbarg = 0\<rparr>)\<rparr>)"

definition lthread_yield_cb :: "nat \<Rightarrow> nat \<Rightarrow> callback \<Rightarrow> lt_sys \<Rightarrow> lt_sys" where
  "lthread_yield_cb i t cb s = at t (At i P_back) (set_obj t (\<lambda>l. l\<lparr>yield_cb := cb\<rparr>) s)"

definition exit_yield :: "nat \<Rightarrow> nat \<Rightarrow> u64 \<Rightarrow> lt_sys \<Rightarrow> lt_sys" where
  "exit_yield i t v s = at t (At i P_back) (goto t (T_dead v)
     (set_obj t (\<lambda>l. l\<lparr>yield_cbarg := v, attr_state := attr_state l OR BIT LT_ST_EXITED\<rparr>) s))"

text \<open>\<open>lthread_join\<close>: the test for a detached thread, the test under the lock, the return.\<close>

definition join_call :: "nat \<Rightarrow> nat \<Rightarrow> lt_sys \<Rightarrow> lt_sys" where
  "join_call t j s =
     (if has LT_ST_DETACH (lt_state s j) then s
      else goto t (T_join j) (s\<lparr>lt_claimed := (lt_claimed s)(j := Some t)\<rparr>))"

definition join_test :: "nat \<Rightarrow> nat \<Rightarrow> nat \<Rightarrow> lt_sys \<Rightarrow> lt_sys" where
  "join_test i t j s =
     (if has LT_ST_EXITED (lt_state s j) then goto t (T_join_unlock j) s
      else if lt_join (lt_obj s j) = None
      then lthread_yield_cb i t (Cb_unlock j) (goto t (T_join_wait j)
             (set_obj j (\<lambda>l. l\<lparr>lt_join := Some t\<rparr>) s))
      else goto t (T_join_fail j) s)"

text \<open>\<open>lthread_detach2\<close>, and \<open>lthread_detach\<close>, which detaches the running thread: the call, and the compare-and-swap that succeeds.\<close>

definition detach_call :: "nat \<Rightarrow> nat \<Rightarrow> lt_sys \<Rightarrow> lt_sys" where
  "detach_call t j s = goto t (T_detach j) (s\<lparr>lt_claimed := (lt_claimed s)(j := Some t)\<rparr>)"

definition lthread_detach2 :: "nat \<Rightarrow> nat \<Rightarrow> lt_sys \<Rightarrow> lt_sys" where
  "lthread_detach2 t j s = goto t T_user (set_obj j (\<lambda>l. l\<lparr>attr_state := attr_state l OR BIT LT_ST_DETACH\<rparr>) s)"

section \<open>What a scheduler does\<close>

definition take_next :: "nat \<Rightarrow> nat \<Rightarrow> lt_sys \<Rightarrow> lt_sys" where
  "take_next i t s = at t (At i P_resume)
     (s\<lparr>lt_queue := tl (lt_queue s), lt_cur := (lt_cur s)(i := Some t)\<rparr>)"

definition init_state :: "u32 \<Rightarrow> u32" where
  "init_state state =
     (if has LT_ST_DETACH state then BIT LT_ST_READY OR BIT LT_ST_DETACH else BIT LT_ST_READY)"

definition lthread_init :: "nat \<Rightarrow> nat \<Rightarrow> lt_sys \<Rightarrow> lt_sys" where
  "lthread_init i t s = at t (At i P_switch)
     ((set_obj t (\<lambda>l. l\<lparr>attr_state := init_state (attr_state l)\<rparr>) s)\<lparr>lt_own := (lt_own s)(t := None)\<rparr>)"

definition switch_to :: "nat \<Rightarrow> nat \<Rightarrow> lt_sys \<Rightarrow> lt_sys" where
  "switch_to i t s = at t (At i P_run) (set_obj t (\<lambda>l. l\<lparr>yield_cb := Cb_none, yield_cbarg := 0\<rparr>) s)"

definition switched_back :: "nat \<Rightarrow> nat \<Rightarrow> lt_sys \<Rightarrow> lt_sys" where
  "switched_back i t s =
     (if has LT_ST_EXITED (lt_state s t) then at t (At i P_wake) s
      else case yield_cb (lt_obj s t) of
        Cb_none \<Rightarrow> sched_idle i (at t Parked s)
      | Cb_enqueue \<Rightarrow> sched_idle i (scheduler_enqueue t s)
      | Cb_unlock j \<Rightarrow> touch j s (sched_idle i (at t Parked (lthread_unlock j s))))"

definition exit_wake :: "nat \<Rightarrow> nat \<Rightarrow> lt_sys \<Rightarrow> lt_sys" where
  "exit_wake i t s =
     (case lt_join (lt_obj s t) of
        None \<Rightarrow> at t (At i P_unlock) s
      | Some w \<Rightarrow> at t (At i P_clear) (scheduler_enqueue w s))"

definition exit_detach :: "nat \<Rightarrow> nat \<Rightarrow> lt_sys \<Rightarrow> lt_sys" where
  "exit_detach i t s =
     sched_idle i (at t Gone (if has LT_ST_DETACH (lt_state s t) then lthread_free t s else s))"

section \<open>Steps\<close>

text \<open>The label of a step names the thread that a call begins to join or to detach.\<close>

datatype lt_call = Call_join nat | Call_detach nat | Internal

inductive lt_step :: "nat \<Rightarrow> lt_call \<Rightarrow> lt_sys \<Rightarrow> lt_sys \<Rightarrow> bool" for n where
  create: "lt_phase s t = At i P_run \<Longrightarrow> lt_pc s t = T_user \<Longrightarrow> lt_phase s c = Unborn \<Longrightarrow>
    lt_step n Internal s (lthread_create detached c s)"
| resched: "lt_phase s t = At i P_run \<Longrightarrow> lt_pc s t = T_user \<Longrightarrow>
    lt_step n Internal s (lthread_yield_cb i t Cb_enqueue s)"
| call_exit: "lt_phase s t = At i P_run \<Longrightarrow> lt_pc s t = T_user \<Longrightarrow> lt_step n Internal s (goto t (T_exit v) s)"
| exit_lock: "lt_phase s t = At i P_run \<Longrightarrow> lt_pc s t = T_exit v \<Longrightarrow> \<not> has LT_ST_BUSY (lt_state s t) \<Longrightarrow>
    lt_step n Internal s (goto t (T_exit_locked v) (lthread_lock t t s))"
| exit_switch: "lt_phase s t = At i P_run \<Longrightarrow> lt_pc s t = T_exit_locked v \<Longrightarrow> lt_step n Internal s (exit_yield i t v s)"
| call_join: "lt_phase s t = At i P_run \<Longrightarrow> lt_pc s t = T_user \<Longrightarrow> lt_phase s j \<noteq> Unborn \<Longrightarrow>
    lt_step n (Call_join j) s (touch j s (join_call t j s))"
| call_detach: "lt_phase s t = At i P_run \<Longrightarrow> lt_pc s t = T_user \<Longrightarrow> lt_phase s j \<noteq> Unborn \<Longrightarrow>
    lt_step n (Call_detach j) s (detach_call t j s)"
| detach_cas: "lt_phase s t = At i P_run \<Longrightarrow> lt_pc s t = T_detach j \<Longrightarrow> \<not> has LT_ST_BUSY (lt_state s j) \<Longrightarrow>
    lt_step n Internal s (touch j s (lthread_detach2 t j s))"
| join_lock: "lt_phase s t = At i P_run \<Longrightarrow> lt_pc s t = T_join j \<Longrightarrow> \<not> has LT_ST_BUSY (lt_state s j) \<Longrightarrow>
    lt_step n Internal s (touch j s (goto t (T_join_test j) (lthread_lock t j s)))"
| join_tested: "lt_phase s t = At i P_run \<Longrightarrow> lt_pc s t = T_join_test j \<Longrightarrow>
    lt_step n Internal s (touch j s (join_test i t j s))"
| join_unlock: "lt_phase s t = At i P_run \<Longrightarrow> lt_pc s t = T_join_unlock j \<Longrightarrow>
    lt_step n Internal s (touch j s (goto t (T_joined j) (lthread_unlock j s)))"
| join_fail: "lt_phase s t = At i P_run \<Longrightarrow> lt_pc s t = T_join_fail j \<Longrightarrow>
    lt_step n Internal s (touch j s (goto t T_user (lthread_unlock j s)))"
| join_read: "lt_phase s t = At i P_run \<Longrightarrow> lt_pc s t = T_joined j \<or> lt_pc s t = T_join_wait j \<Longrightarrow>
    lt_step n Internal s (touch j s (goto t (T_got j (yield_cbarg (lt_obj s j))) s))"
| join_free: "lt_phase s t = At i P_run \<Longrightarrow> lt_pc s t = T_got j v \<Longrightarrow>
    lt_step n Internal s (touch j s (goto t T_user (lthread_free j s)))"
| dequeue: "i < n \<Longrightarrow> lt_cur s i = None \<Longrightarrow> lt_queue s = t # q \<Longrightarrow> lt_step n Internal s (take_next i t s)"
| resume: "lt_phase s t = At i P_resume \<Longrightarrow>
    lt_step n Internal s (touch t s (at t (At i (if has LT_ST_NEW (lt_state s t) then P_init else P_switch)) s))"
| init_lock: "lt_phase s t = At i P_init \<Longrightarrow> \<not> has LT_ST_BUSY (lt_state s t) \<Longrightarrow>
    lt_step n Internal s (touch t s (at t (At i P_init_locked) (lthread_lock t t s)))"
| init: "lt_phase s t = At i P_init_locked \<Longrightarrow> lt_step n Internal s (touch t s (lthread_init i t s))"
| switch: "lt_phase s t = At i P_switch \<Longrightarrow> lt_step n Internal s (touch t s (switch_to i t s))"
| returned: "lt_phase s t = At i P_back \<Longrightarrow> lt_step n Internal s (touch t s (switched_back i t s))"
| wake: "lt_phase s t = At i P_wake \<Longrightarrow> lt_step n Internal s (touch t s (exit_wake i t s))"
| clear: "lt_phase s t = At i P_clear \<Longrightarrow>
    lt_step n Internal s (touch t s (at t (At i P_unlock) (set_obj t (\<lambda>l. l\<lparr>lt_join := None\<rparr>) s)))"
| unlock: "lt_phase s t = At i P_unlock \<Longrightarrow>
    lt_step n Internal s (touch t s (at t (At i P_detach) (lthread_unlock t s)))"
| detach: "lt_phase s t = At i P_detach \<Longrightarrow> lt_step n Internal s (touch t s (exit_detach i t s))"

text \<open>One thread, \<open>0\<close>, is in the queue at the start; an execution ends when freed memory is touched.\<close>

definition lt_zero :: lthread where
  "lt_zero = \<lparr>attr_state = 0, lt_join = None, yield_cb = Cb_none, yield_cbarg = 0\<rparr>"

definition lt_init :: lt_sys where
  "lt_init = lthread_create False 0
     \<lparr>lt_obj = (\<lambda>_. lt_zero), lt_pc = (\<lambda>_. T_user), lt_phase = (\<lambda>_. Unborn), lt_cur = (\<lambda>_. None),
      lt_queue = [], lt_freed = (\<lambda>_. False), lt_own = (\<lambda>_. None), lt_claimed = (\<lambda>_. None), lt_bad = False\<rparr>"

text \<open>The contract of joining, and the executions that keep to it.\<close>

fun contract :: "lt_call \<Rightarrow> lt_sys \<Rightarrow> bool" where
  "contract (Call_join j) s \<longleftrightarrow> \<not> lt_freed s j \<and> lt_claimed s j = None"
| "contract (Call_detach j) s \<longleftrightarrow> \<not> lt_freed s j \<and> lt_claimed s j = None \<and> \<not> has LT_ST_DETACH (lt_state s j)"
| "contract Internal s \<longleftrightarrow> True"

inductive lt_reach :: "nat \<Rightarrow> lt_sys \<Rightarrow> bool" for n where
  lt_start: "lt_reach n lt_init"
| lt_next: "lt_reach n s \<Longrightarrow> \<not> lt_bad s \<Longrightarrow> contract a s \<Longrightarrow> lt_step n a s s' \<Longrightarrow> lt_reach n s'"

section \<open>State bits\<close>

lemma has_bit: "x < 32 \<Longrightarrow> has x w \<longleftrightarrow> bit w x"
  by (simp add: has_def BIT_def push_bit_eq_mult and_exp_eq_0_iff_not_bit)

lemma bit_BIT: "y < 32 \<Longrightarrow> bit (BIT x) y \<longleftrightarrow> x = y"
  by (auto simp: BIT_def bit_simps)

lemma has_simps [simp]:
  "has LT_ST_BUSY (w OR BIT LT_ST_BUSY)" "\<not> has LT_ST_BUSY (w AND NOT (BIT LT_ST_BUSY))"
  "has LT_ST_EXITED (w OR BIT LT_ST_BUSY) \<longleftrightarrow> has LT_ST_EXITED w"
  "has LT_ST_EXITED (w AND NOT (BIT LT_ST_BUSY)) \<longleftrightarrow> has LT_ST_EXITED w"
  "has LT_ST_DETACH (w OR BIT LT_ST_BUSY) \<longleftrightarrow> has LT_ST_DETACH w"
  "has LT_ST_DETACH (w AND NOT (BIT LT_ST_BUSY)) \<longleftrightarrow> has LT_ST_DETACH w"
  "has LT_ST_NEW (w OR BIT LT_ST_BUSY) \<longleftrightarrow> has LT_ST_NEW w"
  "has LT_ST_NEW (w AND NOT (BIT LT_ST_BUSY)) \<longleftrightarrow> has LT_ST_NEW w"
  "has LT_ST_BUSY (w OR BIT LT_ST_DETACH) \<longleftrightarrow> has LT_ST_BUSY w"
  "has LT_ST_EXITED (w OR BIT LT_ST_DETACH) \<longleftrightarrow> has LT_ST_EXITED w"
  "has LT_ST_NEW (w OR BIT LT_ST_DETACH) \<longleftrightarrow> has LT_ST_NEW w" "has LT_ST_DETACH (w OR BIT LT_ST_DETACH)"
  "has LT_ST_EXITED (w OR BIT LT_ST_EXITED)"
  "has LT_ST_BUSY (w OR BIT LT_ST_EXITED) \<longleftrightarrow> has LT_ST_BUSY w"
  "has LT_ST_DETACH (w OR BIT LT_ST_EXITED) \<longleftrightarrow> has LT_ST_DETACH w"
  "has LT_ST_NEW (w OR BIT LT_ST_EXITED) \<longleftrightarrow> has LT_ST_NEW w"
  "has LT_ST_DETACH (init_state w) \<longleftrightarrow> has LT_ST_DETACH w"
  "\<not> has LT_ST_NEW (init_state w)" "\<not> has LT_ST_BUSY (init_state w)" "\<not> has LT_ST_EXITED (init_state w)"
  "has x 0 \<longleftrightarrow> False"
  by (simp_all add: has_bit lt_st_defs bit_simps bit_BIT init_state_def) (simp add: has_def)

lemma has_new [simp]:
  "\<not> has LT_ST_BUSY (BIT LT_ST_NEW OR (if d then BIT LT_ST_DETACH else 0))"
  "\<not> has LT_ST_EXITED (BIT LT_ST_NEW OR (if d then BIT LT_ST_DETACH else 0))"
  "has LT_ST_DETACH (BIT LT_ST_NEW OR (if d then BIT LT_ST_DETACH else 0)) \<longleftrightarrow> d"
  "has LT_ST_NEW (BIT LT_ST_NEW OR (if d then BIT LT_ST_DETACH else 0))"
  by (simp_all add: has_bit lt_st_defs bit_simps bit_BIT)

lemma has_new_only [simp]:
  "\<not> has LT_ST_BUSY (BIT LT_ST_NEW)" "\<not> has LT_ST_EXITED (BIT LT_ST_NEW)"
  "\<not> has LT_ST_BUSY (BIT LT_ST_NEW OR BIT LT_ST_DETACH)" "\<not> has LT_ST_EXITED (BIT LT_ST_NEW OR BIT LT_ST_DETACH)"
  using has_new(1,2) [of False] has_new(1,2) [of True] by simp_all

section \<open>Invariant\<close>

fun dead :: "thread_pc \<Rightarrow> bool" where
  "dead (T_dead v) \<longleftrightarrow> True"
| "dead _ \<longleftrightarrow> False"

fun joins :: "thread_pc \<Rightarrow> nat option" where
  "joins (T_join j) = Some j"
| "joins (T_join_test j) = Some j"
| "joins (T_join_unlock j) = Some j"
| "joins (T_join_fail j) = Some j"
| "joins (T_join_wait j) = Some j"
| "joins (T_joined j) = Some j"
| "joins (T_detach j) = Some j"
| "joins (T_got j v) = Some j"
| "joins _ = None"

text \<open>Which lock the activity of thread \<open>t\<close> holds.\<close>

fun locks :: "nat \<Rightarrow> thread_pc \<Rightarrow> phase \<Rightarrow> nat option" where
  "locks t (T_exit_locked v) ph = Some t"
| "locks t (T_join_test j) ph = Some j"
| "locks t (T_join_unlock j) ph = Some j"
| "locks t (T_join_fail j) ph = Some j"
| "locks t (T_join_wait j) (At i P_back) = Some j"
| "locks t T_user (At i P_init_locked) = Some t"
| "locks t (T_dead v) (At i p) = (if p \<in> {P_back, P_wake, P_clear, P_unlock} then Some t else None)"
| "locks t _ _ = None"

fun placed :: "thread_pc \<Rightarrow> phase \<Rightarrow> bool" where
  "placed T_user ph \<longleftrightarrow> (case ph of Unborn \<Rightarrow> True | InQ \<Rightarrow> True
     | At i p \<Rightarrow> p \<in> {P_resume, P_init, P_init_locked, P_switch, P_run, P_back} | _ \<Rightarrow> False)"
| "placed (T_join_wait j) ph \<longleftrightarrow> (case ph of InQ \<Rightarrow> True | Parked \<Rightarrow> True
     | At i p \<Rightarrow> p \<in> {P_resume, P_switch, P_run, P_back} | _ \<Rightarrow> False)"
| "placed (T_dead v) ph \<longleftrightarrow> (case ph of Gone \<Rightarrow> True
     | At i p \<Rightarrow> p \<in> {P_back, P_wake, P_clear, P_unlock, P_detach} | _ \<Rightarrow> False)"
| "placed _ ph \<longleftrightarrow> (\<exists>i. ph = At i P_run)"

text \<open>A joiner that has registered and is not yet woken; one whose target must have exited.\<close>

fun registered :: "thread_pc \<Rightarrow> phase \<Rightarrow> bool" where
  "registered (T_join_wait j) ph \<longleftrightarrow> ph = Parked \<or> (\<exists>i. ph = At i P_back)"
| "registered _ ph \<longleftrightarrow> False"

fun needs_dead :: "thread_pc \<Rightarrow> phase \<Rightarrow> bool" where
  "needs_dead (T_join_unlock j) ph \<longleftrightarrow> True"
| "needs_dead (T_joined j) ph \<longleftrightarrow> True"
| "needs_dead (T_got j v) ph \<longleftrightarrow> True"
| "needs_dead (T_join_wait j) ph \<longleftrightarrow> \<not> registered (T_join_wait j) ph"
| "needs_dead _ ph \<longleftrightarrow> False"

definition inv_queue :: "lt_sys \<Rightarrow> bool" where
  "inv_queue s \<longleftrightarrow> distinct (lt_queue s) \<and> (\<forall>t. t \<in> set (lt_queue s) \<longleftrightarrow> lt_phase s t = InQ)"

definition inv_cur :: "lt_sys \<Rightarrow> bool" where
  "inv_cur s \<longleftrightarrow> (\<forall>i t. lt_cur s i = Some t \<longleftrightarrow> (\<exists>p. lt_phase s t = At i p))"

definition inv_lock :: "lt_sys \<Rightarrow> bool" where
  "inv_lock s \<longleftrightarrow> (\<forall>t j. locks t (lt_pc s t) (lt_phase s t) = Some j \<longleftrightarrow> lt_own s j = Some t) \<and>
     (\<forall>j. has LT_ST_BUSY (lt_state s j) \<longleftrightarrow> lt_own s j \<noteq> None)"

text \<open>What the program counter and the phase of one thread say about its object.\<close>

definition place_ok :: "thread_pc \<Rightarrow> phase \<Rightarrow> lthread \<Rightarrow> nat option \<Rightarrow> bool" where
  "place_ok pc ph l claimed \<longleftrightarrow> placed pc ph \<and> (has LT_ST_EXITED (attr_state l) \<longleftrightarrow> dead pc) \<and>
     (\<forall>v. pc = T_dead v \<longrightarrow> yield_cbarg l = v) \<and>
     (\<forall>i. pc = T_user \<longrightarrow> ph = At i P_back \<longrightarrow> yield_cb l = Cb_enqueue) \<and>
     (\<forall>i j. joins pc = Some j \<longrightarrow> ph = At i P_back \<longrightarrow> yield_cb l = Cb_unlock j) \<and>
     (has LT_ST_NEW (attr_state l) \<longrightarrow> pc = T_user \<and>
        (ph = InQ \<or> (\<exists>i p. ph = At i p \<and> p \<in> {P_resume, P_init, P_init_locked}))) \<and>
     (ph = Unborn \<longrightarrow> l = lt_zero \<and> claimed = None)"

definition inv_place :: "lt_sys \<Rightarrow> bool" where
  "inv_place s \<longleftrightarrow> (\<forall>t. place_ok (lt_pc s t) (lt_phase s t) (lt_obj s t) (lt_claimed s t))"

definition inv_claim :: "lt_sys \<Rightarrow> bool" where
  "inv_claim s \<longleftrightarrow> (\<forall>t j. joins (lt_pc s t) = Some j \<longrightarrow>
     lt_claimed s j = Some t \<and> \<not> lt_freed s j \<and> \<not> has LT_ST_DETACH (lt_state s j))"

definition inv_dead :: "lt_sys \<Rightarrow> bool" where
  "inv_dead s \<longleftrightarrow> (\<forall>t j. joins (lt_pc s t) = Some j \<longrightarrow> needs_dead (lt_pc s t) (lt_phase s t) \<longrightarrow> dead (lt_pc s j)) \<and>
     (\<forall>t j v. lt_pc s t = T_got j v \<longrightarrow> lt_pc s j = T_dead v) \<and> (\<forall>j. lt_freed s j \<longrightarrow> dead (lt_pc s j))"

definition inv_wait :: "lt_sys \<Rightarrow> bool" where
  "inv_wait s \<longleftrightarrow> (\<forall>t j. joins (lt_pc s t) = Some j \<longrightarrow> registered (lt_pc s t) (lt_phase s t) \<longrightarrow>
        lt_join (lt_obj s j) = Some t \<and> (\<forall>i. lt_phase s j \<noteq> At i P_clear))"

definition inv_joiner :: "lt_sys \<Rightarrow> bool" where
  "inv_joiner s \<longleftrightarrow> (\<forall>j w. lt_join (lt_obj s j) = Some w \<longrightarrow>
        registered (lt_pc s w) (lt_phase s w) \<and> joins (lt_pc s w) = Some j \<or>
        (\<exists>i. lt_phase s j = At i P_clear))"

definition lt_inv :: "lt_sys \<Rightarrow> bool" where
  "lt_inv s \<longleftrightarrow> inv_queue s \<and> inv_cur s \<and> inv_lock s \<and> inv_place s \<and> inv_claim s \<and> inv_dead s \<and>
     inv_wait s \<and> inv_joiner s"

lemmas lt_inv_defs = inv_queue_def inv_cur_def inv_lock_def inv_place_def inv_claim_def inv_dead_def
  inv_wait_def inv_joiner_def

lemmas lt_step_defs = lthread_create_def lthread_yield_cb_def exit_yield_def join_call_def join_test_def
  detach_call_def lthread_detach2_def
  take_next_def lthread_init_def switch_to_def switched_back_def exit_wake_def exit_detach_def
  scheduler_enqueue_def lthread_free_def sched_idle_def lthread_lock_def lthread_unlock_def
  set_obj_def goto_def at_def lt_state_def

lemma lt_inv_init: "lt_inv lt_init"
  by (auto simp: lt_inv_def lt_inv_defs place_ok_def lt_init_def lt_step_defs lt_zero_def split: if_splits)

section \<open>Preservation\<close>

text \<open>The three effects a step can have on the locks.\<close>

lemma inv_lock_same:
  assumes "inv_lock s" and "\<And>u. locks u (lt_pc s' u) (lt_phase s' u) = locks u (lt_pc s u) (lt_phase s u)"
    and "lt_own s' = lt_own s" and "\<And>u. has LT_ST_BUSY (lt_state s' u) = has LT_ST_BUSY (lt_state s u)"
  shows "inv_lock s'"
  using assms by (simp add: inv_lock_def)

lemma inv_lock_acquire:
  assumes "inv_lock s" and "\<not> has LT_ST_BUSY (lt_state s j)" and "locks t (lt_pc s t) (lt_phase s t) = None"
    and "\<And>u. locks u (lt_pc s' u) (lt_phase s' u) = (if u = t then Some j else locks u (lt_pc s u) (lt_phase s u))"
    and "lt_own s' = (lt_own s)(j := Some t)"
    and "\<And>u. has LT_ST_BUSY (lt_state s' u) \<longleftrightarrow> u = j \<or> has LT_ST_BUSY (lt_state s u)"
  shows "inv_lock s'"
proof -
  have own: "lt_own s j = None" using assms(1,2) by (simp add: inv_lock_def)
  have iff: "locks u (lt_pc s u) (lt_phase s u) = Some k \<longleftrightarrow> lt_own s k = Some u" for u k
    using assms(1) by (simp add: inv_lock_def)
  have "locks u (lt_pc s' u) (lt_phase s' u) = Some k \<longleftrightarrow> lt_own s' k = Some u" for u k
    using own iff [of u k] assms(3,4) by (auto simp: assms(5))
  moreover have "has LT_ST_BUSY (lt_state s' k) \<longleftrightarrow> lt_own s' k \<noteq> None" for k
    using assms(1,5,6) by (simp add: inv_lock_def)
  ultimately show ?thesis by (simp add: inv_lock_def)
qed

lemma inv_lock_release:
  assumes "inv_lock s" and "locks t (lt_pc s t) (lt_phase s t) = Some j"
    and "\<And>u. locks u (lt_pc s' u) (lt_phase s' u) = (if u = t then None else locks u (lt_pc s u) (lt_phase s u))"
    and "lt_own s' = (lt_own s)(j := None)"
    and "\<And>u. has LT_ST_BUSY (lt_state s' u) \<longleftrightarrow> u \<noteq> j \<and> has LT_ST_BUSY (lt_state s u)"
  shows "inv_lock s'"
proof -
  have own: "lt_own s j = Some t" using assms(1,2) by (simp add: inv_lock_def)
  have iff: "locks u (lt_pc s u) (lt_phase s u) = Some k \<longleftrightarrow> lt_own s k = Some u" for u k
    using assms(1) by (simp add: inv_lock_def)
  have "locks u (lt_pc s' u) (lt_phase s' u) = Some k \<longleftrightarrow> lt_own s' k = Some u" for u k
    using own iff [of u k] iff [of u j] assms(2,3) by (auto simp: assms(4))
  moreover have "has LT_ST_BUSY (lt_state s' k) \<longleftrightarrow> lt_own s' k \<noteq> None" for k
    using assms(1,4,5) by (simp add: inv_lock_def)
  ultimately show ?thesis by (simp add: inv_lock_def)
qed

text \<open>The same for the other parts: what a step leaves as it was.\<close>

lemma inv_cur_idle:
  assumes "inv_cur s" and "lt_phase s t = At i p" and "\<And>k q. X \<noteq> At k q"
    and "lt_phase s' = (lt_phase s)(t := X)" and "lt_cur s' = (lt_cur s)(i := None)"
  shows "inv_cur s'"
  using assms unfolding inv_cur_def by (auto split: if_splits) (metis option.inject phase.inject)+

lemma inv_cur_take:
  assumes "inv_cur s" and "lt_cur s i = None" and "\<And>k q. lt_phase s t \<noteq> At k q"
    and "lt_phase s' = (lt_phase s)(t := At i p)" and "lt_cur s' = (lt_cur s)(i := Some t)"
  shows "inv_cur s'"
  using assms unfolding inv_cur_def by (auto split: if_splits) (metis option.distinct(1))+

lemma inv_claim_frame:
  assumes "inv_claim s" and "\<And>u j. joins (lt_pc s' u) = Some j \<Longrightarrow> joins (lt_pc s u) = Some j"
    and "lt_claimed s' = lt_claimed s" and "lt_freed s' = lt_freed s"
    and "\<And>j. has LT_ST_DETACH (lt_state s' j) = has LT_ST_DETACH (lt_state s j)"
  shows "inv_claim s'"
  using assms unfolding inv_claim_def by metis

lemma inv_dead_frame:
  assumes "inv_dead s"
    and "\<And>u j. joins (lt_pc s' u) = Some j \<Longrightarrow> needs_dead (lt_pc s' u) (lt_phase s' u) \<Longrightarrow>
      joins (lt_pc s u) = Some j \<and> needs_dead (lt_pc s u) (lt_phase s u)"
    and "\<And>u j v. lt_pc s' u = T_got j v \<Longrightarrow> lt_pc s u = T_got j v"
    and "\<And>u. dead (lt_pc s u) \<Longrightarrow> lt_pc s' u = lt_pc s u" and "lt_freed s' = lt_freed s"
  shows "inv_dead s'"
proof -
  have "dead (lt_pc s' j)" if "joins (lt_pc s' u) = Some j" "needs_dead (lt_pc s' u) (lt_phase s' u)" for u j
    using assms(1,4) assms(2) [OF that] unfolding inv_dead_def by metis
  moreover have "lt_pc s' j = T_dead v" if "lt_pc s' u = T_got j v" for u j v
    using assms(1,4) assms(3) [OF that] unfolding inv_dead_def by (metis dead.simps(1))
  moreover have "dead (lt_pc s' j)" if "lt_freed s' j" for j
    using assms(1,4,5) that unfolding inv_dead_def by metis
  ultimately show ?thesis unfolding inv_dead_def by blast
qed

lemma inv_wait_frame:
  assumes "inv_wait s"
    and "\<And>u j. joins (lt_pc s' u) = Some j \<Longrightarrow> registered (lt_pc s' u) (lt_phase s' u) \<Longrightarrow>
      joins (lt_pc s u) = Some j \<and> registered (lt_pc s u) (lt_phase s u)"
    and "\<And>u. lt_join (lt_obj s' u) = lt_join (lt_obj s u)"
    and "\<And>u i. lt_phase s' u = At i P_clear \<Longrightarrow> \<exists>k. lt_phase s u = At k P_clear"
  shows "inv_wait s'"
  using assms unfolding inv_wait_def by metis

lemma inv_joiner_frame:
  assumes "inv_joiner s"
    and "\<And>u j. joins (lt_pc s u) = Some j \<Longrightarrow> registered (lt_pc s u) (lt_phase s u) \<Longrightarrow>
      joins (lt_pc s' u) = Some j \<and> registered (lt_pc s' u) (lt_phase s' u)"
    and "\<And>u w. lt_join (lt_obj s' u) = Some w \<Longrightarrow> lt_join (lt_obj s u) = Some w"
    and "\<And>u i w. lt_phase s u = At i P_clear \<Longrightarrow> lt_join (lt_obj s' u) = Some w \<Longrightarrow> \<exists>k. lt_phase s' u = At k P_clear"
  shows "inv_joiner s'"
  using assms unfolding inv_joiner_def by metis

lemma joins_claimed: "inv_claim s \<Longrightarrow> joins (lt_pc s u) = Some j \<Longrightarrow> lt_claimed s j = Some u \<and> \<not> lt_freed s j \<and>
    \<not> has LT_ST_DETACH (lt_state s j)"
  by (simp add: inv_claim_def)

lemma joins_same: "inv_claim s \<Longrightarrow> joins (lt_pc s u) = Some j \<Longrightarrow> joins (lt_pc s t) = Some j \<Longrightarrow> u = t"
  by (metis joins_claimed option.inject)

lemma waitD: "inv_wait s \<Longrightarrow> joins (lt_pc s u) = Some j \<Longrightarrow> registered (lt_pc s u) (lt_phase s u) \<Longrightarrow>
    lt_join (lt_obj s j) = Some u \<and> (\<forall>i. lt_phase s j \<noteq> At i P_clear)"
  by (simp add: inv_wait_def)

lemma joinerD: "inv_joiner s \<Longrightarrow> lt_join (lt_obj s j) = Some w \<Longrightarrow>
    registered (lt_pc s w) (lt_phase s w) \<and> joins (lt_pc s w) = Some j \<or> (\<exists>i. lt_phase s j = At i P_clear)"
  by (simp add: inv_joiner_def)

lemma deadD:
  assumes "inv_dead s"
  shows "joins (lt_pc s u) = Some j \<Longrightarrow> needs_dead (lt_pc s u) (lt_phase s u) \<Longrightarrow> dead (lt_pc s j)"
    and "lt_pc s u = T_got j v \<Longrightarrow> lt_pc s j = T_dead v" and "lt_freed s j \<Longrightarrow> dead (lt_pc s j)"
  using assms by (auto simp: inv_dead_def)

lemma placeD: "inv_place s \<Longrightarrow> place_ok (lt_pc s u) (lt_phase s u) (lt_obj s u) (lt_claimed s u)"
  by (simp add: inv_place_def)

lemma joins_born: "inv_claim s \<Longrightarrow> inv_place s \<Longrightarrow> joins (lt_pc s u) = Some j \<Longrightarrow> lt_phase s j \<noteq> Unborn"
  using joins_claimed [of s u j] placeD [of s j] by (auto simp: place_ok_def)

lemma inv_place_frame:
  assumes "inv_place s" and "\<And>u. u \<noteq> t \<Longrightarrow> u \<noteq> j \<Longrightarrow> lt_pc s' u = lt_pc s u \<and> lt_phase s' u = lt_phase s u \<and>
      lt_obj s' u = lt_obj s u \<and> lt_claimed s' u = lt_claimed s u"
    and "place_ok (lt_pc s' t) (lt_phase s' t) (lt_obj s' t) (lt_claimed s' t)"
    and "place_ok (lt_pc s' j) (lt_phase s' j) (lt_obj s' j) (lt_claimed s' j)"
  shows "inv_place s'"
  using assms unfolding inv_place_def by metis

lemma call_join_claim: "inv_claim s \<Longrightarrow> lt_phase s t = At i P_run \<Longrightarrow> lt_pc s t = T_user \<Longrightarrow>
    \<not> lt_freed s j \<Longrightarrow> lt_claimed s j = None \<Longrightarrow> inv_claim (join_call t j s)"
  unfolding inv_claim_def lt_step_defs by (auto split: if_splits)

lemma call_detach_claim: "inv_claim s \<Longrightarrow> lt_phase s t = At i P_run \<Longrightarrow> lt_pc s t = T_user \<Longrightarrow>
    \<not> lt_freed s j \<Longrightarrow> lt_claimed s j = None \<Longrightarrow> \<not> has LT_ST_DETACH (lt_state s j) \<Longrightarrow> inv_claim (detach_call t j s)"
  unfolding inv_claim_def lt_step_defs by (auto split: if_splits)

lemma detach_cas_claim:
  assumes "inv_claim s" and "lt_pc s t = T_detach j"
  shows "inv_claim (lthread_detach2 t j s)"
  using assms(1) joins_same [OF assms(1), of _ j t] assms(2)
  unfolding inv_claim_def lt_step_defs by (auto split: if_splits)

lemma create_claim:
  assumes "inv_claim s" and "inv_place s" and "lt_phase s c = Unborn" "lt_pc s c = T_user"
  shows "inv_claim (lthread_create detached c s)"
  using assms(1) joins_born [OF assms(1,2), of _ c] assms(3,4)
  unfolding inv_claim_def lt_step_defs by (auto split: if_splits)

lemma detach_cas_place:
  assumes inv: "inv_place s" "inv_claim s" and t: "lt_phase s t = At i P_run" "lt_pc s t = T_detach j"
  shows "inv_place (lthread_detach2 t j s)"
proof -
  have pj: "place_ok (lt_pc s j) (lt_phase s j) (lt_obj s j) (lt_claimed s j)"
    and pt: "place_ok (lt_pc s t) (lt_phase s t) (lt_obj s t) (lt_claimed s t)" by (simp_all add: placeD inv(1))
  have born: "lt_phase s j \<noteq> Unborn" using joins_born [OF inv(2,1), of t j] t by simp
  show ?thesis
    by (rule inv_place_frame [OF inv(1), where t = t and j = j])
      (use pj pt born t in \<open>auto simp: lt_step_defs place_ok_def split: if_splits\<close>)
qed

lemma clear_wait:
  assumes inv: "inv_wait s" and t: "lt_phase s t = At i P_clear" "lt_pc s t = T_dead v"
  shows "inv_wait (at t (At i P_unlock) (set_obj t (\<lambda>l. l\<lparr>lt_join := None\<rparr>) s))" (is "inv_wait ?s")
  unfolding inv_wait_def
proof (intro allI impI)
  fix u j assume "joins (lt_pc ?s u) = Some j" and "registered (lt_pc ?s u) (lt_phase ?s u)"
  then have u: "joins (lt_pc s u) = Some j" "registered (lt_pc s u) (lt_phase s u)"
    using t by (auto simp: lt_step_defs split: if_splits)
  from waitD [OF inv this] t have "lt_join (lt_obj s j) = Some u" "j \<noteq> t" "\<forall>k. lt_phase s j \<noteq> At k P_clear" by auto
  then show "lt_join (lt_obj ?s j) = Some u \<and> (\<forall>k. lt_phase ?s j \<noteq> At k P_clear)" by (simp add: lt_step_defs)
qed

lemma create_wait:
  assumes "inv_wait s" and "inv_claim s" and "inv_place s" and c: "lt_phase s c = Unborn" "lt_pc s c = T_user"
  shows "inv_wait (lthread_create detached c s)"
proof -
  have "joins (lt_pc s u) \<noteq> Some c" for u using joins_born [OF assms(2,3), of u c] c by auto
  then show ?thesis using assms(1) c unfolding inv_wait_def lt_step_defs by (auto split: if_splits)
qed

lemma detach_claim:
  assumes "inv_claim s" and "inv_place s" and "lt_phase s t = At i P_detach" and "lt_pc s t = T_dead v"
  shows "inv_claim (exit_detach i t s)"
proof -
  have "\<not> has LT_ST_DETACH (lt_state s t)" if "joins (lt_pc s u) = Some t" for u
    using joins_claimed [OF assms(1) that] by simp
  then show ?thesis using assms(1) unfolding inv_claim_def lt_step_defs by auto
qed

lemma detach_dead: "inv_dead s \<Longrightarrow> lt_phase s t = At i P_detach \<Longrightarrow> lt_pc s t = T_dead v \<Longrightarrow>
    inv_dead (exit_detach i t s)"
  unfolding inv_dead_def lt_step_defs by (auto split: if_splits)

lemma join_free_claim:
  assumes "inv_claim s" and "lt_pc s t = T_got j v"
  shows "inv_claim (goto t T_user (lthread_free j s))"
  using assms(1) joins_same [OF assms(1), of _ j t] assms(2)
  unfolding inv_claim_def lt_step_defs by (auto split: if_splits)

lemma join_free_dead:
  assumes inv: "inv_dead s" and t: "lt_pc s t = T_got j v"
  shows "inv_dead (goto t T_user (lthread_free j s))"
proof -
  have "inv_dead (goto t T_user s)"
    using inv by (rule inv_dead_frame) (auto simp: lt_step_defs t split: if_splits)
  moreover have "lt_pc s j = T_dead v" using inv t by (simp add: inv_dead_def)
  then have "lt_pc (goto t T_user s) j = T_dead v" using t by (auto simp: lt_step_defs)
  ultimately show ?thesis unfolding inv_dead_def lthread_free_def goto_def by auto
qed

lemma join_read_dead:
  assumes inv: "inv_dead s" "inv_place s" and t: "lt_phase s t = At i P_run" "lt_pc s t = T_joined j \<or> lt_pc s t = T_join_wait j"
  shows "inv_dead (goto t (T_got j (yield_cbarg (lt_obj s j))) s)"
proof -
  have "joins (lt_pc s t) = Some j \<and> needs_dead (lt_pc s t) (lt_phase s t)" using t by auto
  then have "dead (lt_pc s j)" using inv(1) unfolding inv_dead_def by blast
  then have d: "lt_pc s j = T_dead (yield_cbarg (lt_obj s j))"
    using placeD [OF inv(2), of j] by (cases "lt_pc s j") (auto simp: place_ok_def)
  with t have "j \<noteq> t" by auto
  have "dead (lt_pc s u) \<longrightarrow> u \<noteq> t" for u using t by auto
  then show ?thesis unfolding inv_dead_def
    using deadD [OF inv(1)] d t \<open>j \<noteq> t\<close> by (auto simp: lt_step_defs)
qed

lemma join_tested_dead:
  assumes inv: "inv_dead s" "inv_place s" and t: "lt_phase s t = At i P_run" "lt_pc s t = T_join_test j"
  shows "inv_dead (join_test i t j s)"
proof -
  have d: "has LT_ST_EXITED (lt_state s j) \<longleftrightarrow> dead (lt_pc s j)"
    using placeD [OF inv(2), of j] by (simp add: place_ok_def lt_state_def)
  show ?thesis
  proof (cases "has LT_ST_EXITED (lt_state s j)")
    case True
    with d t have "j \<noteq> t" by auto
    have "dead (lt_pc s u) \<longrightarrow> u \<noteq> t" for u using t by auto
    with True d t \<open>j \<noteq> t\<close> show ?thesis unfolding inv_dead_def
      using deadD [OF inv(1)] by (auto simp: lt_step_defs)
  next
    case False
    with inv(1) show ?thesis
      by (elim inv_dead_frame) (use False t in \<open>auto simp: lt_step_defs split: if_splits\<close>)
  qed
qed

lemma join_tested_other:
  assumes inv: "inv_place s" "inv_wait s" "inv_joiner s" "inv_claim s"
    and t: "lt_phase s t = At i P_run" "lt_pc s t = T_join_test j"
  shows "inv_wait (join_test i t j s)" "inv_joiner (join_test i t j s)" "inv_place (join_test i t j s)"
proof -
  have pj: "place_ok (lt_pc s j) (lt_phase s j) (lt_obj s j) (lt_claimed s j)"
    and pt: "place_ok (lt_pc s t) (lt_phase s t) (lt_obj s t) (lt_claimed s t)" by (simp_all add: placeD inv(1))
  have born: "lt_phase s j \<noteq> Unborn" using joins_born [OF inv(4,1), of t j] t by simp
  have clr: "lt_phase s j \<noteq> At k P_clear" if "\<not> has LT_ST_EXITED (lt_state s j)" for k
    using pj that by (cases "lt_pc s j") (auto simp: place_ok_def lt_state_def)
  have sole: "u = t" if "joins (lt_pc s u) = Some j" for u using joins_same [OF inv(4) that] t by simp
  show "inv_wait (join_test i t j s)"
    unfolding inv_wait_def
  proof (intro allI impI)
    fix u k assume u: "joins (lt_pc (join_test i t j s) u) = Some k"
      "registered (lt_pc (join_test i t j s) u) (lt_phase (join_test i t j s) u)"
    show "lt_join (lt_obj (join_test i t j s) k) = Some u \<and> (\<forall>i'. lt_phase (join_test i t j s) k \<noteq> At i' P_clear)"
    proof (cases "u = t")
      case True
      with u t clr show ?thesis by (auto simp: lt_step_defs split: if_splits)
    next
      case False
      then have "joins (lt_pc s u) = Some k" "registered (lt_pc s u) (lt_phase s u)"
        using u by (auto simp: lt_step_defs split: if_splits)
      with waitD [OF inv(2) this] sole False t show ?thesis by (auto simp: lt_step_defs split: if_splits)
    qed
  qed
  show "inv_joiner (join_test i t j s)"
  proof (cases "has LT_ST_EXITED (lt_state s j) \<or> lt_join (lt_obj s j) \<noteq> None")
    case True
    with inv(3) show ?thesis by (elim inv_joiner_frame) (use True t in \<open>auto simp: lt_step_defs split: if_splits\<close>)
  next
    case False
    show ?thesis unfolding inv_joiner_def
    proof (intro allI impI)
      fix k w assume w: "lt_join (lt_obj (join_test i t j s) k) = Some w"
      show "registered (lt_pc (join_test i t j s) w) (lt_phase (join_test i t j s) w) \<and>
          joins (lt_pc (join_test i t j s) w) = Some k \<or> (\<exists>i'. lt_phase
        (join_test i t j s) k = At i' P_clear)"
      proof (cases "k = j")
        case True
        then have "w = t" using w False by (auto simp: lt_step_defs split: if_splits)
        then show ?thesis using True False by (simp add: lt_step_defs)
      next
        case kj: False
        then have "lt_join (lt_obj s k) = Some w" using w False by (auto simp: lt_step_defs split: if_splits)
        from joinerD [OF inv(3) this] show ?thesis using kj False t by (auto simp: lt_step_defs)
      qed
    qed
  qed
  show "inv_place (join_test i t j s)"
    by (rule inv_place_frame [OF inv(1), where t = t and j = j])
      (use pj pt born t in \<open>auto simp: lt_step_defs place_ok_def split: if_splits\<close>)
qed

lemma lock_place:
  assumes inv: "inv_place s" "inv_claim s" and t: "lt_phase s t = At i P_run" "joins (lt_pc s t) = Some j"
  shows "lt_pc s t = T_join j \<Longrightarrow> inv_place (goto t (T_join_test j) (lthread_lock t j s))"
    and "lt_pc s t = T_join_unlock j \<Longrightarrow> inv_place (goto t (T_joined j) (lthread_unlock j s))"
    and "lt_pc s t = T_join_fail j \<Longrightarrow> inv_place (goto t T_user (lthread_unlock j s))"
proof -
  have pj: "place_ok (lt_pc s j) (lt_phase s j) (lt_obj s j) (lt_claimed s j)"
    and pt: "place_ok (lt_pc s t) (lt_phase s t) (lt_obj s t) (lt_claimed s t)" by (simp_all add: placeD inv(1))
  have born: "lt_phase s j \<noteq> Unborn" using joins_born [OF inv(2,1) t(2)] .
  note fr = inv_place_frame [OF inv(1), where t = t and j = j]
  show "inv_place (goto t (T_join_test j) (lthread_lock t j s))" if "lt_pc s t = T_join j"
    by (rule fr) (use pj pt born t that in \<open>auto simp: lt_step_defs place_ok_def split: if_splits\<close>)
  show "inv_place (goto t (T_joined j) (lthread_unlock j s))" if "lt_pc s t = T_join_unlock j"
    by (rule fr) (use pj pt born t that in \<open>auto simp: lt_step_defs place_ok_def split: if_splits\<close>)
  show "inv_place (goto t T_user (lthread_unlock j s))" if "lt_pc s t = T_join_fail j"
    by (rule fr) (use pj pt born t that in \<open>auto simp: lt_step_defs place_ok_def split: if_splits\<close>)
qed

lemma returned_wait_place:
  assumes inv: "inv_place s" "inv_claim s" and t: "lt_phase s t = At i P_back" "lt_pc s t = T_join_wait k"
  shows "inv_place (sched_idle i (at t Parked (lthread_unlock k s)))"
proof -
  have pj: "place_ok (lt_pc s k) (lt_phase s k) (lt_obj s k) (lt_claimed s k)"
    and pt: "place_ok (lt_pc s t) (lt_phase s t) (lt_obj s t) (lt_claimed s t)" by (simp_all add: placeD inv(1))
  have born: "lt_phase s k \<noteq> Unborn" using joins_born [OF inv(2,1), of t k] t by simp
  show ?thesis
    by (rule inv_place_frame [OF inv(1), where t = t and j = k])
      (use pj pt born t in \<open>auto simp: lt_step_defs place_ok_def split: if_splits\<close>)
qed

lemma wake_other:
  assumes inv: "inv_dead s" "inv_wait s" "inv_joiner s" "inv_claim s"
    and t: "lt_phase s t = At i P_wake" "lt_pc s t = T_dead v" "lt_join (lt_obj s t) = Some w" "w \<noteq> t"
      "lt_phase s w = Parked" "lt_pc s w = T_join_wait t"
  shows "inv_dead (at t (At i P_clear) (scheduler_enqueue w s))"
    "inv_wait (at t (At i P_clear) (scheduler_enqueue w s))"
    "inv_joiner (at t (At i P_clear) (scheduler_enqueue w s))"
proof -
  have sole: "u = w" if "joins (lt_pc s u) = Some t" for u using joins_same [OF inv(4) that] t by simp
  let ?s = "at t (At i P_clear) (scheduler_enqueue w s)"
  have tw: "lt_phase ?s t = At i P_clear" "lt_phase ?s w = InQ" "\<And>u. u \<noteq> t \<Longrightarrow> u \<noteq> w \<Longrightarrow> lt_phase ?s u = lt_phase s u"
    and same: "lt_pc ?s = lt_pc s" "lt_obj ?s = lt_obj s" "lt_freed ?s = lt_freed s"
    using t(4) by (simp_all add: lt_step_defs)
  show "inv_dead ?s"
    unfolding inv_dead_def same
  proof (intro conjI allI impI)
    fix u j assume u: "joins (lt_pc s u) = Some j" "needs_dead (lt_pc s u) (lt_phase ?s u)"
    show "dead (lt_pc s j)"
    proof (cases "u = w")
      case True
      with u t show ?thesis by simp
    next
      case False
      moreover have "u \<noteq> t" using u t by auto
      ultimately show ?thesis using deadD(1) [OF inv(1) u(1)] u(2) tw(3) by simp
    qed
  qed (use deadD [OF inv(1)] in blast)+
  show "inv_wait ?s"
    unfolding inv_wait_def same
  proof (intro allI impI)
    fix u j assume u: "joins (lt_pc s u) = Some j" "registered (lt_pc s u) (lt_phase ?s u)"
    have uu: "u \<noteq> t" "u \<noteq> w" using u t tw(2) by auto
    with u have r: "registered (lt_pc s u) (lt_phase s u)" by (simp add: tw(3))
    have "j \<noteq> t" using sole u(1) uu(2) by blast
    then show "lt_join (lt_obj s j) = Some u \<and> (\<forall>k. lt_phase ?s j \<noteq> At k P_clear)"
      using waitD [OF inv(2) u(1) r] tw(2,3) by (cases "j = w") auto
  qed
  show "inv_joiner ?s"
    unfolding inv_joiner_def same
  proof (intro allI impI)
    fix j x assume x: "lt_join (lt_obj s j) = Some x"
    show "registered (lt_pc s x) (lt_phase ?s x) \<and> joins (lt_pc s x) = Some j \<or> (\<exists>k. lt_phase ?s j = At k P_clear)"
    proof (cases "j = t")
      case False
      from joinerD [OF inv(3) x] show ?thesis
      proof
        assume r: "registered (lt_pc s x) (lt_phase s x) \<and> joins (lt_pc s x) = Some j"
        with False t have "x \<noteq> t" "x \<noteq> w" by auto
        with r show ?thesis by (simp add: tw(3))
      next
        assume "\<exists>k. lt_phase s j = At k P_clear"
        then show ?thesis using False t(5) tw(3) by (cases "j = w") auto
      qed
    qed (simp add: tw(1))
  qed
qed

text \<open>
  The steps that touch no freed memory, with what the invariant says about the thread that steps:
  where its code stands, which callback it has left and whom it wakes.
\<close>

inductive lt_eff :: "lt_sys \<Rightarrow> lt_sys \<Rightarrow> bool" where
  e_create: "lt_phase s t = At i P_run \<Longrightarrow> lt_pc s t = T_user \<Longrightarrow>
    lt_phase s c = Unborn \<Longrightarrow> lt_pc s c = T_user \<Longrightarrow> lt_obj s c = lt_zero \<Longrightarrow>
    lt_eff s (lthread_create detached c s)"
| e_resched: "lt_phase s t = At i P_run \<Longrightarrow> lt_pc s t = T_user \<Longrightarrow>
    lt_eff s (lthread_yield_cb i t Cb_enqueue s)"
| e_call_exit: "lt_phase s t = At i P_run \<Longrightarrow> lt_pc s t = T_user \<Longrightarrow>
    lt_eff s (goto t (T_exit v) s)"
| e_exit_lock: "lt_phase s t = At i P_run \<Longrightarrow> lt_pc s t = T_exit v \<Longrightarrow>
    \<not> has LT_ST_BUSY (lt_state s t) \<Longrightarrow>
    lt_eff s (goto t (T_exit_locked v) (lthread_lock t t s))"
| e_exit_switch: "lt_phase s t = At i P_run \<Longrightarrow> lt_pc s t = T_exit_locked v \<Longrightarrow>
    lt_eff s (exit_yield i t v s)"
| e_call_join: "lt_phase s t = At i P_run \<Longrightarrow> lt_pc s t = T_user \<Longrightarrow>
    lt_phase s j \<noteq> Unborn \<Longrightarrow> \<not> lt_freed s j \<Longrightarrow> lt_claimed s j = None \<Longrightarrow>
    lt_eff s (join_call t j s)"
| e_call_detach: "lt_phase s t = At i P_run \<Longrightarrow> lt_pc s t = T_user \<Longrightarrow> lt_phase s j \<noteq> Unborn \<Longrightarrow> \<not> lt_freed s j \<Longrightarrow>
    lt_claimed s j = None \<Longrightarrow> \<not> has LT_ST_DETACH (lt_state s j) \<Longrightarrow> lt_eff s (detach_call t j s)"
| e_detach_cas: "lt_phase s t = At i P_run \<Longrightarrow> lt_pc s t = T_detach j \<Longrightarrow> \<not> has LT_ST_BUSY (lt_state s j) \<Longrightarrow>
    lt_eff s (lthread_detach2 t j s)"
| e_join_lock: "lt_phase s t = At i P_run \<Longrightarrow> lt_pc s t = T_join j \<Longrightarrow>
    \<not> has LT_ST_BUSY (lt_state s j) \<Longrightarrow> lt_eff s (goto t (T_join_test j) (lthread_lock t j s))"
| e_join_tested: "lt_phase s t = At i P_run \<Longrightarrow> lt_pc s t = T_join_test j \<Longrightarrow>
    lt_eff s (join_test i t j s)"
| e_join_unlock: "lt_phase s t = At i P_run \<Longrightarrow> lt_pc s t = T_join_unlock j \<Longrightarrow>
    lt_eff s (goto t (T_joined j) (lthread_unlock j s))"
| e_join_fail: "lt_phase s t = At i P_run \<Longrightarrow> lt_pc s t = T_join_fail j \<Longrightarrow>
    lt_eff s (goto t T_user (lthread_unlock j s))"
| e_join_read: "lt_phase s t = At i P_run \<Longrightarrow> lt_pc s t = T_joined j \<or> lt_pc s t = T_join_wait j \<Longrightarrow>
    lt_eff s (goto t (T_got j (yield_cbarg (lt_obj s j))) s)"
| e_join_free: "lt_phase s t = At i P_run \<Longrightarrow> lt_pc s t = T_got j v \<Longrightarrow>
    lt_eff s (goto t T_user (lthread_free j s))"
| e_dequeue: "lt_cur s i = None \<Longrightarrow> lt_queue s = t # q \<Longrightarrow> lt_phase s t = InQ \<Longrightarrow>
    lt_pc s t = T_user \<or> lt_pc s t = T_join_wait k \<Longrightarrow> lt_eff s (take_next i t s)"
| e_resume: "lt_phase s t = At i P_resume \<Longrightarrow> lt_pc s t = T_user \<or> lt_pc s t = T_join_wait k \<Longrightarrow>
    lt_eff s (at t (At i (if has LT_ST_NEW (lt_state s t) then P_init else P_switch)) s)"
| e_init_lock: "lt_phase s t = At i P_init \<Longrightarrow> \<not> has LT_ST_BUSY (lt_state s t) \<Longrightarrow>
    lt_pc s t = T_user \<Longrightarrow> lt_eff s (at t (At i P_init_locked) (lthread_lock t t s))"
| e_init: "lt_phase s t = At i P_init_locked \<Longrightarrow> lt_pc s t = T_user \<Longrightarrow>
    lt_eff s (lthread_init i t s)"
| e_switch: "lt_phase s t = At i P_switch \<Longrightarrow> lt_pc s t = T_user \<or> lt_pc s t = T_join_wait k \<Longrightarrow>
    lt_eff s (switch_to i t s)"
| e_back_user: "lt_phase s t = At i P_back \<Longrightarrow> lt_pc s t = T_user \<Longrightarrow>
    lt_eff s (sched_idle i (scheduler_enqueue t s))"
| e_back_wait: "lt_phase s t = At i P_back \<Longrightarrow> lt_pc s t = T_join_wait k \<Longrightarrow>
    lt_eff s (sched_idle i (at t Parked (lthread_unlock k s)))"
| e_back_dead: "lt_phase s t = At i P_back \<Longrightarrow> lt_pc s t = T_dead v \<Longrightarrow>
    lt_eff s (at t (At i P_wake) s)"
| e_wake_none: "lt_phase s t = At i P_wake \<Longrightarrow> lt_pc s t = T_dead v \<Longrightarrow>
    lt_join (lt_obj s t) = None \<Longrightarrow> lt_eff s (at t (At i P_unlock) s)"
| e_wake_some: "lt_phase s t = At i P_wake \<Longrightarrow> lt_pc s t = T_dead v \<Longrightarrow>
    lt_join (lt_obj s t) = Some w \<Longrightarrow> w \<noteq> t \<Longrightarrow> lt_phase s w = Parked \<Longrightarrow>
    lt_pc s w = T_join_wait t \<Longrightarrow> lt_eff s (at t (At i P_clear) (scheduler_enqueue w s))"
| e_clear: "lt_phase s t = At i P_clear \<Longrightarrow> lt_pc s t = T_dead v \<Longrightarrow>
    lt_eff s (at t (At i P_unlock) (set_obj t (\<lambda>l. l\<lparr>lt_join := None\<rparr>) s))"
| e_unlock: "lt_phase s t = At i P_unlock \<Longrightarrow> lt_pc s t = T_dead v \<Longrightarrow>
    lt_eff s (at t (At i P_detach) (lthread_unlock t s))"
| e_detach: "lt_phase s t = At i P_detach \<Longrightarrow> lt_pc s t = T_dead v \<Longrightarrow>
    lt_eff s (exit_detach i t s)"

lemma eff_queue: "lt_eff s s' \<Longrightarrow> inv_queue s \<Longrightarrow> inv_queue s'"
  by (induction rule: lt_eff.induct) (auto simp: inv_queue_def lt_step_defs split: if_splits)

lemma eff_cur: 
  assumes "lt_eff s s'" and "inv_cur s" 
  shows "inv_cur s'"
  using assms
proof (induction rule: lt_eff.induct)
  case (e_dequeue s i t q k)
  show ?case using e_dequeue.prems by (rule inv_cur_take) (use e_dequeue.hyps in \<open>auto simp: lt_step_defs\<close>)
next
  case (e_back_user s t i)
  show ?case using e_back_user.prems by (rule inv_cur_idle) (use e_back_user.hyps in \<open>auto simp: lt_step_defs\<close>)
next
  case (e_back_wait s t i k)
  show ?case using e_back_wait.prems by (rule inv_cur_idle) (use e_back_wait.hyps in \<open>auto simp: lt_step_defs\<close>)
next
  case (e_detach s t i v)
  show ?case using e_detach.prems by (rule inv_cur_idle) (use e_detach.hyps in \<open>auto simp: lt_step_defs\<close>)
qed (auto simp: inv_cur_def lt_step_defs split: if_splits)

lemma eff_lock:
  assumes "lt_eff s s'" and "inv_lock s" 
  shows "inv_lock s'"
  using assms
proof (induction rule: lt_eff.induct)
  case (e_exit_lock s t i v)
  show ?case using e_exit_lock.prems
    by (rule inv_lock_acquire [where j = t and t = t]) (use e_exit_lock.hyps in \<open>auto simp: lt_step_defs\<close>)
next
  case (e_join_lock s t i j)
  show ?case using e_join_lock.prems
    by (rule inv_lock_acquire [where j = j and t = t]) (use e_join_lock.hyps in \<open>auto simp: lt_step_defs\<close>)
next
  case (e_init_lock s t i)
  show ?case using e_init_lock.prems
    by (rule inv_lock_acquire [where j = t and t = t]) (use e_init_lock.hyps in \<open>auto simp: lt_step_defs\<close>)
next
  case (e_join_unlock s t i j)
  show ?case using e_join_unlock.prems
    by (rule inv_lock_release [where j = j and t = t]) (use e_join_unlock.hyps in \<open>auto simp: lt_step_defs\<close>)
next
  case (e_join_fail s t i j)
  show ?case using e_join_fail.prems
    by (rule inv_lock_release [where j = j and t = t]) (use e_join_fail.hyps in \<open>auto simp: lt_step_defs\<close>)
next
  case (e_init s t i)
  show ?case using e_init.prems
    by (rule inv_lock_release [where j = t and t = t]) (use e_init.hyps in \<open>auto simp: lt_step_defs\<close>)
next
  case (e_back_wait s t i k)
  show ?case using e_back_wait.prems
    by (rule inv_lock_release [where j = k and t = t]) (use e_back_wait.hyps in \<open>auto simp: lt_step_defs\<close>)
next
  case (e_unlock s t i v)
  show ?case using e_unlock.prems
    by (rule inv_lock_release [where j = t and t = t]) (use e_unlock.hyps in \<open>auto simp: lt_step_defs\<close>)
qed (erule inv_lock_same; auto simp: lt_step_defs lt_zero_def split: if_splits)+

lemma eff_place:
  assumes "lt_eff s s'" and "lt_inv s"
  shows "inv_place s'"
  using assms
proof (induction rule: lt_eff.induct)
  case (e_join_lock s t i j)
  then show ?case using lock_place(1) [of s] by (simp add: lt_inv_def)
next
  case (e_join_unlock s t i j)
  then show ?case using lock_place(2) [of s] by (simp add: lt_inv_def)
next
  case (e_join_fail s t i j)
  then show ?case using lock_place(3) [of s] by (simp add: lt_inv_def)
next
  case (e_join_tested s t i j)
  then show ?case using join_tested_other(3) [of s] by (simp add: lt_inv_def)
next
  case (e_back_wait s t i k)
  then show ?case using returned_wait_place [of s] by (simp add: lt_inv_def)
next
  case (e_detach_cas s t i j)
  then show ?case using detach_cas_place [of s] by (simp add: lt_inv_def)
qed (unfold lt_inv_def inv_place_def lt_step_defs, auto simp: place_ok_def split: if_splits)

lemma eff_claim:
  assumes "lt_eff s s'" and "lt_inv s"
  shows "inv_claim s'"
  using assms
proof (induction rule: lt_eff.induct)
  case (e_call_join s t i j)
  then show ?case using call_join_claim [of s] by (simp add: lt_inv_def)
next
  case (e_call_detach s t i j)
  then show ?case using call_detach_claim [of s] by (simp add: lt_inv_def)
next
  case (e_detach_cas s t i j)
  then show ?case using detach_cas_claim [of s] by (simp add: lt_inv_def)
next
  case (e_create s t i c detached)
  then show ?case using create_claim [of s] by (simp add: lt_inv_def)
next
  case (e_join_free s t i j v)
  then show ?case using join_free_claim [of s] by (simp add: lt_inv_def)
next
  case (e_detach s t i v)
  then show ?case using detach_claim [of s] by (simp add: lt_inv_def)
qed (unfold lt_inv_def, elim conjE, erule inv_claim_frame; auto simp: lt_step_defs lt_zero_def split: if_splits)+

lemma eff_dead:
  assumes "lt_eff s s'" and "lt_inv s"
  shows "inv_dead s'"
  using assms
proof (induction rule: lt_eff.induct)
  case (e_join_read s t i j)
  then show ?case using join_read_dead [of s] by (simp add: lt_inv_def)
next
  case (e_join_free s t i j v)
  then show ?case using join_free_dead [of s] by (simp add: lt_inv_def)
next
  case (e_join_tested s t i j)
  then show ?case using join_tested_dead [of s] by (simp add: lt_inv_def)
next
  case (e_wake_some s t i v w)
  then show ?case using wake_other(1) [of s] by (simp add: lt_inv_def)
next
  case (e_detach s t i v)
  then show ?case using detach_dead [of s] by (simp add: lt_inv_def)
qed (unfold lt_inv_def, elim conjE, erule inv_dead_frame; auto simp: lt_step_defs lt_zero_def split: if_splits)+

lemma eff_wait:
  assumes "lt_eff s s'" and "lt_inv s"
  shows "inv_wait s'"
  using assms
proof (induction rule: lt_eff.induct)
  case (e_create s t i c detached)
  then show ?case using create_wait [of s] by (simp add: lt_inv_def)
next
  case (e_join_tested s t i j)
  then show ?case using join_tested_other(1) [of s] by (simp add: lt_inv_def)
next
  case (e_clear s t i v)
  then show ?case using clear_wait [of s] by (simp add: lt_inv_def)
next
  case (e_wake_some s t i v w)
  then show ?case using wake_other(2) [of s] by (simp add: lt_inv_def)
qed (unfold lt_inv_def, elim conjE, erule inv_wait_frame; auto simp: lt_step_defs lt_zero_def split: if_splits)+

lemma eff_joiner:
  assumes "lt_eff s s'" and "lt_inv s"
  shows "inv_joiner s'"
  using assms
proof (induction rule: lt_eff.induct)
  case (e_join_tested s t i j)
  then show ?case using join_tested_other(2) [of s] by (simp add: lt_inv_def)
next
  case (e_wake_some s t i v w)
  then show ?case using wake_other(3) [of s] by (simp add: lt_inv_def)
qed (unfold lt_inv_def, elim conjE, erule inv_joiner_frame; auto simp: lt_step_defs lt_zero_def split: if_splits)+

lemma eff_inv: "lt_eff s s' \<Longrightarrow> lt_inv s \<Longrightarrow> lt_inv s'"
  using eff_queue eff_cur eff_lock eff_place eff_claim eff_dead eff_wait eff_joiner
  by (auto simp: lt_inv_def)

lemma touch_ok: "\<not> lt_bad (touch x s s') \<Longrightarrow> \<not> lt_freed s x \<and> touch x s s' = s'"
  by (simp add: touch_def split: if_splits)

lemma placed_user: "placed pc (At i p) \<Longrightarrow> p = P_init \<or> p = P_init_locked \<Longrightarrow> pc = T_user"
  by (cases pc) auto

lemma placed_dead: "placed pc (At i p) \<Longrightarrow> p = P_wake \<or> p = P_clear \<or> p = P_unlock \<or> p = P_detach \<Longrightarrow> \<exists>v. pc = T_dead v"
  by (cases pc) auto

lemma placed_runnable: "placed pc ph \<Longrightarrow> ph = InQ \<or> ph = At i P_resume \<or> ph = At i P_switch \<Longrightarrow>
    pc = T_user \<or> (\<exists>k. pc = T_join_wait k)"
  by (cases pc) auto

lemma inv_placed: "lt_inv s \<Longrightarrow> lt_phase s t = ph \<Longrightarrow> placed (lt_pc s t) ph"
  using placeD [of s t] by (auto simp: lt_inv_def place_ok_def)

text \<open>The thread a dead thread wakes waits for it, and has been switched away.\<close>

lemma wake_facts:
  assumes "lt_inv s" and t: "lt_phase s t = At i P_wake" "lt_pc s t = T_dead v" "lt_join (lt_obj s t) = Some w"
  shows "w \<noteq> t \<and> lt_phase s w = Parked \<and> lt_pc s w = T_join_wait t"
proof -
  from joinerD [of s t w] assms have r: "registered (lt_pc s w) (lt_phase s w)" "joins (lt_pc s w) = Some t"
    by (auto simp: lt_inv_def)
  then have w: "lt_pc s w = T_join_wait t" by (cases "lt_pc s w") auto
  with t have "w \<noteq> t" by auto
  have own: "locks u (lt_pc s u) (lt_phase s u) = Some t \<longleftrightarrow> lt_own s t = Some u" for u
    using assms(1) by (simp add: lt_inv_def inv_lock_def)
  have "lt_phase s w \<noteq> At k P_back" for k
    using own [of t] own [of w] t w \<open>w \<noteq> t\<close> by auto
  with r w \<open>w \<noteq> t\<close> show ?thesis by auto
qed

lemma back_eff:
  assumes inv: "lt_inv s" and t: "lt_phase s t = At i P_back" and ok: "\<not> lt_bad (switched_back i t s)" "\<not> lt_bad s"
  shows "lt_eff s (switched_back i t s)"
proof -
  have p: "place_ok (lt_pc s t) (lt_phase s t) (lt_obj s t) (lt_claimed s t)" using inv by (simp add: lt_inv_def placeD)
  then have "lt_pc s t = T_user \<or> (\<exists>k. lt_pc s t = T_join_wait k) \<or> (\<exists>v. lt_pc s t = T_dead v)"
    using t by (cases "lt_pc s t") (auto simp: place_ok_def)
  then show ?thesis
  proof (elim disjE exE)
    assume "lt_pc s t = T_user"
    with p t lt_eff.e_back_user [OF t] show ?thesis by (simp add: place_ok_def switched_back_def lt_state_def)
  next
    fix k assume k: "lt_pc s t = T_join_wait k"
    with p t have "switched_back i t s = touch k s (sched_idle i (at t Parked (lthread_unlock k s)))"
      by (auto simp: place_ok_def switched_back_def lt_state_def)
    with ok lt_eff.e_back_wait [OF t k] touch_ok show ?thesis by metis
  next
    fix v assume "lt_pc s t = T_dead v"
    with p t lt_eff.e_back_dead [OF t] show ?thesis by (auto simp: place_ok_def switched_back_def lt_state_def)
  qed
qed

lemma wake_eff:
  assumes inv: "lt_inv s" and t: "lt_phase s t = At i P_wake"
  shows "lt_eff s (exit_wake i t s)"
proof -
  obtain v where v: "lt_pc s t = T_dead v" using placed_dead [OF inv_placed [OF inv t]] by auto
  show ?thesis
  proof (cases "lt_join (lt_obj s t)")
    case None
    with lt_eff.e_wake_none [OF t v] show ?thesis by (simp add: exit_wake_def)
  next
    case (Some w)
    with wake_facts [OF inv t v Some] lt_eff.e_wake_some [OF t v Some] show ?thesis by (simp add: exit_wake_def)
  qed
qed

lemma dequeue_facts:
  assumes "lt_inv s" and "lt_queue s = t # q"
  shows "lt_phase s t = InQ" and "lt_pc s t = T_user \<or> (\<exists>k. lt_pc s t = T_join_wait k)"
proof -
  show q: "lt_phase s t = InQ" using assms by (auto simp: lt_inv_def inv_queue_def)
  show "lt_pc s t = T_user \<or> (\<exists>k. lt_pc s t = T_join_wait k)" using placed_runnable [OF inv_placed [OF assms(1) q]] by simp
qed

lemma unborn_facts: "lt_inv s \<Longrightarrow> lt_phase s c = Unborn \<Longrightarrow> lt_pc s c = T_user \<and> lt_obj s c = lt_zero"
  using placeD [of s c] by (cases "lt_pc s c") (auto simp: lt_inv_def place_ok_def)

lemma lt_step_eff:
  assumes "lt_step n a s s'" and "contract a s" and inv: "lt_inv s" and "\<not> lt_bad s'" and "\<not> lt_bad s"
  shows "lt_eff s s'"
  using assms
proof (induction rule: lt_step.induct)
  case (create s t i c detached)
  then show ?case using unborn_facts [of s c] by (auto intro: lt_eff.e_create)
next
  case (dequeue i s t q)
  with dequeue_facts [of s t q] show ?case by (auto intro: lt_eff.e_dequeue)
next
  case (call_join s t i j)
  then show ?case using touch_ok [of j s "join_call t j s"] lt_eff.e_call_join [of s t i j] by simp
next
  case (call_detach s t i j)
  then show ?case using lt_eff.e_call_detach [of s t i j] by simp
next
  case (resume s t i)
  then show ?case using placed_runnable [OF inv_placed [of s t], of "At i P_resume"] touch_ok
    by (metis lt_eff.e_resume)
next
  case (init_lock s t i)
  then show ?case using placed_user [OF inv_placed [of s t]] touch_ok by (metis lt_eff.e_init_lock)
next
  case (init s t i)
  then show ?case using placed_user [OF inv_placed [of s t]] touch_ok by (metis lt_eff.e_init)
next
  case (switch s t i)
  then show ?case using placed_runnable [OF inv_placed [of s t], of "At i P_switch"] touch_ok
    by (metis lt_eff.e_switch)
next
  case (returned s t i)
  then show ?case using back_eff [of s t i] touch_ok by metis
next
  case (wake s t i)
  then show ?case using wake_eff [of s t i] touch_ok by metis
next
  case (clear s t i)
  then show ?case using placed_dead [OF inv_placed [of s t]] touch_ok by (metis lt_eff.e_clear)
next
  case (unlock s t i)
  then show ?case using placed_dead [OF inv_placed [of s t]] touch_ok by (metis lt_eff.e_unlock)
next
  case (detach s t i)
  then show ?case using placed_dead [OF inv_placed [of s t]] touch_ok by (metis lt_eff.e_detach)
qed (use touch_ok in \<open>metis lt_eff.intros\<close>)+

lemma lt_reach_inv: "lt_reach n s \<Longrightarrow> \<not> lt_bad s \<Longrightarrow> lt_inv s"
proof (induction rule: lt_reach.induct)
  case lt_start
  show ?case by (rule lt_inv_init)
next
  case (lt_next s a s')
  then show ?case using eff_inv [OF lt_step_eff] by blast
qed

text \<open>The states of two threads and two schedulers: an execution that frees a thread too early.\<close>

definition conf where
  "conf st0 st1 j1 cb0 r1 pc0 pc1 ph0 ph1 c0 c1 q f1 o0 o1 cl =
    \<lparr>lt_obj = (\<lambda>_. lt_zero)(0 := \<lparr>attr_state = st0, lt_join = None, yield_cb = cb0, yield_cbarg = 0\<rparr>,
       1 := \<lparr>attr_state = st1, lt_join = j1, yield_cb = Cb_none, yield_cbarg = r1\<rparr>),
     lt_pc = (\<lambda>_. T_user)(0 := pc0, 1 := pc1), lt_phase = (\<lambda>_. Unborn)(0 := ph0, 1 := ph1),
     lt_cur = (\<lambda>_. None)(0 := c0, 1 := c1), lt_queue = q, lt_freed = (\<lambda>_. False)(1 := f1),
     lt_own = (\<lambda>_. None)(0 := o0, 1 := o1), lt_claimed = (\<lambda>_. None)(1 := cl), lt_bad = False\<rparr>"

lemmas conf_defs = conf_def lt_step_defs touch_def lt_zero_def has_def BIT_def lt_st_defs init_state_def

lemma lt_go: "lt_reach n s \<Longrightarrow> \<not> lt_bad s \<Longrightarrow> lt_step n a s s' \<Longrightarrow> contract a s \<Longrightarrow> s' = x \<Longrightarrow> lt_reach n x"
  by (auto intro: lt_next)

lemma uaf_both_run: "lt_reach 2 (conf 2 2 None Cb_none 0 T_user T_user (At 0 P_run) (At 1 P_run) (Some 0)
        (Some 1) [] False None None None)"
proof -
  have "lt_init = conf 1 0 None Cb_none 0 T_user T_user InQ Unborn None None [0] False None None None"
    by (simp add: conf_defs lt_init_def fun_eq_iff)
  with lt_start [of 2] have "lt_reach 2
        (conf 1 0 None Cb_none 0 T_user T_user InQ Unborn None None [0] False None None None)" by simp
  then have "lt_reach 2 (conf 1 0 None Cb_none 0 T_user T_user (At 0 P_resume) Unborn
        (Some 0) None [] False None None None)"
    by (rule lt_go [OF _ _ lt_step.dequeue [where i = 0 and t = 0]]) (auto simp: conf_defs fun_eq_iff)
  then have "lt_reach 2 (conf 1 0 None Cb_none 0 T_user T_user (At 0 P_init) Unborn
        (Some 0) None [] False None None None)"
    by (rule lt_go [OF _ _ lt_step.resume [where i = 0 and t = 0]]) (auto simp: conf_defs fun_eq_iff)
  then have "lt_reach 2 (conf 9 0 None Cb_none 0 T_user T_user (At 0 P_init_locked) Unborn
        (Some 0) None [] False (Some 0) None None)"
    by (rule lt_go [OF _ _ lt_step.init_lock [where i = 0 and t = 0]]) (auto simp: conf_defs fun_eq_iff)
  then have "lt_reach 2 (conf 2 0 None Cb_none 0 T_user T_user (At 0 P_switch) Unborn
        (Some 0) None [] False None None None)"
    by (rule lt_go [OF _ _ lt_step.init [where i = 0 and t = 0]]) (auto simp: conf_defs fun_eq_iff)
  then have "lt_reach 2 (conf 2 0 None Cb_none 0 T_user T_user (At 0 P_run) Unborn
        (Some 0) None [] False None None None)"
    by (rule lt_go [OF _ _ lt_step.switch [where i = 0 and t = 0]]) (auto simp: conf_defs fun_eq_iff)
  then have "lt_reach 2 (conf 2 1 None Cb_none 0 T_user T_user (At 0 P_run) InQ
        (Some 0) None [1] False None None None)"
    by (rule lt_go [OF _ _ lt_step.create [where i = 0 and t = 0 and c = 1 and detached = False]]) (auto simp: conf_defs fun_eq_iff)
  then have "lt_reach 2 (conf 2 1 None Cb_none 0 T_user T_user (At 0 P_run) (At 1 P_resume) (Some 0)
        (Some 1) [] False None None None)"
    by (rule lt_go [OF _ _ lt_step.dequeue [where i = 1 and t = 1]]) (auto simp: conf_defs fun_eq_iff)
  then have "lt_reach 2 (conf 2 1 None Cb_none 0 T_user T_user (At 0 P_run) (At 1 P_init) (Some 0)
        (Some 1) [] False None None None)"
    by (rule lt_go [OF _ _ lt_step.resume [where i = 1 and t = 1]]) (auto simp: conf_defs fun_eq_iff)
  then have "lt_reach 2 (conf 2 9 None Cb_none 0 T_user T_user (At 0 P_run) (At 1 P_init_locked) (Some 0)
        (Some 1) [] False None (Some 1) None)"
    by (rule lt_go [OF _ _ lt_step.init_lock [where i = 1 and t = 1]]) (auto simp: conf_defs fun_eq_iff)
  then have "lt_reach 2 (conf 2 2 None Cb_none 0 T_user T_user (At 0 P_run) (At 1 P_switch) (Some 0)
        (Some 1) [] False None None None)"
    by (rule lt_go [OF _ _ lt_step.init [where i = 1 and t = 1]]) (auto simp: conf_defs fun_eq_iff)
  then show ?thesis
    by (rule lt_go [OF _ _ lt_step.switch [where i = 1 and t = 1]]) (auto simp: conf_defs fun_eq_iff)
qed

lemma uaf_woken: "lt_reach 2 (conf 2 14 (Some 0) (Cb_unlock 1) 7 (T_join_wait 1) (T_dead 7) InQ
        (At 1 P_clear) None (Some 1) [0] False None (Some 1) (Some 0))"
proof -
  note uaf_both_run
  then have "lt_reach 2 (conf 2 2 None Cb_none 0 (T_join 1) T_user (At 0 P_run) (At 1 P_run) (Some 0)
        (Some 1) [] False None None (Some 0))"
    by (rule lt_go [OF _ _ lt_step.call_join [where i = 0 and t = 0 and j = 1]]) (auto simp: conf_defs fun_eq_iff)
  then have "lt_reach 2 (conf 2 10 None Cb_none 0 (T_join_test 1) T_user (At 0 P_run) (At 1 P_run) (Some 0)
        (Some 1) [] False None (Some 0) (Some 0))"
    by (rule lt_go [OF _ _ lt_step.join_lock [where i = 0 and t = 0 and j = 1]]) (auto simp: conf_defs fun_eq_iff)
  then have "lt_reach 2 (conf 2 10 (Some 0) (Cb_unlock 1) 0 (T_join_wait 1) T_user (At 0 P_back) (At 1 P_run)
        (Some 0) (Some 1) [] False None (Some 0) (Some 0))"
    by (rule lt_go [OF _ _ lt_step.join_tested [where i = 0 and t = 0 and j = 1]]) (auto simp: conf_defs fun_eq_iff)
  then have "lt_reach 2 (conf 2 2 (Some 0) (Cb_unlock 1) 0 (T_join_wait 1) T_user Parked (At 1 P_run) None
        (Some 1) [] False None None (Some 0))"
    by (rule lt_go [OF _ _ lt_step.returned [where i = 0 and t = 0]]) (auto simp: conf_defs fun_eq_iff)
  then have "lt_reach 2 (conf 2 2 (Some 0) (Cb_unlock 1) 0 (T_join_wait 1) (T_exit 7) Parked (At 1 P_run) None
        (Some 1) [] False None None (Some 0))"
    by (rule lt_go [OF _ _ lt_step.call_exit [where i = 1 and t = 1 and v = 7]]) (auto simp: conf_defs fun_eq_iff)
  then have "lt_reach 2 (conf 2 10 (Some 0) (Cb_unlock 1) 0 (T_join_wait 1) (T_exit_locked 7) Parked
        (At 1 P_run) None (Some 1) [] False None (Some 1) (Some 0))"
    by (rule lt_go [OF _ _ lt_step.exit_lock [where i = 1 and t = 1 and v = 7]]) (auto simp: conf_defs fun_eq_iff)
  then have "lt_reach 2 (conf 2 14 (Some 0) (Cb_unlock 1) 7 (T_join_wait 1) (T_dead 7) Parked
        (At 1 P_back) None (Some 1) [] False None (Some 1) (Some 0))"
    by (rule lt_go [OF _ _ lt_step.exit_switch [where i = 1 and t = 1 and v = 7]]) (auto simp: conf_defs fun_eq_iff)
  then have "lt_reach 2 (conf 2 14 (Some 0) (Cb_unlock 1) 7 (T_join_wait 1) (T_dead 7) Parked
        (At 1 P_wake) None (Some 1) [] False None (Some 1) (Some 0))"
    by (rule lt_go [OF _ _ lt_step.returned [where i = 1 and t = 1]]) (auto simp: conf_defs fun_eq_iff)
  then show ?thesis
    by (rule lt_go [OF _ _ lt_step.wake [where i = 1 and t = 1]]) (auto simp: conf_defs fun_eq_iff)
qed

lemma uaf_got: "lt_reach 2 (conf 2 14 (Some 0) Cb_none 7 (T_got 1 7) (T_dead 7) (At 0 P_run) (At 1 P_clear)
        (Some 0) (Some 1) [] False None (Some 1) (Some 0))"
proof -
  note uaf_woken
  then have "lt_reach 2 (conf 2 14 (Some 0) (Cb_unlock 1) 7 (T_join_wait 1) (T_dead 7) (At 0 P_resume)
        (At 1 P_clear) (Some 0) (Some 1) [] False None (Some 1) (Some 0))"
    by (rule lt_go [OF _ _ lt_step.dequeue [where i = 0 and t = 0]]) (auto simp: conf_defs fun_eq_iff)
  then have "lt_reach 2 (conf 2 14 (Some 0) (Cb_unlock 1) 7 (T_join_wait 1) (T_dead 7) (At 0 P_switch)
        (At 1 P_clear) (Some 0) (Some 1) [] False None (Some 1) (Some 0))"
    by (rule lt_go [OF _ _ lt_step.resume [where i = 0 and t = 0]]) (auto simp: conf_defs fun_eq_iff)
  then have "lt_reach 2 (conf 2 14 (Some 0) Cb_none 7 (T_join_wait 1) (T_dead 7) (At 0 P_run) (At 1 P_clear)
        (Some 0) (Some 1) [] False None (Some 1) (Some 0))"
    by (rule lt_go [OF _ _ lt_step.switch [where i = 0 and t = 0]]) (auto simp: conf_defs fun_eq_iff)
  then show ?thesis
    by (rule lt_go [OF _ _ lt_step.join_read [where i = 0 and t = 0 and j = 1]]) (auto simp: conf_defs fun_eq_iff)
qed

lemma uaf_freed: "lt_reach 2 (conf 2 14 (Some 0) Cb_none 7 T_user (T_dead 7) (At 0 P_run) (At 1 P_clear)
        (Some 0) (Some 1) [] True None (Some 1) (Some 0))"
  by (rule lt_go [OF uaf_got _ lt_step.join_free [where i = 0 and t = 0 and j = 1 and v = 7]])
    (auto simp: conf_defs fun_eq_iff)

lemma uaf_last:
  defines "s \<equiv> conf 2 14 (Some 0) Cb_none 7 T_user (T_dead 7) (At 0 P_run) (At 1 P_clear) (Some 0)
        (Some 1) [] True None (Some 1) (Some 0)"
  shows "lt_step 2 Internal s (s\<lparr>lt_bad := True\<rparr>)"
  using lt_step.clear [of s 1 1 2] by (simp add: s_def conf_defs)

section \<open>Who can touch freed memory\<close>

text \<open>
  A thread that is dead and whose joiner may already run: its scheduler is past the wake-up in
  \<open>_lthread_resume\<close>, or is done with it.
\<close>

fun late :: "phase \<Rightarrow> bool" where
  "late (At i p) \<longleftrightarrow> p \<in> {P_clear, P_unlock, P_detach}"
| "late ph \<longleftrightarrow> ph = Gone"

definition inv_late :: "lt_sys \<Rightarrow> bool" where
  "inv_late s \<longleftrightarrow> (\<forall>t j. joins (lt_pc s t) = Some j \<longrightarrow> needs_dead (lt_pc s t) (lt_phase s t) \<longrightarrow> late (lt_phase s j)) \<and>
     (\<forall>j. lt_freed s j \<longrightarrow> late (lt_phase s j))"

lemma inv_late_frame:
  assumes "inv_late s"
    and "\<And>u j. joins (lt_pc s' u) = Some j \<Longrightarrow> needs_dead (lt_pc s' u) (lt_phase s' u) \<Longrightarrow>
      (joins (lt_pc s u) = Some j \<and> needs_dead (lt_pc s u) (lt_phase s u)) \<or> late (lt_phase s' j)"
    and "\<And>u. late (lt_phase s u) \<Longrightarrow> late (lt_phase s' u)"
    and "\<And>u. lt_freed s' u \<Longrightarrow> lt_freed s u \<or> late (lt_phase s' u)"
  shows "inv_late s'"
  using assms unfolding inv_late_def by metis

text \<open>A thread whose exit flag is seen under its lock is past the unlock.\<close>

lemma tested_late:
  assumes inv: "lt_inv s" and t: "lt_pc s t = T_join_test j" and x: "has LT_ST_EXITED (lt_state s j)"
  shows "late (lt_phase s j)"
proof -
  have "place_ok (lt_pc s j) (lt_phase s j) (lt_obj s j) (lt_claimed s j)" using inv by (simp add: lt_inv_def placeD)
  with x have j: "dead (lt_pc s j)" "placed (lt_pc s j) (lt_phase s j)" by (simp_all add: place_ok_def lt_state_def)
  have own: "locks u (lt_pc s u) (lt_phase s u) = Some j \<longleftrightarrow> lt_own s j = Some u" for u
    using inv by (simp add: lt_inv_def inv_lock_def)
  have "locks j (lt_pc s j) (lt_phase s j) \<noteq> Some j" using own [of t] own [of j] t j(1) by auto
  with j show ?thesis by (cases "lt_pc s j"; cases "lt_phase s j") (auto split: if_splits)
qed

lemma eff_late:
  assumes "lt_eff s s'" and "lt_inv s" and "inv_late s"
  shows "inv_late s'"
  using assms
proof (induction rule: lt_eff.induct)
  case (e_join_tested s t i j)
  show ?case using e_join_tested(4)
    by (rule inv_late_frame) (use e_join_tested tested_late [of s t j] in \<open>auto simp: lt_step_defs split: if_splits\<close>)
next
  case (e_join_free s t i j v)
  have "late (lt_phase s j)" using e_join_free(2,4) unfolding inv_late_def
    by (metis joins.simps(8) needs_dead.simps(3))
  then show ?case using e_join_free(4)
    by (elim inv_late_frame) (use e_join_free in \<open>auto simp: lt_step_defs split: if_splits\<close>)
next
  case (e_wake_some s t i v w)
  show ?case using e_wake_some(8)
    by (rule inv_late_frame) (use e_wake_some in \<open>auto simp: lt_step_defs split: if_splits\<close>)
qed (erule inv_late_frame; auto simp: lt_step_defs split: if_splits)+

lemma lt_reach_late: "lt_reach n s \<Longrightarrow> \<not> lt_bad s \<Longrightarrow> inv_late s"
proof (induction rule: lt_reach.induct)
  case lt_start
  show ?case by (simp add: inv_late_def lt_init_def lt_step_defs)
next
  case (lt_next s a s')
  then show ?case using eff_late [OF lt_step_eff] lt_reach_inv by blast
qed

text \<open>A step that touches freed memory is one of the steps of a scheduler after the wake-up.\<close>

lemma not_bad_ops:
  "\<not> lt_bad s \<Longrightarrow> \<not> lt_bad (lthread_create detached c s) \<and> \<not> lt_bad (lthread_yield_cb i t cb s) \<and>
    \<not> lt_bad (exit_yield i t v s) \<and> \<not> lt_bad (join_call t j s) \<and> \<not> lt_bad (detach_call t j s) \<and> \<not> lt_bad (lthread_detach2 t j s) \<and> \<not> lt_bad (join_test i t j s) \<and>
    \<not> lt_bad (take_next i t s) \<and> \<not> lt_bad (lthread_init i t s) \<and> \<not> lt_bad (switch_to i t s) \<and>
    \<not> lt_bad (exit_wake i t s) \<and> \<not> lt_bad (exit_detach i t s)"
  by (simp add: lt_step_defs split: option.splits)

definition in_use :: "lt_sys \<Rightarrow> nat \<Rightarrow> bool" where
  "in_use s x \<longleftrightarrow> (\<exists>i p. lt_phase s x = At i p) \<or> (\<exists>u. joins (lt_pc s u) = Some x) \<or>
     (\<exists>u i. lt_phase s u = At i P_back \<and> \<not> has LT_ST_EXITED (lt_state s u) \<and> yield_cb (lt_obj s u) = Cb_unlock x)"

lemma in_useI:
  "joins (lt_pc s u) = Some x \<Longrightarrow> in_use s x" "lt_phase s x = At i p \<Longrightarrow> in_use s x"
  "lt_phase s u = At i P_back \<Longrightarrow> \<not> has LT_ST_EXITED (lt_state s u) \<Longrightarrow> yield_cb (lt_obj s u) = Cb_unlock x \<Longrightarrow> in_use s x"
  by (auto simp: in_use_def)

lemma touch_freed: "lt_bad (touch x s s') \<Longrightarrow> \<not> lt_bad s' \<Longrightarrow> lt_freed s x"
  by (simp add: touch_def split: if_splits)

lemma not_bad_prims [simp]:
  "lt_bad (goto t pc s) = lt_bad s" "lt_bad (at t p s) = lt_bad s" "lt_bad (set_obj t f s) = lt_bad s"
  "lt_bad (lthread_lock u t s) = lt_bad s" "lt_bad (lthread_unlock t s) = lt_bad s"
  "lt_bad (lthread_free t s) = lt_bad s" "lt_bad (sched_idle i s) = lt_bad s" "lt_bad (scheduler_enqueue t s) = lt_bad s"
  by (simp_all add: lt_step_defs)

lemma touched: "lt_step n a s s' \<Longrightarrow> contract a s \<Longrightarrow> \<not> lt_bad s \<Longrightarrow> lt_bad s' \<Longrightarrow> \<exists>x. lt_freed s x \<and> in_use s x"
proof (induction rule: lt_step.induct)
  case (call_join s t i j)
  then show ?case using not_bad_ops [of s] by (simp add: touch_def)
next
  case (detach_cas s t i j)
  then show ?case using in_useI(1) [of s t j] touch_freed not_bad_ops by fastforce
next
  case (join_lock s t i j)
  then show ?case using in_useI(1) [of s t j] touch_freed by fastforce
next
  case (join_tested s t i j)
  then show ?case using in_useI(1) [of s t j] touch_freed not_bad_ops by fastforce
next
  case (join_unlock s t i j)
  then show ?case using in_useI(1) [of s t j] touch_freed by fastforce
next
  case (join_fail s t i j)
  then show ?case using in_useI(1) [of s t j] touch_freed by fastforce
next
  case (join_read s t i j)
  then show ?case using in_useI(1) [of s t j] touch_freed by fastforce
next
  case (join_free s t i j v)
  then show ?case using in_useI(1) [of s t j] touch_freed by fastforce
next
  case (returned s t i)
  then have "lt_freed s t \<or> (\<exists>j. \<not> has LT_ST_EXITED (lt_state s t) \<and> yield_cb (lt_obj s t) = Cb_unlock j \<and> lt_freed s j)"
    by (auto simp: touch_def switched_back_def split: if_splits callback.splits)
  with returned(1) in_useI(2,3) show ?case by blast
qed (auto simp: not_bad_ops intro: in_useI(2) dest!: touch_freed)

lemma bad_step_late:
  assumes "lt_step n a s s'" and "contract a s" and inv: "lt_inv s" and "inv_late s" and "\<not> lt_bad s" and "lt_bad s'"
  shows "\<exists>t i p. lt_phase s t = At i p \<and> p \<in> {P_clear, P_unlock, P_detach} \<and> lt_freed s t"
proof -
  obtain x where x: "lt_freed s x" and r: "in_use s x" using touched [OF assms(1,2,5,6)] by blast
  have claim: "joins (lt_pc s u) \<noteq> Some x" for u
    using x inv joins_claimed by (auto simp: lt_inv_def)
  have "\<not> (lt_phase s u = At i P_back \<and> \<not> has LT_ST_EXITED (lt_state s u) \<and> yield_cb (lt_obj s u) = Cb_unlock x)" for u i
    using placeD [of s u] inv claim [of u]
    by (cases "lt_pc s u") (auto simp: lt_inv_def place_ok_def lt_state_def)
  with claim r obtain i p where p: "lt_phase s x = At i p" unfolding in_use_def by blast
  moreover have "late (lt_phase s x)" using x assms(4) by (simp add: inv_late_def)
  ultimately show ?thesis using x by auto
qed

text \<open>With one scheduler, the thread that frees another is the one the scheduler works on.\<close>

lemma lt_step_cpu: "lt_step n a s s' \<Longrightarrow> \<forall>t i p. lt_phase s t = At i p \<longrightarrow> i < n \<Longrightarrow> \<forall>t i p. lt_phase s' t = At i p \<longrightarrow> i < n"
  by (induction rule: lt_step.induct) (auto simp: touch_def lt_step_defs split: if_splits option.splits callback.splits)

lemma lt_reach_cpu: "lt_reach n s \<Longrightarrow> lt_phase s t = At i p \<Longrightarrow> i < n"
proof (induction arbitrary: t i p rule: lt_reach.induct)
  case lt_start
  then show ?case by (auto simp: lt_init_def lt_step_defs split: if_splits)
next
  case (lt_next s a s')
  then show ?case using lt_step_cpu [of n a s s'] by blast
qed

lemma eff_freed: 
  assumes "lt_eff s s'" and "lt_inv s" and "inv_late s" and cpu: "\<And>t i p. lt_phase s t = At i p \<Longrightarrow> i = 0"
    and "\<And>j. lt_freed s j \<Longrightarrow> lt_phase s j = Gone" and "lt_freed s' j"
  shows "lt_phase s' j = Gone"
  using assms
proof (induction rule: lt_eff.induct)
  case (e_join_free s t i k v)
  have "late (lt_phase s k)" using e_join_free(2,4) unfolding inv_late_def
    by (metis joins.simps(8) needs_dead.simps(3))
  moreover have "lt_phase s k \<noteq> At q p" for q p
  proof
    assume k: "lt_phase s k = At q p"
    with e_join_free have "q = i" by metis
    with k e_join_free(1,3) have "k = t" unfolding lt_inv_def inv_cur_def by (metis option.inject)
    with e_join_free(1,2,3) inv_placed [of s t] deadD(2) [of s t t v] show False by (auto simp: lt_inv_def)
  qed
  ultimately have "lt_phase s k = Gone" by (cases "lt_phase s k") auto
  with e_join_free show ?case by (auto simp: lt_step_defs split: if_splits)
qed (fastforce simp: lt_step_defs split: if_splits)+

lemma lt_reach_one: "lt_reach 1 s \<Longrightarrow> \<not> lt_bad s \<and> (\<forall>j. lt_freed s j \<longrightarrow> lt_phase s j = Gone)"
proof (induction rule: lt_reach.induct)
  case lt_start
  show ?case by (simp add: lt_init_def lt_step_defs)
next
  case (lt_next s a s')
  have inv: "lt_inv s" "inv_late s" using lt_next lt_reach_inv lt_reach_late by blast+
  have cpu: "lt_phase s t = At i p \<Longrightarrow> i = 0" for t i p using lt_reach_cpu [OF lt_next(1)] by force
  have ok: "\<not> lt_bad s'"
    using bad_step_late [OF lt_next(4,3) inv lt_next(2)] lt_next.IH by force
  have "lt_phase s' j = Gone" if "lt_freed s' j" for j
    by (rule eff_freed [OF lt_step_eff [OF lt_next(4,3) inv(1) ok lt_next(2)] inv]) (use cpu lt_next that in auto)
  with ok show ?case by blast
qed

section \<open>What holds of every execution\<close>

text \<open>
  C30: a thread is never run by two schedulers, and never waits in the queue while a scheduler has
  it: the queue holds a thread at most once and only threads no scheduler works on, whatever the
  number of schedulers and the interleaving of creating, yielding, joining, detaching and exiting, as long as the program joins or detaches each
  thread at most once and no freed memory has been touched.
\<close>

theorem runs_on_one_scheduler:
  assumes "lt_reach n s" and "\<not> lt_bad s"
  shows "distinct (lt_queue s) \<and> (\<forall>t i. t \<in> set (lt_queue s) \<longrightarrow> lt_cur s i \<noteq> Some t) \<and>
    (\<forall>t i k. lt_cur s i = Some t \<longrightarrow> lt_cur s k = Some t \<longrightarrow> i = k)"
proof (intro conjI allI impI)
  have inv: "inv_queue s" "inv_cur s" using lt_reach_inv [OF assms] by (simp_all add: lt_inv_def)
  then show "distinct (lt_queue s)" by (simp add: inv_queue_def)
  show "lt_cur s i \<noteq> Some t" if "t \<in> set (lt_queue s)" for t i using that inv by (auto simp: inv_queue_def inv_cur_def)
  show "i = k" if "lt_cur s i = Some t" "lt_cur s k = Some t" for t i k using that inv(2) unfolding inv_cur_def
    by (metis phase.inject)
qed

theorem runs_on_one_scheduler_witness:
  "\<exists>s. lt_reach 2 s \<and> lt_cur s 0 = Some 0 \<and> lt_cur s 1 \<noteq> Some 0 \<and> distinct (lt_queue s)"
proof -
  let ?s = "conf 2 2 None Cb_none 0 T_user T_user (At 0 P_run) (At 1 P_run) (Some 0) (Some 1) [] False None None None"
  have ok: "\<not> lt_bad ?s" "lt_cur ?s 0 = Some 0" by (simp_all add: conf_def)
  have "lt_cur ?s 1 \<noteq> Some 0" using runs_on_one_scheduler [OF uaf_both_run ok(1)] ok(2) by (metis zero_neq_one)
  with runs_on_one_scheduler [OF uaf_both_run ok(1)] ok(2) uaf_both_run show ?thesis by blast
qed

text \<open>
  C29: a join returns what the joined thread exited with. When \<open>lthread_join\<close> of thread \<open>j\<close> has read
  its result \<open>v\<close> (and is about to free \<open>j\<close>), \<open>j\<close> has ended with the value \<open>v\<close>, its memory has
  not been freed, no other thread joins it, and its scheduler is past waking the joiner. The program joins or detaches each thread at
  most once, and no freed memory has been touched so far.
\<close>

theorem join_returns_exit_value:
  assumes "lt_reach n s" and "\<not> lt_bad s" and "lt_pc s t = T_got j v"
  shows "lt_pc s j = T_dead v \<and> \<not> lt_freed s j \<and> late (lt_phase s j) \<and> (\<forall>u. joins (lt_pc s u) = Some j \<longrightarrow> u = t)"
proof -
  have inv: "inv_dead s" "inv_claim s" "inv_late s"
    using lt_reach_inv [OF assms(1,2)] lt_reach_late [OF assms(1,2)] by (simp_all add: lt_inv_def)
  have "lt_pc s j = T_dead v" using inv(1) assms(3) by (rule deadD)
  moreover have "\<not> lt_freed s j" using joins_claimed [OF inv(2), of t j] assms(3) by simp
  moreover have "late (lt_phase s j)" using inv(3) assms(3) unfolding inv_late_def
    by (metis joins.simps(8) needs_dead.simps(3))
  moreover have "u = t" if "joins (lt_pc s u) = Some j" for u using joins_same [OF inv(2) that] assms(3) by simp
  ultimately show ?thesis by blast
qed

theorem join_returns_exit_value_witness:
  "\<exists>s. lt_reach 2 s \<and> lt_pc s 0 = T_got 1 7 \<and> lt_pc s 1 = T_dead 7 \<and> \<not> lt_freed s 1"
proof -
  let ?s = "conf 2 14 (Some 0) Cb_none 7 (T_got 1 7) (T_dead 7) (At 0 P_run) (At 1 P_clear) (Some 0) (Some 1) []
    False None (Some 1) (Some 0)"
  have "\<not> lt_bad ?s" "lt_pc ?s 0 = T_got 1 7" by (simp_all add: conf_def)
  then show ?thesis using join_returns_exit_value [OF uaf_got, of 0 1 7] uaf_got by blast
qed

text \<open>
  The only code that can touch the memory of a freed thread is the tail of \<open>_lthread_resume\<close>
  after it has put the joiner into the queue: clearing \<open>lt_join\<close>, unlocking, and the test for a
  detached thread. Nothing a joiner does touches freed memory, for any number of schedulers.
\<close>

lemma freed_touched_only_after_wake:
  assumes "lt_reach n s" and "\<not> lt_bad s" and "lt_step n a s s'" and "contract a s" and "lt_bad s'"
  shows "\<exists>t i p. lt_phase s t = At i p \<and> p \<in> {P_clear, P_unlock, P_detach} \<and> lt_freed s t \<and> dead (lt_pc s t)"
proof -
  have inv: "lt_inv s" "inv_late s" using lt_reach_inv [OF assms(1,2)] lt_reach_late [OF assms(1,2)] .
  from bad_step_late [OF assms(3,4) inv assms(2,5)] deadD(3) [of s] inv(1) show ?thesis
    unfolding lt_inv_def by meson
qed

text \<open>
  And it does happen: with two schedulers there is an execution in which a thread is joined
  once, while its memory is there, and the scheduler that ended it then writes to its freed
  memory: the joiner is runnable before \<open>_lthread_resume\<close> is done with the thread.
\<close>

lemma join_use_after_free: "\<exists>s. lt_reach 2 s \<and> lt_bad s"
proof -
  have "lt_reach 2 ((conf 2 14 (Some 0) Cb_none 7 T_user (T_dead 7) (At 0 P_run) (At 1 P_clear) (Some 0) (Some 1) []
    True None (Some 1) (Some 0))\<lparr>lt_bad := True\<rparr>)"
    by (rule lt_next [OF uaf_freed _ _ uaf_last]) (simp_all add: conf_def)
  then show ?thesis by force
qed

text \<open>
  C33: with one scheduler and a program that keeps to the contract of joining (every thread is joined or detached at most
  once, only before it is freed, and not cancelled), no execution touches freed memory, and a thread that is freed is one no
  scheduler works on.
\<close>

theorem one_scheduler_safe: "lt_reach 1 s \<Longrightarrow> \<not> lt_bad s \<and> (\<forall>j. lt_freed s j \<longrightarrow> lt_phase s j = Gone)"
  by (rule lt_reach_one)

theorem one_scheduler_safe_witness: "\<exists>s. lt_reach 1 s \<and> lt_cur s 0 = Some 0 \<and> \<not> lt_bad s"
proof -
  have "lt_step 1 Internal lt_init (take_next 0 0 lt_init)"
    by (rule lt_step.dequeue [where q = "[]"]) (simp_all add: lt_init_def lt_step_defs)
  then have "lt_reach 1 (take_next 0 0 lt_init)"
    by (rule lt_next [OF lt_start, rotated 2]) (simp_all add: lt_init_def lt_step_defs)
  with one_scheduler_safe [OF this] show ?thesis by (intro exI [of _ "take_next 0 0 lt_init"]) (simp add: take_next_def at_def)
qed

end
