(* ===== verification/Ticketlock.thy ===== *)
theory Ticketlock
  imports Prelude
begin

text \<open>
  The ticket lock of \<^verbatim>\<open>src/include/ticketlock.h\<close>, which serialises the futex queues, the
  enclave page allocator, the system call slots and the sleeping threads. The lock word is a
  pair of 32 bit counters that wrap around; threads execute the machine steps of
  \<open>ticket_lock\<close>, \<open>ticket_unlock\<close> and \<open>ticket_trylock\<close> interleaved in any order. Every
  reachable state is shown to refine a first-come-first-served queue of threads.
\<close>

section \<open>The lock and its machine steps\<close>

record ticketlock =
  tl_ticket :: u32
  tl_users :: u32

text \<open>The union member \<open>u\<close> reads both counters as one little-endian 64 bit value.\<close>

definition tl_u :: "ticketlock \<Rightarrow> u64" where
  "tl_u t = push_bit 32 (ucast (tl_users t)) + ucast (tl_ticket t)"

text \<open>
  Where a thread is inside the three functions: before a call, spinning in \<open>ticket_lock\<close>
  with its ticket \<open>me\<close>, inside the critical section, between the load and the store of the
  (not atomic) increment of \<open>ticket_unlock\<close>, and between the load of \<open>users\<close> and the
  compare-and-swap of \<open>ticket_trylock\<close>.
\<close>

datatype tl_pc =
    TL_idle
  | TL_spin u32
  | TL_hold
  | TL_releasing u32
  | TL_try u32

record tl_sys =
  tl_lock :: ticketlock
  tl_pcs :: "nat \<Rightarrow> tl_pc"

definition tl_init :: tl_sys where
  "tl_init = \<lparr>tl_lock = \<lparr>tl_ticket = 0, tl_users = 0\<rparr>, tl_pcs = (\<lambda>_. TL_idle)\<rparr>"

definition tl_goto :: "nat \<Rightarrow> tl_pc \<Rightarrow> tl_sys \<Rightarrow> tl_sys" where
  "tl_goto i p s = s\<lparr>tl_pcs := (tl_pcs s)(i := p)\<rparr>"

text \<open>\<open>a_fetch_add_uint(&t->s.users, 1)\<close>: the old value is the caller's ticket.\<close>

definition ticket_lock_take :: "nat \<Rightarrow> tl_sys \<Rightarrow> tl_sys" where
  "ticket_lock_take i s =
     (let me = tl_users (tl_lock s)
      in tl_goto i (TL_spin me) (s\<lparr>tl_lock := (tl_lock s)\<lparr>tl_users := me + 1\<rparr>\<rparr>))"

text \<open>One evaluation of \<open>while (t->s.ticket != me)\<close>.\<close>

definition ticket_lock_poll :: "nat \<Rightarrow> u32 \<Rightarrow> tl_sys \<Rightarrow> tl_sys" where
  "ticket_lock_poll i me s =
     (if tl_ticket (tl_lock s) \<noteq> me then s else tl_goto i TL_hold s)"

definition ticket_unlock_load :: "nat \<Rightarrow> tl_sys \<Rightarrow> tl_sys" where
  "ticket_unlock_load i s = tl_goto i (TL_releasing (tl_ticket (tl_lock s))) s"

definition ticket_unlock_store :: "nat \<Rightarrow> u32 \<Rightarrow> tl_sys \<Rightarrow> tl_sys" where
  "ticket_unlock_store i v s =
     tl_goto i TL_idle (s\<lparr>tl_lock := (tl_lock s)\<lparr>tl_ticket := v + 1\<rparr>\<rparr>)"

definition ticket_trylock_load :: "nat \<Rightarrow> tl_sys \<Rightarrow> tl_sys" where
  "ticket_trylock_load i s = tl_goto i (TL_try (tl_users (tl_lock s))) s"

text \<open>
  \<open>a_cas_64(&t->u, cmp, cmpnew)\<close>: on success both counters are overwritten from \<open>cmpnew\<close>,
  otherwise the call returns \<open>EBUSY\<close>.
\<close>

definition ticket_trylock_cas :: "nat \<Rightarrow> u32 \<Rightarrow> tl_sys \<Rightarrow> tl_sys" where
  "ticket_trylock_cas i me s =
     (let menew = me + 1;
          cmp = push_bit 32 (ucast me :: u64) + ucast me;
          cmpnew = push_bit 32 (ucast menew :: u64) + ucast me
      in if tl_u (tl_lock s) = cmp
         then tl_goto i TL_hold
                (s\<lparr>tl_lock := \<lparr>tl_ticket = ucast cmpnew, tl_users = ucast (drop_bit 32 cmpnew)\<rparr>\<rparr>)
         else tl_goto i TL_idle s)"

inductive tl_step :: "nat \<Rightarrow> tl_sys \<Rightarrow> tl_sys \<Rightarrow> bool" where
  take: "tl_pcs s i = TL_idle \<Longrightarrow> tl_step i s (ticket_lock_take i s)"
| poll: "tl_pcs s i = TL_spin me \<Longrightarrow> tl_step i s (ticket_lock_poll i me s)"
| unlock_load: "tl_pcs s i = TL_hold \<Longrightarrow> tl_step i s (ticket_unlock_load i s)"
| unlock_store: "tl_pcs s i = TL_releasing v \<Longrightarrow> tl_step i s (ticket_unlock_store i v s)"
| try_load: "tl_pcs s i = TL_idle \<Longrightarrow> tl_step i s (ticket_trylock_load i s)"
| try_cas: "tl_pcs s i = TL_try me \<Longrightarrow> tl_step i s (ticket_trylock_cas i me s)"

text \<open>States reachable when the threads \<open>0, \<dots>, n - 1\<close> use the lock.\<close>

abbreviation tl_reachable :: "nat \<Rightarrow> tl_sys \<Rightarrow> bool" where
  "tl_reachable \<equiv> reach tl_init tl_step"

definition in_critical :: "tl_sys \<Rightarrow> nat \<Rightarrow> bool" where
  "in_critical s i \<longleftrightarrow> (case tl_pcs s i of TL_hold \<Rightarrow> True | TL_releasing _ \<Rightarrow> True | _ \<Rightarrow> False)"

definition has_ticket :: "tl_sys \<Rightarrow> nat \<Rightarrow> bool" where
  "has_ticket s i \<longleftrightarrow> in_critical s i \<or> (case tl_pcs s i of TL_spin _ \<Rightarrow> True | _ \<Rightarrow> False)"

section \<open>The abstract lock: a queue of threads\<close>

text \<open>
  \<open>tl_queue q s\<close>: the threads of \<open>q\<close>, in this order, hold the tickets from the one being
  served up to the last one handed out, and only the first may be in its critical section.
\<close>

definition tl_at :: "tl_sys \<Rightarrow> nat list \<Rightarrow> nat \<Rightarrow> bool" where
  "tl_at s q k \<longleftrightarrow>
     (let t = tl_ticket (tl_lock s) + of_nat k
      in tl_pcs s (q ! k) = TL_spin t \<or>
         k = 0 \<and> (tl_pcs s (q ! k) = TL_hold \<or> tl_pcs s (q ! k) = TL_releasing t))"

definition tl_queue :: "nat \<Rightarrow> nat list \<Rightarrow> tl_sys \<Rightarrow> bool" where
  "tl_queue n q s \<longleftrightarrow>
     distinct q \<and> set q \<subseteq> {..<n} \<and>
     (\<forall>i. i \<in> set q \<longleftrightarrow> has_ticket s i) \<and>
     tl_users (tl_lock s) = tl_ticket (tl_lock s) + of_nat (length q) \<and>
     (\<forall>k < length q. tl_at s q k)"

text \<open>What a step does to the queue: a thread joins at the end, the first one leaves, or nothing.\<close>

inductive fifo_step :: "nat \<Rightarrow> nat list \<Rightarrow> nat list \<Rightarrow> bool" where
  fifo_join: "i \<notin> set q \<Longrightarrow> fifo_step i q (q @ [i])"
| fifo_leave: "fifo_step i (i # q) q"
| fifo_stay: "fifo_step i q q"

lemmas tl_defs = tl_goto_def ticket_lock_take_def ticket_lock_poll_def ticket_unlock_load_def
  ticket_unlock_store_def ticket_trylock_load_def ticket_trylock_cas_def Let_def

lemma tl_step_frame: "tl_step i s s' \<Longrightarrow> j \<noteq> i \<Longrightarrow> tl_pcs s' j = tl_pcs s j"
  by (auto elim!: tl_step.cases simp: tl_defs split: if_splits)

lemma tl_queue_init: "tl_queue n [] tl_init"
  by (simp add: tl_queue_def tl_init_def has_ticket_def in_critical_def)

section \<open>The lock refines the queue\<close>

lemma tl_u_or:
  "push_bit 32 (ucast a :: u64) + ucast (b :: u32) = push_bit 32 (ucast (a :: u32)) OR ucast b"
  by (rule disjunctive_add_eq_or, rule bit_word_eqI)
    (auto simp: bit_simps dest: bit_imp_le_length)

lemma tl_u_low [simp]: "ucast (push_bit 32 (ucast (a :: u32) :: u64) + ucast (b :: u32)) = b"
  unfolding tl_u_or by (rule bit_word_eqI) (auto simp: bit_simps)

lemma tl_u_high [simp]: "ucast (drop_bit 32 (push_bit 32 (ucast (a :: u32) :: u64) + ucast (b :: u32))) = a"
  unfolding tl_u_or by (rule bit_word_eqI) (auto simp: bit_simps dest: bit_imp_le_length)

lemma tl_u_eq_iff:
  "tl_u t = push_bit 32 (ucast a) + ucast b \<longleftrightarrow> tl_users t = a \<and> tl_ticket t = b"
  unfolding tl_u_def by (metis tl_u_low tl_u_high)

lemma tl_queue_index:
  assumes "tl_queue n q s" and "has_ticket s i"
  obtains k where "k < length q" and "q ! k = i" and "tl_at s q k"
  using assms unfolding tl_queue_def by (metis in_set_conv_nth)

lemma tl_queue_length: "tl_queue n q s \<Longrightarrow> length q \<le> n"
  unfolding tl_queue_def by (metis card_lessThan card_mono distinct_card finite_lessThan)

lemma tl_queue_critical:
  assumes "tl_queue n q s" and "in_critical s i"
  shows "q \<noteq> [] \<and> hd q = i"
proof -
  from assms(2) have "has_ticket s i" by (simp add: has_ticket_def)
  with assms(1) obtain k where k: "k < length q" "q ! k = i" "tl_at s q k"
    by (rule tl_queue_index)
  with assms(2) have "k = 0"
    by (auto simp: tl_at_def in_critical_def Let_def)
  with k show ?thesis by (auto simp: hd_conv_nth)
qed

text \<open>The thread whose ticket is being served is the first of the queue.\<close>

lemma tl_queue_served:
  assumes q: "tl_queue n q s" and n: "n < 2 ^ 32"
    and spin: "tl_pcs s i = TL_spin (tl_ticket (tl_lock s))"
  shows "q \<noteq> [] \<and> hd q = i"
proof -
  from spin have "has_ticket s i" by (simp add: has_ticket_def)
  with q obtain k where k: "k < length q" "q ! k = i" "tl_at s q k"
    by (rule tl_queue_index)
  from q k(1) n have "k < 2 ^ 32" using tl_queue_length [OF q] by linarith
  moreover from k(2,3) spin have "(of_nat k :: u32) = of_nat 0"
    by (auto simp: tl_at_def Let_def)
  ultimately have "k = 0"
    using of_nat_word_eq_iff [where 'a = 32, of k 0] by simp
  with k show ?thesis by (auto simp: hd_conv_nth)
qed

lemma tl_queue_idle_notin:
  "tl_queue n q s \<Longrightarrow> \<not> has_ticket s i \<Longrightarrow> i \<notin> set q"
  by (simp add: tl_queue_def)

lemma tl_queue_take:
  assumes q: "tl_queue n q s" and i: "i < n" "tl_pcs s i = TL_idle"
  shows "tl_queue n (q @ [i]) (ticket_lock_take i s) \<and> fifo_step i q (q @ [i])"
proof -
  have nt: "i \<notin> set q"
    using tl_queue_idle_notin [OF q] i by (simp add: has_ticket_def in_critical_def)
  have "tl_queue n (q @ [i]) (ticket_lock_take i s)"
    using q i nt
    by (auto simp: tl_queue_def tl_at_def tl_defs has_ticket_def in_critical_def nth_append
        less_Suc_eq nth_mem)
  with nt show ?thesis by (simp add: fifo_join)
qed

lemma tl_queue_Cons:
  assumes "tl_queue n q s" and "q \<noteq> [] \<and> hd q = i"
  obtains q' where "q = i # q'" and "i \<notin> set q'"
  using assms by (cases q) (auto simp: tl_queue_def)

lemma tl_queue_hold:
  assumes q: "tl_queue n (i # q') s"
    and p: "p = TL_hold \<or> p = TL_releasing (tl_ticket (tl_lock s))"
  shows "tl_queue n (i # q') (tl_goto i p s)"
  using q p
  by (auto simp: tl_queue_def tl_at_def tl_goto_def has_ticket_def in_critical_def nth_Cons
      Let_def split: nat.splits)

lemma tl_queue_release:
  assumes q: "tl_queue n (i # q') s" and i: "tl_pcs s i = TL_releasing v"
  shows "tl_queue n q' (ticket_unlock_store i v s)"
proof -
  have v: "v = tl_ticket (tl_lock s)"
    using q i by (auto simp: tl_queue_def tl_at_def Let_def)
  have at: "tl_pcs s (q' ! k) = TL_spin (tl_ticket (tl_lock s) + 1 + of_nat k)" if "k < length q'" for k
    using q that by (auto simp: tl_queue_def tl_at_def Let_def ac_simps dest!: spec [of _ "Suc k"])
  show ?thesis
    using q at v by (auto simp: tl_queue_def tl_at_def tl_defs has_ticket_def in_critical_def)
qed
lemma tl_queue_try_load:
  assumes "tl_queue n q s" and "tl_pcs s i = TL_idle"
  shows "tl_queue n q (ticket_trylock_load i s)"
proof -
  have "i \<notin> set q"
    using tl_queue_idle_notin [OF assms(1)] assms(2) by (simp add: has_ticket_def in_critical_def)
  with assms show ?thesis
    by (auto simp: tl_queue_def tl_at_def tl_defs has_ticket_def in_critical_def)
qed

text \<open>The compare-and-swap of \<open>ticket_trylock\<close> succeeds only on a free lock.\<close>

lemma tl_queue_try_cas:
  assumes q: "tl_queue n q s" and n: "n < 2 ^ 32" and i: "i < n" "tl_pcs s i = TL_try me"
  shows "\<exists>q'. tl_queue n q' (ticket_trylock_cas i me s) \<and> fifo_step i q q'"
proof (cases "tl_u (tl_lock s) = push_bit 32 (ucast me) + ucast me")
  case True
  then have me: "tl_users (tl_lock s) = me" "tl_ticket (tl_lock s) = me"
    by (simp_all add: tl_u_eq_iff)
  with q have "(of_nat (length q) :: u32) = of_nat 0" by (auto simp: tl_queue_def)
  moreover have "length q < 2 ^ 32" using tl_queue_length [OF q] n by simp
  ultimately have "q = []"
    using of_nat_word_eq_iff [where 'a = 32, of "length q" 0] by simp
  with q True me i have "tl_queue n [i] (ticket_trylock_cas i me s)"
    by (auto simp: tl_queue_def tl_at_def tl_defs has_ticket_def in_critical_def)
  with \<open>q = []\<close> show ?thesis using fifo_join [of i "[]"] by auto
next
  case False
  have "i \<notin> set q"
    using tl_queue_idle_notin [OF q] i by (simp add: has_ticket_def in_critical_def)
  with q False i have "tl_queue n q (ticket_trylock_cas i me s)"
    by (auto simp: tl_queue_def tl_at_def tl_defs has_ticket_def in_critical_def)
  then show ?thesis using fifo_stay by auto
qed

text \<open>Every step of every thread is a step of the queue.\<close>

lemma tl_step_refines_fifo:
  assumes q: "tl_queue n q s" and n: "n < 2 ^ 32" and i: "i < n" and st: "tl_step i s s'"
  shows "\<exists>q'. tl_queue n q' s' \<and> fifo_step i q q'"
  using st
proof cases
  case take
  then show ?thesis using tl_queue_take [OF q i] by auto
next
  case (poll me)
  show ?thesis
  proof (cases "tl_ticket (tl_lock s) = me")
    case True
    with poll have "q \<noteq> [] \<and> hd q = i" using tl_queue_served [OF q n] by simp
    with q obtain q' where "q = i # q'" by (rule tl_queue_Cons)
    with q True poll show ?thesis
      using tl_queue_hold [of n i q' s TL_hold] fifo_stay by (auto simp: ticket_lock_poll_def)
  next
    case False
    with q poll show ?thesis using fifo_stay by (auto simp: ticket_lock_poll_def)
  qed
next
  case unlock_load
  then have "in_critical s i" by (simp add: in_critical_def)
  with q obtain q' where "q = i # q'" using tl_queue_critical tl_queue_Cons by metis
  with q unlock_load show ?thesis
    using tl_queue_hold [of n i q' s] fifo_stay by (auto simp: ticket_unlock_load_def)
next
  case (unlock_store v)
  then have "in_critical s i" by (simp add: in_critical_def)
  with q obtain q' where "q = i # q'" using tl_queue_critical tl_queue_Cons by metis
  with q unlock_store show ?thesis using tl_queue_release fifo_leave by blast
next
  case try_load
  then show ?thesis using tl_queue_try_load [OF q] fifo_stay by auto
next
  case (try_cas me)
  then show ?thesis using tl_queue_try_cas [OF q n i] by auto
qed

lemma tl_reachable_queue:
  assumes "tl_reachable n s" and "n < 2 ^ 32"
  shows "\<exists>q. tl_queue n q s"
  using assms
proof (induction rule: reach.induct)
  case reach_init
  show ?case using tl_queue_init by blast
next
  case (reach_step s i s')
  then show ?case using tl_step_refines_fifo by blast
qed

section \<open>Contended use\<close>

text \<open>Two threads take tickets, the first is served.\<close>

definition tl_contended :: tl_sys where
  "tl_contended = ticket_lock_poll 0 0 (ticket_lock_take 1 (ticket_lock_take 0 tl_init))"

lemma tl_contended_reachable: "tl_reachable 2 tl_contended"
proof -
  have 1: "tl_step 0 tl_init (ticket_lock_take 0 tl_init)"
    by (rule tl_step.take) (simp add: tl_init_def)
  have 2: "tl_step 1 (ticket_lock_take 0 tl_init) (ticket_lock_take 1 (ticket_lock_take 0 tl_init))"
    by (rule tl_step.take) (simp add: tl_init_def tl_defs)
  have 3: "tl_step 0 (ticket_lock_take 1 (ticket_lock_take 0 tl_init)) tl_contended"
    unfolding tl_contended_def by (rule tl_step.poll) (simp add: tl_init_def tl_defs)
  have "tl_reachable 2 (ticket_lock_take 0 tl_init)"
    by (rule reach_step [where step = tl_step, OF reach_init _ 1]) simp
  then have "tl_reachable 2 (ticket_lock_take 1 (ticket_lock_take 0 tl_init))"
    by (rule reach_step [where step = tl_step, OF _ _ 2]) simp
  then show ?thesis
    by (rule reach_step [where step = tl_step, OF _ _ 3]) simp
qed

lemma tl_contended_pcs:
  "tl_pcs tl_contended 0 = TL_hold" "tl_pcs tl_contended 1 = TL_spin 1"
  "tl_lock tl_contended = \<lparr>tl_ticket = 0, tl_users = 2\<rparr>"
  by (simp_all add: tl_contended_def tl_defs tl_init_def)

section \<open>Properties\<close>

text \<open>
  C1. The lock is first-come-first-served: in every reachable state with fewer than
  \<open>2 ^ 32\<close> threads there is a queue of the threads that took a ticket, in ticket order across
  the wrap-around of the 32 bit counters, and every machine step of every thread appends that
  thread to the queue, removes it from the front, or leaves the queue as it is.
\<close>

theorem ticket_lock_refines_fifo:
  assumes "tl_reachable n s" and "n < 2 ^ 32"
  shows "\<exists>q. tl_queue n q s \<and>
    (\<forall>i s'. i < n \<longrightarrow> tl_step i s s' \<longrightarrow> (\<exists>q'. tl_queue n q' s' \<and> fifo_step i q q'))"
  using tl_reachable_queue [OF assms] tl_step_refines_fifo [OF _ assms(2)] by blast

theorem ticket_lock_refines_fifo_witness:
  "\<exists>q. tl_queue 2 q tl_contended \<and>
     (\<exists>q'. tl_queue 2 q' (ticket_unlock_load 0 tl_contended) \<and> fifo_step 0 q q')"
proof -
  have "tl_step 0 tl_contended (ticket_unlock_load 0 tl_contended)"
    by (rule tl_step.unlock_load) (rule tl_contended_pcs)
  with ticket_lock_refines_fifo [OF tl_contended_reachable] show ?thesis
    by (fastforce simp: zero_less_power)
qed

end
