(* ===== verification/Critical_Section.thy ===== *)
theory Critical_Section
  imports Ticketlock
begin

text \<open>
  Why a section of code between \<open>ticket_lock\<close> and \<open>ticket_unlock\<close> may be treated as one
  atomic operation on the data the lock guards. The interface is a locale for a lock
  protocol with mutual exclusion; the client theorem is proved once in it: under every interleaving of
  the threads' machine steps the data is what the sections give when they are run from start to end one after the other,
  in the order in which the threads entered them. The ticket lock is an instance.
\<close>

section \<open>Threads that execute guarded sections\<close>

text \<open>
  The lock, the guarded data, for every thread the memory updates left to do in the
  section it is executing, and all sections entered so far.
\<close>

record ('s, 'd) cs_sys =
  cs_lock :: 's
  cs_data :: 'd
  cs_todo :: "nat \<Rightarrow> ('d \<Rightarrow> 'd) list"
  cs_log :: "('d \<Rightarrow> 'd) list list"

definition run_updates :: "('d \<Rightarrow> 'd) list \<Rightarrow> 'd \<Rightarrow> 'd" where
  "run_updates fs d = fold (\<lambda>f. f) fs d"

text \<open>
  A thread takes a step of the lock protocol (it starts to unlock only when its section is
  done, and picks any section on entry), or, inside, performs its next update.
\<close>

inductive cs_step ::
    "(nat \<Rightarrow> 's \<Rightarrow> 's \<Rightarrow> bool) \<Rightarrow> ('s \<Rightarrow> nat \<Rightarrow> bool) \<Rightarrow> nat \<Rightarrow> ('s, 'd) cs_sys \<Rightarrow> ('s, 'd) cs_sys \<Rightarrow> bool"
  for step crit where
  cs_outside: "step i (cs_lock c) s' \<Longrightarrow> crit (cs_lock c) i \<or> \<not> crit s' i \<Longrightarrow> cs_todo c i = []
    \<Longrightarrow> cs_step step crit i c (c\<lparr>cs_lock := s'\<rparr>)"
| cs_enter: "step i (cs_lock c) s' \<Longrightarrow> \<not> crit (cs_lock c) i \<Longrightarrow> crit s' i
    \<Longrightarrow> cs_step step crit i c (c\<lparr>cs_lock := s', cs_todo := (cs_todo c)(i := p), cs_log := cs_log c @ [p]\<rparr>)"
| cs_update: "crit (cs_lock c) i \<Longrightarrow> cs_todo c i = f # fs
    \<Longrightarrow> cs_step step crit i c
          (c\<lparr>cs_data := f (cs_data c), cs_todo := (cs_todo c)(i := fs)\<rparr>)"

definition cs_init :: "'s \<Rightarrow> 'd \<Rightarrow> ('s, 'd) cs_sys" where
  "cs_init s d = \<lparr>cs_lock = s, cs_data = d, cs_todo = (\<lambda>_. []), cs_log = []\<rparr>"

section \<open>The interface of a lock\<close>

locale mutex =
  fixes init :: 's
    and step :: "nat \<Rightarrow> 's \<Rightarrow> 's \<Rightarrow> bool"
    and crit :: "'s \<Rightarrow> nat \<Rightarrow> bool"
    and bound :: nat
  assumes crit_init: "\<not> crit init i"
    and crit_frame: "step i s s' \<Longrightarrow> j \<noteq> i \<Longrightarrow> crit s' j = crit s j"
    and crit_excl: "n < bound \<Longrightarrow> reach init step n s \<Longrightarrow> crit s i \<Longrightarrow> crit s j \<Longrightarrow> i = j"
begin

text \<open>
  The data is the result of all sections entered so far, except for what the thread inside has still to do.
\<close>

definition cs_inv :: "nat \<Rightarrow> 'd \<Rightarrow> ('s, 'd) cs_sys \<Rightarrow> bool" where
  "cs_inv n d c \<longleftrightarrow> reach init step n (cs_lock c) \<and>
     (\<forall>i. \<not> crit (cs_lock c) i \<longrightarrow> cs_todo c i = []) \<and>
     ((\<forall>i. \<not> crit (cs_lock c) i) \<longrightarrow> cs_data c = fold run_updates (cs_log c) d) \<and>
     (\<forall>i. crit (cs_lock c) i \<longrightarrow> run_updates (cs_todo c i) (cs_data c) = fold run_updates (cs_log c) d)"

lemma cs_inv_init: "cs_inv n d (cs_init init d)"
  by (simp add: cs_inv_def cs_init_def crit_init reach_init)

lemma cs_inv_outside:
  assumes inv: "cs_inv n d c" and st: "step i (cs_lock c) s'" "i < n"
    and en: "crit (cs_lock c) i \<or> \<not> crit s' i" and todo: "cs_todo c i = []"
  shows "cs_inv n d (c\<lparr>cs_lock := s'\<rparr>)"
proof -
  have r: "reach init step n s'"
    using inv st by (auto simp: cs_inv_def intro: reach_step)
  have fr: "crit s' j = crit (cs_lock c) j" if "j \<noteq> i" for j
    using crit_frame [OF st(1) that] .
  have "cs_data c = fold run_updates (cs_log c) d" if "\<forall>j. \<not> crit s' j"
  proof (cases "crit (cs_lock c) i")
    case True
    with inv have "run_updates (cs_todo c i) (cs_data c) = fold run_updates (cs_log c) d" by (simp add: cs_inv_def)
    with todo show ?thesis by (simp add: run_updates_def)
  next
    case False
    with that fr have "\<forall>j. \<not> crit (cs_lock c) j" by metis
    with inv show ?thesis by (simp add: cs_inv_def)
  qed
  moreover have "cs_todo c j = []" if "\<not> crit s' j" for j
    using inv fr todo that by (cases "j = i") (auto simp: cs_inv_def)
  moreover have "run_updates (cs_todo c j) (cs_data c) = fold run_updates (cs_log c) d" if "crit s' j" for j
    using inv fr en that by (cases "j = i") (auto simp: cs_inv_def)
  ultimately show ?thesis using r by (simp add: cs_inv_def)
qed

lemma cs_inv_enter:
  assumes inv: "cs_inv n d c" and st: "step i (cs_lock c) s'" "i < n"
    and en: "\<not> crit (cs_lock c) i" "crit s' i" and n: "n < bound"
  shows "cs_inv n d (c\<lparr>cs_lock := s', cs_todo := (cs_todo c)(i := p), cs_log := cs_log c @ [p]\<rparr>)"
proof -
  have r: "reach init step n s'"
    using inv st by (auto simp: cs_inv_def intro: reach_step)
  have only: "crit s' j \<longleftrightarrow> j = i" for j
    using crit_excl [OF n r] en(2) by metis
  have "\<not> crit (cs_lock c) j" for j
    using only crit_frame [OF st(1)] en(1) by metis
  with inv have "cs_data c = fold run_updates (cs_log c) d" "\<forall>j. cs_todo c j = []" by (auto simp: cs_inv_def)
  with r only show ?thesis by (auto simp: cs_inv_def)
qed

lemma cs_inv_update:
  assumes inv: "cs_inv n d c" and en: "crit (cs_lock c) i" and todo: "cs_todo c i = f # fs"
    and n: "n < bound"
  shows "cs_inv n d (c\<lparr>cs_data := f (cs_data c), cs_todo := (cs_todo c)(i := fs)\<rparr>)"
proof -
  have only: "crit (cs_lock c) j \<longleftrightarrow> j = i" for j
    using inv en crit_excl [OF n] by (metis cs_inv_def)
  from inv en have "run_updates (cs_todo c i) (cs_data c) = fold run_updates (cs_log c) d" by (simp add: cs_inv_def)
  with todo have "run_updates fs (f (cs_data c)) = fold run_updates (cs_log c) d" by (simp add: run_updates_def)
  with inv only show ?thesis by (auto simp: cs_inv_def)
qed

theorem sections_atomic:
  assumes n: "n < bound" and r: "reach (cs_init init d) (cs_step step crit) n c"
  shows "(\<forall>i j. crit (cs_lock c) i \<longrightarrow> crit (cs_lock c) j \<longrightarrow> i = j) \<and>
    (\<forall>i. crit (cs_lock c) i \<longrightarrow> run_updates (cs_todo c i) (cs_data c) = fold run_updates (cs_log c) d) \<and>
    ((\<forall>i. \<not> crit (cs_lock c) i) \<longrightarrow> cs_data c = fold run_updates (cs_log c) d)"
proof -
  have inv: "cs_inv n d c"
  proof (rule reach_invariant [OF r])
    show "cs_inv n d (cs_init init d)" by (rule cs_inv_init)
  next
    fix i c c' assume inv: "cs_inv n d c" and i: "i < n" and st: "cs_step step crit i c c'"
    from st show "cs_inv n d c'"
      by cases (auto intro: cs_inv_outside cs_inv_enter cs_inv_update inv i n)
  qed
  then have "i = j" if "crit (cs_lock c) i" "crit (cs_lock c) j" for i j
    using crit_excl [OF n _ that] by (simp add: cs_inv_def)
  with inv show ?thesis by (simp add: cs_inv_def)
qed

end

section \<open>The ticket lock is a lock\<close>

interpretation tlk: mutex tl_init tl_step in_critical "2 ^ 32"
proof unfold_locales
  show "\<not> in_critical tl_init i" for i
    by (simp add: in_critical_def tl_init_def)
  show "in_critical s' j = in_critical s j" if "tl_step i s s'" and "j \<noteq> i" for i j s s'
    using tl_step_frame [OF that] by (simp add: in_critical_def)
  show "i = j" if "n < 2 ^ 32" and "tl_reachable n s" and "in_critical s i" and "in_critical s j"
    for n s i j
    using tl_reachable_queue [OF that(2,1)] tl_queue_critical that(3,4) by metis
qed

text \<open>
  C2. Mutual exclusion and atomicity: fewer than \<open>2 ^ 32\<close> threads use \<open>ticket_lock\<close>, \<open>ticket_trylock\<close> and
  \<open>ticket_unlock\<close>, and update the data the lock guards, one memory update at a time, in sections between
  lock and unlock. In every reachable state at most one thread is inside its section. When no
  thread is inside, the data is the result of all sections entered so far, each run from start to end, one after the
  other in the order of entry; while a thread is inside, it is so once that thread has done the updates it still has to do.
\<close>

theorem ticket_lock_mutual_exclusion:
  assumes "n < 2 ^ 32" and "reach (cs_init tl_init d) (cs_step tl_step in_critical) n c"
  shows "(\<forall>i j. in_critical (cs_lock c) i \<longrightarrow> in_critical (cs_lock c) j \<longrightarrow> i = j) \<and>
    (\<forall>i. in_critical (cs_lock c) i \<longrightarrow> run_updates (cs_todo c i) (cs_data c) = fold run_updates (cs_log c) d) \<and>
    ((\<forall>i. \<not> in_critical (cs_lock c) i) \<longrightarrow> cs_data c = fold run_updates (cs_log c) d)"
  using assms by (rule tlk.sections_atomic)

text \<open>Thread 0 is inside its section, after the first of two updates, and thread 1 waits.\<close>

definition cs_contended :: "(tl_sys, nat) cs_sys" where
  "cs_contended = \<lparr>cs_lock = tl_contended, cs_data = 6, cs_todo = (\<lambda>_. [])(0 := [\<lambda>x. x * 2]),
     cs_log = [[\<lambda>x. x + 1, \<lambda>x. x * 2]]\<rparr>"

lemma cs_contended_reachable: "reach (cs_init tl_init 5) (cs_step tl_step in_critical) 2 cs_contended"
proof -
  let ?R = "reach (cs_init tl_init (5 :: nat)) (cs_step tl_step in_critical) 2"
  let ?s1 = "ticket_lock_take 0 tl_init" and ?s2 = "ticket_lock_take 1 (ticket_lock_take 0 tl_init)"
  let ?c = "\<lambda>s. cs_init s (5 :: nat)"
  let ?e = "(?c ?s2)\<lparr>cs_lock := tl_contended, cs_todo := (cs_todo (?c ?s2))(0 := [\<lambda>x. x + 1, \<lambda>x. x * 2]),
    cs_log := cs_log (?c ?s2) @ [[\<lambda>x. x + 1, \<lambda>x. x * 2]]\<rparr>"
  have st: "tl_step 0 tl_init ?s1" "tl_step 1 ?s1 ?s2" "tl_step 0 ?s2 tl_contended"
    unfolding tl_contended_def
    by (rule tl_step.take, simp add: tl_init_def) (rule tl_step.take tl_step.poll, simp add: tl_init_def tl_defs)+
  have out: "\<not> in_critical ?s1 0" "\<not> in_critical ?s2 1" "\<not> in_critical ?s2 0" "in_critical tl_contended 0"
    using tl_contended_pcs by (simp_all add: in_critical_def tl_init_def tl_defs)
  have "cs_step tl_step in_critical 0 (?c tl_init) ((?c tl_init)\<lparr>cs_lock := ?s1\<rparr>)"
    by (rule cs_outside) (use st out in \<open>simp_all add: cs_init_def\<close>)
  then have 1: "?R (?c ?s1)" using reach_step [OF reach_init, of 0 2 "cs_step tl_step in_critical" "?c tl_init"] by (simp add: cs_init_def)
  have "cs_step tl_step in_critical 1 (?c ?s1) ((?c ?s1)\<lparr>cs_lock := ?s2\<rparr>)"
    by (rule cs_outside) (use st out in \<open>simp_all add: cs_init_def\<close>)
  then have 2: "?R (?c ?s2)" using reach_step [OF 1, of 1] by (simp add: cs_init_def)
  have "cs_step tl_step in_critical 0 (?c ?s2) ?e"
    by (rule cs_enter) (use st out in \<open>simp_all add: cs_init_def\<close>)
  then have 3: "?R ?e" using reach_step [OF 2, of 0] by simp
  have "cs_step tl_step in_critical 0 ?e (?e\<lparr>cs_data := (\<lambda>x. x + 1) (cs_data ?e), cs_todo := (cs_todo ?e)(0 := [\<lambda>x. x * 2])\<rparr>)"
    by (rule cs_update) (use out in simp_all)
  then show ?thesis using reach_step [OF 3, of 0] by (simp add: cs_contended_def cs_init_def)
qed

theorem ticket_lock_mutual_exclusion_witness:
  "in_critical (cs_lock cs_contended) 0 \<and> \<not> in_critical (cs_lock cs_contended) 1 \<and>
   run_updates (cs_todo cs_contended 0) (cs_data cs_contended) = fold run_updates [[\<lambda>x. x + 1, \<lambda>x. x * 2]] 5"
proof -
  have h: "in_critical (cs_lock cs_contended) 0"
    using tl_contended_pcs by (simp add: in_critical_def cs_contended_def)
  with ticket_lock_mutual_exclusion [OF _ cs_contended_reachable] have
    "\<not> in_critical (cs_lock cs_contended) 1"
    "run_updates (cs_todo cs_contended 0) (cs_data cs_contended) = fold run_updates (cs_log cs_contended) 5" by auto
  with h show ?thesis by (simp add: cs_contended_def)
qed

end
