(* ===== verification/Mpmc_Queue.thy ===== *)
theory Mpmc_Queue
  imports Prelude
begin

text \<open>
  The bounded multi-producer multi-consumer queue of \<^verbatim>\<open>src/shared/mpmc_queue.c\<close> that
  carries runnable threads to the schedulers and system call slots to and from the host. This
  theory has the data structure, its operations executed without interference, and their
  refinement to a bounded list; the theory \<open>Mpmc_Concurrent\<close> has the interleaved machine steps.
  Positions are 64 bit words that wrap around; the differences of sequence numbers are read
  as two's complement, as \<open>intptr_t\<close> is.
\<close>

section \<open>Data structure and operations\<close>

type_synonym ptr = u64

record cell_t =
  seq :: u64
  data :: ptr

record mpmcq =
  buffer :: "cell_t list"
  buffer_mask :: u64
  enqueue_pos :: u64
  dequeue_pos :: u64

text \<open>
  \<open>newmpmcq\<close>: \<open>mem\<close> is the memory \<open>q->buffer\<close> points to (the caller's, or fresh from
  \<open>calloc\<close>); \<open>None\<close> is a failed assertion. The size is in bytes, a cell takes 16.
\<close>

function newmpmcq_loop :: "nat \<Rightarrow> nat \<Rightarrow> cell_t list \<Rightarrow> cell_t list" where
  "newmpmcq_loop i n mem =
     (if i < n then newmpmcq_loop (Suc i) n (mem[i := (mem ! i)\<lparr>seq := of_nat i\<rparr>]) else mem)"
  by pat_completeness auto
termination by (relation "measure (\<lambda>(i, n, _). n - i)") auto

declare newmpmcq_loop.simps [simp del]

definition newmpmcq :: "u64 \<Rightarrow> cell_t list \<Rightarrow> mpmcq option" where
  "newmpmcq buffer_size mem =
     (let n = buffer_size div 16
      in if n \<ge> 2 \<and> n AND (n - 1) = 0
         then Some \<lparr>buffer = newmpmcq_loop 0 (unat n) mem, buffer_mask = n - 1,
                    enqueue_pos = 0, dequeue_pos = 0\<rparr>
         else None)"

definition cell_idx :: "mpmcq \<Rightarrow> u64 \<Rightarrow> nat" where
  "cell_idx q pos = unat (pos AND buffer_mask q)"

definition cell_at :: "mpmcq \<Rightarrow> u64 \<Rightarrow> cell_t" where
  "cell_at q pos = buffer q ! cell_idx q pos"

definition put_cell :: "u64 \<Rightarrow> cell_t \<Rightarrow> mpmcq \<Rightarrow> mpmcq" where
  "put_cell pos c q = q\<lparr>buffer := (buffer q)[cell_idx q pos := c]\<rparr>"

text \<open>The decision an iteration of either loop takes on \<open>dif\<close>.\<close>

datatype look = Look_match | Look_fail | Look_reload

definition look :: "u64 \<Rightarrow> u64 \<Rightarrow> look" where
  "look cell_seq pos =
     (let dif = sint (cell_seq - pos)
      in if dif = 0 then Look_match else if dif < 0 then Look_fail else Look_reload)"

partial_function (option) mpmc_enqueue_loop :: "mpmcq \<Rightarrow> u64 \<Rightarrow> ptr \<Rightarrow> (mpmcq \<times> bool) option" where
  "mpmc_enqueue_loop q pos d =
     (case look (seq (cell_at q pos)) pos of
        Look_match \<Rightarrow>
          if enqueue_pos q = pos
          then Some (put_cell pos \<lparr>seq = pos + 1, data = d\<rparr> (q\<lparr>enqueue_pos := pos + 1\<rparr>), True)
          else mpmc_enqueue_loop q pos d
      | Look_fail \<Rightarrow> Some (q, False)
      | Look_reload \<Rightarrow> mpmc_enqueue_loop q (enqueue_pos q) d)"

definition mpmc_enqueue :: "mpmcq \<Rightarrow> ptr \<Rightarrow> (mpmcq \<times> bool) option" where
  "mpmc_enqueue q d = mpmc_enqueue_loop q (enqueue_pos q) d"

partial_function (option) mpmc_dequeue_loop :: "mpmcq \<Rightarrow> u64 \<Rightarrow> (mpmcq \<times> ptr option) option" where
  "mpmc_dequeue_loop q pos =
     (case look (seq (cell_at q pos)) (pos + 1) of
        Look_match \<Rightarrow>
          if dequeue_pos q = pos
          then Some (put_cell pos ((cell_at q pos)\<lparr>seq := pos + buffer_mask q + 1\<rparr>)
                       (q\<lparr>dequeue_pos := pos + 1\<rparr>), Some (data (cell_at q pos)))
          else mpmc_dequeue_loop q pos
      | Look_fail \<Rightarrow> Some (q, None)
      | Look_reload \<Rightarrow> mpmc_dequeue_loop q (dequeue_pos q))"

definition mpmc_dequeue :: "mpmcq \<Rightarrow> (mpmcq \<times> ptr option) option" where
  "mpmc_dequeue q = mpmc_dequeue_loop q (dequeue_pos q)"

section \<open>Well-formed queues and the list they stand for\<close>

definition mq_count :: "mpmcq \<Rightarrow> nat" where
  "mq_count q = unat (enqueue_pos q - dequeue_pos q)"

definition mq_list :: "mpmcq \<Rightarrow> ptr list" where
  "mq_list q = map (\<lambda>k. data (cell_at q (dequeue_pos q + of_nat k))) [0..<mq_count q]"

definition mq_cap :: "mpmcq \<Rightarrow> nat" where
  "mq_cap q = length (buffer q)"

definition pow2_cap :: "nat \<Rightarrow> bool" where
  "pow2_cap b \<longleftrightarrow> (\<exists>e. 1 \<le> e \<and> e \<le> 60 \<and> b = 2 ^ e)"

definition mq_inv :: "mpmcq \<Rightarrow> bool" where
  "mq_inv q \<longleftrightarrow> pow2_cap (mq_cap q) \<and> buffer_mask q = of_nat (mq_cap q - 1) \<and>
     mq_count q \<le> mq_cap q \<and>
     (\<forall>k < mq_cap q. seq (cell_at q (dequeue_pos q + of_nat k)) =
        (if k < mq_count q then dequeue_pos q + of_nat k + 1 else dequeue_pos q + of_nat k))"

text \<open>The cell of a position is the position modulo the capacity.\<close>

lemma pos_and_mask:
  assumes "b = 2 ^ e" and "e < 64"
  shows "unat ((p :: u64) AND of_nat (b - 1)) = unat p mod b"
proof -
  have "(of_nat (b - 1) :: u64) = mask e"
    using assms by (simp add: mask_eq_exp_minus_1 of_nat_diff)
  then have "unat (p AND of_nat (b - 1)) = unat (take_bit e p)"
    by (simp add: take_bit_eq_mask)
  also have "\<dots> = take_bit e (unat p)" by (simp add: unsigned_take_bit_eq)
  finally show ?thesis using assms by (simp add: take_bit_eq_mod)
qed

lemma cell_idx_mod:
  assumes "pow2_cap (mq_cap q)" and "buffer_mask q = of_nat (mq_cap q - 1)"
  shows "cell_idx q p = unat p mod mq_cap q"
  using assms pos_and_mask unfolding cell_idx_def pow2_cap_def by auto

lemma cell_idx_add:
  assumes "pow2_cap (mq_cap q)" and "buffer_mask q = of_nat (mq_cap q - 1)"
  shows "cell_idx q (p + of_nat k) = (unat p + k) mod mq_cap q"
  using assms unat_add_mod [where 'a = 64] cell_idx_mod [OF assms] unfolding pow2_cap_def by auto

lemma pow2_cap_bounds: "pow2_cap b \<Longrightarrow> 2 \<le> b \<and> b \<le> 2 ^ 60"
  unfolding pow2_cap_def
  by (metis one_le_numeral power_increasing power_one_right)

definition mq_shape :: "mpmcq \<Rightarrow> bool" where
  "mq_shape q \<longleftrightarrow> pow2_cap (mq_cap q) \<and> buffer_mask q = of_nat (mq_cap q - 1)"

lemma mq_inv_shape: "mq_inv q \<Longrightarrow> mq_shape q"
  by (simp add: mq_inv_def mq_shape_def)

lemma cell_idx_less:
  assumes "mq_shape q"
  shows "cell_idx q p < length (buffer q)"
proof -
  from assms have "0 < mq_cap q" using pow2_cap_bounds [of "mq_cap q"] by (simp add: mq_shape_def)
  then have "unat p mod mq_cap q < mq_cap q" by (rule mod_less_divisor)
  with assms show ?thesis by (simp add: cell_idx_mod mq_shape_def mq_cap_def)
qed

lemma cell_idx_inj:
  assumes "mq_shape q" and "j < mq_cap q" and "k < mq_cap q"
  shows "cell_idx q (p + of_nat j) = cell_idx q (p + of_nat k) \<longleftrightarrow> j = k"
  using assms cell_idx_add [of q p] mod_add_inj by (auto simp: mq_shape_def)

lemma cell_at_put_cell:
  "mq_shape q \<Longrightarrow> cell_at (put_cell p c q) p' = (if cell_idx q p' = cell_idx q p then c else cell_at q p')"
  using cell_idx_less [of q p] by (auto simp: cell_at_def put_cell_def cell_idx_def)

lemma mq_shape_put_cell [simp]:
  "mq_shape (put_cell p c q) = mq_shape q" "mq_cap (put_cell p c q) = mq_cap q"
  "enqueue_pos (put_cell p c q) = enqueue_pos q" "dequeue_pos (put_cell p c q) = dequeue_pos q"
  "buffer_mask (put_cell p c q) = buffer_mask q"
  by (simp_all add: put_cell_def mq_shape_def mq_cap_def)

lemma mq_shape_pos [simp]:
  "mq_shape (q\<lparr>enqueue_pos := e\<rparr>) = mq_shape q" "mq_shape (q\<lparr>dequeue_pos := e\<rparr>) = mq_shape q"
  "mq_cap (q\<lparr>enqueue_pos := e\<rparr>) = mq_cap q" "mq_cap (q\<lparr>dequeue_pos := e\<rparr>) = mq_cap q"
  "cell_idx (q\<lparr>enqueue_pos := e\<rparr>) p = cell_idx q p" "cell_idx (q\<lparr>dequeue_pos := e\<rparr>) p = cell_idx q p"
  "cell_at (q\<lparr>enqueue_pos := e\<rparr>) p = cell_at q p" "cell_at (q\<lparr>dequeue_pos := e\<rparr>) p = cell_at q p"
  by (simp_all add: mq_shape_def mq_cap_def cell_idx_def cell_at_def)

lemma enqueue_pos_count: "enqueue_pos q = dequeue_pos q + of_nat (mq_count q)"
  by (simp add: mq_count_def)

lemma look_eq [simp]: "look p p = Look_match"
  by (simp add: look_def)

lemma look_behind:
  assumes "0 < k" and "k < 2 ^ 63"
  shows "look p (p + of_nat k) = Look_fail"
proof -
  have "sint (p - (p + of_nat k)) = sint (word_of_int (- int k) :: u64)" by simp
  also have "\<dots> = - int k"
    using assms by (subst sint_sbintrunc') (simp add: signed_take_bit_int_eq_self)
  finally show ?thesis using assms by (simp add: look_def)
qed

lemma mq_inv_alt:
  "mq_inv q \<longleftrightarrow> mq_shape q \<and> mq_count q \<le> mq_cap q \<and>
     (\<forall>k < mq_cap q. seq (cell_at q (dequeue_pos q + of_nat k)) =
        (if k < mq_count q then dequeue_pos q + of_nat k + 1 else dequeue_pos q + of_nat k))"
  by (auto simp: mq_inv_def mq_shape_def)

lemma mq_cap_lt:
  assumes "mq_shape q"
  shows "mq_cap q < 2 ^ 63" and "2 \<le> mq_cap q" and "mq_cap q - 1 < 2 ^ 63"
  using assms pow2_cap_bounds [of "mq_cap q"] by (auto simp: mq_shape_def)

lemma mq_count_eq:
  "n < 2 ^ 64 \<Longrightarrow> enqueue_pos q = dequeue_pos q + of_nat n \<Longrightarrow> mq_count q = n"
  by (simp add: mq_count_def unat_of_nat)

lemma cell_idx_wrap:
  "mq_shape q \<Longrightarrow> cell_idx q (p + of_nat (mq_cap q)) = cell_idx q p"
  using cell_idx_add [of q p "mq_cap q"] cell_idx_add [of q p 0] by (simp add: mq_shape_def)

lemma mpmc_enqueue_room:
  assumes inv: "mq_inv q" and room: "mq_count q < mq_cap q"
  shows "\<exists>q'. mpmc_enqueue q d = Some (q', True) \<and> mq_inv q' \<and>
    mq_list q' = mq_list q @ [d] \<and> mq_cap q' = mq_cap q"
proof -
  let ?e = "enqueue_pos q" and ?d = "dequeue_pos q" and ?n = "mq_count q"
  let ?q = "put_cell ?e \<lparr>seq = ?e + 1, data = d\<rparr> (q\<lparr>enqueue_pos := ?e + 1\<rparr>)"
  have sh: "mq_shape q" using inv by (rule mq_inv_shape)
  have e: "?e = ?d + of_nat ?n" by (rule enqueue_pos_count)
  have "seq (cell_at q ?e) = ?e" using inv room e by (auto simp: mq_inv_alt)
  then have run: "mpmc_enqueue q d = Some (?q, True)"
    by (simp add: mpmc_enqueue_def mpmc_enqueue_loop.simps)
  have cnt: "mq_count ?q = Suc ?n"
    using room mq_cap_lt [OF sh] e by (intro mq_count_eq) (simp_all add: algebra_simps)
  have at: "cell_at ?q (?d + of_nat k) =
      (if k = ?n then \<lparr>seq = ?e + 1, data = d\<rparr> else cell_at q (?d + of_nat k))" if "k < mq_cap q" for k
    using sh that room cell_idx_inj [OF sh that room, of ?d] e by (simp add: cell_at_put_cell)
  have "mq_inv ?q"
    using inv at cnt sh e room by (auto simp: mq_inv_alt less_Suc_eq)
  moreover have "mq_list ?q = mq_list q @ [d]"
    using cnt at room by (auto simp: mq_list_def)
  ultimately show ?thesis using run sh by auto
qed

lemma mpmc_enqueue_full:
  assumes inv: "mq_inv q" and full: "mq_count q = mq_cap q"
  shows "mpmc_enqueue q d = Some (q, False)"
proof -
  let ?e = "enqueue_pos q" and ?d = "dequeue_pos q"
  have sh: "mq_shape q" using inv by (rule mq_inv_shape)
  have e: "?e = ?d + of_nat (mq_cap q)" using enqueue_pos_count [of q] full by simp
  have "cell_at q ?e = cell_at q (?d + of_nat 0)"
    using cell_idx_wrap [OF sh] e by (simp add: cell_at_def)
  then have "seq (cell_at q ?e) = ?d + 1"
    using inv full mq_cap_lt [OF sh] by (auto simp: mq_inv_alt dest!: spec [of _ 0])
  moreover have "?e = (?d + 1) + of_nat (mq_cap q - 1)"
    using e mq_cap_lt [OF sh] by (simp add: of_nat_diff)
  ultimately have "look (seq (cell_at q ?e)) ?e = Look_fail"
    using mq_cap_lt [OF sh] look_behind [of "mq_cap q - 1" "?d + 1"] by simp
  then show ?thesis by (simp add: mpmc_enqueue_def mpmc_enqueue_loop.simps)
qed

lemma mpmc_dequeue_empty:
  assumes inv: "mq_inv q" and empty: "mq_count q = 0"
  shows "mpmc_dequeue q = Some (q, None)"
proof -
  let ?d = "dequeue_pos q"
  have "seq (cell_at q ?d) = ?d"
    using inv empty mq_cap_lt [OF mq_inv_shape [OF inv]] by (auto simp: mq_inv_alt dest!: spec [of _ 0])
  then have "look (seq (cell_at q ?d)) (?d + 1) = Look_fail"
    using look_behind [of 1 ?d] by simp
  then show ?thesis by (simp add: mpmc_dequeue_def mpmc_dequeue_loop.simps)
qed

lemma mpmc_dequeue_some:
  assumes inv: "mq_inv q" and ne: "0 < mq_count q"
  shows "\<exists>q'. mpmc_dequeue q = Some (q', Some (hd (mq_list q))) \<and> mq_inv q' \<and>
    mq_list q' = tl (mq_list q) \<and> mq_cap q' = mq_cap q"
proof -
  let ?d = "dequeue_pos q" and ?n = "mq_count q" and ?b = "mq_cap q"
  let ?c = "(cell_at q ?d)\<lparr>seq := ?d + buffer_mask q + 1\<rparr>"
  let ?q = "put_cell ?d ?c (q\<lparr>dequeue_pos := ?d + 1\<rparr>)"
  have sh: "mq_shape q" using inv by (rule mq_inv_shape)
  note b = mq_cap_lt [OF sh]
  have "seq (cell_at q ?d) = ?d + 1"
    using inv ne b by (auto simp: mq_inv_alt dest!: spec [of _ 0])
  moreover have "hd (mq_list q) = data (cell_at q ?d)"
    using ne by (simp add: mq_list_def hd_map upt_conv_Cons)
  ultimately have run: "mpmc_dequeue q = Some (?q, Some (hd (mq_list q)))"
    by (simp add: mpmc_dequeue_def mpmc_dequeue_loop.simps)
  have cnt: "mq_count ?q = ?n - 1"
    using ne inv b enqueue_pos_count [of q]
    by (intro mq_count_eq) (auto simp: of_nat_diff mq_inv_alt)
  have mask: "?d + buffer_mask q + 1 = ?d + of_nat ?b"
    using sh b by (simp add: mq_shape_def of_nat_diff)
  have at: "cell_at ?q (?d + 1 + of_nat k) =
      (if Suc k = ?b then ?c else cell_at q (?d + of_nat (Suc k)))" if "k < ?b" for k
  proof -
    have "cell_idx q (?d + of_nat (Suc k)) = cell_idx q ?d \<longleftrightarrow> Suc k = ?b"
      using cell_idx_inj [OF sh, of "Suc k" 0 ?d] cell_idx_wrap [OF sh, of ?d] that b
      by (cases "Suc k = ?b") auto
    then show ?thesis using sh by (simp add: cell_at_put_cell algebra_simps)
  qed
  have "seq (cell_at ?q (?d + 1 + of_nat k)) =
      (if k < ?n - 1 then ?d + 1 + of_nat k + 1 else ?d + 1 + of_nat k)" if "k < ?b" for k
  proof (cases "Suc k = ?b")
    case True
    then have "?d + of_nat ?b = ?d + 1 + of_nat k" using of_nat_Suc [of k] by (simp add: algebra_simps)
    with True inv ne mask at [OF that] show ?thesis by (auto simp: mq_inv_alt)
  next
    case False
    with that inv have "seq (cell_at q (?d + of_nat (Suc k))) =
        (if Suc k < ?n then ?d + of_nat (Suc k) + 1 else ?d + of_nat (Suc k))"
      unfolding mq_inv_alt by (meson Suc_lessI)
    with False at [OF that] show ?thesis by (auto simp: algebra_simps)
  qed
  moreover have "?n - 1 \<le> ?b" using inv by (simp add: mq_inv_alt le_diff_conv)
  ultimately have "mq_inv ?q"
    using cnt sh by (simp add: mq_inv_alt)
  moreover have "mq_list ?q = tl (mq_list q)"
    using cnt at inv ne
    by (intro nth_equalityI) (auto simp: mq_list_def mq_inv_alt nth_tl algebra_simps)
  ultimately show ?thesis using run sh by auto
qed
lemma newmpmcq_loop_nth:
  "i \<le> n \<Longrightarrow> n \<le> length mem \<Longrightarrow> length (newmpmcq_loop i n mem) = length mem \<and>
     (\<forall>k < length mem. seq (newmpmcq_loop i n mem ! k) =
        (if i \<le> k \<and> k < n then of_nat k else seq (mem ! k)))"
proof (induction i n mem rule: newmpmcq_loop.induct)
  case (1 i n mem)
  show ?case
  proof (cases "i < n")
    case True
    with 1 show ?thesis
      by (auto simp: newmpmcq_loop.simps [of i n mem] nth_list_update not_less_eq_eq
          dest: le_antisym)
  next
    case False
    then show ?thesis by (auto simp: newmpmcq_loop.simps [of i n mem])
  qed
qed

lemma newmpmcq_inv:
  assumes "newmpmcq bytes mem = Some q" and "length mem = unat (bytes div 16)"
  shows "mq_inv q \<and> mq_list q = [] \<and> mq_cap q = unat bytes div 16"
proof -
  define n where "n = bytes div 16"
  from assms(1) have n: "n \<ge> 2" "n AND (n - 1) = 0"
    and q: "q = \<lparr>buffer = newmpmcq_loop 0 (unat n) mem, buffer_mask = n - 1,
                  enqueue_pos = 0, dequeue_pos = 0\<rparr>"
    by (auto simp: newmpmcq_def n_def Let_def split: if_splits)
  have un: "unat n = unat bytes div 16" by (simp add: n_def unat_div)
  have lo: "2 \<le> unat n" using n(1) by (simp add: word_le_nat_alt)
  have hi: "unat n < 2 ^ 60" using un unsigned_less [of bytes, where ?'a = nat] by simp
  have cap: "mq_cap q = unat n"
    using q assms(2) newmpmcq_loop_nth [of 0 "unat n" mem] by (simp add: mq_cap_def n_def)
  have "n \<noteq> 0" using lo by auto
  then obtain e where e: "unat n = 2 ^ e"
    using and_pred_eq_0_pow2 [OF n(2)] by blast
  have "e \<le> 60" using e hi by (metis less_imp_le nat_power_less_imp_less zero_less_numeral)
  moreover have "1 \<le> e" using e lo by (cases e) auto
  ultimately have p2: "pow2_cap (mq_cap q)" using cap e by (auto simp: pow2_cap_def)
  have mask: "buffer_mask q = of_nat (mq_cap q - 1)"
    using q cap lo by (simp add: of_nat_diff)
  have cnt: "mq_count q = 0" using q by (simp add: mq_count_def)
  have "seq (cell_at q (of_nat k)) = of_nat k" if "k < mq_cap q" for k
    using cell_idx_add [OF p2 mask, of 0 k] that newmpmcq_loop_nth [of 0 "unat n" mem] assms(2) cap q
    by (simp add: cell_at_def n_def)
  then have "mq_inv q" using p2 mask cnt q by (simp add: mq_inv_def)
  then show ?thesis using cnt cap un by (simp add: mq_list_def)
qed

section \<open>The interface: a bounded first-in first-out queue\<close>

datatype 'a qop = Enq 'a | Deq

datatype 'a qres = Enq_res bool | Deq_res "'a option"

text \<open>A client's sequence of calls, on an implementation and on a list of bounded length.\<close>

fun run_ops :: "('q \<Rightarrow> 'a \<Rightarrow> ('q \<times> bool) option) \<Rightarrow> ('q \<Rightarrow> ('q \<times> 'a option) option)
    \<Rightarrow> 'a qop list \<Rightarrow> 'q \<Rightarrow> ('q \<times> 'a qres list) option" where
  "run_ops enq deq [] q = Some (q, [])"
| "run_ops enq deq (Enq x # ops) q =
     (case enq q x of None \<Rightarrow> None
      | Some (q', r) \<Rightarrow> map_option (map_prod id ((#) (Enq_res r))) (run_ops enq deq ops q'))"
| "run_ops enq deq (Deq # ops) q =
     (case deq q of None \<Rightarrow> None
      | Some (q', r) \<Rightarrow> map_option (map_prod id ((#) (Deq_res r))) (run_ops enq deq ops q'))"

fun spec_ops :: "nat \<Rightarrow> 'a qop list \<Rightarrow> 'a list \<Rightarrow> 'a list \<times> 'a qres list" where
  "spec_ops b [] xs = (xs, [])"
| "spec_ops b (Enq x # ops) xs =
     (if length xs < b then map_prod id ((#) (Enq_res True)) (spec_ops b ops (xs @ [x]))
      else map_prod id ((#) (Enq_res False)) (spec_ops b ops xs))"
| "spec_ops b (Deq # ops) xs =
     (case xs of [] \<Rightarrow> map_prod id ((#) (Deq_res None)) (spec_ops b ops [])
      | y # ys \<Rightarrow> map_prod id ((#) (Deq_res (Some y))) (spec_ops b ops ys))"

locale bounded_fifo =
  fixes enq :: "'q \<Rightarrow> 'a \<Rightarrow> ('q \<times> bool) option"
    and deq :: "'q \<Rightarrow> ('q \<times> 'a option) option"
    and inv :: "'q \<Rightarrow> bool"
    and contents :: "'q \<Rightarrow> 'a list"
    and cap :: "'q \<Rightarrow> nat"
  assumes within_cap: "inv q \<Longrightarrow> length (contents q) \<le> cap q"
    and enq_room: "inv q \<Longrightarrow> length (contents q) < cap q \<Longrightarrow>
      \<exists>q'. enq q x = Some (q', True) \<and> inv q' \<and> contents q' = contents q @ [x] \<and> cap q' = cap q"
    and enq_full: "inv q \<Longrightarrow> length (contents q) = cap q \<Longrightarrow> enq q x = Some (q, False)"
    and deq_empty: "inv q \<Longrightarrow> contents q = [] \<Longrightarrow> deq q = Some (q, None)"
    and deq_some: "inv q \<Longrightarrow> contents q = y # ys \<Longrightarrow>
      \<exists>q'. deq q = Some (q', Some y) \<and> inv q' \<and> contents q' = ys \<and> cap q' = cap q"
begin

theorem run_refines_spec:
  "inv q \<Longrightarrow> \<exists>q' rs. run_ops enq deq ops q = Some (q', rs) \<and> inv q' \<and>
     spec_ops (cap q) ops (contents q) = (contents q', rs)"
proof (induction ops arbitrary: q)
  case Nil
  then show ?case by simp
next
  case (Cons a ops)
  show ?case
  proof (cases a)
    case (Enq x)
    show ?thesis
    proof (cases "length (contents q) < cap q")
      case True
      from enq_room [OF Cons.prems True, of x] obtain q' where
        "enq q x = Some (q', True)" "inv q'" "contents q' = contents q @ [x]" "cap q' = cap q"
        by blast
      with Cons.IH [of q'] True Enq show ?thesis by fastforce
    next
      case False
      with within_cap [OF Cons.prems] have "length (contents q) = cap q" by simp
      with enq_full [OF Cons.prems] Cons.IH [OF Cons.prems] Enq show ?thesis by fastforce
    qed
  next
    case Deq
    show ?thesis
    proof (cases "contents q")
      case Nil
      with deq_empty [OF Cons.prems] Cons.IH [OF Cons.prems] Deq show ?thesis by fastforce
    next
      case (Cons y ys)
      from deq_some [OF Cons.prems this] obtain q' where
        "deq q = Some (q', Some y)" "inv q'" "contents q' = ys" "cap q' = cap q"
        by blast
      with Cons.IH [of q'] Cons Deq show ?thesis by fastforce
    qed
  qed
qed

end

lemma length_mq_list [simp]: "length (mq_list q) = mq_count q"
  by (simp add: mq_list_def)

interpretation mq: bounded_fifo mpmc_enqueue mpmc_dequeue mq_inv mq_list mq_cap
proof unfold_locales
  show "length (mq_list q) \<le> mq_cap q" if "mq_inv q" for q
    using that by (simp add: mq_inv_alt)
  show "\<exists>q'. mpmc_enqueue q x = Some (q', True) \<and> mq_inv q' \<and> mq_list q' = mq_list q @ [x] \<and>
      mq_cap q' = mq_cap q" if "mq_inv q" "length (mq_list q) < mq_cap q" for q x
    using mpmc_enqueue_room that by simp
  show "mpmc_enqueue q x = Some (q, False)" if "mq_inv q" "length (mq_list q) = mq_cap q" for q x
    using mpmc_enqueue_full that by simp
  show "mpmc_dequeue q = Some (q, None)" if "mq_inv q" "mq_list q = []" for q
    using mpmc_dequeue_empty that length_mq_list [of q] by simp
  show "\<exists>q'. mpmc_dequeue q = Some (q', Some y) \<and> mq_inv q' \<and> mq_list q' = ys \<and> mq_cap q' = mq_cap q"
    if "mq_inv q" "mq_list q = y # ys" for q y ys
    using mpmc_dequeue_some [OF that(1)] that(2) length_mq_list [of q] by simp
qed

section \<open>Properties\<close>

text \<open>
  C3. Used by one thread, the queue is a bounded first-in first-out list across every
  wrap-around of its positions: on a queue \<open>newmpmcq\<close> initialised, any sequence of
  \<open>mpmc_enqueue\<close> and \<open>mpmc_dequeue\<close> calls returns, with the results of the same calls on a
  list that refuses an element exactly when it holds \<open>buffer_size / 16\<close> of them.
\<close>

theorem mpmc_sequential_fifo:
  assumes "newmpmcq bytes mem = Some q" and "length mem = unat (bytes div 16)"
  shows "\<exists>q' rs. run_ops mpmc_enqueue mpmc_dequeue ops q = Some (q', rs) \<and>
    spec_ops (unat bytes div 16) ops [] = (mq_list q', rs)"
  using mq.run_refines_spec [of q ops] newmpmcq_inv [OF assms] by auto

theorem mpmc_sequential_fifo_witness:
  "\<exists>q' rs. run_ops mpmc_enqueue mpmc_dequeue [Enq 7, Enq 8, Enq 9, Deq]
      (the (newmpmcq 32 (replicate 2 \<lparr>seq = 0, data = 0\<rparr>))) = Some (q', rs) \<and>
    spec_ops 2 [Enq 7, Enq 8, Enq 9, Deq] [] = (mq_list q', rs)"
  using mpmc_sequential_fifo [of 32 "replicate 2 \<lparr>seq = 0, data = 0\<rparr>"
      "the (newmpmcq 32 (replicate 2 \<lparr>seq = 0, data = 0\<rparr>))" "[Enq 7, Enq 8, Enq 9, Deq]"]
  by (simp add: newmpmcq_def)

end
