(* ===== verification/Mpmc_Concurrent.thy ===== *)
theory Mpmc_Concurrent
  imports Mpmc_Queue
begin

text \<open>
  The queue of \<^verbatim>\<open>src/shared/mpmc_queue.c\<close> under concurrency: any number of threads execute
  the loads, stores and compare-and-swaps of \<open>mpmc_enqueue\<close> and \<open>mpmc_dequeue\<close> in any
  interleaving (sequentially consistent memory). The compare-and-swap is the weak one and may
  fail spuriously. Two history variables that no step reads record the data in the order of
  the successful compare-and-swaps on \<open>enqueue_pos\<close> and what the dequeues returned.

  The proof goes through the same machine with unbounded positions, whose invariants say
  which thread owns which cell, and a simulation: as long as fewer than \<open>2 ^ 62\<close> steps were
  taken the 64 bit machine is its image.
\<close>

section \<open>The interleaved machine\<close>

datatype 'p mq_pc =
    MQ_idle
  | Enq_reload ptr
  | Enq_look ptr 'p
  | Enq_cas ptr 'p
  | Enq_data ptr 'p
  | Enq_seq 'p
  | Deq_reload
  | Deq_look 'p
  | Deq_cas 'p
  | Deq_data 'p nat
  | Deq_seq 'p ptr nat

record mq_sys =
  mq_q :: mpmcq
  mq_pcs :: "nat \<Rightarrow> u64 mq_pc"
  mq_in :: "ptr list"
  mq_taken :: nat
  mq_out :: "nat \<Rightarrow> ptr option"

definition mq_goto :: "nat \<Rightarrow> u64 mq_pc \<Rightarrow> mq_sys \<Rightarrow> mq_sys" where
  "mq_goto i p s = s\<lparr>mq_pcs := (mq_pcs s)(i := p)\<rparr>"

definition enq_look_step :: "nat \<Rightarrow> ptr \<Rightarrow> u64 \<Rightarrow> mq_sys \<Rightarrow> mq_sys" where
  "enq_look_step i d pos s =
     (case look (seq (cell_at (mq_q s) pos)) pos of
        Look_match \<Rightarrow> mq_goto i (Enq_cas d pos) s
      | Look_fail \<Rightarrow> mq_goto i MQ_idle s
      | Look_reload \<Rightarrow> mq_goto i (Enq_reload d) s)"

definition enq_cas_ok :: "nat \<Rightarrow> ptr \<Rightarrow> u64 \<Rightarrow> mq_sys \<Rightarrow> mq_sys" where
  "enq_cas_ok i d pos s =
     mq_goto i (Enq_data d pos)
       (s\<lparr>mq_q := (mq_q s)\<lparr>enqueue_pos := pos + 1\<rparr>, mq_in := mq_in s @ [d]\<rparr>)"

definition enq_store_data :: "nat \<Rightarrow> ptr \<Rightarrow> u64 \<Rightarrow> mq_sys \<Rightarrow> mq_sys" where
  "enq_store_data i d pos s =
     mq_goto i (Enq_seq pos)
       (s\<lparr>mq_q := put_cell pos ((cell_at (mq_q s) pos)\<lparr>data := d\<rparr>) (mq_q s)\<rparr>)"

definition enq_store_seq :: "nat \<Rightarrow> u64 \<Rightarrow> mq_sys \<Rightarrow> mq_sys" where
  "enq_store_seq i pos s =
     mq_goto i MQ_idle
       (s\<lparr>mq_q := put_cell pos ((cell_at (mq_q s) pos)\<lparr>seq := pos + 1\<rparr>) (mq_q s)\<rparr>)"

definition deq_look_step :: "nat \<Rightarrow> u64 \<Rightarrow> mq_sys \<Rightarrow> mq_sys" where
  "deq_look_step i pos s =
     (case look (seq (cell_at (mq_q s) pos)) (pos + 1) of
        Look_match \<Rightarrow> mq_goto i (Deq_cas pos) s
      | Look_fail \<Rightarrow> mq_goto i MQ_idle s
      | Look_reload \<Rightarrow> mq_goto i Deq_reload s)"

definition deq_cas_ok :: "nat \<Rightarrow> u64 \<Rightarrow> mq_sys \<Rightarrow> mq_sys" where
  "deq_cas_ok i pos s =
     mq_goto i (Deq_data pos (mq_taken s))
       (s\<lparr>mq_q := (mq_q s)\<lparr>dequeue_pos := pos + 1\<rparr>, mq_taken := Suc (mq_taken s)\<rparr>)"

definition deq_load_data :: "nat \<Rightarrow> u64 \<Rightarrow> nat \<Rightarrow> mq_sys \<Rightarrow> mq_sys" where
  "deq_load_data i pos k s = mq_goto i (Deq_seq pos (data (cell_at (mq_q s) pos)) k) s"

definition deq_store_seq :: "nat \<Rightarrow> u64 \<Rightarrow> ptr \<Rightarrow> nat \<Rightarrow> mq_sys \<Rightarrow> mq_sys" where
  "deq_store_seq i pos d k s =
     mq_goto i MQ_idle
       (s\<lparr>mq_q := put_cell pos ((cell_at (mq_q s) pos)\<lparr>seq := pos + buffer_mask (mq_q s) + 1\<rparr>)
            (mq_q s),
          mq_out := (mq_out s)(k \<mapsto> d)\<rparr>)"

inductive mq_step :: "nat \<Rightarrow> mq_sys \<Rightarrow> mq_sys \<Rightarrow> bool" where
  enq_call: "mq_pcs s i = MQ_idle \<Longrightarrow> mq_step i s (mq_goto i (Enq_reload d) s)"
| enq_pos: "mq_pcs s i = Enq_reload d \<Longrightarrow>
    mq_step i s (mq_goto i (Enq_look d (enqueue_pos (mq_q s))) s)"
| enq_look: "mq_pcs s i = Enq_look d pos \<Longrightarrow> mq_step i s (enq_look_step i d pos s)"
| enq_cas: "mq_pcs s i = Enq_cas d pos \<Longrightarrow> enqueue_pos (mq_q s) = pos \<Longrightarrow>
    mq_step i s (enq_cas_ok i d pos s)"
| enq_cas_fail: "mq_pcs s i = Enq_cas d pos \<Longrightarrow> mq_step i s (mq_goto i (Enq_look d pos) s)"
| enq_data: "mq_pcs s i = Enq_data d pos \<Longrightarrow> mq_step i s (enq_store_data i d pos s)"
| enq_seq: "mq_pcs s i = Enq_seq pos \<Longrightarrow> mq_step i s (enq_store_seq i pos s)"
| deq_call: "mq_pcs s i = MQ_idle \<Longrightarrow> mq_step i s (mq_goto i Deq_reload s)"
| deq_pos: "mq_pcs s i = Deq_reload \<Longrightarrow>
    mq_step i s (mq_goto i (Deq_look (dequeue_pos (mq_q s))) s)"
| deq_look: "mq_pcs s i = Deq_look pos \<Longrightarrow> mq_step i s (deq_look_step i pos s)"
| deq_cas: "mq_pcs s i = Deq_cas pos \<Longrightarrow> dequeue_pos (mq_q s) = pos \<Longrightarrow>
    mq_step i s (deq_cas_ok i pos s)"
| deq_cas_fail: "mq_pcs s i = Deq_cas pos \<Longrightarrow> mq_step i s (mq_goto i (Deq_look pos) s)"
| deq_data: "mq_pcs s i = Deq_data pos k \<Longrightarrow> mq_step i s (deq_load_data i pos k s)"
| deq_seq: "mq_pcs s i = Deq_seq pos d k \<Longrightarrow> mq_step i s (deq_store_seq i pos d k s)"

definition mq_start :: "mpmcq \<Rightarrow> mq_sys" where
  "mq_start q = \<lparr>mq_q = q, mq_pcs = (\<lambda>_. MQ_idle), mq_in = [], mq_taken = 0, mq_out = Map.empty\<rparr>"

section \<open>The machine with unbounded positions\<close>

record na_sys =
  na_seq :: "nat \<Rightarrow> nat"
  na_data :: "nat \<Rightarrow> ptr"
  na_pcs :: "nat \<Rightarrow> nat mq_pc"
  na_in :: "ptr list"
  na_taken :: nat
  na_out :: "nat \<Rightarrow> ptr option"

abbreviation na_E :: "na_sys \<Rightarrow> nat" where
  "na_E a \<equiv> length (na_in a)"

definition na_goto :: "nat \<Rightarrow> nat mq_pc \<Rightarrow> na_sys \<Rightarrow> na_sys" where
  "na_goto i p a = a\<lparr>na_pcs := (na_pcs a)(i := p)\<rparr>"

inductive na_step :: "nat \<Rightarrow> nat \<Rightarrow> na_sys \<Rightarrow> na_sys \<Rightarrow> bool" for b where
  na_enq_call: "na_pcs a i = MQ_idle \<Longrightarrow> na_step b i a (na_goto i (Enq_reload d) a)"
| na_enq_pos: "na_pcs a i = Enq_reload d \<Longrightarrow> na_step b i a (na_goto i (Enq_look d (na_E a)) a)"
| na_enq_match: "na_pcs a i = Enq_look d p \<Longrightarrow> na_seq a (p mod b) = p \<Longrightarrow>
    na_step b i a (na_goto i (Enq_cas d p) a)"
| na_enq_fail: "na_pcs a i = Enq_look d p \<Longrightarrow> na_step b i a (na_goto i MQ_idle a)"
| na_enq_retry: "na_pcs a i = Enq_look d p \<Longrightarrow> na_step b i a (na_goto i (Enq_reload d) a)"
| na_enq_cas: "na_pcs a i = Enq_cas d p \<Longrightarrow> p = na_E a \<Longrightarrow>
    na_step b i a (na_goto i (Enq_data d p) (a\<lparr>na_in := na_in a @ [d]\<rparr>))"
| na_enq_cas_fail: "na_pcs a i = Enq_cas d p \<Longrightarrow> na_step b i a (na_goto i (Enq_look d p) a)"
| na_enq_data: "na_pcs a i = Enq_data d p \<Longrightarrow>
    na_step b i a (na_goto i (Enq_seq p) (a\<lparr>na_data := (na_data a)(p mod b := d)\<rparr>))"
| na_enq_seq: "na_pcs a i = Enq_seq p \<Longrightarrow>
    na_step b i a (na_goto i MQ_idle (a\<lparr>na_seq := (na_seq a)(p mod b := Suc p)\<rparr>))"
| na_deq_call: "na_pcs a i = MQ_idle \<Longrightarrow> na_step b i a (na_goto i Deq_reload a)"
| na_deq_pos: "na_pcs a i = Deq_reload \<Longrightarrow> na_step b i a (na_goto i (Deq_look (na_taken a)) a)"
| na_deq_match: "na_pcs a i = Deq_look p \<Longrightarrow> na_seq a (p mod b) = Suc p \<Longrightarrow>
    na_step b i a (na_goto i (Deq_cas p) a)"
| na_deq_fail: "na_pcs a i = Deq_look p \<Longrightarrow> na_step b i a (na_goto i MQ_idle a)"
| na_deq_retry: "na_pcs a i = Deq_look p \<Longrightarrow> na_step b i a (na_goto i Deq_reload a)"
| na_deq_cas: "na_pcs a i = Deq_cas p \<Longrightarrow> p = na_taken a \<Longrightarrow>
    na_step b i a (na_goto i (Deq_data p p) (a\<lparr>na_taken := Suc p\<rparr>))"
| na_deq_cas_fail: "na_pcs a i = Deq_cas p \<Longrightarrow> na_step b i a (na_goto i (Deq_look p) a)"
| na_deq_data: "na_pcs a i = Deq_data p k \<Longrightarrow>
    na_step b i a (na_goto i (Deq_seq p (na_data a (p mod b)) k) a)"
| na_deq_seq: "na_pcs a i = Deq_seq p d k \<Longrightarrow>
    na_step b i a (na_goto i MQ_idle
      (a\<lparr>na_seq := (na_seq a)(p mod b := p + b), na_out := (na_out a)(k \<mapsto> d)\<rparr>))"

text \<open>A thread owns the cell of a position between its compare-and-swap and its last store.\<close>

fun enq_owns :: "'p mq_pc \<Rightarrow> 'p \<Rightarrow> bool" where
  "enq_owns (Enq_data d p) q = (q = p)"
| "enq_owns (Enq_seq p) q = (q = p)"
| "enq_owns _ q = False"

fun deq_owns :: "'p mq_pc \<Rightarrow> 'p \<Rightarrow> bool" where
  "deq_owns (Deq_data p k) q = (q = p)"
| "deq_owns (Deq_seq p d k) q = (q = p)"
| "deq_owns _ q = False"

text \<open>What holds of each thread, according to where it is.\<close>

fun pc_ok :: "nat \<Rightarrow> na_sys \<Rightarrow> nat mq_pc \<Rightarrow> bool" where
  "pc_ok b a (Enq_look d p) \<longleftrightarrow> p \<le> na_E a"
| "pc_ok b a (Enq_cas d p) \<longleftrightarrow> p \<le> na_E a \<and> (p = na_E a \<longrightarrow> na_seq a (p mod b) = p)"
| "pc_ok b a (Enq_data d p) \<longleftrightarrow> p < na_E a \<and> na_seq a (p mod b) = p \<and> na_in a ! p = d"
| "pc_ok b a (Enq_seq p) \<longleftrightarrow>
     p < na_E a \<and> na_seq a (p mod b) = p \<and> na_data a (p mod b) = na_in a ! p"
| "pc_ok b a (Deq_look p) \<longleftrightarrow> p \<le> na_taken a"
| "pc_ok b a (Deq_cas p) \<longleftrightarrow> p \<le> na_taken a \<and> (p = na_taken a \<longrightarrow> na_seq a (p mod b) = Suc p)"
| "pc_ok b a (Deq_data p k) \<longleftrightarrow> k = p \<and> p < na_taken a \<and> na_seq a (p mod b) = Suc p"
| "pc_ok b a (Deq_seq p d k) \<longleftrightarrow>
     k = p \<and> p < na_taken a \<and> na_seq a (p mod b) = Suc p \<and> d = na_in a ! p"
| "pc_ok b a _ \<longleftrightarrow> True"

definition na_inv :: "nat \<Rightarrow> na_sys \<Rightarrow> bool" where
  "na_inv b a \<longleftrightarrow>
     na_taken a \<le> na_E a \<and> na_E a \<le> na_taken a + b \<and>
     (\<forall>i < b. na_seq a i \<le> na_E a + b) \<and>
     (\<forall>p. na_seq a (p mod b) = Suc p \<longrightarrow> p < na_E a \<and> na_data a (p mod b) = na_in a ! p) \<and>
     (\<forall>p. na_seq a (p mod b) = p \<longrightarrow> p < na_taken a + b) \<and>
     (\<forall>p. na_taken a \<le> p \<longrightarrow> p < na_E a \<longrightarrow>
        na_seq a (p mod b) = Suc p \<or> (\<exists>t. enq_owns (na_pcs a t) p)) \<and>
     (\<forall>p. na_E a \<le> p \<longrightarrow> p < na_taken a + b \<longrightarrow>
        na_seq a (p mod b) = p \<or> (\<exists>t. \<exists>q. p = q + b \<and> deq_owns (na_pcs a t) q)) \<and>
     (\<forall>t. pc_ok b a (na_pcs a t)) \<and>
     (\<forall>t u p. enq_owns (na_pcs a t) p \<longrightarrow> enq_owns (na_pcs a u) p \<longrightarrow> t = u) \<and>
     (\<forall>t u p. deq_owns (na_pcs a t) p \<longrightarrow> deq_owns (na_pcs a u) p \<longrightarrow> t = u) \<and>
     (\<forall>k v. na_out a k = Some v \<longrightarrow> k < na_taken a \<and> na_in a ! k = v)"

section \<open>The unbounded machine keeps its invariant\<close>

lemma Suc_mod_neq: "2 \<le> b \<Longrightarrow> Suc q mod b \<noteq> q mod b"
  using mod_add_inj [of 1 b 0 q] by simp

lemma na_goto_simps [simp]:
  "na_seq (na_goto i p a) = na_seq a" "na_data (na_goto i p a) = na_data a"
  "na_in (na_goto i p a) = na_in a" "na_taken (na_goto i p a) = na_taken a"
  "na_out (na_goto i p a) = na_out a" "na_pcs (na_goto i p a) = (na_pcs a)(i := p)"
  by (simp_all add: na_goto_def)

lemma pc_ok_goto [simp]: "pc_ok b (na_goto i p a) = pc_ok b a"
proof
  fix c show "pc_ok b (na_goto i p a) c = pc_ok b a c" by (cases c) simp_all
qed

lemma na_inv_goto:
  assumes inv: "na_inv b a" and ok: "pc_ok b a p"
    and "enq_owns p = enq_owns (na_pcs a i)" and "deq_owns p = deq_owns (na_pcs a i)"
  shows "na_inv b (na_goto i p a)"
proof -
  have e: "enq_owns (((na_pcs a)(i := p)) t) = enq_owns (na_pcs a t)"
    and d: "deq_owns (((na_pcs a)(i := p)) t) = deq_owns (na_pcs a t)" for t
    using assms(3,4) by simp_all
  have "pc_ok b a (((na_pcs a)(i := p)) t)" for t
    using inv ok by (simp add: na_inv_def)
  then show ?thesis
    using inv unfolding na_inv_def na_goto_simps pc_ok_goto e d by blast
qed

lemma owns_none [simp]:
  "enq_owns MQ_idle = (\<lambda>_. False)" "enq_owns (Enq_reload d) = (\<lambda>_. False)"
  "enq_owns (Enq_look d p) = (\<lambda>_. False)" "enq_owns (Enq_cas d p) = (\<lambda>_. False)"
  "enq_owns Deq_reload = (\<lambda>_. False)" "enq_owns (Deq_look p) = (\<lambda>_. False)"
  "enq_owns (Deq_cas p) = (\<lambda>_. False)" "enq_owns (Deq_data p k) = (\<lambda>_. False)"
  "enq_owns (Deq_seq p d k) = (\<lambda>_. False)"
  "deq_owns MQ_idle = (\<lambda>_. False)" "deq_owns (Enq_reload d) = (\<lambda>_. False)"
  "deq_owns (Enq_look d p) = (\<lambda>_. False)" "deq_owns (Enq_cas d p) = (\<lambda>_. False)"
  "deq_owns (Enq_data d p) = (\<lambda>_. False)" "deq_owns (Enq_seq p) = (\<lambda>_. False)"
  "deq_owns Deq_reload = (\<lambda>_. False)" "deq_owns (Deq_look p) = (\<lambda>_. False)"
  "deq_owns (Deq_cas p) = (\<lambda>_. False)"
  by (auto simp: fun_eq_iff)

lemma owns_some [simp]:
  "enq_owns (Enq_data d p) = (\<lambda>q. q = p)" "enq_owns (Enq_seq p) = (\<lambda>q. q = p)"
  "deq_owns (Deq_data p k) = (\<lambda>q. q = p)" "deq_owns (Deq_seq p d k) = (\<lambda>q. q = p)"
  by (auto simp: fun_eq_iff)

lemma enq_owns_seq: "pc_ok b a c \<Longrightarrow> enq_owns c p \<Longrightarrow> p < na_E a \<and> na_seq a (p mod b) = p"
  by (cases c) auto

lemma deq_owns_seq: "pc_ok b a c \<Longrightarrow> deq_owns c p \<Longrightarrow> p < na_taken a \<and> na_seq a (p mod b) = Suc p"
  by (cases c) auto

text \<open>The invariant, clause by clause.\<close>

lemma na_invD:
  assumes "na_inv b a"
  shows na_inv_taken: "na_taken a \<le> na_E a" "na_E a \<le> na_taken a + b"
    and na_inv_bound: "i < b \<Longrightarrow> na_seq a i \<le> na_E a + b"
    and na_inv_full: "na_seq a (p mod b) = Suc p \<Longrightarrow> p < na_E a \<and> na_data a (p mod b) = na_in a ! p"
    and na_inv_free: "na_seq a (p mod b) = p \<Longrightarrow> p < na_taken a + b"
    and na_inv_filled: "na_taken a \<le> p \<Longrightarrow> p < na_E a \<Longrightarrow>
      na_seq a (p mod b) = Suc p \<or> (\<exists>t. enq_owns (na_pcs a t) p)"
    and na_inv_released: "na_E a \<le> p \<Longrightarrow> p < na_taken a + b \<Longrightarrow>
      na_seq a (p mod b) = p \<or> (\<exists>t. \<exists>q. p = q + b \<and> deq_owns (na_pcs a t) q)"
    and na_inv_pc: "pc_ok b a (na_pcs a t)"
    and na_inv_enq_uniq: "enq_owns (na_pcs a t) p \<Longrightarrow> enq_owns (na_pcs a u) p \<Longrightarrow> t = u"
    and na_inv_deq_uniq: "deq_owns (na_pcs a t) p \<Longrightarrow> deq_owns (na_pcs a u) p \<Longrightarrow> t = u"
    and na_inv_out: "na_out a k = Some v \<Longrightarrow> k < na_taken a \<and> na_in a ! k = v"
  using assms unfolding na_inv_def by blast+

lemma na_invI:
  assumes "na_taken a \<le> na_E a" and "na_E a \<le> na_taken a + b"
    and "\<And>i. i < b \<Longrightarrow> na_seq a i \<le> na_E a + b"
    and "\<And>p. na_seq a (p mod b) = Suc p \<Longrightarrow> p < na_E a \<and> na_data a (p mod b) = na_in a ! p"
    and "\<And>p. na_seq a (p mod b) = p \<Longrightarrow> p < na_taken a + b"
    and "\<And>p. na_taken a \<le> p \<Longrightarrow> p < na_E a \<Longrightarrow>
      na_seq a (p mod b) = Suc p \<or> (\<exists>t. enq_owns (na_pcs a t) p)"
    and "\<And>p. na_E a \<le> p \<Longrightarrow> p < na_taken a + b \<Longrightarrow>
      na_seq a (p mod b) = p \<or> (\<exists>t. \<exists>q. p = q + b \<and> deq_owns (na_pcs a t) q)"
    and "\<And>t. pc_ok b a (na_pcs a t)"
    and "\<And>t u p. enq_owns (na_pcs a t) p \<Longrightarrow> enq_owns (na_pcs a u) p \<Longrightarrow> t = u"
    and "\<And>t u p. deq_owns (na_pcs a t) p \<Longrightarrow> deq_owns (na_pcs a u) p \<Longrightarrow> t = u"
    and "\<And>k v. na_out a k = Some v \<Longrightarrow> k < na_taken a \<and> na_in a ! k = v"
  shows "na_inv b a"
  using assms unfolding na_inv_def by blast

lemma na_inv_enq_cas:
  assumes inv: "na_inv b a" and pc: "na_pcs a i = Enq_cas d (na_E a)"
  shows "na_inv b (na_goto i (Enq_data d (na_E a)) (a\<lparr>na_in := na_in a @ [d]\<rparr>))"
    (is "na_inv b ?a")
proof -
  let ?E = "na_E a"
  have seq: "na_seq a (?E mod b) = ?E" using na_inv_pc [OF inv, of i] pc by simp
  have owns: "enq_owns (na_pcs ?a t) p \<longleftrightarrow> (if t = i then p = ?E else enq_owns (na_pcs a t) p)"
    "deq_owns (na_pcs ?a t) p \<longleftrightarrow> deq_owns (na_pcs a t) p" for t p
    using pc by auto
  have fresh: "\<not> enq_owns (na_pcs a t) ?E" "\<not> enq_owns (na_pcs a i) p" for t p
    using enq_owns_seq [OF na_inv_pc [OF inv]] pc by auto
  note D = na_invD [OF inv]
  show ?thesis
  proof (rule na_invI)
    show "na_taken ?a \<le> na_E ?a" "na_E ?a \<le> na_taken ?a + b"
      using D(1) na_inv_free [OF inv seq] by simp_all
    show "na_seq ?a j \<le> na_E ?a + b" if "j < b" for j using D(3) [OF that] by simp
    show "p < na_E ?a \<and> na_data ?a (p mod b) = na_in ?a ! p"
      if "na_seq ?a (p mod b) = Suc p" for p using D(4) [of p] that by (simp add: nth_append)
    show "p < na_taken ?a + b" if "na_seq ?a (p mod b) = p" for p using D(5) [of p] that by simp
    show "na_seq ?a (p mod b) = Suc p \<or> (\<exists>t. enq_owns (na_pcs ?a t) p)"
      if "na_taken ?a \<le> p" "p < na_E ?a" for p
    proof (cases "p = ?E")
      case True
      then show ?thesis unfolding owns by auto
    next
      case False
      then show ?thesis using D(6) [of p] that fresh(2) unfolding owns by fastforce
    qed
    show "na_seq ?a (p mod b) = p \<or> (\<exists>t. \<exists>q. p = q + b \<and> deq_owns (na_pcs ?a t) q)"
      if "na_E ?a \<le> p" "p < na_taken ?a + b" for p using D(7) [of p] that unfolding owns by simp
    show "pc_ok b ?a (na_pcs ?a t)" for t
      using D(1) D(8) [of t] seq by (cases "t = i"; cases "na_pcs a t") (auto simp: nth_append)
    show "t = u" if "enq_owns (na_pcs ?a t) p" "enq_owns (na_pcs ?a u) p" for t u p
      using that D(9) fresh unfolding owns by (auto split: if_splits)
    show "t = u" if "deq_owns (na_pcs ?a t) p" "deq_owns (na_pcs ?a u) p" for t u p
      using that D(10) unfolding owns by blast
    show "k < na_taken ?a \<and> na_in ?a ! k = v" if "na_out ?a k = Some v" for k v
      using D(1) D(11) [of k v] that by (auto simp: nth_append)
  qed
qed

lemma na_inv_enq_data:
  assumes inv: "na_inv b a" and b: "2 \<le> b" and pc: "na_pcs a i = Enq_data d p"
  shows "na_inv b (na_goto i (Enq_seq p) (a\<lparr>na_data := (na_data a)(p mod b := d)\<rparr>))"
    (is "na_inv b ?a")
proof -
  note D = na_invD [OF inv]
  have at: "p < na_E a" "na_seq a (p mod b) = p" "na_in a ! p = d" using D(8) [of i] pc by simp_all
  have owns: "enq_owns (na_pcs ?a t) q \<longleftrightarrow> enq_owns (na_pcs a t) q"
    "deq_owns (na_pcs ?a t) q \<longleftrightarrow> deq_owns (na_pcs a t) q" for t q
    using pc by auto
  have other: "q mod b \<noteq> p mod b" if "na_seq a (q mod b) = Suc q" for q
    using that at(2) Suc_mod_neq [OF b, of q] by metis
  show ?thesis
  proof (rule na_invI)
    show "na_taken ?a \<le> na_E ?a" "na_E ?a \<le> na_taken ?a + b" using D(1,2) by simp_all
    show "na_seq ?a j \<le> na_E ?a + b" if "j < b" for j using D(3) [OF that] by simp
    show "q < na_E ?a \<and> na_data ?a (q mod b) = na_in ?a ! q"
      if "na_seq ?a (q mod b) = Suc q" for q using D(4) [of q] that other [of q] by simp
    show "q < na_taken ?a + b" if "na_seq ?a (q mod b) = q" for q using D(5) [of q] that by simp
    show "na_seq ?a (q mod b) = Suc q \<or> (\<exists>t. enq_owns (na_pcs ?a t) q)"
      if "na_taken ?a \<le> q" "q < na_E ?a" for q using D(6) [of q] that unfolding owns by simp
    show "na_seq ?a (q mod b) = q \<or> (\<exists>t. \<exists>q'. q = q' + b \<and> deq_owns (na_pcs ?a t) q')"
      if "na_E ?a \<le> q" "q < na_taken ?a + b" for q using D(7) [of q] that unfolding owns by simp
    show "pc_ok b ?a (na_pcs ?a t)" for t
    proof (cases "t = i")
      case True
      then show ?thesis using at by simp
    next
      case False
      have "q mod b \<noteq> p mod b" if "na_pcs a t = Enq_seq q" for q
        using at(2) enq_owns_seq [OF D(8), of t q] D(9) [of t p i] that pc False
        by (metis enq_owns.simps(1,2))
      with False show ?thesis using D(8) [of t] by (cases "na_pcs a t") auto
    qed
    show "t = u" if "enq_owns (na_pcs ?a t) q" "enq_owns (na_pcs ?a u) q" for t u q
      using that D(9) unfolding owns by blast
    show "t = u" if "deq_owns (na_pcs ?a t) q" "deq_owns (na_pcs ?a u) q" for t u q
      using that D(10) unfolding owns by blast
    show "k < na_taken ?a \<and> na_in ?a ! k = v" if "na_out ?a k = Some v" for k v
      using D(11) [of k v] that by simp
  qed
qed

lemma na_inv_enq_seq:
  assumes inv: "na_inv b a" and b: "2 \<le> b" and pc: "na_pcs a i = Enq_seq p"
  shows "na_inv b (na_goto i MQ_idle (a\<lparr>na_seq := (na_seq a)(p mod b := Suc p)\<rparr>))"
    (is "na_inv b ?a")
proof -
  note D = na_invD [OF inv]
  have at: "p < na_E a" "na_seq a (p mod b) = p" "na_data a (p mod b) = na_in a ! p"
    using D(8) [of i] pc by simp_all
  have owns: "enq_owns (na_pcs ?a t) q \<longleftrightarrow> t \<noteq> i \<and> enq_owns (na_pcs a t) q"
    "deq_owns (na_pcs ?a t) q \<longleftrightarrow> deq_owns (na_pcs a t) q" for t q
    using pc by auto
  have mine: "enq_owns (na_pcs a i) q \<longleftrightarrow> q = p" for q using pc by simp
  have sq: "na_seq ?a (q mod b) = (if q mod b = p mod b then Suc p else na_seq a (q mod b))" for q
    by simp
  have cell: "q mod b \<noteq> p mod b" if "na_seq a (q mod b) = Suc q \<or> na_seq a (q mod b) = q \<and> q \<noteq> p" for q
    using that at(2) Suc_mod_neq [OF b, of q] by metis
  show ?thesis
  proof (rule na_invI)
    show "na_taken ?a \<le> na_E ?a" "na_E ?a \<le> na_taken ?a + b" using D(1,2) by simp_all
    show "na_seq ?a j \<le> na_E ?a + b" if "j < b" for j using D(3) [OF that] at(1) by simp
    show "q < na_E ?a \<and> na_data ?a (q mod b) = na_in ?a ! q"
      if "na_seq ?a (q mod b) = Suc q" for q
    proof (cases "q mod b = p mod b")
      case True
      with that have "q = p" by simp
      then show ?thesis using at(1,3) by simp
    next
      case False
      with that have "na_seq a (q mod b) = Suc q" by simp
      then show ?thesis using D(4) [of q] by simp
    qed
    show "q < na_taken ?a + b" if "na_seq ?a (q mod b) = q" for q
      using D(5) [of q] that Suc_mod_neq [OF b, of p] unfolding sq by (auto split: if_splits)
    show "na_seq ?a (q mod b) = Suc q \<or> (\<exists>t. enq_owns (na_pcs ?a t) q)"
      if "na_taken ?a \<le> q" "q < na_E ?a" for q
    proof (cases "q = p")
      case True
      then show ?thesis by simp
    next
      case False
      with D(6) [of q] that consider "na_seq a (q mod b) = Suc q"
        | t where "enq_owns (na_pcs a t) q" by auto
      then show ?thesis
      proof cases
        case 1
        then show ?thesis using cell [of q] unfolding sq by simp
      next
        case 2
        then have "t \<noteq> i" using False mine by auto
        with 2 show ?thesis unfolding owns by blast
      qed
    qed
    show "na_seq ?a (q mod b) = q \<or> (\<exists>t. \<exists>q'. q = q' + b \<and> deq_owns (na_pcs ?a t) q')"
      if "na_E ?a \<le> q" "q < na_taken ?a + b" for q
      using D(7) [of q] that cell [of q] at(1) unfolding owns sq by auto
    show "pc_ok b ?a (na_pcs ?a t)" for t
    proof (cases "t = i")
      case False
      have "\<not> enq_owns (na_pcs a t) p" using D(9) [of t p i] mine False by blast
      with False show ?thesis
        using D(8) [of t] at(1) cell by (cases "na_pcs a t") (auto simp: sq)
    qed simp
    show "t = u" if "enq_owns (na_pcs ?a t) q" "enq_owns (na_pcs ?a u) q" for t u q
      using that D(9) unfolding owns by blast
    show "t = u" if "deq_owns (na_pcs ?a t) q" "deq_owns (na_pcs ?a u) q" for t u q
      using that D(10) unfolding owns by blast
    show "k < na_taken ?a \<and> na_in ?a ! k = v" if "na_out ?a k = Some v" for k v
      using D(11) [of k v] that by simp
  qed
qed

lemma na_inv_deq_cas:
  assumes inv: "na_inv b a" and pc: "na_pcs a i = Deq_cas (na_taken a)"
  shows "na_inv b (na_goto i (Deq_data (na_taken a) (na_taken a)) (a\<lparr>na_taken := Suc (na_taken a)\<rparr>))"
    (is "na_inv b ?a")
proof -
  note D = na_invD [OF inv]
  let ?D = "na_taken a"
  have seq: "na_seq a (?D mod b) = Suc ?D" using D(8) [of i] pc by simp
  have owns: "enq_owns (na_pcs ?a t) q \<longleftrightarrow> enq_owns (na_pcs a t) q"
    "deq_owns (na_pcs ?a t) q \<longleftrightarrow> (if t = i then q = ?D else deq_owns (na_pcs a t) q)" for t q
    using pc by auto
  have fresh: "\<not> deq_owns (na_pcs a t) ?D" "\<not> deq_owns (na_pcs a i) q" for t q
    using deq_owns_seq [OF D(8)] pc by auto
  show ?thesis
  proof (rule na_invI)
    show "na_taken ?a \<le> na_E ?a" "na_E ?a \<le> na_taken ?a + b"
      using D(2) D(4) [OF seq] by simp_all
    show "na_seq ?a j \<le> na_E ?a + b" if "j < b" for j using D(3) [OF that] by simp
    show "q < na_E ?a \<and> na_data ?a (q mod b) = na_in ?a ! q"
      if "na_seq ?a (q mod b) = Suc q" for q using D(4) [of q] that by simp
    show "q < na_taken ?a + b" if "na_seq ?a (q mod b) = q" for q using D(5) [of q] that by simp
    show "na_seq ?a (q mod b) = Suc q \<or> (\<exists>t. enq_owns (na_pcs ?a t) q)"
      if "na_taken ?a \<le> q" "q < na_E ?a" for q using D(6) [of q] that unfolding owns by simp
    show "na_seq ?a (q mod b) = q \<or> (\<exists>t. \<exists>q'. q = q' + b \<and> deq_owns (na_pcs ?a t) q')"
      if "na_E ?a \<le> q" "q < na_taken ?a + b" for q
    proof (cases "q = ?D + b")
      case True
      then show ?thesis unfolding owns by auto
    next
      case False
      then show ?thesis using D(7) [of q] that fresh(2) unfolding owns by fastforce
    qed
    show "pc_ok b ?a (na_pcs ?a t)" for t
      using D(8) [of t] seq by (cases "t = i"; cases "na_pcs a t") auto
    show "t = u" if "enq_owns (na_pcs ?a t) q" "enq_owns (na_pcs ?a u) q" for t u q
      using that D(9) unfolding owns by blast
    show "t = u" if "deq_owns (na_pcs ?a t) q" "deq_owns (na_pcs ?a u) q" for t u q
      using that D(10) fresh unfolding owns by (auto split: if_splits)
    show "k < na_taken ?a \<and> na_in ?a ! k = v" if "na_out ?a k = Some v" for k v
      using D(11) [of k v] that by simp
  qed
qed

lemma na_inv_deq_seq:
  assumes inv: "na_inv b a" and b: "2 \<le> b" and pc: "na_pcs a i = Deq_seq p d k"
  shows "na_inv b (na_goto i MQ_idle
    (a\<lparr>na_seq := (na_seq a)(p mod b := p + b), na_out := (na_out a)(k \<mapsto> d)\<rparr>))"
    (is "na_inv b ?a")
proof -
  note D = na_invD [OF inv]
  have at: "k = p" "p < na_taken a" "na_seq a (p mod b) = Suc p" "d = na_in a ! p"
    using D(8) [of i] pc by simp_all
  have owns: "enq_owns (na_pcs ?a t) q \<longleftrightarrow> enq_owns (na_pcs a t) q"
    "deq_owns (na_pcs ?a t) q \<longleftrightarrow> t \<noteq> i \<and> deq_owns (na_pcs a t) q" for t q
    using pc by auto
  have mine: "deq_owns (na_pcs a i) q \<longleftrightarrow> q = p" for q using pc by simp
  have sq: "na_seq ?a (q mod b) = (if q mod b = p mod b then p + b else na_seq a (q mod b))" for q
    by simp
  have cell: "q mod b \<noteq> p mod b" if "na_seq a (q mod b) = q \<or> na_seq a (q mod b) = Suc q \<and> q \<noteq> p" for q
    using that at(3) Suc_mod_neq [OF b, of p] by (metis nat.inject)
  have new: "q = p + b \<Longrightarrow> q mod b = p mod b" "p + b = Suc q \<Longrightarrow> q mod b \<noteq> p mod b" for q
    using Suc_mod_neq [OF b, of q] by auto (metis mod_add_self2)
  show ?thesis
  proof (rule na_invI)
    show "na_taken ?a \<le> na_E ?a" "na_E ?a \<le> na_taken ?a + b" using D(1,2) by simp_all
    show "na_seq ?a j \<le> na_E ?a + b" if "j < b" for j using D(1) D(3) [OF that] at(2) by simp
    show "q < na_E ?a \<and> na_data ?a (q mod b) = na_in ?a ! q"
      if "na_seq ?a (q mod b) = Suc q" for q
      using D(4) [of q] that new(2) [of q] unfolding sq by (auto split: if_splits)
    show "q < na_taken ?a + b" if "na_seq ?a (q mod b) = q" for q
      using D(5) [of q] that at(2) unfolding sq by (auto split: if_splits)
    show "na_seq ?a (q mod b) = Suc q \<or> (\<exists>t. enq_owns (na_pcs ?a t) q)"
      if "na_taken ?a \<le> q" "q < na_E ?a" for q
      using D(6) [of q] that at(2) cell [of q] unfolding owns sq by auto
    show "na_seq ?a (q mod b) = q \<or> (\<exists>t. \<exists>q'. q = q' + b \<and> deq_owns (na_pcs ?a t) q')"
      if "na_E ?a \<le> q" "q < na_taken ?a + b" for q
    proof (cases "q = p + b")
      case True
      then show ?thesis unfolding sq by simp
    next
      case False
      with D(7) [of q] that consider "na_seq a (q mod b) = q"
        | t q' where "q = q' + b" "deq_owns (na_pcs a t) q'" by auto
      then show ?thesis
      proof cases
        case 1
        then show ?thesis using cell [of q] unfolding sq by simp
      next
        case 2
        then have "t \<noteq> i" using False mine by auto
        with 2 show ?thesis unfolding owns by blast
      qed
    qed
    show "pc_ok b ?a (na_pcs ?a t)" for t
    proof (cases "t = i")
      case False
      have "\<not> deq_owns (na_pcs a t) p" using D(10) [of t p i] mine False by blast
      with False show ?thesis
        using D(8) [of t] at(2) cell by (cases "na_pcs a t") (auto simp: sq)
    qed simp
    show "t = u" if "enq_owns (na_pcs ?a t) q" "enq_owns (na_pcs ?a u) q" for t u q
      using that D(9) unfolding owns by blast
    show "t = u" if "deq_owns (na_pcs ?a t) q" "deq_owns (na_pcs ?a u) q" for t u q
      using that D(10) unfolding owns by blast
    show "k' < na_taken ?a \<and> na_in ?a ! k' = v" if "na_out ?a k' = Some v" for k' v
      using D(11) [of k' v] that at by (auto split: if_splits)
  qed
qed

lemma na_step_inv:
  assumes b: "2 \<le> b" and inv: "na_inv b a" and st: "na_step b i a a'"
  shows "na_inv b a'"
  using st
proof cases
  case (na_deq_data p k)
  then have "pc_ok b a (Deq_seq p (na_data a (p mod b)) k)"
    using na_inv_pc [OF inv, of i] na_inv_full [OF inv, of p] by simp
  with na_deq_data show ?thesis using na_inv_goto [OF inv] by simp
next
  case (na_enq_match d p)
  then have "pc_ok b a (Enq_cas d p)" using na_inv_pc [OF inv, of i] by auto
  with na_enq_match show ?thesis using na_inv_goto [OF inv] by simp
next
  case (na_deq_match p)
  then have "pc_ok b a (Deq_cas p)" using na_inv_pc [OF inv, of i] by auto
  with na_deq_match show ?thesis using na_inv_goto [OF inv] by simp
qed (use inv b na_inv_pc [OF inv, of i] in \<open>simp_all add: na_inv_goto na_inv_enq_cas
   na_inv_enq_data na_inv_enq_seq na_inv_deq_cas na_inv_deq_seq\<close>)

section \<open>Every taken position is served\<close>

definition na_served :: "na_sys \<Rightarrow> bool" where
  "na_served a \<longleftrightarrow> (\<forall>j < na_taken a. na_out a j \<noteq> None \<or> (\<exists>t. deq_owns (na_pcs a t) j))"

lemma na_served_goto:
  assumes "na_served a" and "deq_owns p = deq_owns (na_pcs a i)"
  shows "na_served (na_goto i p a)"
  using assms unfolding na_served_def by (metis fun_upd_apply na_goto_simps(4,5,6))

lemma na_served_frame:
  "na_served (na_goto i p (a\<lparr>na_in := xs\<rparr>)) = na_served (na_goto i p a)"
  "na_served (na_goto i p (a\<lparr>na_data := f\<rparr>)) = na_served (na_goto i p a)"
  "na_served (na_goto i p (a\<lparr>na_seq := g\<rparr>)) = na_served (na_goto i p a)"
  by (simp_all add: na_served_def na_goto_def)

lemma na_step_served:
  assumes inv: "na_inv b a" and sv: "na_served a" and st: "na_step b i a a'"
  shows "na_served a'"
  using st
proof cases
  case (na_deq_cas p)
  then show ?thesis
    using sv unfolding na_served_def by (auto simp: less_Suc_eq) (metis owns_none(18))
next
  case (na_deq_seq p d k)
  then have "k = p" using na_inv_pc [OF inv, of i] by simp
  with na_deq_seq show ?thesis
    using sv unfolding na_served_def by auto (metis owns_some(4))
qed (use sv in \<open>simp_all add: na_served_goto na_served_frame\<close>)

section \<open>The 64 bit machine is the image of the unbounded one\<close>

definition conc_q :: "nat \<Rightarrow> na_sys \<Rightarrow> mpmcq" where
  "conc_q b a = \<lparr>buffer = map (\<lambda>i. \<lparr>seq = of_nat (na_seq a i), data = na_data a i\<rparr>) [0..<b],
     buffer_mask = of_nat (b - 1), enqueue_pos = of_nat (na_E a),
     dequeue_pos = of_nat (na_taken a)\<rparr>"

definition conc :: "nat \<Rightarrow> na_sys \<Rightarrow> mq_sys" where
  "conc b a = \<lparr>mq_q = conc_q b a, mq_pcs = (\<lambda>i. map_mq_pc of_nat (na_pcs a i)),
     mq_in = na_in a, mq_taken = na_taken a, mq_out = na_out a\<rparr>"

lemma conc_simps [simp]:
  "mq_q (conc b a) = conc_q b a" "mq_pcs (conc b a) i = map_mq_pc of_nat (na_pcs a i)"
  "mq_in (conc b a) = na_in a" "mq_taken (conc b a) = na_taken a" "mq_out (conc b a) = na_out a"
  "enqueue_pos (conc_q b a) = of_nat (na_E a)" "dequeue_pos (conc_q b a) = of_nat (na_taken a)"
  "buffer_mask (conc_q b a) = of_nat (b - 1)"
  by (simp_all add: conc_def conc_q_def)

lemma conc_goto: "mq_goto i (map_mq_pc of_nat p) (conc b a) = conc b (na_goto i p a)"
  by (auto simp: mq_goto_def na_goto_def conc_def conc_q_def)

lemma mq_goto_frame:
  "mq_goto i p (s\<lparr>mq_q := q\<rparr>) = (mq_goto i p s)\<lparr>mq_q := q\<rparr>"
  "mq_goto i p (s\<lparr>mq_in := xs\<rparr>) = (mq_goto i p s)\<lparr>mq_in := xs\<rparr>"
  by (simp_all add: mq_goto_def)

lemma mq_cap_conc [simp]: "mq_cap (conc_q b a) = b"
  by (simp add: mq_cap_def conc_q_def)

lemma mq_shape_conc: "pow2_cap b \<Longrightarrow> mq_shape (conc_q b a)"
  by (simp add: mq_shape_def)

lemma cell_idx_conc:
  assumes "pow2_cap b" and "p < 2 ^ 64"
  shows "cell_idx (conc_q b a) (of_nat p) = p mod b"
  using assms cell_idx_mod [of "conc_q b a" "of_nat p"] by (simp add: unat_of_nat_small)

lemma cell_at_conc:
  assumes "pow2_cap b" and "p < 2 ^ 64"
  shows "cell_at (conc_q b a) (of_nat p) =
    \<lparr>seq = of_nat (na_seq a (p mod b)), data = na_data a (p mod b)\<rparr>"
proof -
  have "p mod b < b" using pow2_cap_bounds [OF assms(1)] by simp
  then show ?thesis using cell_idx_conc [OF assms] by (simp add: cell_at_def conc_q_def)
qed

lemma map_upt_update:
  "i < n \<Longrightarrow> (map f [0..<n])[i := x] = map (f(i := x)) [0..<n]"
  by (rule nth_equalityI) (auto simp: nth_list_update)

lemma put_cell_conc:
  assumes "pow2_cap b" and "p < 2 ^ 64"
  shows "put_cell (of_nat p) \<lparr>seq = of_nat s, data = d\<rparr> (conc_q b a) =
    conc_q b (a\<lparr>na_seq := (na_seq a)(p mod b := s), na_data := (na_data a)(p mod b := d)\<rparr>)"
proof -
  have "p mod b < b" using pow2_cap_bounds [OF assms(1)] by simp
  then show ?thesis using cell_idx_conc [OF assms]
    by (auto simp: put_cell_def conc_q_def map_upt_update)
qed

lemma look_match_iff:
  assumes "m < 2 ^ 64" and "n < 2 ^ 64"
  shows "look (of_nat m) (of_nat n) = Look_match \<longleftrightarrow> m = n"
proof -
  have "sint (of_nat m - of_nat n :: u64) = 0 \<longleftrightarrow> m = n"
    unfolding signed_eq_0_iff using assms by (intro of_nat_word_diff_eq_0_iff) simp_all
  then show ?thesis by (auto simp: look_def Let_def)
qed

fun pc_pos :: "'p mq_pc \<Rightarrow> 'p option" where
  "pc_pos (Enq_look d p) = Some p"
| "pc_pos (Enq_cas d p) = Some p"
| "pc_pos (Enq_data d p) = Some p"
| "pc_pos (Enq_seq p) = Some p"
| "pc_pos (Deq_look p) = Some p"
| "pc_pos (Deq_cas p) = Some p"
| "pc_pos (Deq_data p k) = Some p"
| "pc_pos (Deq_seq p d k) = Some p"
| "pc_pos _ = None"

lemma na_inv_pos:
  assumes inv: "na_inv b a" and "pc_pos (na_pcs a i) = Some p"
  shows "p \<le> na_E a"
  using assms(2) na_inv_pc [OF inv, of i] na_inv_taken(1) [OF inv]
  by (cases "na_pcs a i") auto

lemma map_mq_pc_eq:
  "map_mq_pc f c = MQ_idle \<longleftrightarrow> c = MQ_idle"
  "map_mq_pc f c = Enq_reload d \<longleftrightarrow> c = Enq_reload d"
  "map_mq_pc f c = Enq_look d x \<longleftrightarrow> (\<exists>p. c = Enq_look d p \<and> x = f p)"
  "map_mq_pc f c = Enq_cas d x \<longleftrightarrow> (\<exists>p. c = Enq_cas d p \<and> x = f p)"
  "map_mq_pc f c = Enq_data d x \<longleftrightarrow> (\<exists>p. c = Enq_data d p \<and> x = f p)"
  "map_mq_pc f c = Enq_seq x \<longleftrightarrow> (\<exists>p. c = Enq_seq p \<and> x = f p)"
  "map_mq_pc f c = Deq_reload \<longleftrightarrow> c = Deq_reload"
  "map_mq_pc f c = Deq_look x \<longleftrightarrow> (\<exists>p. c = Deq_look p \<and> x = f p)"
  "map_mq_pc f c = Deq_cas x \<longleftrightarrow> (\<exists>p. c = Deq_cas p \<and> x = f p)"
  "map_mq_pc f c = Deq_data x k \<longleftrightarrow> (\<exists>p. c = Deq_data p k \<and> x = f p)"
  "map_mq_pc f c = Deq_seq x d k \<longleftrightarrow> (\<exists>p. c = Deq_seq p d k \<and> x = f p)"
  by (cases c; auto)+

text \<open>Positions and sequence numbers stay small in the states considered.\<close>

definition na_small :: "nat \<Rightarrow> na_sys \<Rightarrow> bool" where
  "na_small b a \<longleftrightarrow> pow2_cap b \<and> na_inv b a \<and> na_E a < 2 ^ 62"

lemma na_small_seq:
  assumes "na_small b a"
  shows "na_seq a (p mod b) < 2 ^ 64"
proof -
  have b: "2 \<le> b" "b \<le> 2 ^ 60" using assms pow2_cap_bounds by (auto simp: na_small_def)
  then have "na_seq a (p mod b) \<le> na_E a + b"
    using na_inv_bound [of b a "p mod b"] assms by (simp add: na_small_def)
  with b assms show ?thesis by (simp add: na_small_def)
qed

lemma na_small_pos:
  assumes "na_small b a" and "pc_pos (na_pcs a i) = Some p"
  shows "p < 2 ^ 64"
  using assms(1) na_inv_pos [OF _ assms(2), of b] by (simp add: na_small_def)

lemma sim_enq_look:
  assumes sm: "na_small b a" and pc: "na_pcs a i = Enq_look d p"
  shows "\<exists>a'. na_step b i a a' \<and> enq_look_step i d (of_nat p) (conc b a) = conc b a'"
proof -
  have p: "p < 2 ^ 64" using na_small_pos [OF sm, of i] pc by simp
  have cell: "seq (cell_at (conc_q b a) (of_nat p)) = of_nat (na_seq a (p mod b))"
    using cell_at_conc [OF _ p] sm by (simp add: na_small_def)
  note go = conc_goto [of i _ b a, symmetric]
  show ?thesis
  proof (cases "look (of_nat (na_seq a (p mod b))) (of_nat p :: u64)")
    case Look_match
    then have "na_seq a (p mod b) = p" using look_match_iff na_small_seq [OF sm] p by blast
    then show ?thesis using Look_match cell go [of "Enq_cas d p"] pc
      by (auto simp: enq_look_step_def intro: na_enq_match)
  next
    case Look_fail
    then show ?thesis using cell go [of MQ_idle] pc
      by (auto simp: enq_look_step_def intro: na_enq_fail)
  next
    case Look_reload
    then show ?thesis using cell go [of "Enq_reload d"] pc
      by (auto simp: enq_look_step_def intro: na_enq_retry)
  qed
qed

lemma sim_deq_look:
  assumes sm: "na_small b a" and pc: "na_pcs a i = Deq_look p"
  shows "\<exists>a'. na_step b i a a' \<and> deq_look_step i (of_nat p) (conc b a) = conc b a'"
proof -
  have p: "Suc p < 2 ^ 64" using sm na_inv_pos [of b a i p] pc by (simp add: na_small_def)
  have cell: "seq (cell_at (conc_q b a) (of_nat p)) = of_nat (na_seq a (p mod b))"
    using cell_at_conc [of b p] p sm by (simp add: na_small_def)
  note go = conc_goto [of i _ b a, symmetric]
  have suc: "of_nat p + 1 = (of_nat (Suc p) :: u64)" by simp
  show ?thesis
  proof (cases "look (of_nat (na_seq a (p mod b))) (of_nat (Suc p) :: u64)")
    case Look_match
    then have "na_seq a (p mod b) = Suc p" using look_match_iff na_small_seq [OF sm] p by blast
    then show ?thesis using Look_match cell go [of "Deq_cas p"] pc
      unfolding deq_look_step_def suc conc_simps by (auto intro: na_deq_match)
  next
    case Look_fail
    then show ?thesis using cell go [of MQ_idle] pc
      unfolding deq_look_step_def suc conc_simps by (auto intro: na_deq_fail)
  next
    case Look_reload
    then show ?thesis using cell go [of Deq_reload] pc
      unfolding deq_look_step_def suc conc_simps by (auto intro: na_deq_retry)
  qed
qed

lemma sim_stores:
  assumes sm: "na_small b a" and pos: "pc_pos (na_pcs a i) = Some p"
  shows "enq_store_data i d (of_nat p) (conc b a) =
      conc b (na_goto i (Enq_seq p) (a\<lparr>na_data := (na_data a)(p mod b := d)\<rparr>))"
    and "enq_store_seq i (of_nat p) (conc b a) =
      conc b (na_goto i MQ_idle (a\<lparr>na_seq := (na_seq a)(p mod b := Suc p)\<rparr>))"
    and "deq_load_data i (of_nat p) k (conc b a) =
      conc b (na_goto i (Deq_seq p (na_data a (p mod b)) k) a)"
    and "deq_store_seq i (of_nat p) d k (conc b a) =
      conc b (na_goto i MQ_idle
        (a\<lparr>na_seq := (na_seq a)(p mod b := p + b), na_out := (na_out a)(k \<mapsto> d)\<rparr>))"
proof -
  have b: "pow2_cap b" and p: "p < 2 ^ 64"
    using sm na_small_pos [OF sm pos] by (auto simp: na_small_def)
  note cell = cell_at_conc [OF b p, of a] and put = put_cell_conc [OF b p, of _ _ a]
  have mask: "of_nat p + of_nat (b - 1) + 1 = (of_nat (p + b) :: u64)"
    using pow2_cap_bounds [OF b] by (simp add: of_nat_diff)
  have suc: "of_nat p + 1 = (of_nat (Suc p) :: u64)" by simp
  show "enq_store_data i d (of_nat p) (conc b a) =
      conc b (na_goto i (Enq_seq p) (a\<lparr>na_data := (na_data a)(p mod b := d)\<rparr>))"
    unfolding enq_store_data_def conc_simps cell cell_t.simps put
    by (auto simp: conc_def mq_goto_def na_goto_def conc_q_def)
  show "enq_store_seq i (of_nat p) (conc b a) =
      conc b (na_goto i MQ_idle (a\<lparr>na_seq := (na_seq a)(p mod b := Suc p)\<rparr>))"
    unfolding enq_store_seq_def suc conc_simps cell cell_t.simps put
    by (auto simp: conc_def mq_goto_def na_goto_def conc_q_def)
  show "deq_load_data i (of_nat p) k (conc b a) =
      conc b (na_goto i (Deq_seq p (na_data a (p mod b)) k) a)"
    using conc_goto [of i "Deq_seq p (na_data a (p mod b)) k" b a]
    by (simp add: deq_load_data_def cell)
  show "deq_store_seq i (of_nat p) d k (conc b a) =
      conc b (na_goto i MQ_idle
        (a\<lparr>na_seq := (na_seq a)(p mod b := p + b), na_out := (na_out a)(k \<mapsto> d)\<rparr>))"
    unfolding deq_store_seq_def conc_simps mask cell cell_t.simps put
    by (auto simp: conc_def mq_goto_def na_goto_def conc_q_def)
qed

lemma sim_cas:
  "enq_cas_ok i d (of_nat (na_E a)) (conc b a) =
     conc b (na_goto i (Enq_data d (na_E a)) (a\<lparr>na_in := na_in a @ [d]\<rparr>))"
  "deq_cas_ok i (of_nat (na_taken a)) (conc b a) =
     conc b (na_goto i (Deq_data (na_taken a) (na_taken a)) (a\<lparr>na_taken := Suc (na_taken a)\<rparr>))"
  by (auto simp: enq_cas_ok_def deq_cas_ok_def conc_def conc_q_def mq_goto_def na_goto_def)

lemma mq_step_sim:
  assumes sm: "na_small b a" and st: "mq_step i (conc b a) s'"
  shows "\<exists>a'. na_step b i a a' \<and> s' = conc b a'"
proof -
  have E: "na_E a < 2 ^ 64" and D: "na_taken a < 2 ^ 64"
    using sm na_inv_taken(1) [of b a] by (auto simp: na_small_def)
  have P: "p < 2 ^ 64" if "pc_pos (na_pcs a i) = Some p" for p
    using na_small_pos [OF sm that] .
  note go = conc_goto [of i _ b a] and pos = sim_stores [OF sm]
  from st show ?thesis
  proof cases
    case (enq_call d)
    then show ?thesis using go [of "Enq_reload d"]
      by (auto simp: map_mq_pc_eq intro: na_enq_call)
  next
    case (enq_pos d)
    then show ?thesis using go [of "Enq_look d (na_E a)"]
      by (auto simp: map_mq_pc_eq intro: na_enq_pos)
  next
    case (enq_look d x)
    then show ?thesis using sim_enq_look [OF sm] by (auto simp: map_mq_pc_eq)
  next
    case (enq_cas d x)
    then obtain p where pc: "na_pcs a i = Enq_cas d p" and eq: "x = of_nat p" "x = of_nat (na_E a)"
      by (auto simp: map_mq_pc_eq)
    then have "p = na_E a" using of_nat_word_eq_iff [where 'a = 64, of p "na_E a"] P E by simp
    with enq_cas pc show ?thesis using sim_cas(1) [of i d a b] na_enq_cas [of a i d p b] by auto
  next
    case (enq_cas_fail d x)
    then obtain p where "na_pcs a i = Enq_cas d p" "x = of_nat p" by (auto simp: map_mq_pc_eq)
    with enq_cas_fail show ?thesis using go [of "Enq_look d p"] by (auto intro: na_enq_cas_fail)
  next
    case (enq_data d x)
    then show ?thesis using pos(1) by (fastforce simp: map_mq_pc_eq intro: na_enq_data)
  next
    case (enq_seq x)
    then show ?thesis using pos(2) by (fastforce simp: map_mq_pc_eq intro: na_enq_seq)
  next
    case deq_call
    then show ?thesis using go [of Deq_reload] by (auto simp: map_mq_pc_eq intro: na_deq_call)
  next
    case deq_pos
    then show ?thesis using go [of "Deq_look (na_taken a)"]
      by (auto simp: map_mq_pc_eq intro: na_deq_pos)
  next
    case (deq_look x)
    then show ?thesis using sim_deq_look [OF sm] by (auto simp: map_mq_pc_eq)
  next
    case (deq_cas x)
    then obtain p where pc: "na_pcs a i = Deq_cas p" and eq: "x = of_nat p" "x = of_nat (na_taken a)"
      by (auto simp: map_mq_pc_eq)
    then have "p = na_taken a"
      using of_nat_word_eq_iff [where 'a = 64, of p "na_taken a"] P D by simp
    with deq_cas pc show ?thesis using sim_cas(2) [of i a b] na_deq_cas [of a i p b] by auto
  next
    case (deq_cas_fail x)
    then obtain p where "na_pcs a i = Deq_cas p" "x = of_nat p" by (auto simp: map_mq_pc_eq)
    with deq_cas_fail show ?thesis using go [of "Deq_look p"] by (auto intro: na_deq_cas_fail)
  next
    case (deq_data x k)
    then show ?thesis using pos(3) by (fastforce simp: map_mq_pc_eq intro: na_deq_data)
  next
    case (deq_seq x d k)
    then show ?thesis using pos(4) by (fastforce simp: map_mq_pc_eq intro: na_deq_seq)
  qed
qed

lemma na_step_in: "na_step b i a a' \<Longrightarrow> na_E a' \<le> Suc (na_E a)"
  by (induction rule: na_step.induct) simp_all

lemma na_start:
  assumes new: "newmpmcq bytes mem = Some q" "length mem = unat (bytes div 16)"
  defines "b \<equiv> unat bytes div 16"
  defines "a \<equiv> \<lparr>na_seq = \<lambda>i. i, na_data = \<lambda>i. data (buffer q ! i), na_pcs = \<lambda>_. MQ_idle,
    na_in = [], na_taken = 0, na_out = Map.empty\<rparr>"
  shows "mq_start q = conc b a" and "pow2_cap b" and "na_inv b a" and "na_served a"
proof -
  have inv: "mq_inv q" and cap: "mq_cap q = b" using newmpmcq_inv [OF new] by (auto simp: b_def)
  have zero: "enqueue_pos q = 0" "dequeue_pos q = 0"
    using new(1) by (auto simp: newmpmcq_def Let_def split: if_splits)
  show p2: "pow2_cap b" using inv cap by (simp add: mq_inv_def)
  have len: "length (buffer q) = b" using cap by (simp add: mq_cap_def)
  have "seq (buffer q ! k) = of_nat k" if "k < b" for k
    using inv zero cap that cell_idx_add [of q 0 k] by (auto simp: mq_inv_def mq_count_def cell_at_def)
  then have "buffer q = map (\<lambda>i. \<lparr>seq = of_nat i, data = data (buffer q ! i)\<rparr>) [0..<b]"
    using len by (intro nth_equalityI) simp_all
  then show "mq_start q = conc b a"
    using zero inv cap by (simp add: mq_start_def conc_def conc_q_def a_def mq_inv_def)
  show "na_served a" by (simp add: na_served_def a_def)
  have lt: "p mod b < b" for p using pow2_cap_bounds [OF p2] by simp
  have "p < b" if "p mod b = p" for p using lt [of p] that by simp
  moreover have "p mod b \<noteq> Suc p" for p using mod_less_eq_dividend [of p b] by linarith
  ultimately show "na_inv b a" by (simp add: na_inv_def a_def)
qed

lemma mq_reach_sim:
  assumes new: "newmpmcq bytes mem = Some q" "length mem = unat (bytes div 16)"
    and run: "reach_in (mq_start q) mq_step n k s" and "k \<le> 2 ^ 62"
  shows "\<exists>a. s = conc (unat bytes div 16) a \<and> na_inv (unat bytes div 16) a \<and> na_served a \<and> na_E a \<le> k"
    (is "\<exists>a. ?R k s a")
  using run \<open>k \<le> 2 ^ 62\<close>
proof (induction rule: reach_in.induct)
  case reach_in_init
  show ?case by (rule exI, intro conjI) (rule na_start [OF new], simp_all add: na_start [OF new])
next
  case (reach_in_step k s i s')
  let ?b = "unat bytes div 16"
  from reach_in_step obtain a where a: "s = conc ?b a" "na_inv ?b a" "na_served a" "na_E a \<le> k" by auto
  have p2: "pow2_cap ?b" by (rule na_start [OF new])
  have "na_small ?b a" using a p2 reach_in_step.prems by (simp add: na_small_def)
  with mq_step_sim reach_in_step.hyps(3) a(1)
  obtain a' where a': "na_step ?b i a a'" "s' = conc ?b a'" by blast
  have "2 \<le> ?b" using pow2_cap_bounds [OF p2] by simp
  with a a' have "?R (Suc k) s' a'"
    using na_step_inv na_step_served na_step_in [OF a'(1)] by fastforce
  then show ?case by blast
qed

lemma quiescent_queue:
  assumes inv: "na_inv b a" and p2: "pow2_cap b" and small: "na_E a \<le> 2 ^ 62"
    and idle: "\<And>i. na_pcs a i = MQ_idle"
  shows "mq_inv (conc_q b a)" and "mq_list (conc_q b a) = drop (na_taken a) (na_in a)"
proof -
  note D = na_invD [OF inv] and b = pow2_cap_bounds [OF p2]
  let ?q = "conc_q b a" and ?n = "na_E a - na_taken a"
  have pos: "of_nat (na_taken a) + of_nat k = (of_nat (na_taken a + k) :: u64)" for k by simp
  have cnt: "mq_count ?q = ?n"
    using D(1,2) b by (intro mq_count_eq) (auto simp: pos of_nat_diff)
  have cell: "cell_at ?q (of_nat (na_taken a + k)) =
      \<lparr>seq = of_nat (na_seq a ((na_taken a + k) mod b)), data = na_data a ((na_taken a + k) mod b)\<rparr>"
    if "k < b" for k
    using that b small D(1) by (intro cell_at_conc [OF p2]) simp
  have full: "na_seq a (p mod b) = Suc p" if "na_taken a \<le> p" "p < na_E a" for p
    using D(6) [OF that] idle by simp
  have free: "na_seq a (p mod b) = p" if "na_E a \<le> p" "p < na_taken a + b" for p
    using D(7) [OF that] idle by simp
  have "seq (cell_at ?q (dequeue_pos ?q + of_nat k)) =
      (if k < mq_count ?q then dequeue_pos ?q + of_nat k + 1 else dequeue_pos ?q + of_nat k)"
    if "k < mq_cap ?q" for k
    using that full [of "na_taken a + k"] free [of "na_taken a + k"] D(1) cell [of k]
    unfolding cnt conc_simps pos mq_cap_conc by auto
  then show "mq_inv ?q"
    using p2 D(2) cnt by (simp add: mq_inv_alt mq_shape_conc)
  have "data (cell_at ?q (of_nat (na_taken a + k))) = na_in a ! (na_taken a + k)" if "k < ?n" for k
    using cell [of k] full [of "na_taken a + k"] D(4) [of "na_taken a + k"] that D(2) by auto
  then show "mq_list ?q = drop (na_taken a) (na_in a)"
    unfolding mq_list_def cnt conc_simps pos by (intro nth_equalityI) simp_all
qed

section \<open>Properties\<close>

text \<open>
  C4. Any number of threads may call the operations at once: in every interleaving of their
  loads, stores and compare-and-swaps of fewer than \<open>2 ^ 62\<close> steps, the \<open>j\<close>-th successful
  dequeue returns the datum of the \<open>j\<close>-th successful enqueue, the queue never holds more than
  its capacity, and when no call is in progress every dequeued position has been delivered
  and the queue holds the data enqueued and not yet dequeued, in order.
\<close>

theorem mpmc_concurrent_fifo:
  assumes "newmpmcq bytes mem = Some q" and "length mem = unat (bytes div 16)"
    and "reach_in (mq_start q) mq_step n k s" and "k \<le> 2 ^ 62"
  shows "(\<forall>j v. mq_out s j = Some v \<longrightarrow> j < mq_taken s \<and> mq_in s ! j = v) \<and>
    mq_taken s \<le> length (mq_in s) \<and> length (mq_in s) \<le> mq_taken s + unat bytes div 16 \<and>
    ((\<forall>i. mq_pcs s i = MQ_idle) \<longrightarrow> mq_inv (mq_q s) \<and> (\<forall>j < mq_taken s. mq_out s j \<noteq> None) \<and>
      mq_list (mq_q s) = drop (mq_taken s) (mq_in s))"
proof -
  let ?b = "unat bytes div 16"
  from mq_reach_sim [OF assms] obtain a where
    a: "s = conc ?b a" "na_inv ?b a" "na_served a" "na_E a \<le> 2 ^ 62"
    using \<open>k \<le> 2 ^ 62\<close> le_trans by blast
  have p2: "pow2_cap ?b" using na_start [OF assms(1,2)] by simp
  have "mq_inv (mq_q s) \<and> (\<forall>j < mq_taken s. mq_out s j \<noteq> None) \<and>
      mq_list (mq_q s) = drop (mq_taken s) (mq_in s)" if "\<forall>i. mq_pcs s i = MQ_idle"
  proof -
    have "na_pcs a i = MQ_idle" for i using that a(1) by (simp add: map_mq_pc_eq)
    with quiescent_queue [OF a(2) p2 a(4)] a(1,3) show ?thesis by (simp add: na_served_def)
  qed
  with a na_inv_taken [OF a(2)] na_inv_out [OF a(2)] show ?thesis by simp
qed

text \<open>A run: thread 1 starts a dequeue while thread 0 enqueues and returns.\<close>

definition mq_demo :: "nat \<Rightarrow> mq_sys" where
  "mq_demo k = fold (\<lambda>f s. f s) (take k
     [mq_goto 0 (Enq_reload 9), mq_goto 0 (Enq_look 9 0), enq_look_step 0 9 0,
      enq_cas_ok 0 9 0, enq_store_data 0 9 0, mq_goto 1 Deq_reload, enq_store_seq 0 0,
      mq_goto 1 (Deq_look 0), deq_look_step 1 0, deq_cas_ok 1 0, deq_load_data 1 0 0,
      deq_store_seq 1 0 9 0])
     (mq_start (the (newmpmcq 32 (replicate 2 \<lparr>seq = 0, data = 0\<rparr>))))"

lemmas mq_demo_simps = mq_demo_def mq_start_def newmpmcq_def mq_goto_def enq_look_step_def
  enq_cas_ok_def enq_store_data_def enq_store_seq_def deq_look_step_def deq_cas_ok_def
  deq_load_data_def deq_store_seq_def cell_at_def put_cell_def cell_idx_def look_def
  newmpmcq_loop.simps

lemma mq_demo_start: "mq_demo 0 = mq_start (the (newmpmcq 32 (replicate 2 \<lparr>seq = 0, data = 0\<rparr>)))"
  by (simp add: mq_demo_def)

lemma mq_demo_steps:
  "mq_step 0 (mq_demo 0) (mq_demo 1)" "mq_step 0 (mq_demo 1) (mq_demo 2)"
  "mq_step 0 (mq_demo 2) (mq_demo 3)" "mq_step 0 (mq_demo 3) (mq_demo 4)"
  "mq_step 0 (mq_demo 4) (mq_demo 5)" "mq_step 1 (mq_demo 5) (mq_demo 6)"
  "mq_step 0 (mq_demo 6) (mq_demo 7)" "mq_step 1 (mq_demo 7) (mq_demo 8)"
  "mq_step 1 (mq_demo 8) (mq_demo 9)" "mq_step 1 (mq_demo 9) (mq_demo 10)"
  "mq_step 1 (mq_demo 10) (mq_demo 11)" "mq_step 1 (mq_demo 11) (mq_demo 12)"
  using enq_call [of "mq_demo 0" 0 9] enq_pos [of "mq_demo 1" 0 9] enq_look [of "mq_demo 2" 0 9 0]
    enq_cas [of "mq_demo 3" 0 9 0] enq_data [of "mq_demo 4" 0 9 0] deq_call [of "mq_demo 5" 1]
    enq_seq [of "mq_demo 6" 0 0] deq_pos [of "mq_demo 7" 1] deq_look [of "mq_demo 8" 1 0]
    deq_cas [of "mq_demo 9" 1 0] deq_data [of "mq_demo 10" 1 0 0] deq_seq [of "mq_demo 11" 1 0 9 0]
  by (simp_all add: mq_demo_simps)

lemma mq_demo_reach: "reach_in (mq_demo 0) mq_step 2 12 (mq_demo 12)"
proof -
  note r = reach_in_step [where init = "mq_demo 0" and step = mq_step and n = 2]
  note one = r [OF reach_in_init _ mq_demo_steps(1)] and st = mq_demo_steps
  have "reach_in (mq_demo 0) mq_step 2 (Suc (Suc (Suc (Suc 0)))) (mq_demo 4)"
    by (intro r [OF _ _ st(4)] r [OF _ _ st(3)] r [OF _ _ st(2)] one) simp_all
  then have "reach_in (mq_demo 0) mq_step 2 (Suc (Suc (Suc (Suc (Suc (Suc (Suc (Suc 0)))))))) (mq_demo 8)"
    by (intro r [OF _ _ st(8)] r [OF _ _ st(7)] r [OF _ _ st(6)] r [OF _ _ st(5)]) simp_all
  then have "reach_in (mq_demo 0) mq_step 2
      (Suc (Suc (Suc (Suc (Suc (Suc (Suc (Suc (Suc (Suc (Suc (Suc 0)))))))))))) (mq_demo 12)"
    by (intro r [OF _ _ st(12)] r [OF _ _ st(11)] r [OF _ _ st(10)] r [OF _ _ st(9)]) simp_all
  then show ?thesis by (simp add: eval_nat_numeral)
qed

lemma mq_demo_end:
  "mq_pcs (mq_demo 12) i = MQ_idle" "mq_in (mq_demo 12) = [9]" "mq_taken (mq_demo 12) = 1"
  by (simp_all add: mq_demo_simps)

theorem mpmc_concurrent_fifo_witness:
  "mq_inv (mq_q (mq_demo 12)) \<and> mq_list (mq_q (mq_demo 12)) = [] \<and>
   mq_out (mq_demo 12) 0 = Some 9"
proof -
  let ?mem = "replicate 2 \<lparr>seq = 0, data = 0\<rparr>"
  have "newmpmcq 32 ?mem = Some (the (newmpmcq 32 ?mem))" by (simp add: newmpmcq_def)
  from mpmc_concurrent_fifo [OF this _ mq_demo_reach [unfolded mq_demo_start]] show ?thesis
    using mq_demo_end by fastforce
qed

end
