(* ===== verification/Region_Alloc.thy ===== *)
theory Region_Alloc
  imports Prelude
begin

text \<open>
  The contract of an allocator that hands out regions of a shared resource (pages of the
  enclave heap, system call slots) and takes them back, and what a client may rely on: at any
  time the regions it holds are disjoint. A release may leave part of a region allocated; it
  never frees anything else.
\<close>

datatype 'q request = Acquire 'q | Release nat

text \<open>A client that keeps the list of the regions it holds and gives back the \<open>i\<close>-th one.\<close>

fun serve :: "('s \<Rightarrow> 'q \<Rightarrow> ('s \<times> 'r option) option) \<Rightarrow> ('s \<Rightarrow> 'r \<Rightarrow> 's option)
    \<Rightarrow> 'q request list \<Rightarrow> 's \<times> 'r list \<Rightarrow> ('s \<times> 'r list) option" where
  "serve acq rel [] c = Some c"
| "serve acq rel (Acquire q # rs) (s, held) =
     (case acq s q of
        None \<Rightarrow> None
      | Some (s', None) \<Rightarrow> serve acq rel rs (s', held)
      | Some (s', Some x) \<Rightarrow> serve acq rel rs (s', held @ [x]))"
| "serve acq rel (Release i # rs) (s, held) =
     (if i < length held
      then case rel s (held ! i) of
             None \<Rightarrow> None
           | Some s' \<Rightarrow> serve acq rel rs (s', take i held @ drop (Suc i) held)
      else serve acq rel rs (s, held))"

definition apart :: "('r \<Rightarrow> nat set) \<Rightarrow> 'r list \<Rightarrow> bool" where
  "apart extent held \<longleftrightarrow> sorted_wrt (\<lambda>x y. extent x \<inter> extent y = {}) held"

lemma apart_nth:
  "apart extent held \<Longrightarrow> i < length held \<Longrightarrow> j < length held \<Longrightarrow> i \<noteq> j \<Longrightarrow>
     extent (held ! i) \<inter> extent (held ! j) = {}"
  unfolding apart_def sorted_wrt_iff_nth_less by (metis Int_commute linorder_neqE_nat)

locale region_alloc =
  fixes inv :: "'s \<Rightarrow> bool"
    and live :: "'s \<Rightarrow> nat set"
    and acquire :: "'s \<Rightarrow> 'q \<Rightarrow> ('s \<times> 'r option) option"
    and release :: "'s \<Rightarrow> 'r \<Rightarrow> 's option"
    and extent :: "'r \<Rightarrow> nat set"
    and valid :: "'q \<Rightarrow> bool"
  assumes acquire_fresh: "inv s \<Longrightarrow> valid q \<Longrightarrow> \<exists>s' r. acquire s q = Some (s', r) \<and> inv s' \<and>
      (case r of None \<Rightarrow> live s' = live s
       | Some x \<Rightarrow> extent x \<inter> live s = {} \<and> live s' = live s \<union> extent x)"
    and release_own: "inv s \<Longrightarrow> extent x \<subseteq> live s \<Longrightarrow>
      \<exists>s'. release s x = Some s' \<and> inv s' \<and> live s' \<subseteq> live s \<and> live s - extent x \<subseteq> live s'"
begin

definition holds :: "'s \<Rightarrow> 'r list \<Rightarrow> bool" where
  "holds s held \<longleftrightarrow> inv s \<and> apart extent held \<and> (\<Union>x\<in>set held. extent x) \<subseteq> live s"

lemma holds_acquire:
  assumes "holds s held" and "acquire s q = Some (s', Some x)" and "inv s'"
    and "extent x \<inter> live s = {}" and "live s' = live s \<union> extent x"
  shows "holds s' (held @ [x])"
  using assms unfolding holds_def apart_def by (fastforce simp: sorted_wrt_append)

lemma holds_release:
  assumes h: "holds s held" and i: "i < length held"
  shows "\<exists>s'. release s (held ! i) = Some s' \<and> holds s' (take i held @ drop (Suc i) held)"
proof -
  define x A B where "x = held ! i" and "A = take i held" and "B = drop (Suc i) held"
  have "held = A @ x # B" using id_take_nth_drop [OF i] by (simp add: x_def A_def B_def)
  with h have ap: "apart extent (A @ x # B)" and live: "(\<Union>y\<in>set (A @ x # B). extent y) \<subseteq> live s"
    and s: "inv s"
    by (simp_all add: holds_def)
  from release_own [OF s, of x] live obtain s' where
    s': "release s x = Some s'" "inv s'" "live s - extent x \<subseteq> live s'" by auto
  have "extent y \<inter> extent x = {}" if "y \<in> set (A @ B)" for y
    using ap that unfolding apart_def by (auto simp: sorted_wrt_append)
  moreover have "extent y \<subseteq> live s" if "y \<in> set (A @ B)" for y using live that by auto
  ultimately have "extent y \<subseteq> live s'" if "y \<in> set (A @ B)" for y using that s'(3) by blast
  then have "(\<Union>y\<in>set (A @ B). extent y) \<subseteq> live s'" by (rule UN_least)
  moreover have "apart extent (A @ B)" using ap unfolding apart_def by (auto simp: sorted_wrt_append)
  ultimately show ?thesis using s' by (auto simp: holds_def x_def A_def B_def)
qed

theorem serve_holds:
  assumes "holds s held" and "\<And>q. Acquire q \<in> set rs \<Longrightarrow> valid q"
  shows "\<exists>s' held'. serve acquire release rs (s, held) = Some (s', held') \<and> holds s' held'"
  using assms
proof (induction rs arbitrary: s held)
  case Nil
  then show ?case by simp
next
  case (Cons a rs)
  note IH = Cons.IH [OF _ Cons.prems(2)]
  show ?case
  proof (cases a)
    case (Acquire q)
    have s: "inv s" using Cons.prems(1) by (simp add: holds_def)
    from acquire_fresh [OF s, of q] Cons.prems(2) Acquire obtain s' r where
      r: "acquire s q = Some (s', r)" "inv s'" "case r of None \<Rightarrow> live s' = live s
        | Some x \<Rightarrow> extent x \<inter> live s = {} \<and> live s' = live s \<union> extent x" by auto
    show ?thesis
    proof (cases r)
      case None
      then have "holds s' held" using Cons.prems(1) r by (simp add: holds_def)
      with IH show ?thesis using r None Acquire by simp
    next
      case (Some x)
      with holds_acquire [OF Cons.prems(1)] r have "holds s' (held @ [x])" by simp
      with IH show ?thesis using r Some Acquire by simp
    qed
  next
    case (Release i)
    show ?thesis
    proof (cases "i < length held")
      case True
      from holds_release [OF Cons.prems(1) True] IH show ?thesis using Release True by fastforce
    next
      case False
      with IH [OF Cons.prems(1)] Release show ?thesis by simp
    qed
  qed
qed

end

end
