(* ===== verification/Enclave_Mem.thy ===== *)
theory Enclave_Mem
  imports Bitops Region_Alloc "HOL-Library.Monad_Syntax"
begin

text \<open>
  The page allocator of the enclave, \<^verbatim>\<open>src/sgx/enclave_mem.c\<close>, and the system calls it serves.
  The file's static variables are the fields of a record; a call returns the new state and
  the errno it sets or the value it returns (\<open>MAP_FAILED\<close> and -1 are the left injections).
  Addresses and lengths are 64 bit words. \<open>None\<close> is a call that never returns. Each function
  is one critical section of \<open>mmaplock\<close>; tracing, compiled only into debug builds, is left out.
\<close>

section \<open>State\<close>

datatype errno = EINVAL | ENOMEM | EBUSY | EAGAIN | ETIMEDOUT | ENOSYS | EINTR

record emm =
  mmap_bitmap :: "u64 list"
  mmap_base :: u64
  mmap_end :: u64
  mmap_num_pages :: u64
  used_pages :: u64
  mmap_files :: int
  mmap_topdown :: bool
  supported_flags :: int
  em_bytes :: "u64 \<Rightarrow> u8"

abbreviation PAGE_SIZE :: u64 where
  "PAGE_SIZE \<equiv> 4096"

definition DIV_ROUNDUP :: "u64 \<Rightarrow> u64 \<Rightarrow> u64" where
  "DIV_ROUNDUP x y = (x + (y - 1)) div y"

section \<open>Bitmap scans\<close>

text \<open>\<open>bit\<close> and \<open>retval\<close> are \<open>unsigned\<close>, the other variables \<open>unsigned long\<close>.\<close>

partial_function (option) count_set_bits_loop ::
    "u64 list \<Rightarrow> u64 \<Rightarrow> u64 \<Rightarrow> u64 \<Rightarrow> u32 \<Rightarrow> u32 \<Rightarrow> u64 option" where
  "count_set_bits_loop m sz start nr b retval =
     (if ucast b < start + nr
      then count_set_bits_loop m sz start nr
             (of_nat (find_next_bit m (unat sz) (unat (b + 1)))) (retval + 1)
      else Some (ucast retval))"

definition bitmap_count_set_bits :: "u64 list \<Rightarrow> u64 \<Rightarrow> u64 \<Rightarrow> u64 \<Rightarrow> u64 option" where
  "bitmap_count_set_bits m sz start nr =
     count_set_bits_loop m sz start nr (of_nat (find_next_bit m (unat sz) (unat start))) 0"

partial_function (option) bitmap_find_next_zero_area ::
    "u64 list \<Rightarrow> u64 \<Rightarrow> u64 \<Rightarrow> u64 \<Rightarrow> u64 option" where
  "bitmap_find_next_zero_area m sz start nr =
     (let index = of_nat (find_next_zero_bit m (unat sz) (unat start)); fin = index + nr
      in if fin > sz then Some fin
         else let i = of_nat (find_next_bit m (unat fin) (unat index))
              in if i < fin then bitmap_find_next_zero_area m sz (i + 1) nr else Some index)"

section \<open>Addresses and page indices\<close>

definition in_mmap_range :: "emm \<Rightarrow> u64 \<Rightarrow> u64 \<Rightarrow> bool" where
  "in_mmap_range st addr sz \<longleftrightarrow> addr \<ge> mmap_base st \<and> addr + sz \<le> mmap_end st"

definition index_to_addr :: "emm \<Rightarrow> u64 \<Rightarrow> u64" where
  "index_to_addr st index =
     (if mmap_topdown st then mmap_end st - index * PAGE_SIZE else mmap_base st + index * PAGE_SIZE)"

definition addr_to_index :: "emm \<Rightarrow> u64 \<Rightarrow> u64" where
  "addr_to_index st addr =
     (if mmap_topdown st then (mmap_end st - addr) div PAGE_SIZE
      else (addr - mmap_base st) div PAGE_SIZE)"

definition index_range_to_base_addr :: "emm \<Rightarrow> u64 \<Rightarrow> u64 \<Rightarrow> u64" where
  "index_range_to_base_addr st index pages =
     (if mmap_topdown st then index_to_addr st (index + (pages - 1)) else index_to_addr st index)"

definition addr_range_to_index :: "emm \<Rightarrow> u64 \<Rightarrow> u64 \<Rightarrow> u64" where
  "addr_range_to_index st addr pages =
     (if mmap_topdown st then addr_to_index st addr - (pages - 1) else addr_to_index st addr)"

section \<open>Operations\<close>

text \<open>\<open>mem\<close> is the content of the pages the bitmap is laid over, in words.\<close>

definition enclave_mman_init ::
    "u64 \<Rightarrow> u64 \<Rightarrow> bool \<Rightarrow> int \<Rightarrow> u64 list \<Rightarrow> (u64 \<Rightarrow> u8) \<Rightarrow> emm" where
  "enclave_mman_init base0 num_pages0 topdown files mem bytes =
     (let base = (if base0 = 0 then base0 + PAGE_SIZE else base0);
          num_pages = (if base0 = 0 then num_pages0 - 1 else num_pages0);
          bitmap_req_pages = DIV_ROUNDUP num_pages (8 * PAGE_SIZE);
          n = num_pages - bitmap_req_pages;
          mbase = base + bitmap_req_pages * PAGE_SIZE
      in \<lparr>mmap_bitmap = bitmap_clear mem 0 (to_int32 (uint n)), mmap_base = mbase,
          mmap_end = mbase + (n - 1) * PAGE_SIZE, mmap_num_pages = n, used_pages = 0,
          mmap_files = files, mmap_topdown = topdown, supported_flags = - 1, em_bytes = bytes\<rparr>)"

definition set_range :: "u64 \<Rightarrow> u64 \<Rightarrow> emm \<Rightarrow> emm" where
  "set_range index pages st = st\<lparr>mmap_bitmap :=
     bitmap_set (mmap_bitmap st) (to_int32 (uint index)) (to_int32 (uint pages))\<rparr>"

definition clear_range :: "u64 \<Rightarrow> u64 \<Rightarrow> emm \<Rightarrow> emm" where
  "clear_range index pages st = st\<lparr>mmap_bitmap :=
     bitmap_clear (mmap_bitmap st) (to_int32 (uint index)) (to_int32 (uint pages))\<rparr>"

text \<open>The first part of \<open>enclave_mmap\<close>, up to \<open>if(ret == 0)\<close>; the value is \<open>ret\<close>.\<close>

definition enclave_mmap_at ::
    "emm \<Rightarrow> u64 \<Rightarrow> u64 \<Rightarrow> u64 \<Rightarrow> bool \<Rightarrow> (emm \<times> (errno + u64)) option" where
  "enclave_mmap_at st addr len pages mmap_fixed =
     (if mmap_fixed
      then if \<not> in_mmap_range st addr len then Some (st, Inl ENOMEM)
           else Some (set_range (addr_range_to_index st addr pages) pages st, Inr addr)
      else if addr \<noteq> 0 \<and> in_mmap_range st addr len
      then let index = addr_range_to_index st addr pages
           in do {
             c \<leftarrow> bitmap_count_set_bits (mmap_bitmap st) (mmap_num_pages st) index pages;
             if c = 0 then Some (set_range index pages st, Inr addr) else Some (st, Inr 0)
           }
      else Some (st, Inr 0))"

text \<open>The search for an area, and the whole function.\<close>

definition enclave_mmap_search :: "emm \<Rightarrow> u64 \<Rightarrow> (emm \<times> (errno + u64)) option" where
  "enclave_mmap_search st pages = do {
     index \<leftarrow> bitmap_find_next_zero_area (mmap_bitmap st) (mmap_num_pages st) 0 pages;
     if index + pages > mmap_num_pages st then Some (st, Inl ENOMEM)
     else Some (set_range index pages st, Inr (index_range_to_base_addr st index pages))
   }"

definition enclave_mmap :: "emm \<Rightarrow> u64 \<Rightarrow> u64 \<Rightarrow> bool \<Rightarrow> (emm \<times> (errno + u64)) option" where
  "enclave_mmap st addr len mmap_fixed =
     (let pages = DIV_ROUNDUP len PAGE_SIZE
      in if addr mod PAGE_SIZE \<noteq> 0 \<or> len = 0 then Some (st, Inl EINVAL)
         else do {
           r1 \<leftarrow> enclave_mmap_at st addr len pages mmap_fixed;
           r2 \<leftarrow> (if snd r1 = Inr 0 then enclave_mmap_search (fst r1) pages else Some r1);
           Some (case r2 of
               (st', Inr ret) \<Rightarrow> (st'\<lparr>used_pages := used_pages st' + pages\<rparr>, Inr ret)
             | (st', Inl e) \<Rightarrow> (st', Inl e))
         })"

definition enclave_munmap :: "emm \<Rightarrow> u64 \<Rightarrow> u64 \<Rightarrow> (emm \<times> (errno + unit)) option" where
  "enclave_munmap st addr len =
     (let pages = DIV_ROUNDUP len PAGE_SIZE
      in if addr mod PAGE_SIZE \<noteq> 0 \<or> len = 0 \<or> \<not> in_mmap_range st addr len
         then Some (st, Inl EINVAL)
         else let index = addr_range_to_index st addr pages
              in do {
                occupied_pages \<leftarrow>
                  bitmap_count_set_bits (mmap_bitmap st) (mmap_num_pages st) index pages;
                Some (clear_range index pages
                        (st\<lparr>used_pages := used_pages st - occupied_pages\<rparr>), Inr ())
              })"

definition enclave_mremap ::
    "emm \<Rightarrow> u64 \<Rightarrow> u64 \<Rightarrow> u64 \<Rightarrow> u64 \<Rightarrow> bool \<Rightarrow> (emm \<times> (errno + u64)) option" where
  "enclave_mremap st old_addr old_length new_addr new_length mremap_fixed =
     (if mremap_fixed then Some (st, Inl EINVAL)
      else do {
        r \<leftarrow> enclave_mmap st new_addr new_length False;
        (case r of
           (st1, Inl e) \<Rightarrow> Some (st1, Inl e)
         | (st1, Inr mem) \<Rightarrow> do {
             r2 \<leftarrow> enclave_munmap
                 (st1\<lparr>em_bytes := memcpy mem old_addr
                    (if old_length > new_length then new_length else old_length) (em_bytes st1)\<rparr>)
                 old_addr old_length;
             Some (fst r2, Inr mem)
           })
      })"

section \<open>The scans\<close>

lemma unat_ucast_u32 [simp]: "unat (ucast (b :: u32) :: u64) = unat b"
  by (simp add: unsigned_ucast_eq take_bit_nat_eq_self unsigned_less [THEN order_less_trans])

definition set_in :: "u64 list \<Rightarrow> nat \<Rightarrow> nat \<Rightarrow> nat set" where
  "set_in m lo hi = {i. lo \<le> i \<and> i < hi \<and> bm_bit m i}"

lemma finite_set_in [simp]: "finite (set_in m lo hi)"
  by (rule finite_subset [of _ "{..<hi}"]) (auto simp: set_in_def)

lemma card_set_in_le: "card (set_in m lo hi) \<le> hi - lo"
proof -
  have "set_in m lo hi \<subseteq> {lo..<hi}" by (auto simp: set_in_def)
  from card_mono [OF _ this] show ?thesis by simp
qed

lemma set_in_next:
  assumes "next_from (bm_bit m) lo sz r" and "hi \<le> sz"
  shows "r < hi \<Longrightarrow> set_in m lo hi = insert r (set_in m (Suc r) hi)"
    and "hi \<le> r \<Longrightarrow> set_in m lo hi = {}"
  using next_fromD [OF assms(1)] assms(2)
  by (auto simp: set_in_def not_less_eq_eq dest: le_antisym)

lemma count_set_bits_loop_card:
  assumes "unat start + unat nr \<le> unat sz" and "unat sz < 2 ^ 31"
    and "next_from (bm_bit m) lo (unat sz) (unat b)" and "lo \<le> unat sz"
    and "unat rv + card (set_in m lo (unat start + unat nr)) < 2 ^ 32"
  shows "count_set_bits_loop m sz start nr b rv =
    Some (of_nat (unat rv + card (set_in m lo (unat start + unat nr))))"
  using assms(3-)
proof (induction "unat sz + 64 - unat b" arbitrary: b rv lo rule: less_induct)
  case less
  let ?hi = "unat start + unat nr"
  note nx = set_in_next [OF less.prems(1) assms(1)]
  have hi: "unat (start + nr) = ?hi" using assms(1,2) by (intro unat_add_small) simp
  have cond: "ucast b < start + nr \<longleftrightarrow> unat b < ?hi"
    by (simp add: word_less_nat_alt hi)
  show ?case
  proof (cases "unat b < ?hi")
    case True
    let ?b = "of_nat (find_next_bit m (unat sz) (unat (b + 1))) :: u32"
    have b1: "unat (b + 1) = Suc (unat b)"
      using True assms(1,2) unat_add_small [of b 1] by simp
    note nb = find_next_bit_next [of m "Suc (unat b)" "unat sz"]
    then have ub: "unat ?b = find_next_bit m (unat sz) (Suc (unat b))"
      using next_fromD(5) [OF nb] assms(2) b1 by (simp add: unat_of_nat_small)
    have rv: "card (set_in m lo ?hi) = Suc (card (set_in m (Suc (unat b)) ?hi))"
      using nx(1) [OF True] by (simp add: set_in_def)
    then have rv1: "unat (rv + 1) = Suc (unat rv)"
      using less.prems(3) unat_add_small [of rv 1] by simp
    have "unat b < unat ?b" using next_fromD(6) [OF nb] True assms(1) ub by simp
    then have "count_set_bits_loop m sz start nr ?b (rv + 1) =
        Some (of_nat (unat (rv + 1) + card (set_in m (Suc (unat b)) ?hi)))"
      using less.prems(3) nb rv rv1 True assms(1) next_fromD(5) [OF less.prems(1)]
      by (intro less.hyps) (simp_all add: ub)
    then show ?thesis using True rv rv1 cond by (subst count_set_bits_loop.simps) simp
  next
    case False
    moreover have "(ucast rv :: u64) = of_nat (unat rv)" by (simp add: word_unat_eq_iff)
    ultimately show ?thesis using nx(2) cond
      by (subst count_set_bits_loop.simps) simp
  qed
qed

theorem bitmap_count_set_bits_card:
  assumes "unat start + unat nr \<le> unat sz" and "unat sz < 2 ^ 31"
  shows "bitmap_count_set_bits m sz start nr =
    Some (of_nat (card (set_in m (unat start) (unat start + unat nr))))"
proof -
  let ?b = "of_nat (find_next_bit m (unat sz) (unat start)) :: u32"
  note nb = find_next_bit_next [of m "unat start" "unat sz"]
  have ub: "unat ?b = find_next_bit m (unat sz) (unat start)"
    using next_fromD(5) [OF nb] assms(2) by (simp add: unat_of_nat_small)
  have "card (set_in m (unat start) (unat start + unat nr)) < 2 ^ 32"
    using card_set_in_le [of m "unat start" "unat start + unat nr"] assms by simp
  then have "count_set_bits_loop m sz start nr ?b 0 =
      Some (of_nat (unat (0 :: u32) + card (set_in m (unat start) (unat start + unat nr))))"
    using nb assms by (intro count_set_bits_loop_card) (simp_all add: ub)
  then show ?thesis by (simp add: bitmap_count_set_bits_def)
qed

text \<open>An area of \<open>k\<close> clear bits that starts at \<open>i\<close>.\<close>

definition area_free :: "u64 list \<Rightarrow> nat \<Rightarrow> nat \<Rightarrow> bool" where
  "area_free m i k \<longleftrightarrow> (\<forall>j. i \<le> j \<longrightarrow> j < i + k \<longrightarrow> \<not> bm_bit m j)"

definition first_area :: "u64 list \<Rightarrow> nat \<Rightarrow> nat \<Rightarrow> nat \<Rightarrow> nat \<Rightarrow> bool" where
  "first_area m n lo k r \<longleftrightarrow>
     (if r + k \<le> n then lo \<le> r \<and> area_free m r k else (\<forall>i. lo \<le> i \<longrightarrow> i + k \<le> n \<longrightarrow> \<not> area_free m i k))"

lemma first_area_skip:
  assumes "first_area m n mid k r" and "lo \<le> mid"
    and "\<And>i. lo \<le> i \<Longrightarrow> i < mid \<Longrightarrow> i + k \<le> n \<Longrightarrow> \<not> area_free m i k"
  shows "first_area m n lo k r"
  using assms unfolding first_area_def by (metis le_trans linorder_not_less)

lemma bitmap_find_next_zero_area_first:
  assumes "unat sz \<le> 64 * length m" and "unat sz < 2 ^ 31" and "0 < unat nr" and "unat nr < 2 ^ 63"
    and "unat start \<le> unat sz"
  shows "\<exists>r. bitmap_find_next_zero_area m sz start nr = Some r \<and>
    first_area m (unat sz) (unat start) (unat nr) (unat r) \<and> unat r < 2 ^ 32 + unat nr"
  using assms(5)
proof (induction "unat sz - unat start" arbitrary: start rule: less_induct)
  case less
  define x where "x = find_next_zero_bit m (unat sz) (unat start)"
  define index :: u64 where "index = of_nat x"
  define fin where "fin = index + nr"
  note nz = find_next_zero_bit_next [OF assms(1), of "unat start", folded x_def]
  have x: "unat start \<le> x" "x < unat sz + 64" using next_fromD(5,6) [OF nz] less.prems by auto
  then have ux: "unat index = x" using assms(2) by (simp add: index_def unat_of_nat_small)
  have uf: "unat fin = x + unat nr"
    using unat_add_small [of index nr] x ux assms(2,4) by (simp add: fin_def)
  have skip: "\<not> area_free m i (unat nr)" if "unat start \<le> i" "i < x" "i < unat sz" for i
    using next_fromD(3) [OF nz that] assms(3) by (auto simp: area_free_def)
  show ?case
  proof (cases "fin > sz")
    case True
    then have big: "unat sz < x + unat nr" using uf by (simp add: word_less_nat_alt)
    have "\<not> area_free m i (unat nr)" if "unat start \<le> i" "i + unat nr \<le> unat sz" for i
      using skip [of i] that big assms(3) by simp
    then have "first_area m (unat sz) (unat start) (unat nr) (unat fin)"
      using big uf by (simp add: first_area_def)
    moreover have "bitmap_find_next_zero_area m sz start nr = Some fin"
      using True by (subst bitmap_find_next_zero_area.simps)
        (simp add: x_def [symmetric] index_def [symmetric] fin_def [symmetric])
    ultimately show ?thesis using uf x assms(2) by simp
  next
    case False
    then have fin_le: "x + unat nr \<le> unat sz" using uf by (simp add: word_less_nat_alt)
    define y where "y = find_next_bit m (x + unat nr) x"
    define i :: u64 where "i = of_nat y"
    note ny = find_next_bit_next [of m x "x + unat nr", folded y_def]
    have y: "x \<le> y" "y < x + unat nr + 64" using next_fromD(5,6) [OF ny] by simp_all
    then have uy: "unat i = y" using fin_le assms(2) by (simp add: i_def unat_of_nat_small)
    have run: "bitmap_find_next_zero_area m sz start nr =
        (if i < fin then bitmap_find_next_zero_area m sz (i + 1) nr else Some index)"
      using False by (subst bitmap_find_next_zero_area.simps)
        (simp add: x_def [symmetric] index_def [symmetric] fin_def [symmetric] Let_def uf ux
          y_def [symmetric] i_def [symmetric])
    show ?thesis
    proof (cases "i < fin")
      case True
      then have yf: "y < x + unat nr" by (simp add: word_less_nat_alt uy uf)
      have bit: "bm_bit m y" using next_fromD(1) [OF ny] yf by simp
      have ui: "unat (i + 1) = Suc y" using unat_add_small [of i 1] uy yf fin_le assms(2) by simp
      have "\<exists>r. bitmap_find_next_zero_area m sz (i + 1) nr = Some r \<and>
          first_area m (unat sz) (Suc y) (unat nr) (unat r) \<and> unat r < 2 ^ 32 + unat nr"
        using less.hyps [of "i + 1"] ui yf fin_le y(1) x(1) by simp
      then obtain r where r: "bitmap_find_next_zero_area m sz (i + 1) nr = Some r"
        "first_area m (unat sz) (Suc y) (unat nr) (unat r)" "unat r < 2 ^ 32 + unat nr" by blast
      have "\<not> area_free m j (unat nr)" if "unat start \<le> j" "j < Suc y" "j + unat nr \<le> unat sz" for j
        using skip [of j] that bit yf assms(3) unfolding area_free_def
        by (cases "j < x") (auto intro!: exI [of _ y])
      then have "first_area m (unat sz) (unat start) (unat nr) (unat r)"
        using first_area_skip [OF r(2)] x y by simp
      then show ?thesis using r run False True by simp
    next
      case no: False
      then have "x + unat nr \<le> y" by (simp add: word_less_nat_alt uy uf)
      then have "first_area m (unat sz) (unat start) (unat nr) x"
        using next_fromD(3) [OF ny] x(1) fin_le unfolding first_area_def area_free_def
        by simp
      then show ?thesis using run False no ux x assms(2) by auto
    qed
  qed
qed

section \<open>Pages\<close>

abbreviation npages :: "emm \<Rightarrow> nat" where
  "npages st \<equiv> unat (mmap_num_pages st)"

definition em_inv :: "emm \<Rightarrow> bool" where
  "em_inv st \<longleftrightarrow> 0 < npages st \<and> npages st < 2 ^ 31 \<and> npages st \<le> 64 * length (mmap_bitmap st) \<and>
     unat (mmap_base st) mod 4096 = 0 \<and> 0 < unat (mmap_base st) \<and>
     unat (mmap_base st) + 4096 * npages st + 4096 < 2 ^ 64 \<and>
     unat (mmap_end st) = unat (mmap_base st) + 4096 * (npages st - 1)"

text \<open>Pages are numbered by address; top-down, the bitmap holds them in reverse.\<close>

definition page_index :: "emm \<Rightarrow> nat \<Rightarrow> nat" where
  "page_index st k = (if mmap_topdown st then npages st - 1 - k else k)"

definition block_index :: "emm \<Rightarrow> nat \<Rightarrow> nat \<Rightarrow> nat" where
  "block_index st k c = (if mmap_topdown st then npages st - (k + c) else k)"

definition page_addr :: "emm \<Rightarrow> nat \<Rightarrow> nat" where
  "page_addr st k = unat (mmap_base st) + 4096 * k"

definition mapped :: "emm \<Rightarrow> nat set" where
  "mapped st = {k. k < npages st \<and> bm_bit (mmap_bitmap st) (page_index st k)}"

lemma finite_mapped [simp]: "finite (mapped st)"
  by (rule finite_subset [of _ "{..<npages st}"]) (auto simp: mapped_def)

lemma block_index_iff:
  assumes "k + c \<le> npages st" and "j < npages st"
  shows "block_index st k c \<le> page_index st j \<and> page_index st j < block_index st k c + c \<longleftrightarrow>
    k \<le> j \<and> j < k + c"
  using assms by (auto simp: block_index_def page_index_def)

lemma block_index_le: "k + c \<le> npages st \<Longrightarrow> block_index st k c + c \<le> npages st"
  by (auto simp: block_index_def)

lemma to_int32_of_nat:
  assumes "i < 2 ^ 31"
  shows "to_int32 (uint (of_nat i :: u64)) = int i"
proof -
  have "uint (of_nat i :: u64) = int (unat (of_nat i :: u64))" by simp
  also have "\<dots> = int i" using assms by (simp add: unat_of_nat_small del: uint_nat)
  finally show ?thesis using assms by simp
qed

lemma range_fields [simp]:
  "mmap_base (set_range i c st) = mmap_base st" "mmap_end (set_range i c st) = mmap_end st"
  "mmap_num_pages (set_range i c st) = mmap_num_pages st" "used_pages (set_range i c st) = used_pages st"
  "mmap_topdown (set_range i c st) = mmap_topdown st" "em_bytes (set_range i c st) = em_bytes st"
  "mmap_base (clear_range i c st) = mmap_base st" "mmap_end (clear_range i c st) = mmap_end st"
  "mmap_num_pages (clear_range i c st) = mmap_num_pages st"
  "used_pages (clear_range i c st) = used_pages st"
  "mmap_topdown (clear_range i c st) = mmap_topdown st" "em_bytes (clear_range i c st) = em_bytes st"
  by (simp_all add: set_range_def clear_range_def)

lemma em_inv_used [simp]:
  "em_inv (st\<lparr>used_pages := u\<rparr>) = em_inv st" "mapped (st\<lparr>used_pages := u\<rparr>) = mapped st"
  "em_inv (st\<lparr>em_bytes := f\<rparr>) = em_inv st" "mapped (st\<lparr>em_bytes := f\<rparr>) = mapped st"
  "page_addr (st\<lparr>used_pages := u\<rparr>) k = page_addr st k"
  by (simp_all add: em_inv_def mapped_def page_index_def page_addr_def)

lemma page_addr_range [simp]:
  "page_addr (set_range i c st) k = page_addr st k" "page_addr (clear_range i c st) k = page_addr st k"
  by (simp_all add: page_addr_def)

lemma set_range_block:
  assumes inv: "em_inv st" and k: "k + c \<le> npages st"
  shows "em_inv (set_range (of_nat (block_index st k c)) (of_nat c) st)"
    and "mapped (set_range (of_nat (block_index st k c)) (of_nat c) st) = mapped st \<union> {k..<k + c}"
proof -
  let ?i = "block_index st k c"
  have b: "?i + c \<le> 64 * length (mmap_bitmap st)" "?i < 2 ^ 31" "c < 2 ^ 31"
    using block_index_le [OF k] inv by (auto simp: em_inv_def)
  have bm: "mmap_bitmap (set_range (of_nat ?i) (of_nat c) st) = bitmap_set (mmap_bitmap st) (int ?i) (int c)"
    using b by (simp add: set_range_def to_int32_of_nat)
  note set = bitmap_set_bits [OF b(1)]
  show "em_inv (set_range (of_nat ?i) (of_nat c) st)"
    using inv by (simp add: em_inv_def bm set)
  have "page_index (set_range (of_nat ?i) (of_nat c) st) = page_index st"
    by (simp add: page_index_def fun_eq_iff)
  then have "j \<in> mapped (set_range (of_nat ?i) (of_nat c) st) \<longleftrightarrow> j \<in> mapped st \<union> {k..<k + c}" for j
    using k block_index_iff [OF k, of j] by (cases "j < npages st") (simp_all add: mapped_def bm set)
  then show "mapped (set_range (of_nat ?i) (of_nat c) st) = mapped st \<union> {k..<k + c}" by blast
qed

lemma clear_range_block:
  assumes inv: "em_inv st" and k: "k + c \<le> npages st"
  shows "em_inv (clear_range (of_nat (block_index st k c)) (of_nat c) st)"
    and "mapped (clear_range (of_nat (block_index st k c)) (of_nat c) st) = mapped st - {k..<k + c}"
proof -
  let ?i = "block_index st k c"
  have b: "?i + c \<le> 64 * length (mmap_bitmap st)" "?i < 2 ^ 31" "c < 2 ^ 31"
    using block_index_le [OF k] inv by (auto simp: em_inv_def)
  have bm: "mmap_bitmap (clear_range (of_nat ?i) (of_nat c) st) = bitmap_clear (mmap_bitmap st) (int ?i) (int c)"
    using b by (simp add: clear_range_def to_int32_of_nat)
  have idx: "page_index st j < 64 * length (mmap_bitmap st)" if "j < npages st" for j
    using that inv by (auto simp: page_index_def em_inv_def)
  note clr = bitmap_clear_bits [OF b(1)]
  show "em_inv (clear_range (of_nat ?i) (of_nat c) st)"
    using inv by (simp add: em_inv_def bm clr)
  have "page_index (clear_range (of_nat ?i) (of_nat c) st) = page_index st"
    by (simp add: page_index_def fun_eq_iff)
  then show "mapped (clear_range (of_nat ?i) (of_nat c) st) = mapped st - {k..<k + c}"
    using block_index_iff [OF k] by (auto simp: mapped_def bm clr idx)
qed

lemma set_in_block:
  assumes "k + c \<le> npages st"
  shows "card (set_in (mmap_bitmap st) (block_index st k c) (block_index st k c + c)) =
    card (mapped st \<inter> {k..<k + c})"
proof -
  have "bij_betw (page_index st) (mapped st \<inter> {k..<k + c})
      (set_in (mmap_bitmap st) (block_index st k c) (block_index st k c + c))"
    by (rule bij_betw_byWitness [where f' = "page_index st"])
      (use assms in \<open>auto simp: mapped_def set_in_def page_index_def block_index_def\<close>)
  then show ?thesis by (simp add: bij_betw_same_card)
qed

lemma area_free_block:
  assumes "k + c \<le> npages st"
  shows "area_free (mmap_bitmap st) (block_index st k c) c \<longleftrightarrow> mapped st \<inter> {k..<k + c} = {}"
proof -
  have "area_free (mmap_bitmap st) i c \<longleftrightarrow> set_in (mmap_bitmap st) i (i + c) = {}" for i
    by (auto simp: area_free_def set_in_def)
  then show ?thesis using set_in_block [OF assms]
    by (metis card_eq_0_iff finite_Int finite_mapped finite_set_in)
qed

section \<open>Addresses of pages\<close>

lemma unat_of_nat_mult_page:
  "4096 * i < 2 ^ 64 \<Longrightarrow> unat (of_nat i * PAGE_SIZE) = 4096 * i"
  using unat_of_nat_small [where 'a = 64, of "4096 * i"] by (simp add: mult.commute)

lemma unat_index_to_addr:
  assumes inv: "em_inv st" and i: "i < npages st"
  shows "unat (index_to_addr st (of_nat i)) = page_addr st (page_index st i)"
proof -
  have m: "unat (of_nat i * PAGE_SIZE) = 4096 * i"
    using inv i by (intro unat_of_nat_mult_page) (auto simp: em_inv_def)
  show ?thesis
  proof (cases "mmap_topdown st")
    case True
    have "unat (of_nat i * PAGE_SIZE) \<le> unat (mmap_end st)" using m inv i by (auto simp: em_inv_def)
    then have "unat (mmap_end st - of_nat i * PAGE_SIZE) = unat (mmap_end st) - 4096 * i"
      using m unat_diff_le [of "of_nat i * PAGE_SIZE" "mmap_end st"] by (simp add: word_le_nat_alt)
    then show ?thesis using True inv i
      by (auto simp: index_to_addr_def page_addr_def page_index_def em_inv_def algebra_simps)
  next
    case False
    have "unat (mmap_base st + of_nat i * PAGE_SIZE) = unat (mmap_base st) + 4096 * i"
      using m inv i unat_add_small [of "mmap_base st" "of_nat i * PAGE_SIZE"] by (auto simp: em_inv_def)
    then show ?thesis using False by (simp add: index_to_addr_def page_addr_def page_index_def)
  qed
qed

lemma index_range_block:
  assumes inv: "em_inv st" and k: "k + c \<le> npages st" and c: "0 < c"
  shows "unat (index_range_to_base_addr st (of_nat (block_index st k c)) (of_nat c)) = page_addr st k"
proof (cases "mmap_topdown st")
  case True
  have i: "of_nat (block_index st k c) + (of_nat c - 1) = (of_nat (npages st - 1 - k) :: u64)"
    using True k c by (simp add: block_index_def of_nat_diff)
  have "unat (index_to_addr st (of_nat (npages st - 1 - k))) = page_addr st k"
    using True unat_index_to_addr [OF inv, of "npages st - 1 - k"] k c by (simp add: page_index_def)
  then show ?thesis unfolding index_range_to_base_addr_def i using True by simp
next
  case False
  then show ?thesis using unat_index_to_addr [OF inv, of k] k c
    by (simp add: index_range_to_base_addr_def page_index_def block_index_def)
qed

lemma addr_range_block:
  assumes inv: "em_inv st" and k: "k + c \<le> npages st" and c: "0 < c" and a: "unat addr = page_addr st k"
  shows "addr_range_to_index st addr (of_nat c) = of_nat (block_index st k c)"
proof (cases "mmap_topdown st")
  case True
  have "addr \<le> mmap_end st" using inv k c a by (auto simp: word_le_nat_alt em_inv_def page_addr_def)
  then have "unat (mmap_end st - addr) = 4096 * (npages st - 1 - k)"
    using inv k c a by (auto simp: unat_diff_le em_inv_def page_addr_def)
  then have "unat ((mmap_end st - addr) div PAGE_SIZE) = npages st - 1 - k"
    by (simp add: unat_div)
  then have "(mmap_end st - addr) div PAGE_SIZE = of_nat (npages st - 1 - k)"
    by (rule unat_eq_of_nat_word)
  then show ?thesis
    using True k c by (simp add: addr_range_to_index_def addr_to_index_def block_index_def of_nat_diff)
next
  case False
  have "mmap_base st \<le> addr" using a by (simp add: word_le_nat_alt page_addr_def)
  then have "unat (addr - mmap_base st) = 4096 * k" using a by (simp add: unat_diff_le page_addr_def)
  then have "unat ((addr - mmap_base st) div PAGE_SIZE) = k" by (simp add: unat_div)
  then have "(addr - mmap_base st) div PAGE_SIZE = of_nat k" by (rule unat_eq_of_nat_word)
  then show ?thesis using False by (simp add: addr_range_to_index_def addr_to_index_def block_index_def)
qed

text \<open>The pages of a request, and the block of pages an accepted address range covers.\<close>

definition pages_of :: "u64 \<Rightarrow> nat" where
  "pages_of len = (unat len + 4095) div 4096"

lemma unat_pages:
  assumes "unat len + 4095 < 2 ^ 64"
  shows "DIV_ROUNDUP len PAGE_SIZE = of_nat (pages_of len)"
proof -
  have "unat (len + 4095) = unat len + 4095"
    using assms unat_add_small [of len 4095] by simp
  then have "unat (DIV_ROUNDUP len PAGE_SIZE) = pages_of len"
    by (simp add: DIV_ROUNDUP_def pages_of_def unat_div)
  then show ?thesis by (rule unat_eq_of_nat_word)
qed

lemma pages_of_pos: "len \<noteq> 0 \<Longrightarrow> 0 < pages_of len"
  by (simp add: pages_of_def div_greater_zero_iff Suc_le_eq word_neq_0_conv unat_gt_0)

lemma in_range_block:
  assumes inv: "em_inv st" and al: "addr mod PAGE_SIZE = 0" and r: "in_mmap_range st addr len"
    and no: "unat addr + unat len < 2 ^ 64"
  obtains k where "unat addr = page_addr st k" and "k + pages_of len < npages st"
proof -
  have "unat addr mod 4096 = 0" using al unat_mod [of addr PAGE_SIZE] by simp
  moreover have ge: "unat (mmap_base st) \<le> unat addr" using r by (simp add: in_mmap_range_def word_le_nat_alt)
  ultimately have "(unat addr - unat (mmap_base st)) mod 4096 = 0"
    using inv by (simp add: em_inv_def mod_eq_0_iff_dvd)
  then obtain k where "unat addr - unat (mmap_base st) = 4096 * k" by (auto simp: mod_eq_0_iff_dvd elim: dvdE)
  with ge have a: "unat addr = page_addr st k" by (simp add: page_addr_def)
  have "unat (addr + len) = unat addr + unat len" using no by (intro unat_add_small) simp
  then have "unat addr + unat len \<le> unat (mmap_end st)"
    using r by (simp add: in_mmap_range_def word_le_nat_alt)
  then have "4096 * k + unat len \<le> 4096 * (npages st - 1)"
    using a inv by (simp add: em_inv_def page_addr_def)
  then have "k + pages_of len \<le> npages st - 1" by (simp add: pages_of_def)
  moreover have "0 < npages st" using inv by (simp add: em_inv_def)
  ultimately have "k + pages_of len < npages st" by linarith
  with a show ?thesis by (rule that)
qed

section \<open>Correctness of the operations\<close>

text \<open>An address range that does not wrap around; the allocator relies on it.\<close>

definition fits :: "u64 \<Rightarrow> u64 \<Rightarrow> bool" where
  "fits addr len \<longleftrightarrow> unat addr + unat len + 4095 < 2 ^ 64"

lemma pages_of_less: "fits addr len \<Longrightarrow> pages_of len < 2 ^ 52"
  unfolding fits_def pages_of_def by (subst less_mult_imp_div_less) auto

lemma count_block:
  assumes inv: "em_inv st" and k: "k + c \<le> npages st"
  shows "bitmap_count_set_bits (mmap_bitmap st) (mmap_num_pages st) (of_nat (block_index st k c)) (of_nat c)
    = Some (of_nat (card (mapped st \<inter> {k..<k + c})))"
proof -
  have b: "block_index st k c + c \<le> npages st" by (rule block_index_le [OF k])
  moreover have n: "npages st < 2 ^ 31" using inv by (simp add: em_inv_def)
  ultimately have u: "unat (of_nat (block_index st k c) :: u64) = block_index st k c"
    "unat (of_nat c :: u64) = c"
    by (simp_all add: unat_of_nat_small)
  show ?thesis
    using bitmap_count_set_bits_card [of "of_nat (block_index st k c)" "of_nat c" "mmap_num_pages st"
        "mmap_bitmap st"] b n set_in_block [OF k] by (simp add: u)
qed

lemma card_block_eq_0:
  assumes "em_inv st" and "k + c \<le> npages st"
  shows "(of_nat (card (mapped st \<inter> {k..<k + c})) :: u64) = 0 \<longleftrightarrow> mapped st \<inter> {k..<k + c} = {}"
proof -
  have "card (mapped st \<inter> {k..<k + c}) \<le> card {k..<k + c}" by (rule card_mono) auto
  then have "card (mapped st \<inter> {k..<k + c}) < 2 ^ 64" using assms by (simp add: em_inv_def)
  then have "(of_nat (card (mapped st \<inter> {k..<k + c})) :: u64) = of_nat 0 \<longleftrightarrow> card (mapped st \<inter> {k..<k + c}) = 0"
    by (intro of_nat_word_eq_iff) simp_all
  then show ?thesis by simp
qed

definition alloc_result :: "emm \<Rightarrow> nat \<Rightarrow> emm \<times> (errno + u64) \<Rightarrow> bool" where
  "alloc_result st c r \<longleftrightarrow>
     (case r of
        (st', Inl e) \<Rightarrow> st' = st \<and> e = ENOMEM \<and>
          (\<forall>k. k + c \<le> npages st \<longrightarrow> mapped st \<inter> {k..<k + c} \<noteq> {})
      | (st', Inr a) \<Rightarrow> em_inv st' \<and> npages st' = npages st \<and> page_addr st' = page_addr st \<and>
          (\<exists>k. unat a = page_addr st k \<and> k + c \<le> npages st \<and> mapped st \<inter> {k..<k + c} = {} \<and>
            mapped st' = mapped st \<union> {k..<k + c}))"

lemma alloc_block:
  assumes "em_inv st" and "k + c \<le> npages st" and "mapped st \<inter> {k..<k + c} = {}"
    and "unat a = page_addr st k"
  shows "alloc_result st c (set_range (of_nat (block_index st k c)) (of_nat c) st, Inr a)"
  using assms set_range_block [OF assms(1,2)] by (auto simp: alloc_result_def fun_eq_iff)

lemma enclave_mmap_search_result:
  assumes inv: "em_inv st" and c: "0 < c" "c < 2 ^ 52"
  shows "\<exists>r. enclave_mmap_search st (of_nat c) = Some r \<and> alloc_result st c r \<and>
    used_pages (fst r) = used_pages st"
proof -
  have uc: "unat (of_nat c :: u64) = c" using c by (simp add: unat_of_nat_small)
  have n: "npages st \<le> 64 * length (mmap_bitmap st)" "npages st < 2 ^ 31" using inv by (auto simp: em_inv_def)
  from bitmap_find_next_zero_area_first [of "mmap_num_pages st" "mmap_bitmap st" "of_nat c" 0] n c uc
  obtain index where run: "bitmap_find_next_zero_area (mmap_bitmap st) (mmap_num_pages st) 0 (of_nat c) = Some index"
    and first: "first_area (mmap_bitmap st) (npages st) 0 c (unat index)" and lt: "unat index < 2 ^ 32 + c"
    by auto
  have ui: "unat (index + of_nat c) = unat index + c"
    using unat_add_small [of index "of_nat c"] lt c uc by simp
  show ?thesis
  proof (cases "unat index + c \<le> npages st")
    case True
    define k where "k = (if mmap_topdown st then npages st - (unat index + c) else unat index)"
    have k: "k + c \<le> npages st" and i: "block_index st k c = unat index"
      using True by (auto simp: k_def block_index_def)
    have i': "index = of_nat (block_index st k c)" using i by (intro unat_eq_of_nat_word) simp
    have "mapped st \<inter> {k..<k + c} = {}"
      using first True area_free_block [OF k] i by (simp add: first_area_def)
    then have "alloc_result st c (set_range index (of_nat c) st, Inr (index_range_to_base_addr st index (of_nat c)))"
      unfolding i' using alloc_block [OF inv k] index_range_block [OF inv k c(1)] by blast
    then show ?thesis
      using run True ui by (auto simp: enclave_mmap_search_def word_less_nat_alt)
  next
    case False
    have "mapped st \<inter> {k..<k + c} \<noteq> {}" if "k + c \<le> npages st" for k
      using first False area_free_block [OF that] block_index_le [OF that] by (simp add: first_area_def)
    then show ?thesis
      using run False ui by (auto simp: enclave_mmap_search_def word_less_nat_alt alloc_result_def)
  qed
qed

lemma alloc_result_used:
  "alloc_result st c (st', Inr a) \<Longrightarrow> alloc_result st c (st'\<lparr>used_pages := u\<rparr>, Inr a)"
  by (auto simp: alloc_result_def fun_eq_iff)

lemma addr_not_0:
  assumes "em_inv st" and "unat a = page_addr st k"
  shows "a \<noteq> 0"
  using assms by (auto simp: em_inv_def page_addr_def)

theorem enclave_mmap_result:
  assumes inv: "em_inv st" and al: "addr mod PAGE_SIZE = 0" and len: "len \<noteq> 0" and fit: "fits addr len"
  shows "\<exists>st' r. enclave_mmap st addr len False = Some (st', r) \<and> alloc_result st (pages_of len) (st', r) \<and>
    used_pages st' = used_pages st + (case r of Inl _ \<Rightarrow> 0 | Inr _ \<Rightarrow> of_nat (pages_of len))"
proof -
  let ?c = "pages_of len"
  have c: "0 < ?c" "?c < 2 ^ 52" using pages_of_pos [OF len] pages_of_less [OF fit] by auto
  have pages: "DIV_ROUNDUP len PAGE_SIZE = of_nat ?c" using fit by (intro unat_pages) (simp add: fits_def)
  define r1 where "r1 = enclave_mmap_at st addr len (of_nat ?c) False"
  have "r1 = Some (st, Inr 0) \<or> (\<exists>st1. r1 = Some (st1, Inr addr) \<and> alloc_result st ?c (st1, Inr addr) \<and>
      addr \<noteq> 0 \<and> used_pages st1 = used_pages st)"
  proof (cases "addr \<noteq> 0 \<and> in_mmap_range st addr len")
    case True
    then obtain k where k: "unat addr = page_addr st k" "k + ?c < npages st"
      using in_range_block [OF inv al, of len] fit by (auto simp: fits_def)
    then have "addr_range_to_index st addr (of_nat ?c) = of_nat (block_index st k ?c)"
      using addr_range_block [OF inv _ c(1) k(1)] by simp
    then show ?thesis
      using True k count_block [OF inv, of k ?c] card_block_eq_0 [OF inv, of k ?c] alloc_block [OF inv, of k ?c addr]
      by (auto simp: r1_def enclave_mmap_at_def)
  next
    case False
    then show ?thesis by (auto simp: r1_def enclave_mmap_at_def)
  qed
  then show ?thesis
  proof (elim disjE exE conjE)
    assume "r1 = Some (st, Inr 0)"
    moreover from enclave_mmap_search_result [OF inv c] obtain st' r where
      "enclave_mmap_search st (of_nat ?c) = Some (st', r)" "alloc_result st ?c (st', r)"
      "used_pages st' = used_pages st" by auto
    ultimately show ?thesis
      using al len pages unfolding r1_def
      by (cases r) (auto simp: enclave_mmap_def Let_def alloc_result_used)
  next
    fix st1 assume "r1 = Some (st1, Inr addr)" "alloc_result st ?c (st1, Inr addr)" "addr \<noteq> 0"
      "used_pages st1 = used_pages st"
    then show ?thesis
      using al len pages unfolding r1_def by (auto simp: enclave_mmap_def Let_def alloc_result_used)
  qed
qed

lemma in_range_block_iff:
  assumes inv: "em_inv st" and k: "unat addr = page_addr st k" and fit: "fits addr len"
  shows "in_mmap_range st addr len \<longleftrightarrow> k + pages_of len < npages st"
proof -
  have "unat (addr + len) = unat addr + unat len" using fit by (intro unat_add_small) (simp add: fits_def)
  then have "in_mmap_range st addr len \<longleftrightarrow> 4096 * k + unat len \<le> 4096 * (npages st - 1)"
    using k inv by (simp add: in_mmap_range_def word_le_nat_alt page_addr_def em_inv_def)
  also have "\<dots> \<longleftrightarrow> k + pages_of len \<le> npages st - 1" by (auto simp: pages_of_def)
  also have "\<dots> \<longleftrightarrow> k + pages_of len < npages st" using inv by (auto simp: em_inv_def)
  finally show ?thesis .
qed

lemma page_addr_aligned:
  assumes "em_inv st" and "unat addr = page_addr st k"
  shows "addr mod PAGE_SIZE = 0"
proof -
  have "unat (addr mod PAGE_SIZE) = 0" using assms by (simp add: unat_mod em_inv_def page_addr_def)
  then show ?thesis by (simp add: unat_eq_0)
qed

theorem enclave_munmap_result:
  assumes inv: "em_inv st" and k: "unat addr = page_addr st k" and len: "len \<noteq> 0" and fit: "fits addr len"
  shows "enclave_munmap st addr len = Some (if k + pages_of len < npages st
     then (clear_range (of_nat (block_index st k (pages_of len))) (of_nat (pages_of len))
             (st\<lparr>used_pages := used_pages st - of_nat (card (mapped st \<inter> {k..<k + pages_of len}))\<rparr>), Inr ())
     else (st, Inl EINVAL))"
proof -
  let ?c = "pages_of len"
  have c: "0 < ?c" by (rule pages_of_pos [OF len])
  have pages: "DIV_ROUNDUP len PAGE_SIZE = of_nat ?c" using fit by (intro unat_pages) (simp add: fits_def)
  show ?thesis
    using in_range_block_iff [OF inv k fit] page_addr_aligned [OF inv k] len pages
      addr_range_block [OF inv _ c k] count_block [OF inv, of k ?c]
    by (auto simp: enclave_munmap_def Let_def)
qed

section \<open>The allocator as a source of disjoint regions\<close>

text \<open>The bytes of a mapping, and the bytes of all mapped pages.\<close>

definition mapping_bytes :: "u64 \<times> u64 \<Rightarrow> nat set" where
  "mapping_bytes r = (case r of (addr, len) \<Rightarrow> {unat addr..<unat addr + 4096 * pages_of len})"

definition mapped_bytes :: "emm \<Rightarrow> nat set" where
  "mapped_bytes st = (\<Union>k\<in>mapped st. {page_addr st k..<page_addr st (Suc k)})"

lemma page_bytes_iff:
  "b \<in> {page_addr st k..<page_addr st (Suc k)} \<longleftrightarrow>
     unat (mmap_base st) \<le> b \<and> (b - unat (mmap_base st)) div 4096 = k"
  by (auto simp: page_addr_def)

lemma mapped_bytes_iff:
  "b \<in> mapped_bytes st \<longleftrightarrow> unat (mmap_base st) \<le> b \<and> (b - unat (mmap_base st)) div 4096 \<in> mapped st"
  unfolding mapped_bytes_def UN_iff page_bytes_iff by auto

lemma mapping_bytes_block:
  assumes "unat addr = page_addr st k"
  shows "b \<in> mapping_bytes (addr, len) \<longleftrightarrow> unat (mmap_base st) \<le> b \<and>
    (b - unat (mmap_base st)) div 4096 \<in> {k..<k + pages_of len}"
  using assms by (auto simp: mapping_bytes_def page_addr_def)

definition em_acquire :: "emm \<Rightarrow> u64 \<times> u64 \<Rightarrow> (emm \<times> (u64 \<times> u64) option) option" where
  "em_acquire st q = (case q of (addr, len) \<Rightarrow>
     map_option (\<lambda>(st', r). (st', case r of Inl _ \<Rightarrow> None | Inr a \<Rightarrow> Some (a, len)))
       (enclave_mmap st addr len False))"

definition em_release :: "emm \<Rightarrow> u64 \<times> u64 \<Rightarrow> emm option" where
  "em_release st r = (case r of (addr, len) \<Rightarrow> map_option fst (enclave_munmap st addr len))"

definition em_request :: "u64 \<times> u64 \<Rightarrow> bool" where
  "em_request q = (case q of (addr, len) \<Rightarrow> fits addr len)"

text \<open>The count of used pages agrees with the bitmap.\<close>

definition em_ok :: "emm \<Rightarrow> bool" where
  "em_ok st \<longleftrightarrow> em_inv st \<and> used_pages st = of_nat (card (mapped st))"

lemma enclave_mmap_invalid:
  "addr mod PAGE_SIZE \<noteq> 0 \<or> len = 0 \<Longrightarrow> enclave_mmap st addr len f = Some (st, Inl EINVAL)"
  by (simp add: enclave_mmap_def)

lemma em_acquire_fresh:
  assumes ok: "em_ok st" and q: "em_request q"
  shows "\<exists>st' r. em_acquire st q = Some (st', r) \<and> em_ok st' \<and>
    (case r of None \<Rightarrow> mapped_bytes st' = mapped_bytes st
     | Some x \<Rightarrow> mapping_bytes x \<inter> mapped_bytes st = {} \<and>
         mapped_bytes st' = mapped_bytes st \<union> mapping_bytes x)"
proof -
  obtain addr len where q': "q = (addr, len)" "fits addr len" using q by (auto simp: em_request_def)
  have inv: "em_inv st" using ok by (simp add: em_ok_def)
  show ?thesis
  proof (cases "addr mod PAGE_SIZE \<noteq> 0 \<or> len = 0")
    case True
    then show ?thesis using ok q' enclave_mmap_invalid [OF True] by (simp add: em_acquire_def)
  next
    case False
    let ?c = "pages_of len"
    from False enclave_mmap_result [OF inv _ _ q'(2)] obtain st' r where
      run: "enclave_mmap st addr len False = Some (st', r)" and res: "alloc_result st ?c (st', r)"
      and used: "used_pages st' = used_pages st + (case r of Inl _ \<Rightarrow> 0 | Inr _ \<Rightarrow> of_nat ?c)"
      by auto
    show ?thesis
    proof (cases r)
      case (Inl e)
      then show ?thesis using run res ok q' by (auto simp: em_acquire_def alloc_result_def)
    next
      case (Inr a)
      with res obtain k where k: "unat a = page_addr st k" "mapped st \<inter> {k..<k + ?c} = {}"
        "mapped st' = mapped st \<union> {k..<k + ?c}" and st': "em_inv st'" "page_addr st' = page_addr st"
        by (auto simp: alloc_result_def)
      have base: "unat (mmap_base st') = unat (mmap_base st)"
        using st'(2) [THEN fun_cong, of 0] by (simp add: page_addr_def)
      have "card (mapped st') = card (mapped st) + ?c"
        using k(2,3) by (simp add: card_Un_disjoint)
      then have "em_ok st'" using st' used ok Inr by (simp add: em_ok_def)
      moreover have "mapping_bytes (a, len) \<inter> mapped_bytes st = {}"
        "mapped_bytes st' = mapped_bytes st \<union> mapping_bytes (a, len)"
        using k(2) by (auto simp: mapped_bytes_iff mapping_bytes_block [OF k(1)] k(3) base)
      ultimately show ?thesis using run Inr q' by (auto simp: em_acquire_def)
    qed
  qed
qed

lemma mapped_bytes_bound:
  assumes "em_inv st" and "b \<in> mapped_bytes st"
  shows "b < 2 ^ 64"
proof -
  have "(b - unat (mmap_base st)) div 4096 < npages st" "unat (mmap_base st) \<le> b"
    using assms(2) by (auto simp: mapped_bytes_iff mapped_def)
  then have "b - unat (mmap_base st) < 4096 * npages st" by (simp add: div_less_iff_less_mult)
  then show ?thesis using assms(1) by (auto simp: em_inv_def)
qed

lemma mapping_fits:
  assumes inv: "em_inv st" and sub: "mapping_bytes (addr, len) \<subseteq> mapped_bytes st" and len: "len \<noteq> 0"
  shows "fits addr len"
proof -
  let ?b = "unat addr + 4096 * pages_of len - 1"
  have c: "0 < pages_of len" using len by (rule pages_of_pos)
  then have "?b \<in> mapping_bytes (addr, len)" by (auto simp: mapping_bytes_def)
  with sub have m: "(?b - unat (mmap_base st)) div 4096 < npages st" "unat (mmap_base st) \<le> ?b"
    by (auto simp: mapped_bytes_iff mapped_def)
  then have "?b - unat (mmap_base st) < 4096 * npages st" by (simp add: div_less_iff_less_mult)
  moreover have "unat len + 4095 < 4096 * pages_of len + 4096" by (simp add: pages_of_def)
  ultimately have "unat addr + unat len + 4095 < unat (mmap_base st) + 4096 * npages st + 4096"
    using m(2) c by linarith
  then show ?thesis using inv unfolding fits_def em_inv_def
    by (elim conjE) linarith
qed

lemma em_release_own:
  assumes ok: "em_ok st" and sub: "mapping_bytes x \<subseteq> mapped_bytes st"
  shows "\<exists>st'. em_release st x = Some st' \<and> em_ok st' \<and> mapped_bytes st' \<subseteq> mapped_bytes st \<and>
    mapped_bytes st - mapping_bytes x \<subseteq> mapped_bytes st'"
proof -
  obtain addr len where x: "x = (addr, len)" by (cases x)
  have inv: "em_inv st" using ok by (simp add: em_ok_def)
  show ?thesis
  proof (cases "addr mod PAGE_SIZE \<noteq> 0 \<or> len = 0 \<or> \<not> in_mmap_range st addr len")
    case True
    then have "enclave_munmap st addr len = Some (st, Inl EINVAL)" by (auto simp: enclave_munmap_def)
    then show ?thesis using ok x by (simp add: em_release_def)
  next
    case False
    let ?c = "pages_of len"
    have fit: "fits addr len" using mapping_fits [OF inv, of addr len] sub x False by blast
    then obtain k where k: "unat addr = page_addr st k" "k + ?c < npages st"
      using in_range_block [OF inv, of addr len] False by (auto simp: fits_def)
    let ?st = "clear_range (of_nat (block_index st k ?c)) (of_nat ?c)
        (st\<lparr>used_pages := used_pages st - of_nat (card (mapped st \<inter> {k..<k + ?c}))\<rparr>)"
    have run: "enclave_munmap st addr len = Some (?st, Inr ())"
      using enclave_munmap_result [OF inv k(1) _ fit] k(2) False by simp
    have bi: "block_index st k ?c = block_index (st\<lparr>used_pages := u\<rparr>) k ?c" for u
      by (simp add: block_index_def)
    have st: "em_inv ?st" "mapped ?st = mapped st - {k..<k + ?c}"
      using clear_range_block [of "st\<lparr>used_pages := u\<rparr>" k ?c for u] inv k(2)
      by (simp_all add: bi [symmetric])
    have card: "card (mapped st) = card (mapped ?st) + card (mapped st \<inter> {k..<k + ?c})"
      unfolding st(2) using card_Diff_subset_Int [of "mapped st" "{k..<k + ?c}"]
      by (simp add: card_mono le_add_diff_inverse2)
    have "used_pages ?st = of_nat (card (mapped st)) - of_nat (card (mapped st \<inter> {k..<k + ?c}))"
      using ok by (simp add: em_ok_def)
    also have "\<dots> = of_nat (card (mapped ?st))" unfolding card by (simp del: st)
    finally have "em_ok ?st" using st(1) by (simp add: em_ok_def)
    moreover have "mapped_bytes ?st \<subseteq> mapped_bytes st" "mapped_bytes st - mapping_bytes x \<subseteq> mapped_bytes ?st"
      using st(2) by (auto simp: mapped_bytes_iff x mapping_bytes_block [OF k(1)])
    ultimately show ?thesis using run x by (simp add: em_release_def)
  qed
qed

interpretation em: region_alloc em_ok mapped_bytes em_acquire em_release mapping_bytes em_request
proof unfold_locales
  fix s q assume "em_ok s" "em_request q"
  then show "\<exists>s' r. em_acquire s q = Some (s', r) \<and> em_ok s' \<and>
      (case r of None \<Rightarrow> mapped_bytes s' = mapped_bytes s
       | Some x \<Rightarrow> mapping_bytes x \<inter> mapped_bytes s = {} \<and>
           mapped_bytes s' = mapped_bytes s \<union> mapping_bytes x)"
    by (rule em_acquire_fresh)
next
  fix s x assume "em_ok s" "mapping_bytes x \<subseteq> mapped_bytes s"
  then show "\<exists>s'. em_release s x = Some s' \<and> em_ok s' \<and> mapped_bytes s' \<subseteq> mapped_bytes s \<and>
      mapped_bytes s - mapping_bytes x \<subseteq> mapped_bytes s'"
    by (rule em_release_own)
qed

section \<open>Initialisation\<close>

text \<open>The pages \<open>enclave_mman_init\<close> manages, bitmap included, and the words of the bitmap.\<close>

definition init_pages :: "u64 \<Rightarrow> u64 \<Rightarrow> nat" where
  "init_pages base num_pages = (if base = 0 then unat num_pages - 1 else unat num_pages)"

definition init_bitmap_pages :: "u64 \<Rightarrow> u64 \<Rightarrow> nat" where
  "init_bitmap_pages base num_pages = (init_pages base num_pages + 32767) div 32768"

definition init_ok :: "u64 \<Rightarrow> u64 \<Rightarrow> u64 list \<Rightarrow> bool" where
  "init_ok base num_pages mem \<longleftrightarrow> unat base mod 4096 = 0 \<and> 2 \<le> init_pages base num_pages \<and>
     unat num_pages < 2 ^ 31 \<and> unat base + 4096 * unat num_pages + 4096 < 2 ^ 64 \<and>
     length mem = 512 * init_bitmap_pages base num_pages"

lemma unat_mult_page:
  assumes "unat x = i" and "4096 * i < 2 ^ 64"
  shows "unat (x * PAGE_SIZE) = 4096 * i"
  using unat_of_nat_mult_page [OF assms(2)] unat_eq_of_nat_word [OF assms(1)] by (simp only:)

lemma enclave_mman_init_ok:
  assumes "init_ok base num_pages mem"
  shows "em_ok (enclave_mman_init base num_pages topdown files mem bytes)" (is "em_ok ?st")
    and "mapped (enclave_mman_init base num_pages topdown files mem bytes) = {}"
proof -
  define np where "np = (if base = 0 then num_pages - 1 else num_pages)"
  define b where "b = (if base = 0 then base + PAGE_SIZE else base)"
  define rq where "rq = DIV_ROUNDUP np (8 * PAGE_SIZE)"
  let ?np = "init_pages base num_pages" and ?rq = "init_bitmap_pages base num_pages"
  have a: "unat base mod 4096 = 0" "2 \<le> ?np" "unat num_pages < 2 ^ 31"
    "unat base + 4096 * unat num_pages + 4096 < 2 ^ 64" "length mem = 512 * ?rq"
    using assms by (auto simp: init_ok_def)
  have unp: "unat np = ?np"
    using a(2) unat_diff_le [of 1 num_pages]
    by (auto simp: np_def init_pages_def word_le_nat_alt split: if_splits)
  have ub: "unat b mod 4096 = 0" "0 < unat b" "unat b + 4096 * ?np + 4096 < 2 ^ 64"
    using a by (auto simp: b_def init_pages_def unat_gt_0 split: if_splits)
  have np31: "?np < 2 ^ 31" using a(3) by (auto simp: init_pages_def)
  have "unat (np + 32767) = ?np + 32767"
    using unat_add_small [of np 32767] unp np31 by simp
  then have urq: "unat rq = ?rq" by (simp add: rq_def DIV_ROUNDUP_def init_bitmap_pages_def unat_div)
  have rq: "?rq < ?np" "?np \<le> 32768 * ?rq" "1 \<le> ?rq"
    using a(2) unfolding init_bitmap_pages_def by linarith+
  have n: "unat (np - rq) = ?np - ?rq"
    using rq unp urq by (simp add: unat_diff_le word_le_nat_alt)
  have mb: "unat (b + rq * PAGE_SIZE) = unat b + 4096 * ?rq"
  proof -
    have "4096 * ?rq < 2 ^ 64" using rq ub(3) by simp
    then have m: "unat (rq * PAGE_SIZE) = 4096 * ?rq"
      by (rule unat_mult_page [OF urq])
    show ?thesis using unat_add_small [of b "rq * PAGE_SIZE"] m ub(3) rq by simp
  qed
  have me: "unat (b + rq * PAGE_SIZE + (np - rq - 1) * PAGE_SIZE) = unat b + 4096 * ?rq + 4096 * (?np - ?rq - 1)"
  proof -
    have "unat (np - rq - 1) = ?np - ?rq - 1"
      using n rq unat_diff_le [of 1 "np - rq"] by (simp add: word_le_nat_alt)
    then have m: "unat ((np - rq - 1) * PAGE_SIZE) = 4096 * (?np - ?rq - 1)"
      using rq ub(3) by (intro unat_mult_page) simp_all
    show ?thesis
      using unat_add_small [of "b + rq * PAGE_SIZE" "(np - rq - 1) * PAGE_SIZE"] m mb ub(3) rq by simp
  qed
  have st: "?st = \<lparr>mmap_bitmap = bitmap_clear mem 0 (to_int32 (uint (np - rq))),
      mmap_base = b + rq * PAGE_SIZE, mmap_end = b + rq * PAGE_SIZE + (np - rq - 1) * PAGE_SIZE,
      mmap_num_pages = np - rq, used_pages = 0, mmap_files = files, mmap_topdown = topdown,
      supported_flags = - 1, em_bytes = bytes\<rparr>"
    by (simp add: enclave_mman_init_def Let_def b_def np_def rq_def)
  have "uint (np - rq) = int (?np - ?rq)" using n by (metis uint_nat)
  then have bm: "mmap_bitmap ?st = bitmap_clear mem (int 0) (int (?np - ?rq))"
    using np31 by (simp add: st)
  have le: "0 + (?np - ?rq) \<le> 64 * length mem" using a(5) rq by simp
  note clr = bitmap_clear_bits [OF le, folded bm]
  show m: "mapped ?st = {}"
    using clr le by (auto simp: mapped_def page_index_def st n)
  have "?np - ?rq < 2 ^ 31" "4096 * ?rq + 4096 * (?np - ?rq) = 4096 * ?np" using rq np31 by simp_all
  then have "em_inv ?st"
    using clr(1) le n mb me ub rq np31 unfolding em_inv_def by (simp add: st)
  then show "em_ok ?st" using m by (simp add: em_ok_def) (simp add: st)
qed

section \<open>Contents\<close>

lemma enclave_mmap_at_bytes:
  "enclave_mmap_at st addr len c f = Some (st', r) \<Longrightarrow> em_bytes st' = em_bytes st"
  by (auto simp: enclave_mmap_at_def Let_def split: if_splits Option.bind_splits)

lemma enclave_mmap_search_bytes:
  "enclave_mmap_search st c = Some (st', r) \<Longrightarrow> em_bytes st' = em_bytes st"
  by (auto simp: enclave_mmap_search_def split: if_splits Option.bind_splits)

lemma enclave_mmap_bytes:
  "enclave_mmap st addr len f = Some (st', r) \<Longrightarrow> em_bytes st' = em_bytes st"
  by (auto simp: enclave_mmap_def Let_def split: if_splits Option.bind_splits sum.splits prod.splits
      dest!: enclave_mmap_at_bytes enclave_mmap_search_bytes)

lemma enclave_munmap_bytes:
  "enclave_munmap st addr len = Some (st', r) \<Longrightarrow> em_bytes st' = em_bytes st"
  by (auto simp: enclave_munmap_def Let_def split: if_splits Option.bind_splits)

lemma enclave_mremap_result:
  assumes ok: "em_ok st"
    and old: "unat old_addr = page_addr st k" "old_len \<noteq> 0" "fits old_addr old_len"
      "{k..<k + pages_of old_len} \<subseteq> mapped st"
    and new: "new_addr mod PAGE_SIZE = 0" "new_len \<noteq> 0" "fits new_addr new_len"
  shows "\<exists>st' r. enclave_mremap st old_addr old_len new_addr new_len False = Some (st', r) \<and> em_ok st' \<and>
    (case r of Inl e \<Rightarrow> st' = st \<and> e = ENOMEM
     | Inr mem \<Rightarrow> mapping_bytes (mem, new_len) \<inter> mapped_bytes st = {} \<and>
         mapping_bytes (mem, new_len) \<subseteq> mapped_bytes st' \<and>
         (\<forall>i < min old_len new_len. em_bytes st' (mem + i) = em_bytes st (old_addr + i)))"
proof -
  have inv: "em_inv st" using ok by (simp add: em_ok_def)
  obtain st1 r where run: "enclave_mmap st new_addr new_len False = Some (st1, r)"
    and res: "alloc_result st (pages_of new_len) (st1, r)" using enclave_mmap_result [OF inv new] by blast
  have req: "em_request (new_addr, new_len)" using new(3) by (simp add: em_request_def)
  from em_acquire_fresh [OF ok req] run have acq: "em_ok st1"
    "\<And>a. r = Inr a \<Longrightarrow> mapping_bytes (a, new_len) \<inter> mapped_bytes st = {} \<and>
       mapped_bytes st1 = mapped_bytes st \<union> mapping_bytes (a, new_len)"
    by (auto simp: em_acquire_def)
  show ?thesis
  proof (cases r)
    case (Inl e)
    then show ?thesis using run res acq by (simp add: enclave_mremap_def alloc_result_def)
  next
    case (Inr mem)
    define n where "n = (if old_len > new_len then new_len else old_len)"
    let ?st = "st1\<lparr>em_bytes := memcpy mem old_addr n (em_bytes st1)\<rparr>"
    have old_sub: "mapping_bytes (old_addr, old_len) \<subseteq> mapped_bytes st"
      using old(4) by (auto simp: mapping_bytes_block [OF old(1)] mapped_bytes_iff)
    have mb: "mapped_bytes ?st = mapped_bytes st1" by (simp add: mapped_bytes_iff set_eq_iff)
    have ok': "em_ok ?st" using acq(1) by (simp add: em_ok_def)
    have "mapping_bytes (old_addr, old_len) \<subseteq> mapped_bytes ?st"
      using old_sub acq(2) [OF Inr] mb by blast
    from em_release_own [OF ok' this] obtain st' r2 where st':
      "enclave_munmap ?st old_addr old_len = Some (st', r2)" "em_ok st'"
      "mapped_bytes ?st - mapping_bytes (old_addr, old_len) \<subseteq> mapped_bytes st'"
      by (auto simp: em_release_def)
    have "mapping_bytes (mem, new_len) \<subseteq> mapped_bytes st'"
      using st'(3) mb acq(2) [OF Inr] old_sub by blast
    moreover have "em_bytes st' (mem + i) = em_bytes st (old_addr + i)" if "i < min old_len new_len" for i
      using enclave_munmap_bytes [OF st'(1)] enclave_mmap_bytes [OF run] that
      by (simp add: memcpy_dst n_def min_def split: if_splits)
    ultimately show ?thesis
      using run Inr st' acq(2) [OF Inr] by (auto simp: enclave_mremap_def n_def)
  qed
qed

section \<open>Lengths that wrap around\<close>

text \<open>An area that ends beyond the range of \<open>unsigned\<close> is never left by the counting loop.\<close>

lemma count_set_bits_loop_diverges:
  assumes "2 ^ 32 \<le> unat (start + nr)"
  shows "count_set_bits_loop m sz start nr b rv = None"
proof (rule ccontr)
  assume "count_set_bits_loop m sz start nr b rv \<noteq> None"
  then obtain y where "count_set_bits_loop m sz start nr b rv = Some y" by blast
  then have "unat (start + nr) < 2 ^ 32"
  proof (rule count_set_bits_loop.raw_induct
      [where P = "\<lambda>m sz start nr b rv y. unat (start + nr) < 2 ^ 32", rotated], goal_cases)
    case (1 f m sz start nr b rv y)
    have "unat b < 2 ^ 32" using unsigned_less [of b, where ?'a = nat] by simp
    then show ?case using 1
      by (cases "ucast b < start + nr") (auto simp: word_less_nat_alt)
  qed
  then show False using assms by simp
qed

section \<open>Properties\<close>

definition em_demo :: emm where
  "em_demo = enclave_mman_init 0x100000 5 True 0 (replicate 512 0) (\<lambda>_. 7)"

lemma em_demo_ok: "em_ok em_demo" "mapped em_demo = {}"
  unfolding em_demo_def
  by (rule enclave_mman_init_ok, simp add: init_ok_def init_pages_def init_bitmap_pages_def)+

lemma em_demo_fields:
  "mmap_num_pages em_demo = 4" "mmap_base em_demo = 0x101000" "mmap_topdown em_demo"
  by (simp_all add: em_demo_def enclave_mman_init_def DIV_ROUNDUP_def)

text \<open>
  C5. A request for memory without \<open>MAP_FIXED\<close> whose address and length do not wrap around
  always returns: with \<open>ENOMEM\<close> exactly when no run of free pages is long enough, and otherwise
  with the address of a run of pages inside the heap, none of which was mapped before, and
  that are the only pages whose state changes; the count of used pages stays exact.
\<close>

theorem enclave_mmap_correct:
  assumes "em_ok st" and "addr mod PAGE_SIZE = 0" and "len \<noteq> 0" and "fits addr len"
  shows "\<exists>st' r. enclave_mmap st addr len False = Some (st', r) \<and> em_ok st' \<and>
    (case r of
       Inl e \<Rightarrow> st' = st \<and> e = ENOMEM \<and>
         (\<forall>k. k + pages_of len \<le> npages st \<longrightarrow> mapped st \<inter> {k..<k + pages_of len} \<noteq> {})
     | Inr a \<Rightarrow> (\<exists>k. unat a = page_addr st k \<and> k + pages_of len \<le> npages st \<and>
         mapped st \<inter> {k..<k + pages_of len} = {} \<and>
         mapped st' = mapped st \<union> {k..<k + pages_of len}))"
proof -
  have inv: "em_inv st" using assms(1) by (simp add: em_ok_def)
  from enclave_mmap_result [OF inv assms(2-4)] obtain st' r where
    run: "enclave_mmap st addr len False = Some (st', r)" and res: "alloc_result st (pages_of len) (st', r)"
    by blast
  have "em_request (addr, len)" using assms(4) by (simp add: em_request_def)
  from em_acquire_fresh [OF assms(1) this] run have "em_ok st'" by (auto simp: em_acquire_def)
  with run res show ?thesis by (cases r) (auto simp: alloc_result_def)
qed

theorem enclave_mmap_correct_witness:
  "\<exists>st' a k. enclave_mmap em_demo 0 5000 False = Some (st', Inr a) \<and> unat a = page_addr em_demo k \<and>
    mapped st' = {k..<k + 2}"
proof -
  have c: "pages_of 5000 = 2" by (simp add: pages_of_def)
  have "\<not> (\<forall>k. k + 2 \<le> npages em_demo \<longrightarrow> mapped em_demo \<inter> {k..<k + 2} \<noteq> {})"
    using em_demo_fields em_demo_ok(2) by auto
  then show ?thesis
    using enclave_mmap_correct [OF em_demo_ok(1), of 0 5000] em_demo_ok(2)
    unfolding c by (fastforce simp: fits_def split: sum.splits)
qed

text \<open>
  C6. After \<open>enclave_mman_init\<close>, whatever sequence of requests without \<open>MAP_FIXED\<close> and of
  releases of mappings it holds a client makes, every call returns and the mappings the client
  holds are at all times pairwise disjoint ranges of mapped bytes.
\<close>

theorem enclave_mappings_disjoint:
  assumes "init_ok base num_pages mem" and "\<forall>q. Acquire q \<in> set rs \<longrightarrow> em_request q"
  shows "\<exists>st held. serve em_acquire em_release rs
      (enclave_mman_init base num_pages topdown files mem bytes, []) = Some (st, held) \<and>
    em_ok st \<and> apart mapping_bytes held \<and> (\<forall>x\<in>set held. mapping_bytes x \<subseteq> mapped_bytes st)"
proof -
  have "em.holds (enclave_mman_init base num_pages topdown files mem bytes) []"
    using enclave_mman_init_ok [OF assms(1)] by (simp add: em.holds_def apart_def)
  from em.serve_holds [OF this] assms(2) show ?thesis by (fastforce simp: em.holds_def)
qed

theorem enclave_mappings_disjoint_witness:
  "\<exists>st held. serve em_acquire em_release [Acquire (0, 4096), Acquire (0, 8000), Release 0, Acquire (0, 1)]
      (enclave_mman_init 0x100000 5 True 0 (replicate 512 0) (\<lambda>_. 7), []) = Some (st, held) \<and>
    em_ok st \<and> apart mapping_bytes held"
  using enclave_mappings_disjoint [of "0x100000" 5 "replicate 512 0"
      "[Acquire (0, 4096), Acquire (0, 8000), Release 0, Acquire (0, 1)]" True 0 "\<lambda>_. 7"]
  by (fastforce simp: init_ok_def init_pages_def init_bitmap_pages_def em_request_def fits_def)

text \<open>
  C7. \<open>enclave_munmap\<close> of a page-aligned range that ends before the last page returns 0, frees
  exactly the pages of the range and subtracts from \<open>used_pages\<close> exactly those that were mapped.
\<close>

theorem enclave_munmap_exact:
  assumes "em_ok st" and "unat addr = page_addr st k" and "len \<noteq> 0" and "fits addr len"
    and "k + pages_of len < npages st"
  shows "\<exists>st'. enclave_munmap st addr len = Some (st', Inr ()) \<and> em_inv st' \<and>
    mapped st' = mapped st - {k..<k + pages_of len} \<and>
    used_pages st' = used_pages st - of_nat (card (mapped st \<inter> {k..<k + pages_of len})) \<and>
    em_bytes st' = em_bytes st"
proof -
  have inv: "em_inv st" using assms(1) by (simp add: em_ok_def)
  let ?u = "used_pages st - of_nat (card (mapped st \<inter> {k..<k + pages_of len}))"
  have "block_index (st\<lparr>used_pages := ?u\<rparr>) k (pages_of len) = block_index st k (pages_of len)"
    by (simp add: block_index_def)
  then show ?thesis
    using enclave_munmap_result [OF inv assms(2-4)] assms(5)
      clear_range_block [of "st\<lparr>used_pages := ?u\<rparr>" k "pages_of len"] inv by auto
qed

theorem enclave_munmap_exact_witness:
  "\<exists>st'. enclave_munmap em_demo 0x102000 4097 = Some (st', Inr ()) \<and> mapped st' = {}"
  using enclave_munmap_exact [OF em_demo_ok(1), of "0x102000" 1 4097] em_demo_ok(2) em_demo_fields
  by (fastforce simp: page_addr_def pages_of_def fits_def)

text \<open>
  C8. \<open>enclave_mremap\<close> of a mapped range either fails with \<open>ENOMEM\<close> and leaves the state as it
  was, or returns a mapping disjoint from every page mapped before that holds the bytes of the
  old one up to the shorter of the two lengths, and keeps it mapped after the old range is
  released.
\<close>

theorem enclave_mremap_moves:
  assumes "em_ok st" and "unat old_addr = page_addr st k" and "old_len \<noteq> 0"
    and "fits old_addr old_len" and "{k..<k + pages_of old_len} \<subseteq> mapped st"
    and "new_addr mod PAGE_SIZE = 0" and "new_len \<noteq> 0" and "fits new_addr new_len"
  shows "\<exists>st' r. enclave_mremap st old_addr old_len new_addr new_len False = Some (st', r) \<and> em_ok st' \<and>
    (case r of Inl e \<Rightarrow> st' = st \<and> e = ENOMEM
     | Inr m \<Rightarrow> mapping_bytes (m, new_len) \<inter> mapped_bytes st = {} \<and>
         mapping_bytes (m, new_len) \<subseteq> mapped_bytes st' \<and>
         (\<forall>i < min old_len new_len. em_bytes st' (m + i) = em_bytes st (old_addr + i)))"
  using assms by (rule enclave_mremap_result)

definition em_demo1 :: emm where
  "em_demo1 = set_range (of_nat (block_index em_demo 0 1)) (of_nat 1) (em_demo\<lparr>used_pages := 1\<rparr>)"

lemma em_demo1_ok: "em_ok em_demo1" "mapped em_demo1 = {0}" "page_addr em_demo1 0 = 0x101000"
proof -
  have "em_inv (em_demo\<lparr>used_pages := 1\<rparr>)" using em_demo_ok(1) by (simp add: em_ok_def)
  moreover have "block_index (em_demo\<lparr>used_pages := 1\<rparr>) 0 1 = block_index em_demo 0 1"
    by (simp add: block_index_def)
  ultimately have "em_inv em_demo1" and m: "mapped em_demo1 = {0}"
    using set_range_block [of "em_demo\<lparr>used_pages := 1\<rparr>" 0 1] em_demo_ok(2) em_demo_fields(1)
    unfolding em_demo1_def by auto
  then show "em_ok em_demo1" by (simp add: em_ok_def em_demo1_def)
  show "mapped em_demo1 = {0}" by (rule m)
  show "page_addr em_demo1 0 = 0x101000"
    using em_demo_fields(2) by (simp add: em_demo1_def page_addr_def)
qed

theorem enclave_mremap_moves_witness:
  "\<exists>st' r. enclave_mremap em_demo1 0x101000 10 0 4097 False = Some (st', r) \<and> em_ok st'"
  using enclave_mremap_moves [OF em_demo1_ok(1), of "0x101000" 0 10 0 4097] em_demo1_ok
  by (fastforce simp: fits_def pages_of_def)

text \<open>
  The highest page of the heap is never given back: a range that reaches it is refused
  with \<open>EINVAL\<close> and stays mapped, although \<open>enclave_mmap\<close> hands that page out (top-down it is
  the first page allocated).
\<close>

lemma enclave_munmap_last_page:
  assumes "em_ok st" and "unat addr = page_addr st k" and "len \<noteq> 0" and "fits addr len"
    and "k + pages_of len = npages st"
  shows "enclave_munmap st addr len = Some (st, Inl EINVAL)"
  using enclave_munmap_result [OF _ assms(2-4)] assms(1,5) by (simp add: em_ok_def)

text \<open>
  A length just below \<open>2 ^ 64\<close> passes the range check, because the sum of address and length
  wraps around; bottom-up, \<open>enclave_munmap\<close> then never returns (and holds \<open>mmaplock\<close>).
\<close>

lemma enclave_munmap_wrap_diverges:
  assumes "em_ok st" and "\<not> mmap_topdown st"
  shows "enclave_munmap st (mmap_base st) (- 4096) = None"
proof -
  have inv: "em_inv st" using assms(1) by (simp add: em_ok_def)
  have al: "mmap_base st mod PAGE_SIZE = 0"
    using page_addr_aligned [OF inv, of "mmap_base st" 0] by (simp add: page_addr_def)
  have "unat (mmap_base st) \<ge> 4096" using inv unfolding em_inv_def by (auto elim!: dvdE simp: mod_eq_0_iff_dvd)
  then have "unat (mmap_base st - 4096) = unat (mmap_base st) - 4096"
    using unat_diff_le [of 4096 "mmap_base st"] by (simp add: word_le_nat_alt)
  then have r: "in_mmap_range st (mmap_base st) (- 4096)"
    using inv by (simp add: in_mmap_range_def word_le_nat_alt em_inv_def)
  have "DIV_ROUNDUP (- 4096) PAGE_SIZE = 4503599627370495"
    unfolding DIV_ROUNDUP_def by (simp add: word_unat_eq_iff unat_div)
  moreover have "addr_range_to_index st (mmap_base st) p = 0" for p
    using assms(2) by (simp add: addr_range_to_index_def addr_to_index_def)
  ultimately show ?thesis
    using al r count_set_bits_loop_diverges [of 0 4503599627370495]
    by (simp add: enclave_munmap_def bitmap_count_set_bits_def)
qed

end
