(* ===== verification/Hostcall_Slots.thy ===== *)
theory Hostcall_Slots
  imports Region_Alloc
begin

text \<open>
  The table of system call slots of \<^verbatim>\<open>src/host/sgx_hostcall_interface.c\<close>: every thread and
  every scheduler owns one slot of the array shared with the host, and the table says which
  thread a slot belongs to. \<open>allocslot\<close> and \<open>freeslot\<close> run under \<open>slotslock\<close>, so each is one
  step; \<open>a_crash\<close> and an access outside the arrays are errors.
\<close>

section \<open>The table and its operations\<close>

record slot_table =
  maxsyscalls :: u64
  nthreads :: u64
  freeslots :: "u8 list"
  slotlthreads :: "u64 list"

datatype slot_error = Slot_crash | Slot_out_of_bounds

definition hostsyscallclient_init :: "u64 \<Rightarrow> slot_table" where
  "hostsyscallclient_init n =
     \<lparr>maxsyscalls = n, nthreads = 0, freeslots = replicate (unat n) 0,
      slotlthreads = replicate (unat n) 0\<rparr>"

definition slottolthread :: "u64 \<Rightarrow> slot_table \<Rightarrow> slot_error + u64" where
  "slottolthread s t =
     (if s < maxsyscalls t then Inr (slotlthreads t ! unat s) else Inl Slot_crash)"

text \<open>The loop of \<open>allocslot\<close> from index \<open>i\<close>.\<close>

function alloc_loop :: "u64 \<Rightarrow> nat \<Rightarrow> slot_table \<Rightarrow> slot_table \<times> nat" where
  "alloc_loop lt i t =
     (if i < unat (maxsyscalls t)
      then if freeslots t ! i = 0
           then (t\<lparr>freeslots := (freeslots t)[i := 1], slotlthreads := (slotlthreads t)[i := lt]\<rparr>, i)
           else alloc_loop lt (Suc i) t
      else (t, i))"
  by pat_completeness auto
termination by (relation "measure (\<lambda>(_, i, t). unat (maxsyscalls t) - i)") auto

declare alloc_loop.simps [simp del]

definition allocslot :: "u64 \<Rightarrow> slot_table \<Rightarrow> slot_error + slot_table \<times> u64" where
  "allocslot lt t =
     (if nthreads t \<ge> maxsyscalls t then Inl Slot_crash
      else let (t', i) = alloc_loop lt 0 (t\<lparr>nthreads := nthreads t + 1\<rparr>) in Inr (t', of_nat i))"

definition freeslot :: "u64 \<Rightarrow> slot_table \<Rightarrow> slot_error + slot_table" where
  "freeslot slotno t =
     (if slotno > maxsyscalls t then Inr t
      else if slotno = maxsyscalls t then Inl Slot_out_of_bounds
      else Inr (t\<lparr>slotlthreads := (slotlthreads t)[unat slotno := 0], nthreads := nthreads t - 1,
                  freeslots := (freeslots t)[unat slotno := 0]\<rparr>))"

section \<open>Invariant\<close>

definition taken :: "slot_table \<Rightarrow> nat set" where
  "taken t = {i. i < unat (maxsyscalls t) \<and> freeslots t ! i \<noteq> 0}"

definition slots_ok :: "slot_table \<Rightarrow> bool" where
  "slots_ok t \<longleftrightarrow> length (freeslots t) = unat (maxsyscalls t) \<and>
     length (slotlthreads t) = unat (maxsyscalls t) \<and> unat (nthreads t) = card (taken t)"

lemma finite_taken [simp]: "finite (taken t)"
  by (simp add: taken_def)

lemma taken_le: "card (taken t) \<le> unat (maxsyscalls t)"
proof -
  have "taken t \<subseteq> {..<unat (maxsyscalls t)}" by (auto simp: taken_def)
  from card_mono [OF _ this] show ?thesis by simp
qed

lemma slots_ok_init: "slots_ok (hostsyscallclient_init n)" "taken (hostsyscallclient_init n) = {}"
  by (auto simp: slots_ok_def taken_def hostsyscallclient_init_def)

lemma alloc_loop_finds:
  assumes "\<exists>j. i \<le> j \<and> j < unat (maxsyscalls t) \<and> freeslots t ! j = 0"
  shows "\<exists>j. j < unat (maxsyscalls t) \<and> freeslots t ! j = 0 \<and> alloc_loop lt i t =
    (t\<lparr>freeslots := (freeslots t)[j := 1], slotlthreads := (slotlthreads t)[j := lt]\<rparr>, j)"
  using assms
proof (induction lt i t rule: alloc_loop.induct)
  case (1 lt i t)
  then obtain j where j: "i \<le> j" "j < unat (maxsyscalls t)" "freeslots t ! j = 0" by blast
  show ?case
  proof (cases "freeslots t ! i = 0")
    case True
    with j show ?thesis by (subst alloc_loop.simps) auto
  next
    case False
    with j have "Suc i \<le> j" by (metis le_neq_implies_less Suc_leI)
    with 1(1) [OF _ False] j have "\<exists>k. k < unat (maxsyscalls t) \<and> freeslots t ! k = 0 \<and>
        alloc_loop lt (Suc i) t = (t\<lparr>freeslots := (freeslots t)[k := 1],
          slotlthreads := (slotlthreads t)[k := lt]\<rparr>, k)" by auto
    then show ?thesis using False j by (subst alloc_loop.simps) auto
  qed
qed

lemma free_exists:
  assumes "slots_ok t" and "nthreads t < maxsyscalls t"
  shows "\<exists>j. j < unat (maxsyscalls t) \<and> freeslots t ! j = 0"
proof (rule ccontr)
  assume "\<not> ?thesis"
  then have "taken t = {..<unat (maxsyscalls t)}" by (auto simp: taken_def)
  with assms show False by (simp add: slots_ok_def word_less_nat_alt)
qed

lemma taken_update:
  assumes "length (freeslots t) = unat (maxsyscalls t)" and "j < unat (maxsyscalls t)"
  shows "v \<noteq> 0 \<Longrightarrow> {i. i < unat (maxsyscalls t) \<and> (freeslots t)[j := v] ! i \<noteq> 0} = insert j (taken t)"
    and "{i. i < unat (maxsyscalls t) \<and> (freeslots t)[j := 0] ! i \<noteq> 0} = taken t - {j}"
  using assms by (auto simp: taken_def nth_list_update split: if_splits)

lemma allocslot_result:
  assumes ok: "slots_ok t"
  shows "case allocslot lt t of
      Inl e \<Rightarrow> e = Slot_crash \<and> card (taken t) = unat (maxsyscalls t)
    | Inr (t', s) \<Rightarrow> slots_ok t' \<and> s < maxsyscalls t \<and> maxsyscalls t' = maxsyscalls t \<and>
        unat s \<notin> taken t \<and> taken t' = insert (unat s) (taken t) \<and>
        (\<forall>r. slottolthread r t' = (if r = s then Inr lt else slottolthread r t))"
proof (cases "nthreads t \<ge> maxsyscalls t")
  case True
  with ok taken_le [of t] show ?thesis by (simp add: allocslot_def slots_ok_def word_le_nat_alt)
next
  case False
  let ?t = "t\<lparr>nthreads := nthreads t + 1\<rparr>"
  have lt: "nthreads t < maxsyscalls t" using False by simp
  from free_exists [OF ok lt] alloc_loop_finds [of 0 ?t lt] obtain j where
    j: "j < unat (maxsyscalls t)" "freeslots t ! j = 0" and
    loop: "alloc_loop lt 0 ?t = (?t\<lparr>freeslots := (freeslots t)[j := 1],
      slotlthreads := (slotlthreads t)[j := lt]\<rparr>, j)"
    by auto
  define t' where "t' = ?t\<lparr>freeslots := (freeslots t)[j := 1], slotlthreads := (slotlthreads t)[j := lt]\<rparr>"
  have jw: "unat (of_nat j :: u64) = j"
    by (rule unat_of_nat_small) (rule less_trans [OF j(1) unsigned_less])
  have run: "allocslot lt t = Inr (t', of_nat j)" using False loop by (simp add: allocslot_def t'_def)
  have len: "length (freeslots t) = unat (maxsyscalls t)" "length (slotlthreads t) = unat (maxsyscalls t)"
    using ok by (simp_all add: slots_ok_def)
  have tk: "taken t' = insert j (taken t)"
    using taken_update(1) [OF len(1) j(1), of 1] by (simp add: taken_def t'_def)
  have new: "j \<notin> taken t" using j by (simp add: taken_def)
  have "unat (1 + nthreads t) = Suc (unat (nthreads t))"
    by (rule unatSuc) (use lt in \<open>metis add.commute eq_neg_iff_add_eq_0 word_not_simps(3)\<close>)
  then have "slots_ok t'" using ok new by (simp add: slots_ok_def tk) (simp add: t'_def add.commute)
  moreover have "slottolthread r t' = (if r = of_nat j then Inr lt else slottolthread r t)" for r
    using j(1) jw len by (auto simp: slottolthread_def t'_def nth_list_update word_less_nat_alt)
  ultimately show ?thesis
    using j(1) jw new tk by (simp add: run word_less_nat_alt) (simp add: t'_def)
qed

lemma freeslot_result:
  assumes ok: "slots_ok t" and own: "unat s \<in> taken t"
  shows "\<exists>t'. freeslot s t = Inr t' \<and> slots_ok t' \<and> maxsyscalls t' = maxsyscalls t \<and>
    taken t' = taken t - {unat s} \<and>
    (\<forall>r. r \<noteq> s \<longrightarrow> slottolthread r t' = slottolthread r t)"
proof -
  have s: "s < maxsyscalls t" using own by (simp add: taken_def word_less_nat_alt)
  have "card (taken t) \<noteq> 0" using own by auto
  then have "nthreads t \<noteq> 0" using ok by (auto simp: slots_ok_def)
  then have "unat (nthreads t - 1) = card (taken t - {unat s})"
    using ok own by (simp add: unat_minus_one slots_ok_def)
  moreover define t' where "t' = t\<lparr>slotlthreads := (slotlthreads t)[unat s := 0],
    nthreads := nthreads t - 1, freeslots := (freeslots t)[unat s := 0]\<rparr>"
  moreover have run: "freeslot s t = Inr t'" using s by (auto simp: freeslot_def t'_def)
  moreover have "taken t' = taken t - {unat s}"
    using taken_update(2) [of t "unat s"] ok own by (simp add: taken_def t'_def slots_ok_def)
  moreover have "slottolthread r t' = slottolthread r t" if "r \<noteq> s" for r
    using that by (simp add: slottolthread_def t'_def) (metis nth_list_update_neq word_unat_eq_iff)
  ultimately show ?thesis using ok by (simp add: slots_ok_def)
qed

interpretation sl: region_alloc slots_ok taken
  "\<lambda>t lt. case allocslot lt t of Inl _ \<Rightarrow> Some (t, None) | Inr (t', s) \<Rightarrow> Some (t', Some s)"
  "\<lambda>t s. case freeslot s t of Inl _ \<Rightarrow> None | Inr t' \<Rightarrow> Some t'"
  "\<lambda>s. {unat s}" "\<lambda>_. True"
proof unfold_locales
  show "\<exists>t' r. (case allocslot lt t of Inl _ \<Rightarrow> Some (t, None) | Inr (t', s) \<Rightarrow> Some (t', Some s)) = Some (t', r) \<and>
      slots_ok t' \<and> (case r of None \<Rightarrow> taken t' = taken t
        | Some x \<Rightarrow> {unat x} \<inter> taken t = {} \<and> taken t' = taken t \<union> {unat x})"
    if "slots_ok t" for t lt
    using allocslot_result [OF that, of lt] that by (auto split: sum.splits)
  show "\<exists>t'. (case freeslot s t of Inl _ \<Rightarrow> None | Inr t' \<Rightarrow> Some t') = Some t' \<and> slots_ok t' \<and>
      taken t' \<subseteq> taken t \<and> taken t - {unat s} \<subseteq> taken t'"
    if "slots_ok t" "{unat s} \<subseteq> taken t" for t s
    using freeslot_result [OF that(1), of s] that(2) by auto
qed

section \<open>Properties\<close>

text \<open>
  In a well-formed table \<open>allocslot\<close> crashes exactly when every slot is taken. Otherwise it
  returns a slot that was free, marks that slot and no other, keeps the table well formed
  (the count \<open>nthreads\<close> included), and from then on \<open>slottolthread\<close> maps the slot to the new
  owner and every other slot to the owner it had.
\<close>

lemma allocslot_exact:
  assumes "slots_ok t"
  shows "(allocslot lt t = Inl Slot_crash \<longleftrightarrow> taken t = {..<unat (maxsyscalls t)}) \<and>
    (\<forall>t' s. allocslot lt t = Inr (t', s) \<longrightarrow> slots_ok t' \<and> s < maxsyscalls t \<and>
       unat s \<notin> taken t \<and> taken t' = insert (unat s) (taken t) \<and>
       (\<forall>r. slottolthread r t' = (if r = s then Inr lt else slottolthread r t)))"
proof -
  have sub: "taken t \<subseteq> {..<unat (maxsyscalls t)}" by (auto simp: taken_def)
  have "card (taken t) = unat (maxsyscalls t) \<longleftrightarrow> taken t = {..<unat (maxsyscalls t)}"
  proof
    show "taken t = {..<unat (maxsyscalls t)}" if "card (taken t) = unat (maxsyscalls t)"
      using card_subset_eq [OF _ sub] that by simp
  qed simp
  then show ?thesis using allocslot_result [OF assms, of lt] sub
    by (auto split: sum.splits simp: word_less_nat_alt)
qed

text \<open>
  C23. For any sequence of slot allocations and of releases of slots that are still held, starting
  from the initialised table, every release succeeds and the slots held at the end are pairwise
  different.
\<close>

theorem held_slots_distinct:
  "\<exists>t held. serve
      (\<lambda>t lt. case allocslot lt t of Inl _ \<Rightarrow> Some (t, None) | Inr (t', s) \<Rightarrow> Some (t', Some s))
      (\<lambda>t s. case freeslot s t of Inl _ \<Rightarrow> None | Inr t' \<Rightarrow> Some t')
      rs (hostsyscallclient_init n, []) = Some (t, held) \<and>
    slots_ok t \<and> distinct held \<and> unat ` set held \<subseteq> taken t"
proof -
  have "sl.holds (hostsyscallclient_init n) []"
    using slots_ok_init by (simp add: sl.holds_def apart_def)
  from sl.serve_holds [OF this, of rs] obtain t held where
    run: "serve (\<lambda>t lt. case allocslot lt t of Inl _ \<Rightarrow> Some (t, None) | Inr (t', s) \<Rightarrow> Some (t', Some s))
      (\<lambda>t s. case freeslot s t of Inl _ \<Rightarrow> None | Inr t' \<Rightarrow> Some t')
      rs (hostsyscallclient_init n, []) = Some (t, held)" and h: "sl.holds t held" by auto
  have "distinct held"
    using h by (auto simp: sl.holds_def apart_def distinct_conv_nth sorted_wrt_iff_nth_less)
      (metis linorder_neqE_nat)
  moreover have "unat ` set held \<subseteq> taken t" using h by (auto simp: sl.holds_def)
  ultimately show ?thesis using run h by (auto simp: sl.holds_def)
qed

end
