(* ===== verification/Codec.thy ===== *)
theory Codec
  imports Prelude
begin

text \<open>
  The contract of an encoder and its decoder: on the data it accepts, decoding undoes
  encoding. Clients may therefore compare, store and transmit encodings in place of the data.
\<close>

locale codec =
  fixes encode :: "'a \<Rightarrow> 'b option"
    and decode :: "'b \<Rightarrow> 'a option"
    and valid :: "'a \<Rightarrow> bool"
  assumes encodes: "valid x \<Longrightarrow> encode x \<noteq> None"
    and decode_encode: "valid x \<Longrightarrow> encode x = Some y \<Longrightarrow> decode y = Some x"
begin

lemma encode_inj:
  assumes "valid x" and "valid x'" and "encode x = encode x'"
  shows "x = x'"
proof -
  obtain y where y: "encode x = Some y" using encodes [OF assms(1)] by blast
  then have "encode x' = Some y" using assms(3) by simp
  with y have "Some x = Some x'"
    using decode_encode [OF assms(1) y] decode_encode [OF assms(2)] by simp
  then show ?thesis by simp
qed

text \<open>A sequence of records, each encoded by itself, comes back as it was.\<close>

theorem records_roundtrip:
  "list_all valid xs \<Longrightarrow> map (\<lambda>x. decode (the (encode x))) xs = map Some xs"
proof (induction xs)
  case (Cons x xs)
  then obtain y where "encode x = Some y" using encodes [of x] by auto
  then show ?case using Cons decode_encode [of x y] by simp
qed simp

end

end
