(* ===== verification/Sgxlkl_Util.thy ===== *)
theory Sgxlkl_Util
  imports Codec
begin

text \<open>
  The parsers of \<^verbatim>\<open>src/shared/sgxlkl_util.c\<close> that read sizes, flags and keys from the
  environment and the configuration. C strings are character lists without the NUL; the
  environment is an argument. The \<open>strtoul\<close> family of the C library is modelled as far as
  the file uses it (bases 10 and 16, 64 bit results).
\<close>

section \<open>The C library's number parser\<close>

definition isspace :: "char \<Rightarrow> bool" where
  "isspace c \<longleftrightarrow> c = CHR '' '' \<or> (9 \<le> (of_char c :: nat) \<and> (of_char c :: nat) \<le> 13)"

definition digit_of :: "char \<Rightarrow> nat option" where
  "digit_of c =
     (let n = (of_char c :: nat)
      in if 48 \<le> n \<and> n \<le> 57 then Some (n - 48)
         else if 65 \<le> n \<and> n \<le> 90 then Some (n - 55)
         else if 97 \<le> n \<and> n \<le> 122 then Some (n - 87)
         else None)"

definition is_digit :: "nat \<Rightarrow> char \<Rightarrow> bool" where
  "is_digit base c = (case digit_of c of None \<Rightarrow> False | Some d \<Rightarrow> d < base)"

fun scan_digits :: "nat \<Rightarrow> nat \<Rightarrow> string \<Rightarrow> nat \<times> string" where
  "scan_digits base acc [] = (acc, [])"
| "scan_digits base acc (c # s) =
     (if is_digit base c then scan_digits base (acc * base + the (digit_of c)) s else (acc, c # s))"

definition strip_sign :: "string \<Rightarrow> bool \<times> string" where
  "strip_sign s = (case s of c # t \<Rightarrow> if c = CHR ''-'' then (True, t) else if c = CHR ''+'' then (False, t) else (False, s)
     | [] \<Rightarrow> (False, s))"

definition strip_prefix :: "nat \<Rightarrow> string \<Rightarrow> string" where
  "strip_prefix base s =
     (case s of
        a # b # c # t \<Rightarrow> if base = 16 \<and> a = CHR ''0'' \<and> (b = CHR ''x'' \<or> b = CHR ''X'') \<and> is_digit 16 c
          then c # t else s
      | _ \<Rightarrow> s)"

text \<open>The value, what \<open>endptr\<close> points to, and whether \<open>errno\<close> becomes \<open>ERANGE\<close>.\<close>

definition strtoul :: "nat \<Rightarrow> string \<Rightarrow> u64 \<times> string \<times> bool" where
  "strtoul base str =
     (let (neg, s) = strip_sign (dropWhile isspace str);
          t = strip_prefix base s;
          (v, rest) = scan_digits base 0 t
      in if rest = t then (0, str, False)
         else if v \<ge> 2 ^ 64 then (- 1, rest, True)
         else (if neg then - of_nat v else of_nat v, rest, False))"

section \<open>Sizes and flags\<close>

definition size_multiplier :: "string \<Rightarrow> u64" where
  "size_multiplier endptr =
     (case endptr of
        [] \<Rightarrow> 1
      | c # _ \<Rightarrow> if c = CHR ''G'' \<or> c = CHR ''g'' then 1024 * 1024 * 1024
                 else if c = CHR ''M'' \<or> c = CHR ''m'' then 1024 * 1024
                 else if c = CHR ''K'' \<or> c = CHR ''k'' then 1024
                 else 1)"

definition size_str_to_uint64 :: "string \<Rightarrow> u64 \<Rightarrow> u64 \<Rightarrow> u64" where
  "size_str_to_uint64 str dflt mx =
     (case strtoul 10 str of (r0, endptr, erange) \<Rightarrow>
        let r = (if r0 = - 1 \<and> erange then dflt else r0);
            m = size_multiplier endptr
        in if r > (- 1) div m then mx
           else if r * m > mx then mx else r * m)"

definition getenv_uint64 :: "(string \<Rightarrow> string option) \<Rightarrow> string \<Rightarrow> u64 \<Rightarrow> u64 \<Rightarrow> u64" where
  "getenv_uint64 env var dflt mx =
     (case env var of None \<Rightarrow> dflt | Some val \<Rightarrow> size_str_to_uint64 val dflt mx)"

definition getenv_str :: "(string \<Rightarrow> string option) \<Rightarrow> string \<Rightarrow> string option \<Rightarrow> string option" where
  "getenv_str env var dflt = (case env var of Some val \<Rightarrow> Some val | None \<Rightarrow> dflt)"

definition getenv_bool :: "(string \<Rightarrow> string option) \<Rightarrow> string \<Rightarrow> bool \<Rightarrow> bool" where
  "getenv_bool env var dflt =
     (case env var of
        None \<Rightarrow> dflt
      | Some val \<Rightarrow> if dflt then take 1 val \<noteq> ''0'' else take 1 val = ''1'')"

partial_function (option) next_pow2_loop :: "u64 \<Rightarrow> u64 \<Rightarrow> u64 option" where
  "next_pow2_loop x n = (if n < x then next_pow2_loop x (push_bit 1 n) else Some n)"

definition next_pow2 :: "u64 \<Rightarrow> u64 option" where
  "next_pow2 x = next_pow2_loop x 1"

section \<open>Hexadecimal strings\<close>

datatype hex_error = Hex_ENOMEM | Hex_EINVAL

text \<open>\<open>strtoul\<close> on the buffer \<open>buf\<close>, which a NUL ends at the latest at its third byte: the
  byte and whether \<open>endp\<close> is \<open>&buf[2]\<close>.\<close>

definition hex_pair :: "char \<Rightarrow> char \<Rightarrow> u8 \<times> bool" where
  "hex_pair a b =
     (let s = takeWhile (\<lambda>c. c \<noteq> CHR 0x00) [a, b]
      in case strtoul 16 s of (v, rest, _) \<Rightarrow> (ucast v, length s - length rest = 2))"

fun hex_loop :: "string \<Rightarrow> hex_error + u8 list" where
  "hex_loop (a # b # hex) =
     (case hex_pair a b of
        (v, True) \<Rightarrow> (case hex_loop hex of Inl e \<Rightarrow> Inl e | Inr bs \<Rightarrow> Inr (v # bs))
      | (_, False) \<Rightarrow> Inl Hex_EINVAL)"
| "hex_loop _ = Inr []"

text \<open>The value is the bytes \<open>*result\<close> points to; their number is what the function returns.\<close>

definition hex_to_bytes :: "string \<Rightarrow> bool \<Rightarrow> hex_error + u8 list" where
  "hex_to_bytes hex malloc_ok =
     (if \<not> malloc_ok then Inl Hex_ENOMEM
      else if odd (length hex)
      then (case hex_pair (CHR 0x00) (hd hex) of
              (v, True) \<Rightarrow> hex_loop (tl hex)
            | (_, False) \<Rightarrow> Inl Hex_EINVAL)
      else hex_loop hex)"

section \<open>Reading decimal numbers\<close>

definition dec_char :: "nat \<Rightarrow> char" where
  "dec_char d = char_of (48 + d)"

fun decimal :: "nat \<Rightarrow> string" where
  "decimal n = (if n < 10 then [dec_char n] else decimal (n div 10) @ [dec_char (n mod 10)])"

declare decimal.simps [simp del]

lemma digit_of_dec_char: "d < 10 \<Longrightarrow> digit_of (dec_char d) = Some d"
  by (simp add: digit_of_def dec_char_def)

lemma dec_char_plain:
  assumes "d < 10"
  shows "\<not> isspace (dec_char d)" "dec_char d \<noteq> CHR ''-''" "dec_char d \<noteq> CHR ''+''"
proof -
  have n: "(of_char (dec_char d) :: nat) = 48 + d" using assms by (simp add: dec_char_def)
  then show "\<not> isspace (dec_char d)" by (auto simp: isspace_def)
  show "dec_char d \<noteq> CHR ''-''" "dec_char d \<noteq> CHR ''+''" using n by auto
qed

lemma scan_digits_decimal:
  assumes "s = [] \<or> \<not> is_digit 10 (hd s)"
  shows "scan_digits 10 acc (decimal n @ s) = (acc * 10 ^ length (decimal n) + n, s)"
proof -
  have tail: "scan_digits 10 a (dec_char d # s) = (a * 10 + d, s)" if "d < 10" for a d
    using that assms by (cases s) (simp_all add: is_digit_def digit_of_dec_char)
  have dig: "is_digit 10 (dec_char d)" if "d < 10" for d
    using that by (simp add: is_digit_def digit_of_dec_char)
  have app: "scan_digits 10 a (decimal m @ t) = scan_digits 10 (a * 10 ^ length (decimal m) + m) t" for a m t
  proof (induction m arbitrary: a t rule: decimal.induct)
    case (1 m)
    show ?case
    proof (cases "m < 10")
      case True
      then show ?thesis by (simp add: decimal.simps [of m] dig digit_of_dec_char)
    next
      case False
      have dec: "decimal m = decimal (m div 10) @ [dec_char (m mod 10)]"
        using False by (subst decimal.simps) simp
      have "a * 10 ^ length (decimal m) + m = (a * 10 ^ length (decimal (m div 10)) + m div 10) * 10 + m mod 10"
        unfolding dec by (simp add: algebra_simps)
      moreover have "scan_digits 10 a (decimal m @ t) =
          scan_digits 10 ((a * 10 ^ length (decimal (m div 10)) + m div 10) * 10 + m mod 10) t"
        unfolding dec using 1 [OF False] by (simp add: dig digit_of_dec_char)
      ultimately show ?thesis by (simp only:)
    qed
  qed
  show ?thesis unfolding app using assms by (cases s) simp_all
qed

lemma decimal_hd: "\<exists>d t. decimal n = dec_char d # t \<and> d < 10"
proof (induction n rule: decimal.induct)
  case (1 n)
  then show ?case by (cases "n < 10") (auto simp: decimal.simps [of n])
qed

lemma strtoul_decimal:
  assumes "n < 2 ^ 64" and "s = [] \<or> \<not> is_digit 10 (hd s)"
  shows "strtoul 10 (decimal n @ s) = (of_nat n, s, False)"
proof -
  obtain d t where d: "decimal n = dec_char d # t" "d < 10" using decimal_hd by blast
  have "dropWhile isspace (decimal n @ s) = decimal n @ s" using d dec_char_plain by simp
  moreover have "strip_sign (decimal n @ s) = (False, decimal n @ s)"
    using d dec_char_plain [OF d(2)] by (simp add: strip_sign_def)
  moreover have "strip_prefix 10 (decimal n @ s) = decimal n @ s"
    by (simp add: strip_prefix_def split: list.splits)
  moreover have "s \<noteq> decimal n @ s" using d by simp
  ultimately show ?thesis
    using assms scan_digits_decimal [OF assms(2), of 0 n] by (simp add: strtoul_def)
qed

lemma size_multiplier_bounds: "size_multiplier s \<noteq> 0"
  by (simp add: size_multiplier_def split: list.splits)

section \<open>Properties\<close>

text \<open>The number of bytes of a unit.\<close>

definition unit_bytes :: "string \<Rightarrow> nat" where
  "unit_bytes s =
     (if take 1 s \<in> {''K'', ''k''} then 2 ^ 10 else if take 1 s \<in> {''M'', ''m''} then 2 ^ 20
      else if take 1 s \<in> {''G'', ''g''} then 2 ^ 30 else 1)"

lemma size_multiplier_unit: "unat (size_multiplier s) = unit_bytes s"
  by (cases s) (auto simp: size_multiplier_def unit_bytes_def)

lemma size_str_decimal:
  assumes "n < 2 ^ 64" and "s = [] \<or> \<not> is_digit 10 (hd s)"
  shows "unat (size_str_to_uint64 (decimal n @ s) dflt mx) = min (n * unat (size_multiplier s)) (unat mx)"
proof -
  let ?m = "size_multiplier s"
  have m: "0 < unat ?m" using size_multiplier_bounds by (simp add: unat_gt_0)
  have run: "size_str_to_uint64 (decimal n @ s) dflt mx =
      (if of_nat n > (- 1) div ?m then mx else if of_nat n * ?m > mx then mx else of_nat n * ?m)"
    using strtoul_decimal [OF assms] by (simp add: size_str_to_uint64_def Let_def)
  have un: "unat (of_nat n :: u64) = n" using assms(1) by (simp add: unat_of_nat_small)
  have "unat (- 1 :: u64) = 2 ^ 64 - 1" by (simp add: unsigned_minus_1_eq_mask mask_eq_exp_minus_1)
  then have ov: "of_nat n > (- 1) div ?m \<longleftrightarrow> (2 ^ 64 - 1) div unat ?m < n"
    by (simp add: word_less_nat_alt unat_div un)
  show ?thesis
  proof (cases "(2 ^ 64 - 1) div unat ?m < n")
    case True
    then have "2 ^ 64 - 1 < n * unat ?m" using m by (simp add: div_less_iff_less_mult)
    moreover have "unat mx \<le> 2 ^ 64 - 1" using unsigned_less [of mx, where ?'a = nat] by simp
    ultimately show ?thesis unfolding run using True ov by simp
  next
    case False
    then have "n * unat ?m \<le> 2 ^ 64 - 1" using m by (simp add: div_less_iff_less_mult)
    then have "unat (of_nat n * ?m) = n * unat ?m"
      using un by (subst unat_word_ariths) simp
    then show ?thesis unfolding run using False ov by (simp add: word_less_nat_alt)
  qed
qed

text \<open>
  C18. A decimal number below \<open>2 ^ 64\<close> with an optional unit (K, M or G in either case, for \<open>2 ^ 10\<close>, \<open>2 ^ 20\<close> and
  \<open>2 ^ 30\<close> bytes) is read as the number of bytes it denotes, limited to the maximum; no product wraps around.
\<close>

theorem size_str_exact:
  assumes "n < 2 ^ 64" and "s = [] \<or> \<not> is_digit 10 (hd s)"
  shows "unat (size_str_to_uint64 (decimal n @ s) dflt mx) = min (n * unit_bytes s) (unat mx)"
  using size_str_decimal [OF assms] by (simp add: size_multiplier_unit)

theorem size_str_exact_witness: "unat (size_str_to_uint64 (decimal 3 @ ''G'') 7 (2 ^ 40)) = 3 * 2 ^ 30"
  using size_str_exact [of 3 "''G''" 7 "2 ^ 40"] by (simp add: is_digit_def digit_of_def unit_bytes_def)

lemma next_pow2_loop_pow:
  assumes "unat x \<le> 2 ^ 63" and "unat n = 2 ^ e" and "e \<le> 63" and "e = 0 \<or> 2 ^ (e - 1) < unat x"
  shows "\<exists>r k. next_pow2_loop x n = Some r \<and> unat r = 2 ^ k \<and> unat x \<le> 2 ^ k \<and> (k = 0 \<or> 2 ^ (k - 1) < unat x)"
  using assms(2-)
proof (induction "63 - e" arbitrary: e n)
  case 0
  then have "e = 63" by simp
  with 0 assms(1) have "\<not> n < x" by (simp add: word_less_nat_alt)
  then have "next_pow2_loop x n = Some n" by (subst next_pow2_loop.simps) simp
  then show ?case using 0 assms(1) \<open>e = 63\<close> by (metis (no_types))
next
  case (Suc d)
  show ?case
  proof (cases "n < x")
    case True
    have lt: "2 ^ e < unat x" using True Suc.prems(1) by (simp add: word_less_nat_alt)
    have e: "e < 63" using Suc.hyps(2) by simp
    then have "(2 :: nat) ^ Suc e \<le> 2 ^ 63" by (intro power_increasing) simp_all
    then have "unat (push_bit 1 n) = 2 ^ Suc e"
      using Suc.prems(1) by (simp add: push_bit_eq_mult unat_word_ariths)
    then have "\<exists>r k. next_pow2_loop x (push_bit 1 n) = Some r \<and> unat r = 2 ^ k \<and> unat x \<le> 2 ^ k \<and>
        (k = 0 \<or> 2 ^ (k - 1) < unat x)"
      using Suc.hyps(2) e lt by (intro Suc.hyps(1) [of "Suc e"]) simp_all
    then show ?thesis using True by (subst next_pow2_loop.simps) simp
  next
    case False
    then show ?thesis using Suc.prems by (subst next_pow2_loop.simps) (auto simp: word_less_nat_alt)
  qed
qed

lemma next_pow2_loop_diverges:
  assumes "2 ^ 63 < unat x" and "n = 0 \<or> (\<exists>e \<le> 63. unat n = 2 ^ e)"
  shows "next_pow2_loop x n = None"
proof (rule ccontr)
  assume "next_pow2_loop x n \<noteq> None"
  then obtain y where "next_pow2_loop x n = Some y" by blast
  then have "2 ^ 63 < unat x \<longrightarrow> n = 0 \<or> (\<exists>e \<le> 63. unat n = 2 ^ e) \<longrightarrow> False"
  proof (rule next_pow2_loop.raw_induct
      [where P = "\<lambda>x n y. 2 ^ 63 < unat x \<longrightarrow> n = 0 \<or> (\<exists>e \<le> 63. unat n = 2 ^ e) \<longrightarrow> False"
        and xa = "(x, n)", unfolded prod.case, rotated], goal_cases)
    case (1 f x n y)
    show ?case
    proof (intro impI)
      assume x: "2 ^ 63 < unat x" and n: "n = 0 \<or> (\<exists>e \<le> 63. unat n = 2 ^ e)"
      have "(2 :: nat) ^ e \<le> 2 ^ 63" if "e \<le> 63" for e using that by (intro power_increasing) simp_all
      then have "unat n \<le> 2 ^ 63" using n by (metis le0 unsigned_0)
      then have lt: "n < x" using x by (simp add: word_less_nat_alt)
      have "push_bit 1 n = 0 \<or> (\<exists>e \<le> 63. unat (push_bit 1 n) = 2 ^ e)"
      proof (cases "n = 0 \<or> unat n = 2 ^ 63")
        case True
        then show ?thesis by (auto simp: push_bit_eq_mult word_unat_eq_iff unat_word_ariths)
      next
        case False
        then obtain e where e: "e < 63" "unat n = 2 ^ e" using n by (metis le_neq_implies_less)
        then have "(2 :: nat) ^ Suc e \<le> 2 ^ 63" by (intro power_increasing) simp_all
        then have "unat (push_bit 1 n) = 2 ^ Suc e" using e by (simp add: push_bit_eq_mult unat_word_ariths)
        then show ?thesis using e(1) by (metis Suc_leI)
      qed
      with 1 lt x show False by auto
    qed
  qed
  then show False using assms by simp
qed

text \<open>
  C19. \<open>next_pow2\<close> returns exactly when its argument is at most \<open>2 ^ 63\<close>, and then the least power
  of two that is not smaller; for larger arguments the shifted value becomes 0 and the loop
  never ends.
\<close>

theorem next_pow2_least:
  "(unat x \<le> 2 ^ 63 \<longrightarrow> (\<exists>r k. next_pow2 x = Some r \<and> unat r = 2 ^ k \<and> unat x \<le> 2 ^ k \<and>
      (\<forall>j. unat x \<le> 2 ^ j \<longrightarrow> k \<le> j))) \<and>
   (2 ^ 63 < unat x \<longrightarrow> next_pow2 x = None)"
proof (intro conjI impI)
  assume x: "unat x \<le> 2 ^ 63"
  from next_pow2_loop_pow [OF x, of 1 0] obtain r k where
    r: "next_pow2_loop x 1 = Some r" "unat r = 2 ^ k" "unat x \<le> 2 ^ k" "k = 0 \<or> 2 ^ (k - 1) < unat x" by auto
  have "k \<le> j" if "unat x \<le> 2 ^ j" for j
  proof (rule ccontr)
    assume "\<not> k \<le> j"
    then have "k \<noteq> 0" "(2 :: nat) ^ j \<le> 2 ^ (k - 1)" by (simp, intro power_increasing) simp_all
    with that r(4) show False by linarith
  qed
  with r show "\<exists>r k. next_pow2 x = Some r \<and> unat r = 2 ^ k \<and> unat x \<le> 2 ^ k \<and> (\<forall>j. unat x \<le> 2 ^ j \<longrightarrow> k \<le> j)"
    by (auto simp: next_pow2_def)
next
  assume "2 ^ 63 < unat x"
  then show "next_pow2 x = None"
    unfolding next_pow2_def by (rule next_pow2_loop_diverges) (auto intro: exI [of _ 0])
qed

theorem next_pow2_least_witness: "\<exists>r k. next_pow2 5 = Some r \<and> unat r = 2 ^ k \<and> 5 \<le> (2 :: nat) ^ k"
  using next_pow2_least [of 5] by auto

section \<open>Hexadecimal keys\<close>

definition hex_char :: "nat \<Rightarrow> char" where
  "hex_char d = (if d < 10 then char_of (48 + d) else char_of (87 + d))"

definition hex_string :: "u8 list \<Rightarrow> string" where
  "hex_string bs = concat (map (\<lambda>b. [hex_char (unat b div 16), hex_char (unat b mod 16)]) bs)"

lemma hex_char_code:
  "d < 16 \<Longrightarrow> (of_char (hex_char d) :: nat) = (if d < 10 then 48 + d else 87 + d)"
  by (simp add: hex_char_def)

lemma hex_char_digit:
  assumes "d < 16"
  shows "digit_of (hex_char d) = Some d" "is_digit 16 (hex_char d)"
  using assms by (auto simp: is_digit_def digit_of_def hex_char_code Let_def)

lemma hex_char_plain:
  assumes "d < 16"
  shows "\<not> isspace (hex_char d)" "hex_char d \<noteq> CHR ''-''" "hex_char d \<noteq> CHR ''+''" "hex_char d \<noteq> CHR 0x00"
proof -
  note c = hex_char_code [OF assms]
  show "\<not> isspace (hex_char d)" using c assms by (auto simp: isspace_def split: if_splits)
  show "hex_char d \<noteq> CHR ''-''" "hex_char d \<noteq> CHR ''+''" "hex_char d \<noteq> CHR 0x00"
    using c by (auto split: if_splits)
qed

lemma hex_pair_byte: "hex_pair (hex_char (unat b div 16)) (hex_char (unat b mod 16)) = (b, True)"
proof -
  let ?h = "unat b div 16" and ?l = "unat b mod 16"
  have "unat b < 256" using unsigned_less [of b, where ?'a = nat] by simp
  then have h: "?h < 16" and l: "?l < 16" by auto
  have v: "unat b = ?h * 16 + ?l" by simp
  have "strtoul 16 [hex_char ?h, hex_char ?l] = (of_nat (unat b), [], False)"
    using hex_char_plain [OF h] hex_char_plain [OF l] hex_char_digit [OF h] hex_char_digit [OF l] \<open>unat b < 256\<close>
    by (simp add: strtoul_def strip_sign_def strip_prefix_def v [symmetric])
  moreover have "(ucast (of_nat (unat b) :: u64) :: u8) = b"
    by (rule bit_word_eqI) (auto simp: bit_unsigned_iff dest: bit_imp_le_length)
  ultimately show ?thesis
    using hex_char_plain(4) [OF h] hex_char_plain(4) [OF l] by (simp add: hex_pair_def)
qed

lemma hex_loop_string: "hex_loop (hex_string bs) = Inr bs"
  by (induction bs) (simp_all add: hex_string_def hex_pair_byte)

text \<open>The bytes of a text of two hexadecimal digits each, in either case; no other text is well formed.\<close>

definition hex_digit :: "char \<Rightarrow> nat option" where
  "hex_digit c =
     (if c \<in> set ''0123456789'' then Some (of_char c - 48)
      else if c \<in> set ''abcdef'' then Some (of_char c - 87)
      else if c \<in> set ''ABCDEF'' then Some (of_char c - 55)
      else None)"

fun hex_bytes :: "string \<Rightarrow> u8 list option" where
  "hex_bytes [] = Some []"
| "hex_bytes [c] = None"
| "hex_bytes (a # b # s) =
     (case (hex_digit a, hex_digit b, hex_bytes s) of
        (Some h, Some l, Some bs) \<Rightarrow> Some (of_nat (16 * h + l) # bs)
      | _ \<Rightarrow> None)"

lemma hex_digit_plain:
  assumes "hex_digit c = Some d"
  shows "d < 16 \<and> digit_of c = Some d \<and> is_digit 16 c \<and> \<not> isspace c \<and> c \<noteq> CHR ''-'' \<and> c \<noteq> CHR ''+'' \<and> c \<noteq> CHR 0x00"
proof -
  have "c \<in> set ''0123456789abcdefABCDEF''" using assms by (auto simp: hex_digit_def split: if_splits)
  moreover have "\<forall>c \<in> set ''0123456789abcdefABCDEF''. the (hex_digit c) < 16 \<and> digit_of c = hex_digit c \<and> is_digit 16 c \<and> \<not> isspace c \<and>
      c \<noteq> CHR ''-'' \<and> c \<noteq> CHR ''+'' \<and> c \<noteq> CHR 0x00"
    by (simp add: hex_digit_def is_digit_def digit_of_def isspace_def)
  ultimately show ?thesis using assms by (metis option.sel)
qed

lemma hex_pair_digits:
  assumes "hex_digit a = Some h" and "hex_digit b = Some l"
  shows "hex_pair a b = (of_nat (16 * h + l), True)"
proof -
  note p = hex_digit_plain [OF assms(1)] hex_digit_plain [OF assms(2)]
  have "strtoul 16 [a, b] = (of_nat (16 * h + l), [], False)"
    using p by (simp add: strtoul_def strip_sign_def strip_prefix_def mult.commute)
  moreover have "(ucast (of_nat n :: u64) :: u8) = of_nat n" for n
    by (rule bit_word_eqI) (auto simp: bit_simps dest: bit_imp_le_length)
  ultimately show ?thesis using p by (simp add: hex_pair_def del: of_nat_add of_nat_mult)
qed

lemma hex_to_bytes_text: "hex_bytes s = Some bs \<Longrightarrow> hex_to_bytes s True = Inr bs"
proof -
  assume "hex_bytes s = Some bs"
  then have "hex_loop s = Inr bs \<and> even (length s)"
    by (induction s arbitrary: bs rule: hex_bytes.induct) (auto simp: hex_pair_digits split: option.splits)
  then show ?thesis by (simp add: hex_to_bytes_def)
qed

interpretation hex: codec "\<lambda>bs. Some (hex_string bs)"
  "\<lambda>s. case hex_to_bytes s True of Inl _ \<Rightarrow> None | Inr bs \<Rightarrow> Some bs" "\<lambda>_. True"
proof unfold_locales
  fix bs y assume "Some (hex_string bs) = Some y"
  moreover have "even (length (hex_string bs))" by (induction bs) (simp_all add: hex_string_def)
  ultimately show "(case hex_to_bytes y True of Inl _ \<Rightarrow> None | Inr bs \<Rightarrow> Some bs) = Some bs"
    by (auto simp: hex_to_bytes_def hex_loop_string)
qed simp

text \<open>
  \<open>hex_to_bytes\<close> reads back the bytes of every hexadecimal string with two digits per byte,
  and refuses every string of odd length, although it has code for one.
\<close>

lemma hex_to_bytes_exact:
  "(case hex_to_bytes (hex_string bs) True of Inl _ \<Rightarrow> None | Inr r \<Rightarrow> Some r) = Some bs \<and>
   (odd (length hex) \<longrightarrow> hex_to_bytes hex True = Inl Hex_EINVAL)"
proof
  show "(case hex_to_bytes (hex_string bs) True of Inl _ \<Rightarrow> None | Inr r \<Rightarrow> Some r) = Some bs"
    by (rule hex.decode_encode) simp_all
  have "snd (hex_pair (CHR 0x00) c) = False" for c
    by (simp add: hex_pair_def strtoul_def strip_sign_def strip_prefix_def)
  then show "odd (length hex) \<longrightarrow> hex_to_bytes hex True = Inl Hex_EINVAL"
    by (auto simp: hex_to_bytes_def split: prod.splits bool.splits) (metis snd_conv)+
qed

end
