(* ===== verification/Hostcall_Protocol.thy ===== *)
theory Hostcall_Protocol
  imports Mpmc_Queue Hostcall_Slots Sgxlkl_Util "HOL-Library.Multiset" "HOL-Library.Monad_Syntax"
begin

text \<open>
  How a system call leaves the enclave and its result comes back. A thread fills its slot and
  calls \<open>threadswitch\<close> (\<^verbatim>\<open>src/host/sgx_hostcall_interface.c\<close>); the slot number travels through
  the system call queue to a host thread (\<open>host_syscall_thread\<close> in \<^verbatim>\<open>src/main/sgxlkl_run.c\<close>),
  which performs the call and either pushes the number to the return queue, from which a
  scheduler resumes the thread (\<open>lthread_run\<close> in \<^verbatim>\<open>src/sched/lthread.c\<close>), or, for a caller that
  may not be suspended, sets the status the caller spins on. The steps of enclave and host
  threads interleave freely. An operation on a queue is one step: that the concurrent queue
  behaves like that is the subject of the theory \<open>Mpmc_Concurrent\<close>.
\<close>

section \<open>Slots and queues\<close>

text \<open>The request number and the result share a word: a union in the code.\<close>

record syscall_t =
  arg1 :: u64
  arg2 :: u64
  arg3 :: u64
  arg4 :: u64
  arg5 :: u64
  arg6 :: u64
  syscallno :: u64
  status :: u64

abbreviation ret_val :: "syscall_t \<Rightarrow> u64" where
  "ret_val sc \<equiv> syscallno sc"

definition zero_call :: syscall_t where
  "zero_call = \<lparr>arg1 = 0, arg2 = 0, arg3 = 0, arg4 = 0, arg5 = 0, arg6 = 0, syscallno = 0, status = 0\<rparr>"

text \<open>
  \<open>register_queues\<close> sizes the queues and allocates the slots; \<open>None\<close> when \<open>sgxlkl_fail\<close>, a crash or a
  failed assertion ends the process, or the loop of \<open>next_pow2\<close> does not end. Which of the allocations succeed is an argument. The
  test after the second mapping looks at the first one again, so that the code goes on when the memory for the calls could not be mapped; it
  crashes in \<open>newmpmcq\<close>, which writes to that memory. Fresh mappings
  and \<open>calloc\<close> give zeroed memory.
\<close>

record allocs =
  rq_mapped :: bool
  sq_mapped :: bool
  page_allocated :: bool
  structs_allocated :: bool

definition register_queues :: "u64 \<Rightarrow> allocs \<Rightarrow> (mpmcq \<times> mpmcq \<times> syscall_t list) option" where
  "register_queues n al =
     (case next_pow2 (n * 16) of
        None \<Rightarrow> None
      | Some sqs \<Rightarrow>
        let cells = replicate (unat (sqs div 16)) \<lparr>seq = 0, data = 0\<rparr>;
            rq = (if rq_mapped al then Some cells else None);
            sq = (if sq_mapped al then Some cells else None)
        in if rq = None then None
           else if rq = None then None
           else if \<not> page_allocated al then None
           else if \<not> structs_allocated al then None
           else do {
             syscallq \<leftarrow> sq \<bind> newmpmcq sqs;
             returnq \<leftarrow> rq \<bind> newmpmcq sqs;
             Some (syscallq, returnq, replicate (unat n) zero_call)
           })"

definition all_allocated :: allocs where
  "all_allocated = \<lparr>rq_mapped = True, sq_mapped = True, page_allocated = True, structs_allocated = True\<rparr>"

section \<open>The system\<close>

text \<open>
  The state of the owner of a slot: running, suspended with the callback \<open>submitsc\<close> still to run,
  suspended, about to submit or spinning on the status, back with the result that it read, or
  resumed although it was not suspended. The request is the one it wrote to the slot.
\<close>

datatype caller =
    Running
  | Yielding syscall_t
  | Suspended syscall_t
  | Submitting syscall_t
  | Spinning syscall_t
  | Returned syscall_t u64
  | Broken

text \<open>Where a host thread is: waiting for a slot, before and after \<open>handle_syscall\<close>, pushing.\<close>

datatype host_pc = H_idle | H_serve u64 | H_check u64 | H_push u64

record hc_sys =
  hc_S :: "syscall_t list"
  hc_syscallq :: mpmcq
  hc_returnq :: mpmcq
  hc_call :: "nat \<Rightarrow> caller"
  hc_host :: "nat \<Rightarrow> host_pc"

definition hc_init :: "mpmcq \<times> mpmcq \<times> syscall_t list \<Rightarrow> hc_sys" where
  "hc_init = (\<lambda>(sq, rq, S). \<lparr>hc_S = S, hc_syscallq = sq, hc_returnq = rq,
                 hc_call = (\<lambda>_. Running), hc_host = (\<lambda>_. H_idle)\<rparr>)"

text \<open>
  The caller writes its request to the slot, which leaves the status alone, and enters
  \<open>threadswitch\<close>: with \<open>sync\<close> (\<open>always_sync\<close>, a scheduler's slot or a pinned thread) it sets the
  status and submits the slot itself, otherwise it yields.
\<close>

definition post_call :: "bool \<Rightarrow> nat \<Rightarrow> syscall_t \<Rightarrow> hc_sys \<Rightarrow> hc_sys" where
  "post_call sync i req s =
     (let sc = req\<lparr>status := (if sync then 1 else status (hc_S s ! i))\<rparr>
      in s\<lparr>hc_S := (hc_S s)[i := sc],
           hc_call := (hc_call s)(i := if sync then Submitting sc else Yielding sc)\<rparr>)"

text \<open>\<open>submitsc\<close>: one iteration of its loop; a refused slot is tried again.\<close>

definition submitsc :: "nat \<Rightarrow> caller \<Rightarrow> hc_sys \<Rightarrow> hc_sys option" where
  "submitsc i next_pc s =
     (case mpmc_enqueue (hc_syscallq s) (of_nat i) of
        None \<Rightarrow> None
      | Some (q, ok) \<Rightarrow>
          Some (if ok then s\<lparr>hc_syscallq := q, hc_call := (hc_call s)(i := next_pc)\<rparr> else s))"

definition host_take :: "nat \<Rightarrow> hc_sys \<Rightarrow> hc_sys option" where
  "host_take h s =
     (case mpmc_dequeue (hc_syscallq s) of
        None \<Rightarrow> None
      | Some (q, None) \<Rightarrow> Some s
      | Some (q, Some x) \<Rightarrow> Some (s\<lparr>hc_syscallq := q, hc_host := (hc_host s)(h := H_serve x)\<rparr>))"

text \<open>\<open>handle_syscall\<close> stores the result \<open>r\<close> of the call over the request number.\<close>

definition handle_syscall :: "nat \<Rightarrow> u64 \<Rightarrow> u64 \<Rightarrow> hc_sys \<Rightarrow> hc_sys" where
  "handle_syscall h x r s =
     s\<lparr>hc_S := (hc_S s)[unat x := (hc_S s ! unat x)\<lparr>syscallno := r\<rparr>],
       hc_host := (hc_host s)(h := H_check x)\<rparr>"

definition host_check :: "nat \<Rightarrow> u64 \<Rightarrow> hc_sys \<Rightarrow> hc_sys" where
  "host_check h x s =
     (if status (hc_S s ! unat x) = 1
      then s\<lparr>hc_S := (hc_S s)[unat x := (hc_S s ! unat x)\<lparr>status := 2\<rparr>],
             hc_host := (hc_host s)(h := H_idle)\<rparr>
      else s\<lparr>hc_host := (hc_host s)(h := H_push x)\<rparr>)"

definition host_push :: "nat \<Rightarrow> u64 \<Rightarrow> hc_sys \<Rightarrow> hc_sys option" where
  "host_push h x s =
     (case mpmc_enqueue (hc_returnq s) x of
        None \<Rightarrow> None
      | Some (q, ok) \<Rightarrow>
          Some (if ok then s\<lparr>hc_returnq := q, hc_host := (hc_host s)(h := H_idle)\<rparr> else s))"

text \<open>
  A scheduler takes a slot from the return queue and switches to its owner, which continues
  after \<open>threadswitch\<close> and reads the result.
\<close>

definition sched_resume :: "hc_sys \<Rightarrow> hc_sys option" where
  "sched_resume s =
     (case mpmc_dequeue (hc_returnq s) of
        None \<Rightarrow> None
      | Some (q, None) \<Rightarrow> Some s
      | Some (q, Some x) \<Rightarrow>
          Some (s\<lparr>hc_returnq := q, hc_call := (hc_call s)(unat x :=
                   (case hc_call s (unat x) of
                      Suspended req \<Rightarrow> Returned req (ret_val (hc_S s ! unat x))
                    | _ \<Rightarrow> Broken))\<rparr>))"

definition spin_check :: "nat \<Rightarrow> syscall_t \<Rightarrow> hc_sys \<Rightarrow> hc_sys" where
  "spin_check i req s =
     (if status (hc_S s ! i) = 2
      then s\<lparr>hc_call := (hc_call s)(i := Returned req (ret_val (hc_S s ! i)))\<rparr> else s)"

text \<open>After reading the result every system call sets the status to 0 and returns.\<close>

definition finish_call :: "nat \<Rightarrow> hc_sys \<Rightarrow> hc_sys" where
  "finish_call i s = s\<lparr>hc_S := (hc_S s)[i := (hc_S s ! i)\<lparr>status := 0\<rparr>],
                       hc_call := (hc_call s)(i := Running)\<rparr>"

text \<open>
  The steps that serve calls, and all steps: \<open>n\<close> slots, \<open>nh\<close> host threads; \<open>sync i\<close> says which
  branch of \<open>threadswitch\<close> the owner of slot \<open>i\<close> takes, \<open>kern req r\<close> that the host kernel may
  answer the request \<open>req\<close> with \<open>r\<close>.
\<close>

inductive serve_step :: "nat \<Rightarrow> nat \<Rightarrow> (syscall_t \<Rightarrow> u64 \<Rightarrow> bool) \<Rightarrow> hc_sys \<Rightarrow> hc_sys \<Rightarrow> bool"
  for n nh kern where
  submit_yield: "i < n \<Longrightarrow> hc_call s i = Yielding req \<Longrightarrow> submitsc i (Suspended req) s = Some s' \<Longrightarrow>
    serve_step n nh kern s s'"
| submit_sync: "i < n \<Longrightarrow> hc_call s i = Submitting req \<Longrightarrow> submitsc i (Spinning req) s = Some s' \<Longrightarrow>
    serve_step n nh kern s s'"
| take: "h < nh \<Longrightarrow> hc_host s h = H_idle \<Longrightarrow> host_take h s = Some s' \<Longrightarrow> serve_step n nh kern s s'"
| handle: "h < nh \<Longrightarrow> hc_host s h = H_serve x \<Longrightarrow> kern (hc_S s ! unat x) r \<Longrightarrow>
    serve_step n nh kern s (handle_syscall h x r s)"
| check: "h < nh \<Longrightarrow> hc_host s h = H_check x \<Longrightarrow> serve_step n nh kern s (host_check h x s)"
| push: "h < nh \<Longrightarrow> hc_host s h = H_push x \<Longrightarrow> host_push h x s = Some s' \<Longrightarrow> serve_step n nh kern s s'"
| resume: "sched_resume s = Some s' \<Longrightarrow> serve_step n nh kern s s'"
| spin: "i < n \<Longrightarrow> hc_call s i = Spinning req \<Longrightarrow> serve_step n nh kern s (spin_check i req s)"
| finish: "i < n \<Longrightarrow> hc_call s i = Returned req r \<Longrightarrow> serve_step n nh kern s (finish_call i s)"

inductive hc_step :: "nat \<Rightarrow> nat \<Rightarrow> (nat \<Rightarrow> bool) \<Rightarrow> (syscall_t \<Rightarrow> u64 \<Rightarrow> bool) \<Rightarrow> hc_sys \<Rightarrow> hc_sys \<Rightarrow> bool"
  for n nh sync kern where
  post: "i < n \<Longrightarrow> hc_call s i = Running \<Longrightarrow> hc_step n nh sync kern s (post_call (sync i) i req s)"
| serve: "serve_step n nh kern s s' \<Longrightarrow> hc_step n nh sync kern s s'"

section \<open>Invariant\<close>

text \<open>
  Every slot number that is in a queue or in the hands of a host thread has a stage: the request
  is still in the slot, the result is in the slot, or the result is in the slot and the owner
  waits for the return queue. \<open>places\<close> is the multiset of the numbers with their stages.
\<close>

datatype stage = Fresh | Served | Back

definition good :: "(syscall_t \<Rightarrow> u64 \<Rightarrow> bool) \<Rightarrow> stage \<Rightarrow> caller \<times> syscall_t \<Rightarrow> bool" where
  "good kern k = (\<lambda>(c, sc). \<exists>req.
     (c = Suspended req \<and> status sc = 0 \<or> k \<noteq> Back \<and> c = Spinning req \<and> status sc = 1) \<and>
     (if k = Fresh then sc = req else kern req (ret_val sc)))"

fun slot_good :: "(syscall_t \<Rightarrow> u64 \<Rightarrow> bool) \<Rightarrow> bool \<Rightarrow> caller \<times> syscall_t \<Rightarrow> bool" where
  "slot_good kern b (Running, sc) \<longleftrightarrow> \<not> b \<and> status sc = 0"
| "slot_good kern b (Yielding req, sc) \<longleftrightarrow> \<not> b \<and> sc = req \<and> status sc = 0"
| "slot_good kern b (Suspended req, sc) \<longleftrightarrow> b"
| "slot_good kern b (Submitting req, sc) \<longleftrightarrow> \<not> b \<and> sc = req \<and> status sc = 1"
| "slot_good kern b (Spinning req, sc) \<longleftrightarrow> b \<or> status sc = 2 \<and> kern req (ret_val sc)"
| "slot_good kern b (Returned req r, sc) \<longleftrightarrow> \<not> b \<and> kern req r"
| "slot_good kern b (Broken, sc) \<longleftrightarrow> False"

fun hplace :: "host_pc \<Rightarrow> (stage \<times> u64) multiset" where
  "hplace H_idle = {#}"
| "hplace (H_serve x) = {#(Fresh, x)#}"
| "hplace (H_check x) = {#(Served, x)#}"
| "hplace (H_push x) = {#(Back, x)#}"

definition places :: "nat \<Rightarrow> hc_sys \<Rightarrow> (stage \<times> u64) multiset" where
  "places nh s = image_mset (Pair Fresh) (mset (mq_list (hc_syscallq s))) +
     (\<Sum>h<nh. hplace (hc_host s h)) + image_mset (Pair Back) (mset (mq_list (hc_returnq s)))"

definition slot_view :: "hc_sys \<Rightarrow> u64 \<Rightarrow> caller \<times> syscall_t" where
  "slot_view s x = (hc_call s (unat x), hc_S s ! unat x)"

definition core :: "nat \<Rightarrow> (syscall_t \<Rightarrow> u64 \<Rightarrow> bool) \<Rightarrow> (stage \<times> u64) multiset \<Rightarrow>
    (u64 \<Rightarrow> caller \<times> syscall_t) \<Rightarrow> bool" where
  "core n kern T f \<longleftrightarrow> (\<forall>k x. (k, x) \<in># T \<longrightarrow> good kern k (f x) \<and> unat x < n) \<and>
     (\<forall>x. count (image_mset snd T) x \<le> 1) \<and>
     (\<forall>x. unat x < n \<longrightarrow> slot_good kern (x \<in># image_mset snd T) (f x))"

definition hc_inv :: "nat \<Rightarrow> nat \<Rightarrow> (syscall_t \<Rightarrow> u64 \<Rightarrow> bool) \<Rightarrow> hc_sys \<Rightarrow> bool" where
  "hc_inv n nh kern s \<longleftrightarrow> mq_inv (hc_syscallq s) \<and> mq_inv (hc_returnq s) \<and>
     n \<le> mq_cap (hc_syscallq s) \<and> n \<le> mq_cap (hc_returnq s) \<and> length (hc_S s) = n \<and> n < 2 ^ 64 \<and>
     core n kern (places nh s) (slot_view s)"

lemma mem_snd: "(k, x) \<in># T \<Longrightarrow> x \<in># image_mset snd T"
  by force

lemma core_good: "core n kern T f \<Longrightarrow> (k, x) \<in># T \<Longrightarrow> good kern k (f x) \<and> unat x < n"
  by (auto simp: core_def)

lemma core_slot: "core n kern T f \<Longrightarrow> unat x < n \<Longrightarrow> slot_good kern (x \<in># image_mset snd T) (f x)"
  by (auto simp: core_def)

lemma core_count: "core n kern T f \<Longrightarrow> count (image_mset snd T) x \<le> 1"
  unfolding core_def by blast

lemma core_unique:
  assumes "core n kern (add_mset (k, x) T) f"
  shows "x \<notin># image_mset snd T"
proof
  assume "x \<in># image_mset snd T"
  then have "1 \<le> count (image_mset snd T) x" by (simp add: count_greater_eq_one_iff)
  then have "2 \<le> count (image_mset snd (add_mset (k, x) T)) x" by simp
  moreover have "count (image_mset snd (add_mset (k, x) T)) x \<le> 1" by (rule core_count [OF assms])
  ultimately show False by linarith
qed

text \<open>The three ways a step acts on one slot: its number moves, appears or disappears.\<close>

lemma core_move:
  assumes c: "core n kern (add_mset (k, x) T) f" and other: "\<And>y. y \<noteq> x \<Longrightarrow> f' y = f y"
    and new: "good kern k' (f' x)" and slot: "slot_good kern True (f' x)"
  shows "core n kern (add_mset (k', x) T) f'"
proof -
  have un: "x \<notin># image_mset snd T" by (rule core_unique [OF c])
  have "good kern j (f' y) \<and> unat y < n" if "(j, y) \<in># T" for j y
  proof -
    from un mem_snd [OF that] have "y \<noteq> x" by blast
    with c that other show ?thesis by (simp add: core_def)
  qed
  moreover have "slot_good kern (y \<in># image_mset snd (add_mset (k', x) T)) (f' y)" if "unat y < n" for y
    using core_slot [OF c that] other [of y] slot by (cases "y = x") auto
  ultimately show ?thesis using c new by (auto simp: core_def)
qed

lemma core_add:
  assumes c: "core n kern T f" and other: "\<And>y. y \<noteq> x \<Longrightarrow> f' y = f y" and x: "unat x < n"
    and out: "x \<notin># image_mset snd T" and new: "good kern k (f' x)" and slot: "slot_good kern True (f' x)"
  shows "core n kern (add_mset (k, x) T) f'"
proof -
  have "good kern j (f' y) \<and> unat y < n" if "(j, y) \<in># T" for j y
  proof -
    from out mem_snd [OF that] have "y \<noteq> x" by blast
    with c that other show ?thesis by (simp add: core_def)
  qed
  moreover have "slot_good kern (y \<in># image_mset snd (add_mset (k, x) T)) (f' y)" if "unat y < n" for y
    using core_slot [OF c that] other [of y] slot by (cases "y = x") auto
  moreover have "count (image_mset snd T) x = 0" using out by (simp add: count_eq_zero_iff)
  ultimately show ?thesis using c new x by (auto simp: core_def)
qed

lemma core_remove:
  assumes c: "core n kern (add_mset (k, x) T) f" and other: "\<And>y. y \<noteq> x \<Longrightarrow> f' y = f y"
    and slot: "slot_good kern False (f' x)"
  shows "core n kern T f'"
proof -
  have un: "x \<notin># image_mset snd T" by (rule core_unique [OF c])
  have "good kern j (f' y) \<and> unat y < n" if "(j, y) \<in># T" for j y
  proof -
    from un mem_snd [OF that] have "y \<noteq> x" by blast
    with c that other show ?thesis by (simp add: core_def)
  qed
  moreover have "slot_good kern (y \<in># image_mset snd T) (f' y)" if "unat y < n" for y
    using core_slot [OF c that] other [of y] slot un by (cases "y = x") auto
  moreover have "count (image_mset snd T) y \<le> 1" for y
  proof -
    have "count (image_mset snd T) y \<le> count (image_mset snd (add_mset (k, x) T)) y" by simp
    also have "\<dots> \<le> 1" by (rule core_count [OF c])
    finally show ?thesis .
  qed
  ultimately show ?thesis by (auto simp: core_def)
qed

lemma core_local:
  assumes c: "core n kern T f" and other: "\<And>y. y \<noteq> x \<Longrightarrow> f' y = f y"
    and out: "x \<notin># image_mset snd T" and slot: "slot_good kern False (f' x)"
  shows "core n kern T f'"
proof -
  have "good kern j (f' y) \<and> unat y < n" if "(j, y) \<in># T" for j y
  proof -
    from out mem_snd [OF that] have "y \<noteq> x" by blast
    with c that other show ?thesis by (simp add: core_def)
  qed
  moreover have "slot_good kern (y \<in># image_mset snd T) (f' y)" if "unat y < n" for y
    using core_slot [OF c that] other [of y] slot out by (cases "y = x") auto
  ultimately show ?thesis using c by (auto simp: core_def)
qed

lemma core_card:
  assumes "core n kern T f"
  shows "size T = card (unat ` set_mset (image_mset snd T))"
    and "unat ` set_mset (image_mset snd T) \<subseteq> {..<n}"
proof -
  let ?M = "image_mset snd T"
  have "count ?M x = (if x \<in># ?M then 1 else 0)" for x
    using core_count [OF assms, of x] count_greater_eq_one_iff [of ?M x] count_eq_zero_iff [of ?M x]
    by (metis le_antisym)
  then have "?M = mset_set (set_mset ?M)" by (intro multiset_eqI) simp
  then have "size ?M = card (set_mset ?M)" by (metis size_mset_set)
  moreover have "inj_on unat (set_mset ?M)" by (meson inj_onI word_unat_eq_iff)
  ultimately show "size T = card (unat ` set_mset ?M)" by (simp add: card_image)
  show "unat ` set_mset ?M \<subseteq> {..<n}" using assms by (auto simp: core_def)
qed

lemma core_size: "core n kern T f \<Longrightarrow> size T \<le> n"
  using core_card [of n kern T f] card_mono [of "{..<n}"] by fastforce

lemma core_size_out:
  assumes c: "core n kern T f" and x: "unat x < n" "x \<notin># image_mset snd T"
  shows "size T < n"
proof -
  have "unat ` set_mset (image_mset snd T) \<subseteq> {..<n} - {unat x}"
    using core_card(2) [OF c] x(2) by (auto simp: word_unat_eq_iff [symmetric] simp del: set_image_mset)
  from card_mono [OF _ this] core_card(1) [OF c] x(1) show ?thesis by simp
qed

lemma hosts_update:
  fixes h nh :: nat
  assumes "h < nh"
  shows "(\<Sum>j<nh. hplace ((f(h := p)) j)) + hplace (f h) = (\<Sum>j<nh. hplace (f j)) + hplace p"
proof -
  have "(\<Sum>j<nh. hplace ((f(h := p)) j)) = hplace p + (\<Sum>j\<in>{..<nh} - {h}. hplace (f j))"
    using assms by (subst sum.remove [of "{..<nh}" h]) auto
  moreover have "(\<Sum>j<nh. hplace (f j)) = hplace (f h) + (\<Sum>j\<in>{..<nh} - {h}. hplace (f j))"
    using assms by (subst sum.remove [of "{..<nh}" h]) auto
  ultimately show ?thesis by (simp add: ac_simps)
qed

section \<open>Preservation\<close>

lemma places_host:
  assumes "h < nh"
  shows "places nh (s\<lparr>hc_host := (hc_host s)(h := p)\<rparr>) + hplace (hc_host s h) = places nh s + hplace p"
  using hosts_update [OF assms, of "hc_host s" p]
  by (simp add: places_def del: fun_upd_apply)

lemma places_cong:
  "hc_syscallq s' = hc_syscallq s \<Longrightarrow> hc_returnq s' = hc_returnq s \<Longrightarrow> hc_host s' = hc_host s \<Longrightarrow>
   places nh s' = places nh s"
  by (simp add: places_def)

lemma host_at:
  assumes "h < nh" and "hplace (hc_host s h) = {#p#}"
  obtains T where "places nh s = add_mset p T"
    and "\<And>q. places nh (s\<lparr>hc_host := (hc_host s)(h := q)\<rparr>) = hplace q + T"
proof -
  have "places nh (s\<lparr>hc_host := (hc_host s)(h := H_idle)\<rparr>) + {#p#} = places nh s"
    using places_host [OF assms(1), of s H_idle] assms(2) by simp
  then obtain T where T: "places nh s = add_mset p T" by (metis add_mset_add_single)
  have "places nh (s\<lparr>hc_host := (hc_host s)(h := q)\<rparr>) = hplace q + T" for q
    using places_host [OF assms(1), of s q] assms(2) T by (simp add: add.commute)
  with T that show thesis by blast
qed

lemma slot_view_other:
  "hc_call s' = (hc_call s)(i := c) \<Longrightarrow> hc_S s' = (hc_S s)[i := sc] \<Longrightarrow> unat y \<noteq> i \<Longrightarrow>
   slot_view s' y = slot_view s y"
  by (simp add: slot_view_def)

lemma post_inv:
  assumes inv: "hc_inv n nh kern s" and i: "i < n" "hc_call s i = Running"
  shows "hc_inv n nh kern (post_call sync i req s)"
proof -
  let ?x = "of_nat i :: u64"
  have x: "unat ?x = i" using inv i by (intro unat_of_nat_small) (simp add: hc_inv_def)
  have c: "core n kern (places nh s) (slot_view s)" and len: "length (hc_S s) = n"
    using inv by (simp_all add: hc_inv_def)
  have sl: "?x \<notin># image_mset snd (places nh s)" "status (hc_S s ! i) = 0"
    using core_slot [OF c, of ?x] x i by (simp_all add: slot_view_def)
  have "core n kern (places nh s) (slot_view (post_call sync i req s))"
    using c
  proof (rule core_local [where x = ?x])
    show "slot_view (post_call sync i req s) y = slot_view s y" if "y \<noteq> ?x" for y
      using that x by (intro slot_view_other [of _ s i]) (auto simp: post_call_def Let_def)
    show "?x \<notin># image_mset snd (places nh s)" by (rule sl(1))
    show "slot_good kern False (slot_view (post_call sync i req s) ?x)"
      using sl x i len by (simp add: slot_view_def post_call_def Let_def)
  qed
  moreover have "places nh (post_call sync i req s) = places nh s"
    by (rule places_cong) (simp_all add: post_call_def Let_def)
  ultimately show ?thesis using inv by (simp add: hc_inv_def) (simp add: post_call_def Let_def)
qed

lemma finish_inv:
  assumes inv: "hc_inv n nh kern s" and i: "i < n" "hc_call s i = Returned req r"
  shows "hc_inv n nh kern (finish_call i s)"
proof -
  let ?x = "of_nat i :: u64"
  have x: "unat ?x = i" using inv i by (intro unat_of_nat_small) (simp add: hc_inv_def)
  have c: "core n kern (places nh s) (slot_view s)" and len: "length (hc_S s) = n"
    using inv by (simp_all add: hc_inv_def)
  have out: "?x \<notin># image_mset snd (places nh s)"
    using core_slot [OF c, of ?x] x i by (simp add: slot_view_def)
  have "core n kern (places nh s) (slot_view (finish_call i s))"
    using c _ out
  proof (rule core_local)
    show "slot_view (finish_call i s) y = slot_view s y" if "y \<noteq> ?x" for y
      using that x by (intro slot_view_other [of _ s i]) (auto simp: finish_call_def)
    show "slot_good kern False (slot_view (finish_call i s) ?x)"
      using x i len by (simp add: slot_view_def finish_call_def)
  qed
  moreover have "places nh (finish_call i s) = places nh s"
    by (rule places_cong) (simp_all add: finish_call_def)
  ultimately show ?thesis using inv by (simp add: hc_inv_def) (simp add: finish_call_def)
qed

lemma spin_inv:
  assumes inv: "hc_inv n nh kern s" and i: "i < n" "hc_call s i = Spinning req"
  shows "hc_inv n nh kern (spin_check i req s)"
proof (cases "status (hc_S s ! i) = 2")
  case True
  let ?x = "of_nat i :: u64"
  have x: "unat ?x = i" using inv i by (intro unat_of_nat_small) (simp add: hc_inv_def)
  have c: "core n kern (places nh s) (slot_view s)"
    using inv by (simp add: hc_inv_def)
  have out: "?x \<notin># image_mset snd (places nh s)"
  proof
    assume "?x \<in># image_mset snd (places nh s)"
    then obtain k where "(k, ?x) \<in># places nh s" by auto
    from core_good [OF c this] True x i show False by (auto simp: good_def slot_view_def)
  qed
  have k: "kern req (ret_val (hc_S s ! i))"
    using core_slot [OF c, of ?x] x i out by (simp add: slot_view_def)
  have "core n kern (places nh s) (slot_view (spin_check i req s))"
    using c _ out
  proof (rule core_local)
    show "slot_view (spin_check i req s) y = slot_view s y" if "y \<noteq> ?x" for y
      using that x True by (auto simp: spin_check_def slot_view_def)
    show "slot_good kern False (slot_view (spin_check i req s) ?x)"
      using x i True k by (simp add: slot_view_def spin_check_def)
  qed
  moreover have "places nh (spin_check i req s) = places nh s"
    by (rule places_cong) (simp_all add: spin_check_def)
  ultimately show ?thesis using inv by (simp add: hc_inv_def) (simp add: spin_check_def)
qed (simp add: spin_check_def inv)

lemma submit_room:
  assumes inv: "hc_inv n nh kern s" and i: "i < n" "hc_call s i = Yielding req \<or> hc_call s i = Submitting req"
  shows "\<exists>q. mpmc_enqueue (hc_syscallq s) (of_nat i) = Some (q, True) \<and> mq_inv q \<and>
    mq_list q = mq_list (hc_syscallq s) @ [of_nat i] \<and> mq_cap q = mq_cap (hc_syscallq s) \<and>
    of_nat i \<notin># image_mset snd (places nh s)"
proof -
  let ?x = "of_nat i :: u64"
  have x: "unat ?x = i" using inv i by (intro unat_of_nat_small) (simp add: hc_inv_def)
  have c: "core n kern (places nh s) (slot_view s)" using inv by (simp add: hc_inv_def)
  have out: "?x \<notin># image_mset snd (places nh s)"
    using core_slot [OF c, of ?x] x i by (auto simp: slot_view_def simp del: set_image_mset)
  have "size (places nh s) < n" using core_size_out [OF c _ out] x i by simp
  moreover have "length (mq_list (hc_syscallq s)) \<le> size (places nh s)" by (simp add: places_def)
  ultimately have "length (mq_list (hc_syscallq s)) < mq_cap (hc_syscallq s)"
    using inv by (simp add: hc_inv_def)
  with mq.enq_room [of "hc_syscallq s" ?x] inv out show ?thesis by (auto simp: hc_inv_def)
qed

lemma submit_inv:
  assumes inv: "hc_inv n nh kern s" and i: "i < n"
    and c: "hc_call s i = Yielding req \<and> nxt = Suspended req \<or> hc_call s i = Submitting req \<and> nxt = Spinning req"
    and run: "submitsc i nxt s = Some s'"
  shows "hc_inv n nh kern s'"
proof -
  let ?x = "of_nat i :: u64"
  have x: "unat ?x = i" using inv i by (intro unat_of_nat_small) (simp add: hc_inv_def)
  have co: "core n kern (places nh s) (slot_view s)" using inv by (simp add: hc_inv_def)
  from submit_room [OF inv i, of req] c obtain q where q: "mpmc_enqueue (hc_syscallq s) ?x = Some (q, True)"
    "mq_inv q" "mq_list q = mq_list (hc_syscallq s) @ [?x]" "mq_cap q = mq_cap (hc_syscallq s)"
    and out: "?x \<notin># image_mset snd (places nh s)" by blast
  from run q(1) have s': "s' = s\<lparr>hc_syscallq := q, hc_call := (hc_call s)(i := nxt)\<rparr>"
    by (simp add: submitsc_def)
  have pl: "places nh s' = add_mset (Fresh, ?x) (places nh s)" by (simp add: places_def s' q(3))
  have "slot_good kern False (slot_view s ?x)"
    using core_slot [OF co, of ?x] x i out by (simp only:)
  with c x have "good kern Fresh (slot_view s' ?x) \<and> slot_good kern True (slot_view s' ?x)"
    by (auto simp: s' slot_view_def good_def)
  then have "core n kern (add_mset (Fresh, ?x) (places nh s)) (slot_view s')"
    using x i out by (intro core_add [OF co]) (auto simp: s' slot_view_def)
  then show ?thesis using inv q pl by (simp add: hc_inv_def s')
qed

lemma take_inv:
  assumes inv: "hc_inv n nh kern s" and h: "h < nh" "hc_host s h = H_idle"
    and run: "host_take h s = Some s'"
  shows "hc_inv n nh kern s'"
proof (cases "mq_list (hc_syscallq s)")
  case Nil
  with mq.deq_empty [of "hc_syscallq s"] run inv show ?thesis by (simp add: host_take_def hc_inv_def)
next
  case (Cons y ys)
  from mq.deq_some [OF _ Cons] inv obtain q where q: "mpmc_dequeue (hc_syscallq s) = Some (q, Some y)"
    "mq_inv q" "mq_list q = ys" "mq_cap q = mq_cap (hc_syscallq s)" by (auto simp: hc_inv_def)
  from run q(1) have s': "s' = s\<lparr>hc_syscallq := q, hc_host := (hc_host s)(h := H_serve y)\<rparr>"
    by (simp add: host_take_def)
  have "(\<Sum>j<nh. hplace (hc_host s' j)) = add_mset (Fresh, y) (\<Sum>j<nh. hplace (hc_host s j))"
    using hosts_update [OF h(1), of "hc_host s" "H_serve y"] h(2) by (simp add: s' del: fun_upd_apply)
  then have "places nh s' = places nh s" by (simp add: places_def Cons q(3) s')
  moreover have "slot_view s' = slot_view s" by (simp add: slot_view_def s' fun_eq_iff)
  ultimately show ?thesis using inv q by (simp add: hc_inv_def s')
qed

lemma handle_inv:
  assumes inv: "hc_inv n nh kern s" and h: "h < nh" "hc_host s h = H_serve x"
    and k: "kern (hc_S s ! unat x) r"
  shows "hc_inv n nh kern (handle_syscall h x r s)"
proof -
  let ?s = "handle_syscall h x r s"
  from host_at [OF h(1), of s "(Fresh, x)"] h(2) obtain T where T: "places nh s = add_mset (Fresh, x) T"
    "\<And>q. places nh (s\<lparr>hc_host := (hc_host s)(h := q)\<rparr>) = hplace q + T" by auto
  have co: "core n kern (add_mset (Fresh, x) T) (slot_view s)" and len: "length (hc_S s) = n"
    using inv T(1) by (simp_all add: hc_inv_def)
  have g: "good kern Fresh (slot_view s x)" "unat x < n" using core_good [OF co, of Fresh x] by simp_all
  have "places nh ?s = places nh (s\<lparr>hc_host := (hc_host s)(h := H_check x)\<rparr>)"
    by (rule places_cong) (simp_all add: handle_syscall_def)
  also have "\<dots> = add_mset (Served, x) T" using T(2) [of "H_check x"] by simp
  finally have pl: "places nh ?s = add_mset (Served, x) T" .
  have "core n kern (add_mset (Served, x) T) (slot_view ?s)"
    using co
  proof (rule core_move)
    show "slot_view ?s y = slot_view s y" if "y \<noteq> x" for y
      using that by (simp add: slot_view_def handle_syscall_def word_unat_eq_iff)
    show "good kern Served (slot_view ?s x)" "slot_good kern True (slot_view ?s x)"
      using g k len by (auto simp: slot_view_def handle_syscall_def good_def)
  qed
  then show ?thesis using inv pl by (simp add: hc_inv_def) (simp add: handle_syscall_def)
qed

lemma check_inv:
  assumes inv: "hc_inv n nh kern s" and h: "h < nh" "hc_host s h = H_check x"
  shows "hc_inv n nh kern (host_check h x s)"
proof -
  let ?s = "host_check h x s"
  from host_at [OF h(1), of s "(Served, x)"] h(2) obtain T where T: "places nh s = add_mset (Served, x) T"
    "\<And>q. places nh (s\<lparr>hc_host := (hc_host s)(h := q)\<rparr>) = hplace q + T" by auto
  have co: "core n kern (add_mset (Served, x) T) (slot_view s)" and len: "length (hc_S s) = n"
    using inv T(1) by (simp_all add: hc_inv_def)
  have g: "good kern Served (slot_view s x)" "unat x < n" using core_good [OF co, of Served x] by simp_all
  have other: "slot_view ?s y = slot_view s y" if "y \<noteq> x" for y
    using that by (simp add: slot_view_def host_check_def word_unat_eq_iff)
  show ?thesis
  proof (cases "status (hc_S s ! unat x) = 1")
    case True
    have "places nh ?s = places nh (s\<lparr>hc_host := (hc_host s)(h := H_idle)\<rparr>)"
      by (rule places_cong) (simp_all add: host_check_def True)
    then have pl: "places nh ?s = T" using T(2) [of H_idle] by simp
    have "core n kern T (slot_view ?s)"
      using co other
    proof (rule core_remove)
      show "slot_good kern False (slot_view ?s x)"
        using g len True by (auto simp: slot_view_def host_check_def good_def)
    qed
    then show ?thesis using inv pl by (simp add: hc_inv_def) (simp add: host_check_def)
  next
    case False
    have "places nh ?s = places nh (s\<lparr>hc_host := (hc_host s)(h := H_push x)\<rparr>)"
      by (rule places_cong) (simp_all add: host_check_def False)
    then have pl: "places nh ?s = add_mset (Back, x) T" using T(2) [of "H_push x"] by simp
    have "core n kern (add_mset (Back, x) T) (slot_view ?s)"
      using co other
    proof (rule core_move)
      show "good kern Back (slot_view ?s x)" "slot_good kern True (slot_view ?s x)"
        using g len False by (auto simp: slot_view_def host_check_def good_def)
    qed
    then show ?thesis using inv pl by (simp add: hc_inv_def) (simp add: host_check_def)
  qed
qed

lemma push_room:
  assumes inv: "hc_inv n nh kern s" and h: "h < nh" "hc_host s h = H_push x"
  shows "\<exists>q. mpmc_enqueue (hc_returnq s) x = Some (q, True) \<and> mq_inv q \<and>
    mq_list q = mq_list (hc_returnq s) @ [x] \<and> mq_cap q = mq_cap (hc_returnq s)"
proof -
  from host_at [OF h(1), of s "(Back, x)"] h(2) obtain T where T: "places nh s = add_mset (Back, x) T"
    "\<And>q. places nh (s\<lparr>hc_host := (hc_host s)(h := q)\<rparr>) = hplace q + T" by auto
  have "length (mq_list (hc_returnq s)) \<le> size (places nh (s\<lparr>hc_host := (hc_host s)(h := H_idle)\<rparr>))"
    by (simp add: places_def)
  also have "\<dots> < size (places nh s)" using T(1) T(2) [of H_idle] by simp
  also have "\<dots> \<le> n" using inv by (intro core_size [where kern = kern and f = "slot_view s"]) (simp add: hc_inv_def)
  also have "\<dots> \<le> mq_cap (hc_returnq s)" using inv by (simp add: hc_inv_def)
  finally show ?thesis using mq.enq_room [of "hc_returnq s" x] inv by (auto simp: hc_inv_def)
qed

lemma push_inv:
  assumes inv: "hc_inv n nh kern s" and h: "h < nh" "hc_host s h = H_push x"
    and run: "host_push h x s = Some s'"
  shows "hc_inv n nh kern s'"
proof -
  from push_room [OF inv h] obtain q where q: "mpmc_enqueue (hc_returnq s) x = Some (q, True)"
    "mq_inv q" "mq_list q = mq_list (hc_returnq s) @ [x]" "mq_cap q = mq_cap (hc_returnq s)" by blast
  from run q(1) have s': "s' = s\<lparr>hc_returnq := q, hc_host := (hc_host s)(h := H_idle)\<rparr>"
    by (simp add: host_push_def)
  have "(\<Sum>j<nh. hplace (hc_host s j)) = add_mset (Back, x) (\<Sum>j<nh. hplace (hc_host s' j))"
    using hosts_update [OF h(1), of "hc_host s" H_idle] h(2) by (simp add: s' del: fun_upd_apply)
  then have "places nh s' = places nh s" by (simp add: places_def q(3) s')
  moreover have "slot_view s' = slot_view s" by (simp add: slot_view_def s' fun_eq_iff)
  ultimately show ?thesis using inv q by (simp add: hc_inv_def s')
qed

lemma resume_inv:
  assumes inv: "hc_inv n nh kern s" and run: "sched_resume s = Some s'"
  shows "hc_inv n nh kern s'"
proof (cases "mq_list (hc_returnq s)")
  case Nil
  with mq.deq_empty [of "hc_returnq s"] run inv show ?thesis by (simp add: sched_resume_def hc_inv_def)
next
  case (Cons x xs)
  from mq.deq_some [OF _ Cons] inv obtain q where q: "mpmc_dequeue (hc_returnq s) = Some (q, Some x)"
    "mq_inv q" "mq_list q = xs" "mq_cap q = mq_cap (hc_returnq s)" by (auto simp: hc_inv_def)
  define c where "c = (case hc_call s (unat x) of
      Suspended req \<Rightarrow> Returned req (ret_val (hc_S s ! unat x)) | _ \<Rightarrow> Broken)"
  from run q(1) have s': "s' = s\<lparr>hc_returnq := q, hc_call := (hc_call s)(unat x := c)\<rparr>"
    by (simp add: sched_resume_def c_def)
  have pl: "places nh s = add_mset (Back, x) (places nh s')" by (simp add: places_def Cons q(3) s')
  have co: "core n kern (add_mset (Back, x) (places nh s')) (slot_view s)"
    using inv pl by (simp add: hc_inv_def)
  have "good kern Back (slot_view s x)" using core_good [OF co, of Back x] by simp
  then have "slot_good kern False (slot_view s' x)"
    by (auto simp: good_def slot_view_def s' c_def)
  then have "core n kern (places nh s') (slot_view s')"
    by (intro core_remove [OF co]) (auto simp: slot_view_def s' word_unat_eq_iff)
  then show ?thesis using inv q by (simp add: hc_inv_def s')
qed

lemma serve_step_inv: "serve_step n nh kern s s' \<Longrightarrow> hc_inv n nh kern s \<Longrightarrow> hc_inv n nh kern s'"
  by (induction rule: serve_step.induct)
    (auto intro: submit_inv take_inv handle_inv check_inv push_inv resume_inv spin_inv finish_inv)

lemma hc_step_inv: "hc_step n nh sync kern s s' \<Longrightarrow> hc_inv n nh kern s \<Longrightarrow> hc_inv n nh kern s'"
  by (induction rule: hc_step.induct) (auto intro: post_inv serve_step_inv)

section \<open>Initialisation\<close>

lemma newmpmcq_pow2:
  assumes "unat bytes = 2 ^ k" and "5 \<le> k" and "length mem = unat (bytes div 16)"
  shows "\<exists>q. newmpmcq bytes mem = Some q \<and> mq_inv q \<and> mq_list q = [] \<and> mq_cap q = 2 ^ (k - 4)"
proof -
  define n where "n = bytes div 16"
  have "unat bytes < 2 ^ 64" using unsigned_less [of bytes] by simp
  then have k: "k < 64" unfolding assms(1) by (rule power_less_imp_less_exp [rotated]) simp
  have n: "unat n = 2 ^ (k - 4)"
    using assms(1,2) power_diff [of "2 :: nat" 4 k] by (simp add: n_def unat_div)
  have "2 ^ 1 \<le> (2 :: nat) ^ (k - 4)" using assms(2) by (intro power_increasing) simp_all
  then have n2: "n \<ge> 2" using n by (simp add: word_le_nat_alt)
  have nw: "n = 2 ^ (k - 4)" using unat_eq_of_nat_word [OF n] by simp
  then have "n AND (n - 1) = 0" by (auto simp: bit_simps simp flip: mask_eq_exp_minus_1 intro: bit_word_eqI)
  with n2 have "newmpmcq bytes mem \<noteq> None" by (simp add: newmpmcq_def n_def Let_def)
  then obtain q where q: "newmpmcq bytes mem = Some q" by blast
  have "unat bytes div 16 = 2 ^ (k - 4)" using n by (simp add: n_def unat_div)
  with newmpmcq_inv [OF q assms(3)] q show ?thesis by simp
qed

lemma register_queues_inv:
  assumes "2 \<le> unat n" and "unat n * 16 \<le> 2 ^ 63"
  shows "\<exists>q. register_queues n all_allocated = Some q \<and> hc_inv (unat n) nh kern (hc_init q)"
proof -
  have n16: "unat (n * 16) = unat n * 16" using assms(2) by (simp add: unat_word_ariths)
  from next_pow2_loop_pow [of "n * 16" 1 0] n16 assms(2) obtain r k where
    r: "next_pow2 (n * 16) = Some r" "unat r = 2 ^ k" "unat n * 16 \<le> 2 ^ k" by (auto simp: next_pow2_def)
  have "(2 :: nat) ^ 5 \<le> 2 ^ k" using r(3) assms(1) by simp
  then have k: "5 \<le> k" by (rule power_le_imp_le_exp [rotated]) simp
  let ?mem = "replicate (unat (r div 16)) \<lparr>seq = 0, data = 0\<rparr>"
  from newmpmcq_pow2 [OF r(2) k, of ?mem] obtain q where
    q: "newmpmcq r ?mem = Some q" "mq_inv q" "mq_list q = []" "mq_cap q = 2 ^ (k - 4)" by auto
  have "(2 :: nat) ^ k = 2 ^ (k - 4) * 16" using k power_add [of "2 :: nat" "k - 4" 4] by simp
  with r(3) have cap: "unat n \<le> 2 ^ (k - 4)" by simp
  let ?q = "(q, q, replicate (unat n) zero_call)"
  have "register_queues n all_allocated = Some ?q" using r(1) q(1) by (simp add: register_queues_def all_allocated_def)
  moreover have "places nh (hc_init ?q) = {#}" by (simp add: places_def hc_init_def q(3))
  then have "core (unat n) kern (places nh (hc_init ?q)) (slot_view (hc_init ?q))"
    by (simp add: core_def hc_init_def slot_view_def zero_call_def)
  then have "hc_inv (unat n) nh kern (hc_init ?q)"
    using q cap unsigned_less [of n] by (simp add: hc_inv_def) (simp add: hc_init_def)
  ultimately show ?thesis by blast
qed

lemma hc_reach_inv:
  assumes "(hc_step n nh sync kern)\<^sup>*\<^sup>* s s'" and "hc_inv n nh kern s"
  shows "hc_inv n nh kern s'"
  using assms by (induction rule: rtranclp_induct) (auto intro: hc_step_inv)

section \<open>Progress\<close>

fun caller_work :: "caller \<Rightarrow> nat" where
  "caller_work Running = 0"
| "caller_work (Yielding req) = 8"
| "caller_work (Submitting req) = 8"
| "caller_work (Suspended req) = 2"
| "caller_work (Spinning req) = 2"
| "caller_work (Returned req r) = 1"
| "caller_work Broken = 0"

fun host_work :: "host_pc \<Rightarrow> nat" where
  "host_work H_idle = 0"
| "host_work (H_serve x) = 4"
| "host_work (H_check x) = 3"
| "host_work (H_push x) = 2"

definition work :: "nat \<Rightarrow> nat \<Rightarrow> hc_sys \<Rightarrow> nat" where
  "work n nh s = (\<Sum>i<n. caller_work (hc_call s i)) + 5 * length (mq_list (hc_syscallq s)) +
     (\<Sum>h<nh. host_work (hc_host s h)) + length (mq_list (hc_returnq s))"

lemma sum_fun_upd:
  fixes f :: "nat \<Rightarrow> 'a" and w :: "'a \<Rightarrow> nat"
  assumes "i < n"
  shows "(\<Sum>j<n. w ((f(i := c)) j)) + w (f i) = (\<Sum>j<n. w (f j)) + w c"
proof -
  have "(\<Sum>j<n. w ((f(i := c)) j)) = w c + (\<Sum>j\<in>{..<n} - {i}. w (f j))"
    using assms by (subst sum.remove [of "{..<n}" i]) auto
  moreover have "(\<Sum>j<n. w (f j)) = w (f i) + (\<Sum>j\<in>{..<n} - {i}. w (f j))"
    using assms by (subst sum.remove [of "{..<n}" i]) auto
  ultimately show ?thesis by simp
qed

lemma work_step:
  assumes "serve_step n nh kern s s'" and "hc_inv n nh kern s" and "s' \<noteq> s"
  shows "work n nh s' < work n nh s"
  using assms
proof (induction rule: serve_step.induct)
  case (submit_yield i s req s')
  from submit_room [OF submit_yield.prems(1) submit_yield(1), of req] submit_yield(2,3) obtain q where
    q: "mq_list q = mq_list (hc_syscallq s) @ [of_nat i]"
      "s' = s\<lparr>hc_syscallq := q, hc_call := (hc_call s)(i := Suspended req)\<rparr>" by (auto simp: submitsc_def)
  show ?case using sum_fun_upd [OF submit_yield(1), of caller_work "hc_call s" "Suspended req"] submit_yield(2)
    by (simp add: work_def q del: fun_upd_apply)
next
  case (submit_sync i s req s')
  from submit_room [OF submit_sync.prems(1) submit_sync(1), of req] submit_sync(2,3) obtain q where
    q: "mq_list q = mq_list (hc_syscallq s) @ [of_nat i]"
      "s' = s\<lparr>hc_syscallq := q, hc_call := (hc_call s)(i := Spinning req)\<rparr>" by (auto simp: submitsc_def)
  show ?case using sum_fun_upd [OF submit_sync(1), of caller_work "hc_call s" "Spinning req"] submit_sync(2)
    by (simp add: work_def q del: fun_upd_apply)
next
  case (take h s s')
  show ?case
  proof (cases "mq_list (hc_syscallq s)")
    case Nil
    with mq.deq_empty [of "hc_syscallq s"] take show ?thesis by (simp add: host_take_def hc_inv_def)
  next
    case (Cons y ys)
    from mq.deq_some [OF _ Cons] take.prems(1) take(3) obtain q where "mq_list q = ys"
      "s' = s\<lparr>hc_syscallq := q, hc_host := (hc_host s)(h := H_serve y)\<rparr>"
      by (auto simp: hc_inv_def host_take_def)
    with Cons take(2) sum_fun_upd [OF take(1), of host_work "hc_host s" "H_serve y"] show ?thesis
      by (simp add: work_def del: fun_upd_apply)
  qed
next
  case (handle h s x r)
  show ?case using handle(2) sum_fun_upd [OF handle(1), of host_work "hc_host s" "H_check x"]
    by (simp add: work_def handle_syscall_def del: fun_upd_apply)
next
  case (check h s x)
  show ?case using check(2)
      sum_fun_upd [OF check(1), of host_work "hc_host s" H_idle]
      sum_fun_upd [OF check(1), of host_work "hc_host s" "H_push x"]
    by (cases "status (hc_S s ! unat x) = 1") (simp_all add: work_def host_check_def del: fun_upd_apply)
next
  case (push h s x s')
  from push_room [OF push.prems(1) push(1,2)] push(3) obtain q where
    "mq_list q = mq_list (hc_returnq s) @ [x]"
    "s' = s\<lparr>hc_returnq := q, hc_host := (hc_host s)(h := H_idle)\<rparr>" by (auto simp: host_push_def)
  with push(2) sum_fun_upd [OF push(1), of host_work "hc_host s" H_idle] show ?case
    by (simp add: work_def del: fun_upd_apply)
next
  case (resume s s')
  show ?case
  proof (cases "mq_list (hc_returnq s)")
    case Nil
    with mq.deq_empty [of "hc_returnq s"] resume show ?thesis by (simp add: sched_resume_def hc_inv_def)
  next
    case (Cons x xs)
    have "(Back, x) \<in># places nh s" by (simp add: places_def Cons)
    then have "good kern Back (slot_view s x)" and x: "unat x < n"
      using resume.prems(1) core_good unfolding hc_inv_def by blast+
    then obtain req where req: "hc_call s (unat x) = Suspended req" by (auto simp: good_def slot_view_def)
    let ?c = "Returned req (ret_val (hc_S s ! unat x))"
    from mq.deq_some [OF _ Cons] resume.prems(1) resume(1) req obtain q where "mq_list q = xs"
      "s' = s\<lparr>hc_returnq := q, hc_call := (hc_call s)(unat x := ?c)\<rparr>"
      by (auto simp: hc_inv_def sched_resume_def)
    with Cons req sum_fun_upd [OF x, of caller_work "hc_call s" ?c] show ?thesis
      by (simp add: work_def del: fun_upd_apply)
  qed
next
  case (spin i s req)
  then have "status (hc_S s ! i) = 2" by (auto simp: spin_check_def split: if_splits)
  then show ?case
    using spin(2) sum_fun_upd [OF spin(1), of caller_work "hc_call s" "Returned req (ret_val (hc_S s ! i))"]
    by (simp add: work_def spin_check_def del: fun_upd_apply)
next
  case (finish i s req r)
  show ?case using finish(2) sum_fun_upd [OF finish(1), of caller_work "hc_call s" Running]
    by (simp add: work_def finish_call_def del: fun_upd_apply)
qed

lemma host_busy_step:
  assumes inv: "hc_inv n nh kern s" and h: "h < nh" "hc_host s h \<noteq> H_idle" and tot: "\<And>req. \<exists>r. kern req r"
  shows "\<exists>s'. serve_step n nh kern s s' \<and> s' \<noteq> s"
proof (cases "hc_host s h")
  case (H_serve x)
  obtain r where "kern (hc_S s ! unat x) r" using tot by blast
  with h(1) H_serve have "serve_step n nh kern s (handle_syscall h x r s)" by (rule serve_step.handle)
  moreover have "hc_host (handle_syscall h x r s) h \<noteq> hc_host s h" by (simp add: handle_syscall_def H_serve)
  ultimately show ?thesis by metis
next
  case (H_check x)
  from serve_step.check [OF h(1) H_check] have "serve_step n nh kern s (host_check h x s)" .
  moreover have "hc_host (host_check h x s) h \<noteq> hc_host s h" by (simp add: host_check_def H_check)
  ultimately show ?thesis by metis
next
  case (H_push x)
  from push_room [OF inv h(1) H_push] obtain q where "host_push h x s =
      Some (s\<lparr>hc_returnq := q, hc_host := (hc_host s)(h := H_idle)\<rparr>)" by (auto simp: host_push_def)
  from serve_step.push [OF h(1) H_push this] H_push show ?thesis
    by (metis (no_types, lifting) fun_upd_same h(2) hc_sys.simps(5,10) hc_sys.surjective hc_sys.update_convs(5))
qed (use h in simp)

lemma places_step:
  assumes inv: "hc_inv n nh kern s" and nh: "0 < nh" and tot: "\<And>req. \<exists>r. kern req r" and p: "p \<in># places nh s"
  shows "\<exists>s'. serve_step n nh kern s s' \<and> s' \<noteq> s"
proof (cases "\<exists>h<nh. hc_host s h \<noteq> H_idle")
  case True
  then show ?thesis using host_busy_step [OF inv _ _ tot] by blast
next
  case idle: False
  then have z: "(\<Sum>h<nh. hplace (hc_host s h)) = {#}" by (intro sum.neutral) auto
  show ?thesis
  proof (cases "mq_list (hc_returnq s)")
    case (Cons x xs)
    from mq.deq_some [OF _ Cons] inv obtain q where q: "mpmc_dequeue (hc_returnq s) = Some (q, Some x)" "mq_list q = xs"
      by (auto simp: hc_inv_def)
    then obtain s' where s': "sched_resume s = Some s'" "mq_list (hc_returnq s') = xs"
      by (auto simp: sched_resume_def)
    then have "s' \<noteq> s" using Cons by auto
    with serve_step.resume [OF s'(1)] show ?thesis by blast
  next
    case Nil
    with p z obtain x xs where Cons: "mq_list (hc_syscallq s) = x # xs"
      by (cases "mq_list (hc_syscallq s)") (auto simp: places_def)
    from mq.deq_some [OF _ Cons] inv obtain q where q: "mpmc_dequeue (hc_syscallq s) = Some (q, Some x)" "mq_list q = xs"
      by (auto simp: hc_inv_def)
    then obtain s' where s': "host_take 0 s = Some s'" "mq_list (hc_syscallq s') = xs"
      by (auto simp: host_take_def)
    then have "s' \<noteq> s" using Cons by auto
    with serve_step.take [OF nh _ s'(1)] idle nh show ?thesis by blast
  qed
qed

lemma pending_step:
  assumes inv: "hc_inv n nh kern s" and nh: "0 < nh" and tot: "\<And>req. \<exists>r. kern req r"
    and i: "i < n" "hc_call s i \<noteq> Running"
  shows "\<exists>s'. serve_step n nh kern s s' \<and> s' \<noteq> s"
proof -
  let ?x = "of_nat i :: u64"
  have x: "unat ?x = i" using inv i by (intro unat_of_nat_small) (simp add: hc_inv_def)
  have co: "core n kern (places nh s) (slot_view s)" using inv by (simp add: hc_inv_def)
  have sl: "slot_good kern (?x \<in># image_mset snd (places nh s)) (slot_view s ?x)"
    using core_slot [OF co] x i by simp
  have token: ?thesis if "?x \<in># image_mset snd (places nh s)"
    using that places_step [OF inv nh tot] by auto
  have differ: ?thesis if "serve_step n nh kern s s'" "hc_call s' i \<noteq> hc_call s i" for s' using that by metis
  show ?thesis
  proof (cases "hc_call s i")
    case (Yielding req)
    with submit_room [OF inv i(1), of req] obtain s' where "submitsc i (Suspended req) s = Some s'"
      "hc_call s' i = Suspended req" by (auto simp: submitsc_def)
    with serve_step.submit_yield [OF i(1) Yielding] differ [of s'] Yielding show ?thesis by simp
  next
    case (Submitting req)
    with submit_room [OF inv i(1), of req] obtain s' where "submitsc i (Spinning req) s = Some s'"
      "hc_call s' i = Spinning req" by (auto simp: submitsc_def)
    with serve_step.submit_sync [OF i(1) Submitting] differ [of s'] Submitting show ?thesis by simp
  next
    case (Spinning req)
    then show ?thesis
    proof (cases "?x \<in># image_mset snd (places nh s)")
      case False
      then have "status (hc_S s ! i) = 2" using sl Spinning x by (simp add: slot_view_def)
      then have "hc_call (spin_check i req s) i \<noteq> hc_call s i" using Spinning by (simp add: spin_check_def)
      with serve_step.spin [OF i(1) Spinning] differ show ?thesis by blast
    qed (rule token)
  next
    case (Returned req r)
    have "hc_call (finish_call i s) i \<noteq> hc_call s i" using Returned by (simp add: finish_call_def)
    with serve_step.finish [OF i(1) Returned] differ show ?thesis by blast
  qed (use sl x i token in \<open>simp_all add: slot_view_def\<close>)
qed

lemma place_work_le:
  "5 * length (mq_list (hc_syscallq s)) + (\<Sum>h<nh. host_work (hc_host s h)) + length (mq_list (hc_returnq s))
     \<le> 5 * size (places nh s)"
proof -
  have "(\<Sum>h<nh. host_work (hc_host s h)) \<le> (\<Sum>h<nh. 5 * size (hplace (hc_host s h)))"
  proof (rule sum_mono)
    show "host_work (hc_host s h) \<le> 5 * size (hplace (hc_host s h))" for h by (cases "hc_host s h") auto
  qed
  also have "\<dots> = 5 * size (\<Sum>h<nh. hplace (hc_host s h))"
    by (simp add: sum_distrib_left size_multiset_sum)
  finally show ?thesis by (simp add: places_def)
qed

lemma work_bound:
  assumes inv: "hc_inv n nh kern s"
  shows "work n nh s \<le> 8 * n"
proof -
  let ?A = "unat ` set_mset (image_mset snd (places nh s))"
  have co: "core n kern (places nh s) (slot_view s)" using inv by (simp add: hc_inv_def)
  have sub: "?A \<subseteq> {..<n}" by (rule core_card(2) [OF co])
  have "5 * size (places nh s) = (\<Sum>i<n. if i \<in> ?A then 5 else 0)"
    using core_card(1) [OF co] sub by (simp add: sum.If_cases Int_absorb1)
  moreover have "caller_work (hc_call s i) + (if i \<in> ?A then 5 else 0) \<le> 8" if i: "i < n" for i
  proof (cases "i \<in> ?A")
    case True
    then obtain k x where x: "(k, x) \<in># places nh s" "i = unat x" by auto
    from core_good [OF co x(1)] x(2) have "caller_work (hc_call s i) = 2"
      by (auto simp: good_def slot_view_def)
    then show ?thesis by simp
  next
    case False
    then show ?thesis by (cases "hc_call s i") auto
  qed
  then have "(\<Sum>i<n. caller_work (hc_call s i) + (if i \<in> ?A then 5 else 0)) \<le> (\<Sum>i<n. 8)"
    by (intro sum_mono) simp
  ultimately show ?thesis
    using place_work_le [of s nh] by (simp add: work_def sum.distrib)
qed

lemma hc_reachable_inv:
  assumes "register_queues n al = Some q" and "2 \<le> unat n" and "unat n * 16 \<le> 2 ^ 63"
    and "(hc_step (unat n) nh sync kern)\<^sup>*\<^sup>* (hc_init q) s"
  shows "hc_inv (unat n) nh kern s"
proof -
  have "al = all_allocated"
    using assms(1) by (auto simp: register_queues_def all_allocated_def Let_def bind_eq_Some_conv split: if_splits option.splits)
  with assms register_queues_inv [OF assms(2,3), of nh kern] have "hc_inv (unat n) nh kern (hc_init q)" by auto
  with hc_reach_inv [OF assms(4)] show ?thesis by blast
qed

lemma effective_run_work:
  assumes "hc_inv n nh kern (f 0)" and "\<And>k. k < m \<Longrightarrow> serve_step n nh kern (f k) (f (Suc k)) \<and> f (Suc k) \<noteq> f k"
  shows "hc_inv n nh kern (f m) \<and> work n nh (f m) + m \<le> work n nh (f 0)"
  using assms(2)
proof (induction m)
  case 0
  then show ?case using assms(1) by simp
next
  case (Suc m)
  then have IH: "hc_inv n nh kern (f m)" "work n nh (f m) + m \<le> work n nh (f 0)"
    and st: "serve_step n nh kern (f m) (f (Suc m))" "f (Suc m) \<noteq> f m" by simp_all
  from work_step [OF st(1) IH(1) st(2)] serve_step_inv [OF st(1) IH(1)] IH(2) show ?case by simp
qed

section \<open>Properties\<close>

text \<open>
  C24. For any number of threads and host threads and any interleaving of their steps, starting
  from the queues \<open>register_queues\<close> makes: a scheduler only ever resumes a thread that is
  suspended in a host call; the result a call returns with is one the kernel gave to that call's
  own request; and the queues never fill up, so neither \<open>submitsc\<close> nor a host thread retries.
\<close>

theorem hostcall_protocol_safe:
  assumes "register_queues n al = Some q" and "2 \<le> unat n" and "unat n * 16 \<le> 2 ^ 63"
    and "(hc_step (unat n) nh sync kern)\<^sup>*\<^sup>* (hc_init q) s"
  shows "(\<forall>i < unat n. hc_call s i \<noteq> Broken) \<and>
    (\<forall>i req r. i < unat n \<longrightarrow> hc_call s i = Returned req r \<longrightarrow> kern req r) \<and>
    (\<forall>i req. i < unat n \<longrightarrow> hc_call s i = Yielding req \<or> hc_call s i = Submitting req \<longrightarrow>
       (\<exists>q'. mpmc_enqueue (hc_syscallq s) (of_nat i) = Some (q', True))) \<and>
    (\<forall>h x. h < nh \<longrightarrow> hc_host s h = H_push x \<longrightarrow> (\<exists>q'. mpmc_enqueue (hc_returnq s) x = Some (q', True)))"
proof -
  note inv = hc_reachable_inv [OF assms]
  have sl: "slot_good kern (of_nat i \<in># image_mset snd (places nh s)) (hc_call s i, hc_S s ! i)" if "i < unat n" for i
  proof -
    have "unat (of_nat i :: u64) = i" by (rule unat_of_nat_small) (rule less_trans [OF that unsigned_less])
    then show ?thesis using core_slot [of "unat n" kern "places nh s" "slot_view s" "of_nat i"] inv that
      by (simp add: hc_inv_def slot_view_def)
  qed
  have "hc_call s i \<noteq> Broken" if "i < unat n" for i using sl [OF that] by auto
  moreover have "kern req r" if "i < unat n" "hc_call s i = Returned req r" for i req r
    using sl [OF that(1)] that(2) by simp
  ultimately show ?thesis using submit_room [OF inv] push_room [OF inv] by blast
qed

theorem hostcall_protocol_safe_witness:
  "\<exists>q. register_queues 2 all_allocated = Some q \<and>
     (\<exists>q'. mpmc_enqueue (hc_syscallq (post_call False 0 zero_call (hc_init q))) (of_nat 0) = Some (q', True))"
proof -
  obtain q where q: "register_queues 2 all_allocated = Some q"
    using register_queues_inv [of 2 1 "\<lambda>_ _. True"] by auto
  let ?s = "post_call False 0 zero_call (hc_init q)"
  have "(hc_step (unat (2 :: u64)) 1 (\<lambda>_. False) (\<lambda>_ _. True))\<^sup>*\<^sup>* (hc_init q) ?s"
    by (rule r_into_rtranclp, rule hc_step.post [of 0 _ _ _ "\<lambda>_. False", simplified])
      (auto simp: hc_init_def split: prod.splits)
  from hostcall_protocol_safe [OF q _ _ this]
  have "\<forall>i req. i < 2 \<longrightarrow> hc_call ?s i = Yielding req \<or> hc_call ?s i = Submitting req \<longrightarrow>
       (\<exists>q'. mpmc_enqueue (hc_syscallq ?s) (of_nat i) = Some (q', True))" by simp
  from spec [OF this, of 0] q show ?thesis by (auto simp: post_call_def Let_def)
qed

text \<open>
  C25. Every host call completes: with at least one host thread and a kernel that answers, in any
  reachable state with a call outstanding some step of serving calls changes the state, and no
  more than \<open>8 n\<close> such steps can be taken before every call has returned, whatever their order.
\<close>

theorem hostcall_completes:
  assumes "register_queues n al = Some q" and "2 \<le> unat n" and "unat n * 16 \<le> 2 ^ 63"
    and "(hc_step (unat n) nh sync kern)\<^sup>*\<^sup>* (hc_init q) s"
    and "0 < nh" and "\<And>req. \<exists>r. kern req r"
  shows "((\<exists>i < unat n. hc_call s i \<noteq> Running) \<longrightarrow> (\<exists>s'. serve_step (unat n) nh kern s s' \<and> s' \<noteq> s)) \<and>
    (\<forall>f m. f 0 = s \<longrightarrow> (\<forall>k < m. serve_step (unat n) nh kern (f k) (f (Suc k)) \<and> f (Suc k) \<noteq> f k) \<longrightarrow> m \<le> 8 * unat n)"
proof -
  note inv = hc_reachable_inv [OF assms(1-4)]
  have "m \<le> 8 * unat n" if "f 0 = s" "\<forall>k < m. serve_step (unat n) nh kern (f k) (f (Suc k)) \<and> f (Suc k) \<noteq> f k" for f m
    using effective_run_work [of "unat n" nh kern f m] that inv work_bound [OF inv] by simp
  then show ?thesis using pending_step [OF inv assms(5,6)] by blast
qed

theorem hostcall_completes_witness:
  "\<exists>q s'. register_queues 2 all_allocated = Some q \<and>
     serve_step 2 1 (\<lambda>_ _. True) (post_call True 0 zero_call (hc_init q)) s' \<and>
     s' \<noteq> post_call True 0 zero_call (hc_init q)"
proof -
  obtain q where q: "register_queues 2 all_allocated = Some q"
    using register_queues_inv [of 2 1 "\<lambda>_ _. True"] by auto
  let ?s = "post_call True 0 zero_call (hc_init q)"
  have "(hc_step (unat (2 :: u64)) 1 (\<lambda>_. True) (\<lambda>_ _. True))\<^sup>*\<^sup>* (hc_init q) ?s"
    by (rule r_into_rtranclp, rule hc_step.post [of 0 _ _ _ "\<lambda>_. True", simplified])
      (auto simp: hc_init_def split: prod.splits)
  from hostcall_completes [OF q _ _ this]
  have "(\<exists>i < 2. hc_call ?s i \<noteq> Running) \<longrightarrow> (\<exists>s'. serve_step 2 1 (\<lambda>_ _. True) ?s s' \<and> s' \<noteq> ?s)" by simp
  moreover have "hc_call ?s 0 \<noteq> Running" by (simp add: post_call_def Let_def)
  ultimately show ?thesis using q by (meson zero_less_numeral)
qed

end
