(* ===== verification/Hostcalls.thy ===== *)
theory Hostcalls
  imports Hostcall_Protocol "HOL-Library.Monad_Syntax"
begin

text \<open>
  The system calls the enclave forwards to the host, \<^verbatim>\<open>src/host/sgx_hostcalls.c\<close>, and the arena
  through which their arguments and results pass (\<^verbatim>\<open>src/host/sgx_hostcall_interface.c\<close>). Buffers
  of the caller live in enclave memory, which the host cannot read; a call copies them to its
  arena outside the enclave, hands the host pointers into the arena, and copies results back.

  The state is that of the running thread: the memory, its slot and its arena, and whether
  \<open>threadswitch\<close> may suspend it. The host is a function from the request and the memory to its
  answer and the new memory. \<open>None\<close> stands for a call that does not return: the caller is
  suspended for ever, or the code crashes on purpose. The model starts after initialisation, so
  slot and arena pointers are not null. Sizes and numbers are those of the x86-64 Linux ABI,
  except the size of the type \<open>k_sigaction_t\<close> of the C library in use, which is an argument.
\<close>

section \<open>State, arena and switch\<close>

type_synonym i32 = "32 word"
type_synonym memory = "u64 \<Rightarrow> u8"
type_synonym host = "syscall_t \<Rightarrow> memory \<Rightarrow> u64 \<times> memory"

record Arena =
  amem :: u64
  asize :: u64
  allocated :: u64

record hst =
  hmem :: memory
  hsc :: syscall_t
  harena :: Arena
  hsync :: bool

definition set_sc :: "(syscall_t \<Rightarrow> syscall_t) \<Rightarrow> hst \<Rightarrow> hst" where
  "set_sc f s = s\<lparr>hsc := f (hsc s)\<rparr>"

definition copy_if :: "bool \<Rightarrow> u64 \<Rightarrow> u64 \<Rightarrow> u64 \<Rightarrow> hst \<Rightarrow> hst" where
  "copy_if p dst src n s = (if p then s\<lparr>hmem := memcpy dst src n (hmem s)\<rparr> else s)"

text \<open>
  \<open>threadswitch\<close> seen by the caller. A caller that may be suspended comes back through the return
  queue, unless the status is 1 and the host therefore leaves the queue alone; one that may not
  sets the status to 1 and spins until the host sets it to 2.
\<close>

definition host_serves :: "host \<Rightarrow> hst \<Rightarrow> hst" where
  "host_serves host s =
     (let (r, m) = host (hsc s) (hmem s) in s\<lparr>hmem := m, hsc := (hsc s)\<lparr>syscallno := r\<rparr>\<rparr>)"

definition threadswitch :: "host \<Rightarrow> hst \<Rightarrow> hst option" where
  "threadswitch host s =
     (if hsync s
      then Some (set_sc (\<lambda>sc. sc\<lparr>status := 2\<rparr>) (host_serves host (set_sc (\<lambda>sc. sc\<lparr>status := 1\<rparr>) s)))
      else if status (hsc s) = 1 then None
      else Some (host_serves host s))"

text \<open>Each call ends by setting the status to 0; those that use the arena reset it first.\<close>

definition set_status_0 :: "hst \<Rightarrow> hst" where
  "set_status_0 s = set_sc (\<lambda>sc. sc\<lparr>status := 0\<rparr>) s"

definition arena_free :: "hst \<Rightarrow> hst" where
  "arena_free s = s\<lparr>harena := (harena s)\<lparr>allocated := 0\<rparr>\<rparr>"

definition arena_alloc :: "u64 \<Rightarrow> hst \<Rightarrow> u64 \<times> hst" where
  "arena_alloc sz s =
     (if sz = 0 then (0, s)
      else (amem (harena s) + allocated (harena s),
            s\<lparr>harena := (harena s)\<lparr>allocated := allocated (harena s) + sz\<rparr>\<rparr>))"

definition host_syscall_SYS_mmap ::
    "host \<Rightarrow> u64 \<Rightarrow> u64 \<Rightarrow> i32 \<Rightarrow> i32 \<Rightarrow> i32 \<Rightarrow> u64 \<Rightarrow> hst \<Rightarrow> (hst \<times> u64) option" where
  "host_syscall_SYS_mmap host addr len prot flags fd offset s = do {
     s \<leftarrow> threadswitch host (set_sc (\<lambda>sc. sc\<lparr>syscallno := 9, arg1 := addr, arg2 := len,
            arg3 := scast prot, arg4 := scast flags, arg5 := scast fd, arg6 := offset\<rparr>) s);
     Some (set_status_0 s, ret_val (hsc s))
   }"

definition host_syscall_SYS_mremap ::
    "host \<Rightarrow> u64 \<Rightarrow> u64 \<Rightarrow> u64 \<Rightarrow> i32 \<Rightarrow> u64 \<Rightarrow> hst \<Rightarrow> (hst \<times> u64) option" where
  "host_syscall_SYS_mremap host old_addr old_size new_size flags new_addr s = do {
     s \<leftarrow> threadswitch host (set_sc (\<lambda>sc. sc\<lparr>syscallno := 25, arg1 := old_addr, arg2 := old_size,
            arg3 := new_size, arg4 := scast flags, arg5 := new_addr\<rparr>) s);
     Some (set_status_0 s, ret_val (hsc s))
   }"

definition host_syscall_SYS_munmap :: "host \<Rightarrow> u64 \<Rightarrow> u64 \<Rightarrow> hst \<Rightarrow> (hst \<times> i32) option" where
  "host_syscall_SYS_munmap host addr len s = do {
     s \<leftarrow> threadswitch host (set_sc (\<lambda>sc. sc\<lparr>syscallno := 11, arg1 := addr, arg2 := len\<rparr>) s);
     Some (set_status_0 s, ucast (ret_val (hsc s)))
   }"

definition host_syscall_SYS_msync :: "host \<Rightarrow> u64 \<Rightarrow> u64 \<Rightarrow> i32 \<Rightarrow> hst \<Rightarrow> (hst \<times> i32) option" where
  "host_syscall_SYS_msync host addr len flags s = do {
     s \<leftarrow> threadswitch host (set_sc (\<lambda>sc. sc\<lparr>syscallno := 26, arg1 := addr, arg2 := len,
            arg3 := scast flags\<rparr>) s);
     Some (set_status_0 s, ucast (ret_val (hsc s)))
   }"

text \<open>
  A pointer is never below 0: the tests of \<open>arena_new\<close> and \<open>arena_ensure\<close> for a failed mapping
  never fail, whatever the host answers.
\<close>

definition arena_new :: "host \<Rightarrow> u64 \<Rightarrow> hst \<Rightarrow> hst option" where
  "arena_new host sz s = do {
     (s, p) \<leftarrow> host_syscall_SYS_mmap host 0 sz 3 0x22 0 0 s;
     Some (s\<lparr>harena := (harena s)\<lparr>amem := p, asize := sz\<rparr>\<rparr>)
   }"

definition arena_ensure :: "host \<Rightarrow> u64 \<Rightarrow> hst \<Rightarrow> hst option" where
  "arena_ensure host sz s =
     (if asize (harena s) < sz
      then do {
        (s, newmem) \<leftarrow> host_syscall_SYS_mremap host (amem (harena s)) (asize (harena s)) sz 1 0 s;
        Some (s\<lparr>harena := (harena s)\<lparr>amem := newmem, asize := sz\<rparr>\<rparr>)
      }
      else Some s)"

definition arena_destroy :: "host \<Rightarrow> hst \<Rightarrow> hst option" where
  "arena_destroy host s =
     (if amem (harena s) \<noteq> 0
      then do {
        (s, _) \<leftarrow> host_syscall_SYS_munmap host (amem (harena s)) (asize (harena s)) s;
        Some (s\<lparr>harena := (harena s)\<lparr>amem := 0, asize := 0\<rparr>\<rparr>)
      }
      else Some s)"

section \<open>Calls without buffers\<close>

definition host_syscall_SYS_close :: "host \<Rightarrow> i32 \<Rightarrow> hst \<Rightarrow> (hst \<times> i32) option" where
  "host_syscall_SYS_close host fd s = do {
     s \<leftarrow> threadswitch host (set_sc (\<lambda>sc. sc\<lparr>syscallno := 3, arg1 := scast fd\<rparr>) s);
     Some (set_status_0 s, ucast (ret_val (hsc s)))
   }"

definition host_syscall_SYS_fdatasync :: "host \<Rightarrow> i32 \<Rightarrow> hst \<Rightarrow> (hst \<times> i32) option" where
  "host_syscall_SYS_fdatasync host fd s = do {
     s \<leftarrow> threadswitch host (set_sc (\<lambda>sc. sc\<lparr>syscallno := 75, arg1 := scast fd\<rparr>) s);
     Some (set_status_0 s, ucast (ret_val (hsc s)))
   }"

definition host_syscall_SYS_mprotect :: "host \<Rightarrow> u64 \<Rightarrow> u64 \<Rightarrow> i32 \<Rightarrow> hst \<Rightarrow> (hst \<times> i32) option" where
  "host_syscall_SYS_mprotect host addr len prot s = do {
     s \<leftarrow> threadswitch host (set_sc (\<lambda>sc. sc\<lparr>syscallno := 10, arg1 := addr, arg2 := len,
            arg3 := scast prot\<rparr>) s);
     Some (set_status_0 (arena_free s), ucast (ret_val (hsc s)))
   }"

definition host_syscall_SYS_tkill :: "host \<Rightarrow> i32 \<Rightarrow> i32 \<Rightarrow> hst \<Rightarrow> (hst \<times> i32) option" where
  "host_syscall_SYS_tkill host tid sig s = do {
     s \<leftarrow> threadswitch host (set_sc (\<lambda>sc. sc\<lparr>syscallno := 200, arg1 := scast tid, arg2 := scast sig\<rparr>) s);
     Some (set_status_0 s, ucast (ret_val (hsc s)))
   }"

definition host_syscall_SYS_gettid :: "host \<Rightarrow> hst \<Rightarrow> (hst \<times> i32) option" where
  "host_syscall_SYS_gettid host s = do {
     s \<leftarrow> threadswitch host (set_sc (\<lambda>sc. sc\<lparr>syscallno := 186\<rparr>) s);
     Some (set_status_0 s, ucast (ret_val (hsc s)))
   }"

section \<open>Calls with one buffer\<close>

definition sizeof_stat :: u64 where "sizeof_stat = 144"
definition sizeof_pollfd :: u64 where "sizeof_pollfd = 8"
definition sizeof_int :: u64 where "sizeof_int = 4"
definition sizeof_flock :: u64 where "sizeof_flock = 32"
definition sizeof_f_owner_ex :: u64 where "sizeof_f_owner_ex = 8"
definition sizeof_ifreq :: u64 where "sizeof_ifreq = 40"
definition sizeof_iovec :: u64 where "sizeof_iovec = 16"
definition sizeof_sigset_t :: u64 where "sizeof_sigset_t = 128"
definition sizeof_siginfo_t :: u64 where "sizeof_siginfo_t = 128"
definition sizeof_timespec :: u64 where "sizeof_timespec = 16"

text \<open>The length of the argument of \<open>fcntl\<close>, 0 when it is not a pointer; later tests override earlier ones.\<close>

definition fcntl_len :: "u64 \<Rightarrow> u64" where
  "fcntl_len cmd =
     (if cmd = 6 then sizeof_flock
      else if cmd = 17 then 2 * sizeof_int
      else if cmd = 5 then sizeof_flock
      else if cmd = 38 then sizeof_flock
      else if cmd = 7 then sizeof_flock
      else if cmd = 16 then sizeof_f_owner_ex
      else if cmd = 36 then sizeof_flock
      else if cmd = 15 then sizeof_f_owner_ex
      else if cmd = 37 then sizeof_flock
      else 0)"

definition host_syscall_SYS_fcntl :: "host \<Rightarrow> i32 \<Rightarrow> u64 \<Rightarrow> u64 \<Rightarrow> hst \<Rightarrow> (hst \<times> i32) option" where
  "host_syscall_SYS_fcntl host fd cmd arg s = do {
     let len = fcntl_len cmd;
     s \<leftarrow> (if len > 0 then arena_ensure host len s else Some s);
     let (val, s) = arena_alloc len s;
     let s = copy_if (len \<noteq> 0 \<and> arg \<noteq> 0) val arg len s;
     s \<leftarrow> threadswitch host (set_sc (\<lambda>sc. sc\<lparr>syscallno := 72, arg1 := scast fd, arg2 := cmd,
            arg3 := (if len = 0 then arg else val)\<rparr>) s);
     Some (set_status_0 (arena_free (copy_if (len > 0 \<and> arg \<noteq> 0) arg val len s)),
           ucast (ret_val (hsc s)))
   }"

definition host_syscall_SYS_fstat :: "host \<Rightarrow> i32 \<Rightarrow> u64 \<Rightarrow> hst \<Rightarrow> (hst \<times> i32) option" where
  "host_syscall_SYS_fstat host fd buf s = do {
     let len2 = sizeof_stat;
     s \<leftarrow> arena_ensure host len2 s;
     let (val2, s) = arena_alloc len2 s;
     s \<leftarrow> threadswitch host (set_sc (\<lambda>sc. sc\<lparr>syscallno := 5, arg1 := scast fd, arg2 := val2\<rparr>) s);
     Some (set_status_0 (arena_free (copy_if (val2 \<noteq> 0 \<and> buf \<noteq> 0) buf val2 len2 s)),
           ucast (ret_val (hsc s)))
   }"

definition host_syscall_SYS_poll :: "host \<Rightarrow> u64 \<Rightarrow> u64 \<Rightarrow> i32 \<Rightarrow> hst \<Rightarrow> (hst \<times> i32) option" where
  "host_syscall_SYS_poll host fds nfds timeout s = do {
     let len1 = sizeof_pollfd * nfds;
     s \<leftarrow> arena_ensure host len1 s;
     let (val1, s) = arena_alloc len1 s;
     let s = copy_if (fds \<noteq> 0 \<and> val1 \<noteq> 0) val1 fds len1 s;
     s \<leftarrow> threadswitch host (set_sc (\<lambda>sc. sc\<lparr>syscallno := 7, arg1 := val1, arg2 := nfds,
            arg3 := scast timeout\<rparr>) s);
     Some (set_status_0 (arena_free (copy_if (val1 \<noteq> 0 \<and> fds \<noteq> 0) fds val1 len1 s)),
           ucast (ret_val (hsc s)))
   }"

text \<open>The requests of \<open>ioctl\<close> whose argument is a \<open>struct ifreq\<close>; any other argument is passed as it is.\<close>

definition ioctl_len :: "u64 \<Rightarrow> u64" where
  "ioctl_len request =
     (if request \<in> {0x8910, 0x8933, 0x8913, 0x8914, 0x8935, 0x8934, 0x8915, 0x8916, 0x8917, 0x8918,
         0x8919, 0x891a, 0x891b, 0x891c, 0x891d, 0x891e, 0x8921, 0x8922, 0x8927, 0x8924,
         0x8937, 0x8970, 0x8971, 0x8931, 0x8932, 0x8942, 0x8943, 0x8923}
      then sizeof_ifreq else 0)"

definition host_syscall_SYS_ioctl :: "host \<Rightarrow> i32 \<Rightarrow> u64 \<Rightarrow> u64 \<Rightarrow> hst \<Rightarrow> (hst \<times> i32) option" where
  "host_syscall_SYS_ioctl host fd request arg s = do {
     let len3 = ioctl_len request;
     s \<leftarrow> (if len3 \<noteq> 0 then arena_ensure host len3 s else Some s);
     let (val3, s) = (if len3 \<noteq> 0 then arena_alloc len3 s else (arg, s));
     let s = copy_if (len3 \<noteq> 0 \<and> val3 \<noteq> 0 \<and> arg \<noteq> 0) val3 arg len3 s;
     s \<leftarrow> threadswitch host (set_sc (\<lambda>sc. sc\<lparr>syscallno := 16, arg1 := scast fd, arg2 := request,
            arg3 := val3\<rparr>) s);
     Some (set_status_0 (arena_free (copy_if (len3 \<noteq> 0 \<and> val3 \<noteq> 0 \<and> arg \<noteq> 0) arg val3 len3 s)),
           ucast (ret_val (hsc s)))
   }"

definition host_syscall_SYS_pipe :: "host \<Rightarrow> u64 \<Rightarrow> hst \<Rightarrow> (hst \<times> i32) option" where
  "host_syscall_SYS_pipe host pipefd s = do {
     let len1 = sizeof_int * 2;
     s \<leftarrow> arena_ensure host len1 s;
     let (val1, s) = arena_alloc len1 s;
     s \<leftarrow> threadswitch host (set_sc (\<lambda>sc. sc\<lparr>syscallno := 22, arg1 := val1\<rparr>) s);
     Some (set_status_0 (arena_free (copy_if (val1 \<noteq> 0 \<and> pipefd \<noteq> 0) pipefd val1 len1 s)),
           ucast (ret_val (hsc s)))
   }"

definition host_syscall_SYS_pread64 :: "host \<Rightarrow> i32 \<Rightarrow> u64 \<Rightarrow> u64 \<Rightarrow> u64 \<Rightarrow> hst \<Rightarrow> (hst \<times> u64) option" where
  "host_syscall_SYS_pread64 host fd buf cnt offset s = do {
     let len2 = cnt;
     s \<leftarrow> arena_ensure host len2 s;
     let (val2, s) = arena_alloc len2 s;
     s \<leftarrow> threadswitch host (set_sc (\<lambda>sc. sc\<lparr>syscallno := 17, arg1 := scast fd, arg2 := val2,
            arg3 := cnt, arg4 := offset\<rparr>) s);
     Some (set_status_0 (arena_free (copy_if (val2 \<noteq> 0 \<and> buf \<noteq> 0) buf val2 len2 s)),
           ret_val (hsc s))
   }"

definition host_syscall_SYS_pwrite64 :: "host \<Rightarrow> i32 \<Rightarrow> u64 \<Rightarrow> u64 \<Rightarrow> u64 \<Rightarrow> hst \<Rightarrow> (hst \<times> u64) option" where
  "host_syscall_SYS_pwrite64 host fd buf cnt offset s = do {
     let len2 = cnt;
     s \<leftarrow> arena_ensure host len2 s;
     let (val2, s) = arena_alloc len2 s;
     let s = copy_if (buf \<noteq> 0 \<and> val2 \<noteq> 0) val2 buf len2 s;
     s \<leftarrow> threadswitch host (set_sc (\<lambda>sc. sc\<lparr>syscallno := 18, arg1 := scast fd, arg2 := val2,
            arg3 := cnt, arg4 := offset\<rparr>) s);
     Some (set_status_0 (arena_free s), ret_val (hsc s))
   }"

definition host_syscall_SYS_read :: "host \<Rightarrow> i32 \<Rightarrow> u64 \<Rightarrow> u64 \<Rightarrow> hst \<Rightarrow> (hst \<times> u64) option" where
  "host_syscall_SYS_read host fd buf cnt s = do {
     let len2 = cnt;
     s \<leftarrow> arena_ensure host len2 s;
     let (val2, s) = arena_alloc len2 s;
     s \<leftarrow> threadswitch host (set_sc (\<lambda>sc. sc\<lparr>syscallno := 0, arg1 := scast fd, arg2 := val2,
            arg3 := cnt\<rparr>) s);
     Some (set_status_0 (arena_free (copy_if (val2 \<noteq> 0 \<and> buf \<noteq> 0) buf val2 len2 s)),
           ret_val (hsc s))
   }"

definition host_syscall_SYS_write :: "host \<Rightarrow> i32 \<Rightarrow> u64 \<Rightarrow> u64 \<Rightarrow> hst \<Rightarrow> (hst \<times> u64) option" where
  "host_syscall_SYS_write host fd buf cnt s = do {
     let len2 = cnt;
     s \<leftarrow> arena_ensure host len2 s;
     let (val2, s) = arena_alloc len2 s;
     let s = copy_if (buf \<noteq> 0 \<and> val2 \<noteq> 0) val2 buf len2 s;
     s \<leftarrow> threadswitch host (set_sc (\<lambda>sc. sc\<lparr>syscallno := 1, arg1 := scast fd, arg2 := val2,
            arg3 := cnt\<rparr>) s);
     Some (set_status_0 (arena_free s), ret_val (hsc s))
   }"

definition host_syscall_SYS_rt_sigpending :: "host \<Rightarrow> u64 \<Rightarrow> u64 \<Rightarrow> hst \<Rightarrow> (hst \<times> i32) option" where
  "host_syscall_SYS_rt_sigpending host sset nsig s = do {
     let len1 = nsig;
     s \<leftarrow> arena_ensure host len1 s;
     let (val1, s) = arena_alloc len1 s;
     s \<leftarrow> threadswitch host (set_sc (\<lambda>sc. sc\<lparr>syscallno := 127, arg1 := val1, arg2 := nsig\<rparr>) s);
     Some (set_status_0 (arena_free (copy_if (val1 \<noteq> 0 \<and> sset \<noteq> 0) sset val1 len1 s)),
           ucast (ret_val (hsc s)))
   }"

definition host_syscall_SYS_rt_sigsuspend :: "host \<Rightarrow> u64 \<Rightarrow> u64 \<Rightarrow> hst \<Rightarrow> (hst \<times> i32) option" where
  "host_syscall_SYS_rt_sigsuspend host mask' nsig s = do {
     let len1 = sizeof_sigset_t;
     s \<leftarrow> arena_ensure host len1 s;
     let (val1, s) = arena_alloc len1 s;
     let s = copy_if (mask' \<noteq> 0 \<and> val1 \<noteq> 0) val1 mask' len1 s;
     s \<leftarrow> threadswitch host (set_sc (\<lambda>sc. sc\<lparr>syscallno := 130, arg1 := val1, arg2 := nsig\<rparr>) s);
     Some (set_status_0 (arena_free s), ucast (ret_val (hsc s)))
   }"

definition host_syscall_SYS_clock_getres :: "host \<Rightarrow> i32 \<Rightarrow> u64 \<Rightarrow> hst \<Rightarrow> (hst \<times> i32) option" where
  "host_syscall_SYS_clock_getres host clk_id res s = do {
     let len2 = sizeof_timespec;
     s \<leftarrow> arena_ensure host len2 s;
     let (val2, s) = arena_alloc len2 s;
     s \<leftarrow> threadswitch host (set_sc (\<lambda>sc. sc\<lparr>syscallno := 229, arg1 := scast clk_id, arg2 := val2\<rparr>) s);
     Some (set_status_0 (arena_free (copy_if (val2 \<noteq> 0 \<and> res \<noteq> 0) res val2 len2 s)),
           ucast (ret_val (hsc s)))
   }"

definition host_syscall_SYS_clock_gettime :: "host \<Rightarrow> i32 \<Rightarrow> u64 \<Rightarrow> hst \<Rightarrow> (hst \<times> i32) option" where
  "host_syscall_SYS_clock_gettime host clk_id tp s = do {
     let len2 = sizeof_timespec;
     s \<leftarrow> arena_ensure host len2 s;
     let (val2, s) = arena_alloc len2 s;
     s \<leftarrow> threadswitch host (set_sc (\<lambda>sc. sc\<lparr>syscallno := 228, arg1 := scast clk_id, arg2 := val2\<rparr>) s);
     Some (set_status_0 (arena_free (copy_if (val2 \<noteq> 0 \<and> tp \<noteq> 0) tp val2 len2 s)),
           ucast (ret_val (hsc s)))
   }"

section \<open>Calls with two or three buffers\<close>

definition host_syscall_SYS_rt_sigaction ::
    "u64 \<Rightarrow> host \<Rightarrow> i32 \<Rightarrow> u64 \<Rightarrow> u64 \<Rightarrow> u64 \<Rightarrow> hst \<Rightarrow> (hst \<times> i32) option" where
  "host_syscall_SYS_rt_sigaction sizeof_k_sigaction host signum act oldact nsig s = do {
     let len2 = sizeof_k_sigaction;
     let len3 = sizeof_k_sigaction;
     s \<leftarrow> arena_ensure host (len2 + len3) s;
     let (val2, s) = arena_alloc len2 s;
     let s = copy_if (act \<noteq> 0 \<and> val2 \<noteq> 0) val2 act len2 s;
     let a2 = (if act \<noteq> 0 \<and> val2 \<noteq> 0 then val2 else 0);
     let (val3, s) = arena_alloc len3 s;
     s \<leftarrow> threadswitch host (set_sc (\<lambda>sc. sc\<lparr>syscallno := 13, arg1 := scast signum, arg2 := a2,
            arg3 := val3, arg4 := nsig\<rparr>) s);
     Some (set_status_0 (arena_free (copy_if (val3 \<noteq> 0 \<and> oldact \<noteq> 0) oldact val3 len3 s)),
           ucast (ret_val (hsc s)))
   }"

definition host_syscall_SYS_rt_sigprocmask ::
    "host \<Rightarrow> i32 \<Rightarrow> u64 \<Rightarrow> u64 \<Rightarrow> u64 \<Rightarrow> hst \<Rightarrow> (hst \<times> i32) option" where
  "host_syscall_SYS_rt_sigprocmask host how sset oldset nsig s = do {
     let len2 = nsig;
     let len3 = nsig;
     s \<leftarrow> arena_ensure host (len2 + len3) s;
     let (val2, s) = arena_alloc len2 s;
     let s = copy_if (sset \<noteq> 0 \<and> val2 \<noteq> 0) val2 sset len2 s;
     let (val3, s) = arena_alloc len3 s;
     s \<leftarrow> threadswitch host (set_sc (\<lambda>sc. sc\<lparr>syscallno := 14, arg1 := scast how, arg2 := val2,
            arg3 := val3, arg4 := nsig\<rparr>) s);
     Some (set_status_0 (arena_free (copy_if (val3 \<noteq> 0 \<and> oldset \<noteq> 0) oldset val3 len3 s)),
           ucast (ret_val (hsc s)))
   }"

definition host_syscall_SYS_rt_sigtimedwait ::
    "host \<Rightarrow> u64 \<Rightarrow> u64 \<Rightarrow> u64 \<Rightarrow> u64 \<Rightarrow> hst \<Rightarrow> (hst \<times> i32) option" where
  "host_syscall_SYS_rt_sigtimedwait host sset info timeout nsig s = do {
     let len1 = sizeof_sigset_t;
     let len2 = (if info \<noteq> 0 then sizeof_siginfo_t else 0);
     let len3 = (if timeout \<noteq> 0 then sizeof_timespec else 0);
     s \<leftarrow> arena_ensure host (len1 + len2 + len3) s;
     let (val1, s) = arena_alloc len1 s;
     let s = copy_if (sset \<noteq> 0 \<and> val1 \<noteq> 0) val1 sset len1 s;
     let (val2, s) = (if info \<noteq> 0 then arena_alloc len2 s else (0, s));
     let (val3, s) = (if timeout \<noteq> 0 then arena_alloc len3 s else (0, s));
     let s = copy_if (timeout \<noteq> 0 \<and> val3 \<noteq> 0) val3 timeout len3 s;
     s \<leftarrow> threadswitch host (set_sc (\<lambda>sc. sc\<lparr>syscallno := 128, arg1 := val1, arg2 := val2,
            arg3 := val3, arg4 := nsig\<rparr>) s);
     Some (set_status_0 (arena_free (copy_if (info \<noteq> 0 \<and> val2 \<noteq> 0) info val2 len2 s)),
           ucast (ret_val (hsc s)))
   }"

definition host_syscall_SYS_nanosleep :: "host \<Rightarrow> u64 \<Rightarrow> u64 \<Rightarrow> hst \<Rightarrow> (hst \<times> i32) option" where
  "host_syscall_SYS_nanosleep host req rem s = do {
     let len1 = sizeof_timespec;
     let len2 = sizeof_timespec;
     s \<leftarrow> arena_ensure host (len1 + len2) s;
     let (val1, s) = arena_alloc len1 s;
     let s = copy_if (req \<noteq> 0 \<and> val1 \<noteq> 0) val1 req len1 s;
     let (val2, s) = arena_alloc len2 s;
     s \<leftarrow> threadswitch host (set_sc (\<lambda>sc. sc\<lparr>syscallno := 35, arg1 := val1, arg2 := val2\<rparr>) s);
     Some (set_status_0 (arena_free (copy_if (val2 \<noteq> 0 \<and> rem \<noteq> 0) rem val2 len2 s)),
           ucast (ret_val (hsc s)))
   }"

section \<open>Scatter and gather\<close>

text \<open>A \<open>struct iovec\<close> is the base address followed by the length, each in eight little-endian bytes.\<close>

definition load64 :: "memory \<Rightarrow> u64 \<Rightarrow> u64" where
  "load64 m a = foldr (\<lambda>i w. push_bit 8 w OR ucast (m (a + of_nat i))) [0..<8] 0"

definition store64 :: "u64 \<Rightarrow> u64 \<Rightarrow> memory \<Rightarrow> memory" where
  "store64 a v m = (\<lambda>x. if x - a < 8 then ucast (drop_bit (8 * unat (x - a)) v) else m x)"

definition deepsizeiovec :: "u64 \<Rightarrow> hst \<Rightarrow> u64" where
  "deepsizeiovec dst s = sizeof_iovec + load64 (hmem s) (dst + 8)"

definition deepinitiovec :: "u64 \<Rightarrow> u64 \<Rightarrow> hst \<Rightarrow> hst" where
  "deepinitiovec dst src s =
     (let len = load64 (hmem s) (src + 8);
          (p, s) = arena_alloc len (s\<lparr>hmem := store64 (dst + 8) len (hmem s)\<rparr>)
      in s\<lparr>hmem := store64 dst p (hmem s)\<rparr>)"

definition deepcopyiovec :: "u64 \<Rightarrow> u64 \<Rightarrow> hst \<Rightarrow> hst option" where
  "deepcopyiovec dst src s =
     (if load64 (hmem s) (dst + 8) \<noteq> load64 (hmem s) (src + 8) then None
      else let m = memcpy (load64 (hmem s) dst) (load64 (hmem s) src) (load64 (hmem s) (src + 8)) (hmem s)
           in Some (s\<lparr>hmem := store64 (dst + 8) (load64 m (src + 8)) m\<rparr>))"

fun deepsize_loop :: "u64 \<Rightarrow> nat \<Rightarrow> hst \<Rightarrow> u64" where
  "deepsize_loop iov 0 s = 0"
| "deepsize_loop iov (Suc k) s = deepsizeiovec iov s + deepsize_loop (iov + 16) k s"

fun deepinit_loop :: "u64 \<Rightarrow> u64 \<Rightarrow> nat \<Rightarrow> hst \<Rightarrow> hst" where
  "deepinit_loop dst src 0 s = s"
| "deepinit_loop dst src (Suc k) s = deepinit_loop (dst + 16) (src + 16) k (deepinitiovec dst src s)"

fun deepcopy_loop :: "u64 \<Rightarrow> u64 \<Rightarrow> nat \<Rightarrow> hst \<Rightarrow> hst option" where
  "deepcopy_loop dst src 0 s = Some s"
| "deepcopy_loop dst src (Suc k) s = do {
     s \<leftarrow> deepcopyiovec dst src s;
     deepcopy_loop (dst + 16) (src + 16) k s
   }"

text \<open>The counter of the loops is a \<open>size_t\<close>, so a negative count is read as a large one.\<close>

definition host_syscall_SYS_readv :: "host \<Rightarrow> i32 \<Rightarrow> u64 \<Rightarrow> i32 \<Rightarrow> hst \<Rightarrow> (hst \<times> u64) option" where
  "host_syscall_SYS_readv host fd iov iovcnt s = do {
     let n = unat (scast iovcnt :: u64);
     s \<leftarrow> arena_ensure host (deepsize_loop iov n s) s;
     let (val2, s) = arena_alloc (sizeof_iovec * scast iovcnt) s;
     let s = deepinit_loop val2 iov n s;
     s \<leftarrow> threadswitch host (set_sc (\<lambda>sc. sc\<lparr>syscallno := 19, arg1 := scast fd, arg2 := val2,
            arg3 := scast iovcnt\<rparr>) s);
     let r = ret_val (hsc s);
     s \<leftarrow> deepcopy_loop iov val2 n s;
     Some (set_status_0 (arena_free s), r)
   }"

definition host_syscall_SYS_writev :: "host \<Rightarrow> i32 \<Rightarrow> u64 \<Rightarrow> i32 \<Rightarrow> hst \<Rightarrow> (hst \<times> u64) option" where
  "host_syscall_SYS_writev host fd iov iovcnt s = do {
     let n = unat (scast iovcnt :: u64);
     s \<leftarrow> arena_ensure host (deepsize_loop iov n s) s;
     let (val2, s) = arena_alloc (sizeof_iovec * scast iovcnt) s;
     let s = deepinit_loop val2 iov n s;
     s \<leftarrow> deepcopy_loop val2 iov n s;
     s \<leftarrow> threadswitch host (set_sc (\<lambda>sc. sc\<lparr>syscallno := 20, arg1 := scast fd, arg2 := val2,
            arg3 := scast iovcnt\<rparr>) s);
     Some (set_status_0 (arena_free s), ret_val (hsc s))
   }"

section \<open>What a call may touch\<close>

definition bytes_at :: "u64 \<Rightarrow> u64 \<Rightarrow> u64 set" where
  "bytes_at p n = {a. a - p < n}"

definition arena_bytes :: "hst \<Rightarrow> u64 set" where
  "arena_bytes s = bytes_at (amem (harena s)) (asize (harena s))"

definition host_keeps :: "u64 set \<Rightarrow> host \<Rightarrow> bool" where
  "host_keeps keep host \<longleftrightarrow> (\<forall>sc m. \<forall>a\<in>keep. snd (host sc m) a = m a)"

text \<open>Between calls the status is 0 and the arena empty.\<close>

definition idle :: "hst \<Rightarrow> bool" where
  "idle s \<longleftrightarrow> status (hsc s) = 0 \<and> allocated (harena s) = 0"

definition call_ok :: "u64 set \<Rightarrow> u64 set \<Rightarrow> hst \<Rightarrow> (hst \<times> 'r) option \<Rightarrow> bool" where
  "call_ok keep out s res \<longleftrightarrow> (\<exists>s' r. res = Some (s', r) \<and> idle s' \<and>
     (\<forall>a\<in>keep. a \<notin> arena_bytes s' \<longrightarrow> a \<notin> out \<longrightarrow> hmem s' a = hmem s a))"

text \<open>A call under way: \<open>used\<close> bytes of the arena are allocated, and only the arena was written.\<close>

definition under_way :: "u64 set \<Rightarrow> hst \<Rightarrow> hst \<Rightarrow> nat \<Rightarrow> bool" where
  "under_way keep s t used \<longleftrightarrow> status (hsc t) = 0 \<and> unat (allocated (harena t)) = used \<and>
     (\<forall>a\<in>keep. a \<notin> arena_bytes t \<longrightarrow> hmem t a = hmem s a)"

lemma threadswitch_idle:
  assumes "status (hsc s) = 0"
  shows "\<exists>s'. threadswitch host s = Some s' \<and> harena s' = harena s \<and> hsync s' = hsync s \<and>
    hmem s' = snd (host (if hsync s then (hsc s)\<lparr>status := 1\<rparr> else hsc s) (hmem s)) \<and>
    ret_val (hsc s') = fst (host (if hsync s then (hsc s)\<lparr>status := 1\<rparr> else hsc s) (hmem s))"
  using assms by (simp add: threadswitch_def host_serves_def set_sc_def split: prod.split)

lemma arena_fields [simp]:
  "amem (harena (snd (arena_alloc n s))) = amem (harena s)"
  "asize (harena (snd (arena_alloc n s))) = asize (harena s)"
  "hmem (snd (arena_alloc n s)) = hmem s"
  "hsc (snd (arena_alloc n s)) = hsc s"
  "hsync (snd (arena_alloc n s)) = hsync s"
  "harena (copy_if p d src n s) = harena s"
  "hsc (copy_if p d src n s) = hsc s"
  "hsync (copy_if p d src n s) = hsync s"
  by (simp_all add: arena_alloc_def copy_if_def)

lemma arena_ensure_ok:
  assumes "idle s" and "host_keeps keep host"
  shows "\<exists>t. arena_ensure host n s = Some t \<and> under_way keep s t 0 \<and> unat n \<le> unat (asize (harena t)) \<and>
    hsync t = hsync s"
proof (cases "asize (harena s) < n")
  case True
  let ?s = "set_sc (\<lambda>sc. sc\<lparr>syscallno := 25, arg1 := amem (harena s), arg2 := asize (harena s),
    arg3 := n, arg4 := scast (1 :: i32), arg5 := 0\<rparr>) s"
  have "status (hsc ?s) = 0" using assms(1) by (simp add: set_sc_def idle_def)
  from threadswitch_idle [OF this, of host] obtain t where t: "threadswitch host ?s = Some t"
    "harena t = harena ?s" "hsync t = hsync s" "hmem t = snd (host (if hsync s then (hsc ?s)\<lparr>status := 1\<rparr> else hsc ?s) (hmem ?s))"
    by (auto simp: set_sc_def)
  show ?thesis using True t assms
    by (simp add: arena_ensure_def host_syscall_SYS_mremap_def under_way_def set_status_0_def idle_def
        host_keeps_def) (simp add: set_sc_def)
next
  case False
  then have "arena_ensure host n s = Some s" "unat n \<le> unat (asize (harena s))"
    by (simp_all add: arena_ensure_def word_less_nat_alt)
  then show ?thesis using assms(1) by (simp add: under_way_def idle_def)
qed

lemma arena_alloc_bytes:
  assumes "unat (allocated (harena t)) + unat n \<le> unat (asize (harena t))"
  shows "bytes_at (fst (arena_alloc n t)) n \<subseteq> arena_bytes t"
    and "unat (allocated (harena (snd (arena_alloc n t)))) = unat (allocated (harena t)) + unat n"
proof -
  let ?A = "harena t"
  have lt: "unat (allocated ?A) + unat n < 2 ^ LENGTH(64)" by (rule order_le_less_trans [OF assms unsigned_less])
  show "unat (allocated (harena (snd (arena_alloc n t)))) = unat (allocated ?A) + unat n"
    using unat_add_small [of "allocated ?A" n] lt by (simp add: arena_alloc_def)
  show "bytes_at (fst (arena_alloc n t)) n \<subseteq> arena_bytes t"
  proof
    fix a assume "a \<in> bytes_at (fst (arena_alloc n t)) n"
    then have a: "a - (amem ?A + allocated ?A) < n" by (auto simp: bytes_at_def arena_alloc_def split: if_splits)
    define d where "d = a - (amem ?A + allocated ?A)"
    have d: "unat d < unat n" using a by (simp add: d_def word_less_nat_alt)
    have "a - amem ?A = allocated ?A + d" by (simp add: d_def)
    also have "unat \<dots> = unat (allocated ?A) + unat d" by (rule unat_add_small) (use d lt in simp)
    finally show "a \<in> arena_bytes t" using d assms by (simp add: arena_bytes_def bytes_at_def word_less_nat_alt)
  qed
qed

lemma copy_if_frame: "a \<notin> bytes_at d n \<Longrightarrow> hmem (copy_if p d src n s) a = hmem s a"
  by (simp add: copy_if_def memcpy_def bytes_at_def)

lemma under_way_alloc:
  assumes "under_way keep s t used" and "used + unat n \<le> unat (asize (harena t))"
  shows "under_way keep s (snd (arena_alloc n t)) (used + unat n)"
  using assms arena_alloc_bytes(2) [of t n] by (simp add: under_way_def arena_bytes_def)

lemma under_way_copy:
  assumes "under_way keep s t used" and "used + unat n \<le> unat (asize (harena t))"
  shows "under_way keep s (copy_if p (fst (arena_alloc n t)) src n (snd (arena_alloc n t))) (used + unat n)"
proof -
  have u: "unat (allocated (harena t)) = used" using assms(1) by (simp add: under_way_def)
  have "bytes_at (fst (arena_alloc n t)) n \<subseteq> arena_bytes t" using arena_alloc_bytes(1) [of t n] assms(2) u by simp
  then have "hmem (copy_if p (fst (arena_alloc n t)) src n (snd (arena_alloc n t))) a = hmem t a"
    if "a \<notin> arena_bytes t" for a
    using that copy_if_frame [of a _ n p src "snd (arena_alloc n t)"] by auto
  then show ?thesis using under_way_alloc [OF assms] by (simp add: under_way_def arena_bytes_def)
qed

lemma call_tail:
  assumes u: "under_way keep s t used" and k: "host_keeps keep host" and f: "\<And>sc. status (f sc) = status sc"
    and out: "p \<Longrightarrow> bytes_at d n \<subseteq> out"
  shows "call_ok keep out s (do {
     s \<leftarrow> threadswitch host (set_sc f t);
     Some (set_status_0 (arena_free (copy_if p d v n s)), g s) })"
proof -
  have "status (hsc (set_sc f t)) = 0" using u f by (simp add: set_sc_def under_way_def)
  from threadswitch_idle [OF this, of host] obtain t' where t': "threadswitch host (set_sc f t) = Some t'"
    "harena t' = harena t"
    "hmem t' = snd (host (if hsync t then (f (hsc t))\<lparr>status := 1\<rparr> else f (hsc t)) (hmem t))"
    by (auto simp: set_sc_def)
  have "hmem (copy_if p d v n t') a = hmem s a" if "a \<in> keep" "a \<notin> arena_bytes t" "a \<notin> out" for a
  proof -
    have "hmem t' a = hmem s a" using t'(3) k u that by (simp add: host_keeps_def under_way_def)
    moreover have "hmem (copy_if p d v n t') a = hmem t' a"
      using out that(3) copy_if_frame by (cases p) (auto simp: copy_if_def memcpy_def bytes_at_def)
    ultimately show ?thesis by simp
  qed
  then show ?thesis using t'
    by (simp add: call_ok_def idle_def set_status_0_def arena_free_def set_sc_def arena_bytes_def)
qed

lemma call_tail_plain:
  assumes u: "under_way keep s t used" and k: "host_keeps keep host" and f: "\<And>sc. status (f sc) = status sc"
  shows "call_ok keep out s (do { s \<leftarrow> threadswitch host (set_sc f t); Some (set_status_0 (arena_free s), g s) })"
  using call_tail [OF u k, of f False 0 0 out 0 g] f by (simp add: copy_if_def)

section \<open>All calls with fixed buffers\<close>

datatype hostcall =
    Close i32
  | Fcntl i32 u64 u64
  | Fstat i32 u64
  | Poll u64 u64 i32
  | Fdatasync i32
  | Ioctl i32 u64 u64
  | Pipe u64
  | Pread64 i32 u64 u64 u64
  | Pwrite64 i32 u64 u64 u64
  | Read i32 u64 u64
  | Write i32 u64 u64
  | Mprotect u64 u64 i32
  | Rt_sigaction u64 i32 u64 u64 u64
  | Rt_sigpending u64 u64
  | Rt_sigprocmask i32 u64 u64 u64
  | Rt_sigsuspend u64 u64
  | Rt_sigtimedwait u64 u64 u64 u64
  | Tkill i32 i32
  | Nanosleep u64 u64
  | Clock_getres i32 u64
  | Clock_gettime i32 u64
  | Gettid
  | Mmap u64 u64 i32 i32 i32 u64
  | Mremap u64 u64 u64 i32 u64
  | Munmap u64 u64
  | Msync u64 u64 i32

definition int_result :: "(hst \<times> i32) option \<Rightarrow> (hst \<times> u64) option" where
  "int_result = map_option (\<lambda>(s, r). (s, scast r))"

fun run_hostcall :: "host \<Rightarrow> hostcall \<Rightarrow> hst \<Rightarrow> (hst \<times> u64) option" where
  "run_hostcall host (Close fd) s = int_result (host_syscall_SYS_close host fd s)"
| "run_hostcall host (Fcntl fd cmd arg) s = int_result (host_syscall_SYS_fcntl host fd cmd arg s)"
| "run_hostcall host (Fstat fd buf) s = int_result (host_syscall_SYS_fstat host fd buf s)"
| "run_hostcall host (Poll fds nfds timeout) s = int_result (host_syscall_SYS_poll host fds nfds timeout s)"
| "run_hostcall host (Fdatasync fd) s = int_result (host_syscall_SYS_fdatasync host fd s)"
| "run_hostcall host (Ioctl fd request arg) s = int_result (host_syscall_SYS_ioctl host fd request arg s)"
| "run_hostcall host (Pipe pipefd) s = int_result (host_syscall_SYS_pipe host pipefd s)"
| "run_hostcall host (Pread64 fd buf cnt offset) s = host_syscall_SYS_pread64 host fd buf cnt offset s"
| "run_hostcall host (Pwrite64 fd buf cnt offset) s = host_syscall_SYS_pwrite64 host fd buf cnt offset s"
| "run_hostcall host (Read fd buf cnt) s = host_syscall_SYS_read host fd buf cnt s"
| "run_hostcall host (Write fd buf cnt) s = host_syscall_SYS_write host fd buf cnt s"
| "run_hostcall host (Mprotect addr len prot) s = int_result (host_syscall_SYS_mprotect host addr len prot s)"
| "run_hostcall host (Rt_sigaction sz signum act oldact nsig) s =
     int_result (host_syscall_SYS_rt_sigaction sz host signum act oldact nsig s)"
| "run_hostcall host (Rt_sigpending sset nsig) s = int_result (host_syscall_SYS_rt_sigpending host sset nsig s)"
| "run_hostcall host (Rt_sigprocmask how sset oldset nsig) s =
     int_result (host_syscall_SYS_rt_sigprocmask host how sset oldset nsig s)"
| "run_hostcall host (Rt_sigsuspend mask' nsig) s = int_result (host_syscall_SYS_rt_sigsuspend host mask' nsig s)"
| "run_hostcall host (Rt_sigtimedwait sset info timeout nsig) s =
     int_result (host_syscall_SYS_rt_sigtimedwait host sset info timeout nsig s)"
| "run_hostcall host (Tkill tid sig) s = int_result (host_syscall_SYS_tkill host tid sig s)"
| "run_hostcall host (Nanosleep req rem) s = int_result (host_syscall_SYS_nanosleep host req rem s)"
| "run_hostcall host (Clock_getres clk_id res) s = int_result (host_syscall_SYS_clock_getres host clk_id res s)"
| "run_hostcall host (Clock_gettime clk_id tp) s = int_result (host_syscall_SYS_clock_gettime host clk_id tp s)"
| "run_hostcall host Gettid s = int_result (host_syscall_SYS_gettid host s)"
| "run_hostcall host (Mmap addr len prot flags fd offset) s =
     host_syscall_SYS_mmap host addr len prot flags fd offset s"
| "run_hostcall host (Mremap old_addr old_size new_size flags new_addr) s =
     host_syscall_SYS_mremap host old_addr old_size new_size flags new_addr s"
| "run_hostcall host (Munmap addr len) s = int_result (host_syscall_SYS_munmap host addr len s)"
| "run_hostcall host (Msync addr len flags) s = int_result (host_syscall_SYS_msync host addr len flags s)"

text \<open>The caller's bytes a call may overwrite.\<close>

definition dest :: "u64 \<Rightarrow> u64 \<Rightarrow> u64 set" where
  "dest p n = (if p = 0 then {} else bytes_at p n)"

fun out_bytes :: "hostcall \<Rightarrow> u64 set" where
  "out_bytes (Fcntl fd cmd arg) = dest arg (fcntl_len cmd)"
| "out_bytes (Fstat fd buf) = dest buf sizeof_stat"
| "out_bytes (Poll fds nfds timeout) = dest fds (sizeof_pollfd * nfds)"
| "out_bytes (Ioctl fd request arg) = dest arg (ioctl_len request)"
| "out_bytes (Pipe pipefd) = dest pipefd (sizeof_int * 2)"
| "out_bytes (Pread64 fd buf cnt offset) = dest buf cnt"
| "out_bytes (Read fd buf cnt) = dest buf cnt"
| "out_bytes (Rt_sigaction sz signum act oldact nsig) = dest oldact sz"
| "out_bytes (Rt_sigpending sset nsig) = dest sset nsig"
| "out_bytes (Rt_sigprocmask how sset oldset nsig) = dest oldset nsig"
| "out_bytes (Rt_sigtimedwait sset info timeout nsig) = dest info sizeof_siginfo_t"
| "out_bytes (Nanosleep req rem) = dest rem sizeof_timespec"
| "out_bytes (Clock_getres clk_id res) = dest res sizeof_timespec"
| "out_bytes (Clock_gettime clk_id tp) = dest tp sizeof_timespec"
| "out_bytes _ = {}"

text \<open>The sizes that are added up for the arena do not wrap around.\<close>

fun call_fits :: "hostcall \<Rightarrow> bool" where
  "call_fits (Rt_sigaction sz signum act oldact nsig) \<longleftrightarrow> 2 * unat sz < 2 ^ 64"
| "call_fits (Rt_sigprocmask how sset oldset nsig) \<longleftrightarrow> 2 * unat nsig < 2 ^ 64"
| "call_fits _ \<longleftrightarrow> True"

lemma int_result_ok: "call_ok keep out s res \<Longrightarrow> call_ok keep out s (int_result res)"
  by (auto simp: call_ok_def int_result_def)

lemma call_no_arena:
  assumes i: "idle s" and k: "host_keeps keep host" and f: "\<And>sc. status (f sc) = status sc"
  shows "call_ok keep out s (do { s \<leftarrow> threadswitch host (set_sc f s); Some (set_status_0 s, g s) })"
proof -
  have "status (hsc (set_sc f s)) = 0" using i f by (simp add: set_sc_def idle_def)
  from threadswitch_idle [OF this, of host] obtain t where t: "threadswitch host (set_sc f s) = Some t"
    "harena t = harena s"
    "hmem t = snd (host (if hsync s then (f (hsc s))\<lparr>status := 1\<rparr> else f (hsc s)) (hmem s))"
    by (auto simp: set_sc_def)
  then show ?thesis using i k
    by (simp add: call_ok_def idle_def set_status_0_def host_keeps_def) (simp add: set_sc_def)
qed

lemma under_way_idle: "idle s \<Longrightarrow> under_way keep s s 0"
  by (simp add: idle_def under_way_def)

lemmas no_arena_defs =
  host_syscall_SYS_close_def host_syscall_SYS_fdatasync_def host_syscall_SYS_tkill_def
  host_syscall_SYS_gettid_def host_syscall_SYS_mmap_def host_syscall_SYS_mremap_def
  host_syscall_SYS_munmap_def host_syscall_SYS_msync_def

lemmas one_buffer_defs =
  host_syscall_SYS_fstat_def host_syscall_SYS_poll_def host_syscall_SYS_pipe_def
  host_syscall_SYS_pread64_def host_syscall_SYS_pwrite64_def host_syscall_SYS_read_def
  host_syscall_SYS_write_def host_syscall_SYS_rt_sigpending_def host_syscall_SYS_rt_sigsuspend_def
  host_syscall_SYS_clock_getres_def host_syscall_SYS_clock_gettime_def

lemma call_ok_after_ensure:
  assumes "idle s" and "host_keeps keep host"
    and "\<And>t. under_way keep s t 0 \<Longrightarrow> unat n \<le> unat (asize (harena t)) \<Longrightarrow> call_ok keep out s (rest t)"
  shows "call_ok keep out s (arena_ensure host n s \<bind> rest)"
  using arena_ensure_ok [OF assms(1,2), of n] assms(3) by auto

lemma call_one_out:
  assumes "idle s" and "host_keeps keep host" and "\<And>v sc. status (f v sc) = status sc" and "dest d n \<subseteq> out"
  shows "call_ok keep out s (arena_ensure host n s \<bind> (\<lambda>t. threadswitch host
      (set_sc (f (fst (arena_alloc n t))) (snd (arena_alloc n t))) \<bind>
      (\<lambda>u. Some (set_status_0 (arena_free (copy_if (fst (arena_alloc n t) \<noteq> 0 \<and> d \<noteq> 0) d
          (fst (arena_alloc n t)) n u)), g u))))"
proof (rule call_ok_after_ensure [OF assms(1,2)])
  fix t assume t: "under_way keep s t 0" "unat n \<le> unat (asize (harena t))"
  have "under_way keep s (snd (arena_alloc n t)) (0 + unat n)" by (rule under_way_alloc [OF t(1)]) (use t in simp)
  then show "call_ok keep out s (threadswitch host (set_sc (f (fst (arena_alloc n t))) (snd (arena_alloc n t))) \<bind>
      (\<lambda>u. Some (set_status_0 (arena_free (copy_if (fst (arena_alloc n t) \<noteq> 0 \<and> d \<noteq> 0) d
          (fst (arena_alloc n t)) n u)), g u)))"
    by (rule call_tail [OF _ assms(2,3)]) (use assms(4) in \<open>auto simp: dest_def\<close>)
qed

lemma call_one_in:
  assumes "idle s" and "host_keeps keep host" and "\<And>v sc. status (f v sc) = status sc"
  shows "call_ok keep out s (arena_ensure host n s \<bind> (\<lambda>t. threadswitch host
      (set_sc (f (fst (arena_alloc n t))) (copy_if (d \<noteq> 0 \<and> fst (arena_alloc n t) \<noteq> 0)
         (fst (arena_alloc n t)) d n (snd (arena_alloc n t)))) \<bind>
      (\<lambda>u. Some (set_status_0 (arena_free u), g u))))"
proof (rule call_ok_after_ensure [OF assms(1,2)])
  fix t assume t: "under_way keep s t 0" "unat n \<le> unat (asize (harena t))"
  have "under_way keep s (copy_if (d \<noteq> 0 \<and> fst (arena_alloc n t) \<noteq> 0)
         (fst (arena_alloc n t)) d n (snd (arena_alloc n t))) (0 + unat n)"
    by (rule under_way_copy [OF t(1)]) (use t in simp)
  then show "call_ok keep out s (threadswitch host (set_sc (f (fst (arena_alloc n t)))
      (copy_if (d \<noteq> 0 \<and> fst (arena_alloc n t) \<noteq> 0)
         (fst (arena_alloc n t)) d n (snd (arena_alloc n t)))) \<bind>
      (\<lambda>u. Some (set_status_0 (arena_free u), g u)))"
    by (rule call_tail_plain [OF _ assms(2,3)])
qed

lemma one_out_ok:
  assumes "idle s" and "host_keeps keep host"
  shows "call_ok keep (dest buf sizeof_stat) s (host_syscall_SYS_fstat host fd buf s)"
    and "call_ok keep (dest pipefd (sizeof_int * 2)) s (host_syscall_SYS_pipe host pipefd s)"
    and "call_ok keep (dest buf cnt) s (host_syscall_SYS_pread64 host fd buf cnt offset s)"
    and "call_ok keep (dest buf cnt) s (host_syscall_SYS_read host fd buf cnt s)"
    and "call_ok keep (dest sset nsig) s (host_syscall_SYS_rt_sigpending host sset nsig s)"
    and "call_ok keep (dest res sizeof_timespec) s (host_syscall_SYS_clock_getres host fd res s)"
    and "call_ok keep (dest res sizeof_timespec) s (host_syscall_SYS_clock_gettime host fd res s)"
  unfolding one_buffer_defs Let_def split_beta by (rule call_one_out [OF assms]; simp)+

lemma one_in_ok:
  assumes "idle s" and "host_keeps keep host"
  shows "call_ok keep {} s (host_syscall_SYS_pwrite64 host fd buf cnt offset s)"
    and "call_ok keep {} s (host_syscall_SYS_write host fd buf cnt s)"
    and "call_ok keep {} s (host_syscall_SYS_rt_sigsuspend host sset nsig s)"
  unfolding one_buffer_defs Let_def split_beta by (rule call_one_in [OF assms]; simp)+

lemma no_arena_ok:
  assumes "idle s" and "host_keeps keep host"
  shows "call_ok keep {} s (host_syscall_SYS_close host fd s)"
    and "call_ok keep {} s (host_syscall_SYS_fdatasync host fd s)"
    and "call_ok keep {} s (host_syscall_SYS_tkill host tid sig s)"
    and "call_ok keep {} s (host_syscall_SYS_gettid host s)"
    and "call_ok keep {} s (host_syscall_SYS_mmap host addr len prot flags fd offset s)"
    and "call_ok keep {} s (host_syscall_SYS_mremap host addr len new_size flags new_addr s)"
    and "call_ok keep {} s (host_syscall_SYS_munmap host addr len s)"
    and "call_ok keep {} s (host_syscall_SYS_msync host addr len flags s)"
  unfolding no_arena_defs by (rule call_no_arena [OF assms]; simp)+

lemma mprotect_ok:
  "idle s \<Longrightarrow> host_keeps keep host \<Longrightarrow> call_ok keep {} s (host_syscall_SYS_mprotect host addr len prot s)"
  unfolding host_syscall_SYS_mprotect_def by (rule call_tail_plain [OF under_way_idle]) simp_all

lemma poll_ok:
  assumes "idle s" and "host_keeps keep host"
  shows "call_ok keep (dest fds (sizeof_pollfd * nfds)) s (host_syscall_SYS_poll host fds nfds timeout s)"
  unfolding host_syscall_SYS_poll_def Let_def split_beta
proof (rule call_ok_after_ensure [OF assms], rule call_tail [OF under_way_copy assms(2)])
  fix t assume t: "under_way keep s t 0" "unat (sizeof_pollfd * nfds) \<le> unat (asize (harena t))"
  from t show "under_way keep s t 0" "0 + unat (sizeof_pollfd * nfds) \<le> unat (asize (harena t))" by simp_all
qed (simp_all add: dest_def)

lemma fcntl_ok:
  assumes "idle s" and "host_keeps keep host"
  shows "call_ok keep (dest arg (fcntl_len cmd)) s (host_syscall_SYS_fcntl host fd cmd arg s)"
proof (cases "fcntl_len cmd = 0")
  case True
  show ?thesis unfolding host_syscall_SYS_fcntl_def Let_def split_beta True
    by (simp add: arena_alloc_def copy_if_def) (rule call_tail_plain [OF under_way_idle [OF assms(1)] assms(2)], simp)
next
  case False
  then have pos: "fcntl_len cmd > 0" by (simp add: word_neq_0_conv)
  let ?n = "fcntl_len cmd"
  show ?thesis unfolding host_syscall_SYS_fcntl_def Let_def split_beta if_P [OF pos]
  proof (rule call_ok_after_ensure [OF assms], rule call_tail [OF under_way_copy assms(2)])
    fix t assume t: "under_way keep s t 0" "unat ?n \<le> unat (asize (harena t))"
    from t show "under_way keep s t 0" "0 + unat ?n \<le> unat (asize (harena t))" by simp_all
  qed (simp_all add: dest_def)
qed

lemma ioctl_ok:
  assumes "idle s" and "host_keeps keep host"
  shows "call_ok keep (dest arg (ioctl_len request)) s (host_syscall_SYS_ioctl host fd request arg s)"
proof (cases "ioctl_len request = 0")
  case True
  show ?thesis unfolding host_syscall_SYS_ioctl_def Let_def split_beta True
    by (simp add: copy_if_def) (rule call_tail_plain [OF under_way_idle [OF assms(1)] assms(2)], simp)
next
  case False
  let ?n = "ioctl_len request"
  show ?thesis unfolding host_syscall_SYS_ioctl_def Let_def split_beta if_P [OF False]
  proof (rule call_ok_after_ensure [OF assms], rule call_tail [OF under_way_copy assms(2)])
    fix t assume t: "under_way keep s t 0" "unat ?n \<le> unat (asize (harena t))"
    from t show "under_way keep s t 0" "0 + unat ?n \<le> unat (asize (harena t))" by simp_all
  qed (simp_all add: dest_def)
qed

lemma two_buffers:
  fixes d e m n :: u64
  assumes "idle s" and "host_keeps keep host" and fits: "unat m + unat n < 2 ^ 64"
    and f: "\<And>v w sc. status (f v w sc) = status sc"
  defines "cp \<equiv> \<lambda>t. copy_if (d \<noteq> 0 \<and> fst (arena_alloc m t) \<noteq> 0) (fst (arena_alloc m t)) d m (snd (arena_alloc m t))"
  shows "call_ok keep (dest e n) s (arena_ensure host (m + n) s \<bind> (\<lambda>t. threadswitch host
      (set_sc (f (fst (arena_alloc m t)) (fst (arena_alloc n (cp t)))) (snd (arena_alloc n (cp t)))) \<bind>
      (\<lambda>u. Some (set_status_0 (arena_free (copy_if (fst (arena_alloc n (cp t)) \<noteq> 0 \<and> e \<noteq> 0) e
          (fst (arena_alloc n (cp t))) n u)), g u))))"
proof (rule call_ok_after_ensure [OF assms(1,2)])
  fix t assume t: "under_way keep s t 0" "unat (m + n) \<le> unat (asize (harena t))"
  have sz: "unat m + unat n \<le> unat (asize (harena t))" using t(2) unat_add_small [of m n] fits by simp
  have "under_way keep s (cp t) (0 + unat m)" unfolding cp_def
    by (rule under_way_copy [OF t(1)]) (use sz in simp)
  then have "under_way keep s (snd (arena_alloc n (cp t))) (0 + unat m + unat n)"
    by (rule under_way_alloc) (use sz in \<open>simp add: cp_def\<close>)
  then show "call_ok keep (dest e n) s (threadswitch host
      (set_sc (f (fst (arena_alloc m t)) (fst (arena_alloc n (cp t)))) (snd (arena_alloc n (cp t)))) \<bind>
      (\<lambda>u. Some (set_status_0 (arena_free (copy_if (fst (arena_alloc n (cp t)) \<noteq> 0 \<and> e \<noteq> 0) e
          (fst (arena_alloc n (cp t))) n u)), g u)))"
    by (rule call_tail [OF _ assms(2) f]) (simp add: dest_def)
qed

lemma two_buffers_ok:
  assumes "idle s" and "host_keeps keep host"
  shows "2 * unat sz < 2 ^ 64 \<Longrightarrow> call_ok keep (dest oldact sz) s (host_syscall_SYS_rt_sigaction sz host signum act oldact nsig s)"
    and "2 * unat nsig < 2 ^ 64 \<Longrightarrow> call_ok keep (dest oldset nsig) s (host_syscall_SYS_rt_sigprocmask host how sset oldset nsig s)"
    and "call_ok keep (dest rem sizeof_timespec) s (host_syscall_SYS_nanosleep host req rem s)"
  unfolding host_syscall_SYS_rt_sigaction_def host_syscall_SYS_rt_sigprocmask_def
    host_syscall_SYS_nanosleep_def Let_def split_beta
  by (rule two_buffers [OF assms]; simp add: sizeof_timespec_def)+

definition opt_alloc :: "bool \<Rightarrow> u64 \<Rightarrow> hst \<Rightarrow> u64 \<times> hst" where
  "opt_alloc p n t = (if p then arena_alloc n t else (0, t))"

lemma under_way_opt:
  assumes "under_way keep s t used" and "used + unat n \<le> unat (asize (harena t))"
  shows "under_way keep s (copy_if (p \<and> q) (fst (opt_alloc p n t)) src n (snd (opt_alloc p n t)))
      (used + (if p then unat n else 0))"
    and "under_way keep s (snd (opt_alloc p n t)) (used + (if p then unat n else 0))"
    and "asize (harena (snd (opt_alloc p n t))) = asize (harena t)"
proof -
  show "under_way keep s (copy_if (p \<and> q) (fst (opt_alloc p n t)) src n (snd (opt_alloc p n t)))
      (used + (if p then unat n else 0))"
    using under_way_copy [OF assms, of q src] assms(1) by (cases p) (simp_all add: opt_alloc_def copy_if_def)
  show "under_way keep s (snd (opt_alloc p n t)) (used + (if p then unat n else 0))"
    using under_way_alloc [OF assms] assms(1) by (simp add: opt_alloc_def)
qed (simp add: opt_alloc_def)

lemma sigtimedwait_ok:
  assumes "idle s" and "host_keeps keep host"
  shows "call_ok keep (dest info sizeof_siginfo_t) s (host_syscall_SYS_rt_sigtimedwait host sset info timeout nsig s)"
  unfolding host_syscall_SYS_rt_sigtimedwait_def Let_def split_beta opt_alloc_def [symmetric]
proof (rule call_ok_after_ensure [OF assms], goal_cases)
  case (1 t)
  define l2 :: u64 where "l2 = (if info \<noteq> 0 then sizeof_siginfo_t else 0)"
  define l3 :: u64 where "l3 = (if timeout \<noteq> 0 then sizeof_timespec else 0)"
  define t1 where "t1 = copy_if (sset \<noteq> 0 \<and> fst (arena_alloc sizeof_sigset_t t) \<noteq> 0)
      (fst (arena_alloc sizeof_sigset_t t)) sset sizeof_sigset_t (snd (arena_alloc sizeof_sigset_t t))"
  have "unat (sizeof_sigset_t + l2 + l3) = 128 + unat l2 + unat l3" and l: "unat l2 \<le> 128" "unat l3 \<le> 16"
    by (auto simp: l2_def l3_def sizeof_sigset_t_def sizeof_siginfo_t_def sizeof_timespec_def)
  then have sz: "128 + unat l2 + unat l3 \<le> unat (asize (harena t))" using 1(2) by (simp add: l2_def l3_def)
  have u1: "under_way keep s t1 128"
    using under_way_copy [OF 1(1), of sizeof_sigset_t] sz unfolding t1_def by (simp add: sizeof_sigset_t_def)
  have s1: "asize (harena t1) = asize (harena t)" by (simp add: t1_def)
  have "128 + unat l2 \<le> unat (asize (harena t1))" using sz s1 by simp
  note u2 = under_way_opt(2) [OF u1 this, of "info \<noteq> 0"]
  let ?t2 = "snd (opt_alloc (info \<noteq> 0) l2 t1)"
  have "128 + (if info \<noteq> 0 then unat l2 else 0) + unat l3 \<le> unat (asize (harena ?t2))"
    using sz s1 by (simp add: under_way_opt(3) [OF u1 \<open>128 + unat l2 \<le> unat (asize (harena t1))\<close>])
  note u3 = under_way_opt(1) [OF u2 this, of "timeout \<noteq> 0" "fst (opt_alloc (timeout \<noteq> 0) l3 ?t2) \<noteq> 0" timeout]
  show ?case unfolding t1_def [symmetric] l2_def [symmetric] l3_def [symmetric]
    by (rule call_tail [OF u3 assms(2)]) (simp_all add: dest_def l2_def)
qed

lemma run_hostcall_ok:
  assumes "idle s" and "host_keeps keep host" and "call_fits c"
  shows "call_ok keep (out_bytes c) s (run_hostcall host c s)"
  using assms(3)
  by (cases c)
    (simp_all add: int_result_ok one_out_ok one_in_ok no_arena_ok mprotect_ok poll_ok fcntl_ok ioctl_ok
      two_buffers_ok sigtimedwait_ok assms(1,2))

section \<open>Where the arena lies\<close>

text \<open>The bytes of the arena a call asks for.\<close>

fun arena_need :: "hostcall \<Rightarrow> u64" where
  "arena_need (Fcntl fd cmd arg) = fcntl_len cmd"
| "arena_need (Fstat fd buf) = sizeof_stat"
| "arena_need (Poll fds nfds timeout) = sizeof_pollfd * nfds"
| "arena_need (Ioctl fd request arg) = ioctl_len request"
| "arena_need (Pipe pipefd) = sizeof_int * 2"
| "arena_need (Pread64 fd buf cnt offset) = cnt"
| "arena_need (Pwrite64 fd buf cnt offset) = cnt"
| "arena_need (Read fd buf cnt) = cnt"
| "arena_need (Write fd buf cnt) = cnt"
| "arena_need (Rt_sigaction sz signum act oldact nsig) = sz + sz"
| "arena_need (Rt_sigpending sset nsig) = nsig"
| "arena_need (Rt_sigprocmask how sset oldset nsig) = nsig + nsig"
| "arena_need (Rt_sigsuspend mask' nsig) = sizeof_sigset_t"
| "arena_need (Rt_sigtimedwait sset info timeout nsig) =
     sizeof_sigset_t + (if info \<noteq> 0 then sizeof_siginfo_t else 0) + (if timeout \<noteq> 0 then sizeof_timespec else 0)"
| "arena_need (Nanosleep req rem) = sizeof_timespec + sizeof_timespec"
| "arena_need (Clock_getres clk_id res) = sizeof_timespec"
| "arena_need (Clock_gettime clk_id tp) = sizeof_timespec"
| "arena_need _ = 0"

text \<open>
  The arena after a call is the one before it, or the bytes the host named when it was asked to enlarge
  it. That the host names bytes outside \<open>keep\<close>, for requests of at most \<open>n\<close> bytes, is what \<open>mremap\<close> is documented to do when
  \<open>keep\<close> is memory
  that is already in use; the code does not check it.
\<close>

definition arena_from :: "host \<Rightarrow> u64 \<Rightarrow> hst \<Rightarrow> hst \<Rightarrow> bool" where
  "arena_from host n s t \<longleftrightarrow> arena_bytes t = arena_bytes s \<or>
     (\<exists>sc m. syscallno sc = 25 \<and> arg3 sc = n \<and> arena_bytes t = bytes_at (fst (host sc m)) n)"

definition arena_apart :: "u64 set \<Rightarrow> host \<Rightarrow> u64 \<Rightarrow> hst \<Rightarrow> bool" where
  "arena_apart keep host n s \<longleftrightarrow> keep \<inter> arena_bytes s = {} \<and>
     (\<forall>sc m. syscallno sc = 25 \<and> arg3 sc \<le> n \<longrightarrow> keep \<inter> bytes_at (fst (host sc m)) (arg3 sc) = {})"

lemma arena_bytes_simps [simp]:
  "arena_bytes (set_sc f s) = arena_bytes s" "arena_bytes (set_status_0 s) = arena_bytes s"
  "arena_bytes (arena_free s) = arena_bytes s" "arena_bytes (copy_if p d src n s) = arena_bytes s"
  "arena_bytes (snd (arena_alloc n s)) = arena_bytes s"
  by (simp_all add: arena_bytes_def set_status_0_def set_sc_def arena_free_def)

lemma threadswitch_arena: "threadswitch host s = Some t \<Longrightarrow> arena_bytes t = arena_bytes s"
  by (auto simp: threadswitch_def host_serves_def set_sc_def arena_bytes_def split: if_splits prod.splits)

lemma ensure_arena: "arena_ensure host n s = Some t \<Longrightarrow> arena_from host n s t"
proof (cases "asize (harena s) < n")
  case True
  define sc0 where "sc0 = (hsc s)\<lparr>syscallno := 25, arg1 := amem (harena s), arg2 := asize (harena s), arg3 := n, arg4 := 1, arg5 := 0\<rparr>"
  define sc where "sc = (if hsync s then sc0\<lparr>status := 1\<rparr> else sc0)"
  assume "arena_ensure host n s = Some t"
  then have "arena_bytes t = bytes_at (fst (host sc (hmem s))) n" using True
    by (auto simp: arena_ensure_def host_syscall_SYS_mremap_def threadswitch_def host_serves_def set_sc_def set_status_0_def
        arena_bytes_def split_beta Let_def bind_eq_Some_conv sc_def sc0_def split: if_splits)
  moreover have "syscallno sc = 25" "arg3 sc = n" by (simp_all add: sc_def sc0_def)
  ultimately show ?thesis unfolding arena_from_def by blast
qed (simp add: arena_ensure_def arena_from_def)

lemmas other_defs =
  host_syscall_SYS_fcntl_def host_syscall_SYS_ioctl_def host_syscall_SYS_mprotect_def host_syscall_SYS_rt_sigaction_def
  host_syscall_SYS_rt_sigprocmask_def host_syscall_SYS_rt_sigtimedwait_def host_syscall_SYS_nanosleep_def

definition arena_rule :: "host \<Rightarrow> u64 \<Rightarrow> hst \<Rightarrow> (hst \<times> 'r) option \<Rightarrow> bool" where
  "arena_rule host n s res \<longleftrightarrow> (\<forall>s' r. res = Some (s', r) \<longrightarrow> arena_from host n s s')"

lemma arena_from_simps [simp]:
  "arena_from host n s s" "arena_from host n s (set_sc f t) = arena_from host n s t"
  "arena_from host n s (set_status_0 t) = arena_from host n s t" "arena_from host n s (arena_free t) = arena_from host n s t"
  "arena_from host n s (copy_if p d src m t) = arena_from host n s t" "arena_from host n s (snd (arena_alloc m t)) = arena_from host n s t"
  by (simp_all add: arena_from_def)

lemma arena_done: "arena_from host n s t \<Longrightarrow> arena_rule host n s (Some (t, r))"
  by (simp add: arena_rule_def)

lemma arena_switch:
  assumes "arena_from host n s u" and "\<And>t. arena_from host n s t \<Longrightarrow> arena_rule host n s (f t)"
  shows "arena_rule host n s (threadswitch host u \<bind> f)"
proof (cases "threadswitch host u")
  case (Some t)
  then have "arena_from host n s t" using assms(1) threadswitch_arena by (simp add: arena_from_def)
  then show ?thesis using assms(2) by (simp add: Some)
qed (simp add: arena_rule_def)

lemma arena_grown:
  assumes "\<And>t. arena_from host n s t \<Longrightarrow> arena_rule host n s (f t)"
  shows "arena_rule host n s (arena_ensure host n s \<bind> f)"
proof (cases "arena_ensure host n s")
  case (Some t)
  then show ?thesis using assms [OF ensure_arena [OF Some]] by simp
qed (simp add: arena_rule_def)

lemma arena_rule_int: "arena_rule host n s res \<Longrightarrow> arena_rule host n s (int_result res)"
  by (auto simp: arena_rule_def int_result_def)

lemma run_hostcall_arena: "arena_rule host (arena_need c) s (run_hostcall host c s)"
  by (cases c)
    (auto simp: no_arena_defs one_buffer_defs other_defs Let_def split_beta intro!: arena_done arena_switch arena_grown arena_rule_int)

section \<open>Properties\<close>

text \<open>
  C26. Every one of these calls (all that are forwarded except \<open>readv\<close> and \<open>writev\<close>, which are treated below) returns, whatever the
  host answers, and leaves slot and arena
  ready for the next call. Memory that the host does not change and that is apart from the arena (the enclave's own
  memory) is the same after the call, except for the buffers the call
  is documented to fill: the sizes reserved with \<open>arena_ensure\<close> cover all that is copied. That memory stays apart from the
  arena. The host must answer \<open>mremap\<close> with bytes outside this memory, since the code believes any answer, and this for all sizes
  up to \<open>n\<close>, which the call does not exceed. The sizes of
  the two signal calls that are added up must not wrap around.
\<close>

theorem hostcall_confined:
  assumes "idle s" and "host_keeps keep host" and "arena_apart keep host n s" and "arena_need c \<le> n" and "call_fits c"
  shows "\<exists>s' r. run_hostcall host c s = Some (s', r) \<and> idle s' \<and> arena_apart keep host n s' \<and>
    (\<forall>a\<in>keep. a \<notin> out_bytes c \<longrightarrow> hmem s' a = hmem s a)"
proof -
  from run_hostcall_ok [OF assms(1,2,5)] obtain s' r where s': "run_hostcall host c s = Some (s', r)" "idle s'"
    "\<forall>a\<in>keep. a \<notin> arena_bytes s' \<longrightarrow> a \<notin> out_bytes c \<longrightarrow> hmem s' a = hmem s a" unfolding call_ok_def by blast
  have "arena_apart keep host n s'" using run_hostcall_arena [of host c s] s'(1) assms(3,4) unfolding arena_rule_def arena_from_def arena_apart_def by metis
  with s' show ?thesis unfolding arena_apart_def by blast
qed

definition sample_state :: hst where
  "sample_state = \<lparr>hmem = (\<lambda>a. ucast a), hsc = zero_call,
     harena = \<lparr>amem = 0x1000, asize = 16, allocated = 0\<rparr>, hsync = False\<rparr>"

definition sample_host :: host where
  "sample_host sc m = (if syscallno sc = 25 then (if arg3 sc \<le> 0x1000 then 0x2000 else - 12) else arg3 sc,
     (\<lambda>a. if a < 0x4000 then 7 else m a))"

theorem hostcall_confined_witness:
  "\<exists>s' r. run_hostcall sample_host (Read 3 0x9000 32) sample_state = Some (s', r) \<and> idle s' \<and> hmem s' 0x9020 = 0x20"
proof -
  let ?keep = "{0x9020} :: u64 set"
  have k: "host_keeps ?keep sample_host" by (simp add: host_keeps_def sample_host_def)
  have i: "idle sample_state" by (simp add: idle_def sample_state_def zero_call_def)
  have "arena_apart ?keep sample_host 0x8000 sample_state"
    by (auto simp: arena_apart_def arena_bytes_def bytes_at_def sample_state_def sample_host_def not_less word_le_nat_alt)
  from hostcall_confined [OF i k this, of "Read 3 0x9000 32"] show ?thesis
    by (auto simp: dest_def bytes_at_def sample_state_def)
qed

text \<open>A host that answers \<open>mremap\<close> with an address inside the enclave has the call write there.\<close>

definition lying_host :: host where
  "lying_host sc m = (if syscallno sc = 25 then 0x9000 else 0, m)"

lemma mremap_answer_believed:
  "map_option (\<lambda>(s, _). hmem s 0x9000) (run_hostcall lying_host (Write 3 0x7042 32) sample_state) = Some 0x42"
  by (simp add: host_syscall_SYS_write_def arena_ensure_def host_syscall_SYS_mremap_def threadswitch_def host_serves_def
      set_sc_def sample_state_def lying_host_def zero_call_def set_status_0_def arena_alloc_def arena_free_def copy_if_def memcpy_def)

lemma alloc_nonzero:
  assumes "bytes_at (fst (arena_alloc n t)) n \<subseteq> B" and "0 \<notin> B" and "n \<noteq> 0"
  shows "fst (arena_alloc n t) \<noteq> 0"
proof
  assume "fst (arena_alloc n t) = 0"
  then have "0 \<in> bytes_at (fst (arena_alloc n t)) n" using assms(3) by (simp add: bytes_at_def word_neq_0_conv)
  with assms show False by blast
qed

lemma bytes_at_offset: "i < n \<Longrightarrow> p + i \<in> bytes_at p n"
  by (simp add: bytes_at_def)

lemma bytes_at_nat:
  assumes "unat p + unat n \<le> 2 ^ 64"
  shows "a \<in> bytes_at p n \<longleftrightarrow> unat p \<le> unat a \<and> unat a < unat p + unat n"
  using assms unsigned_less [of p, where 'a = nat] unsigned_less [of a, where 'a = nat]
  by (auto simp: bytes_at_def word_less_nat_alt unat_sub_if' word_le_nat_alt split: if_splits)

text \<open>
  \<open>write\<close> hands the host exactly the caller's bytes: the request carries the descriptor and
  the length, its pointer is the start of \<open>cnt\<close> bytes of the arena, and when the host looks at
  them they are the bytes of the buffer as they were when the call was made. The call returns
  the host's answer. The buffer is in memory the host does not change, apart from the arena,
  and the arena does not contain address 0.
\<close>

lemma write_exposes_buffer:
  assumes "idle s" and "host_keeps keep host" and "host_syscall_SYS_write host fd buf cnt s = Some (s', r)"
    and "buf \<noteq> 0" and "bytes_at buf cnt \<subseteq> keep" and "bytes_at buf cnt \<inter> arena_bytes s' = {}" and "0 \<notin> arena_bytes s'"
  shows "\<exists>sc m. r = fst (host sc m) \<and> syscallno sc = 1 \<and> arg1 sc = scast fd \<and> arg3 sc = cnt \<and>
    bytes_at (arg2 sc) cnt \<subseteq> arena_bytes s' \<and> (\<forall>i < cnt. m (arg2 sc + i) = hmem s (buf + i))"
proof -
  from arena_ensure_ok [OF assms(1,2), of cnt] obtain t where t: "arena_ensure host cnt s = Some t"
    "under_way keep s t 0" "unat cnt \<le> unat (asize (harena t))" by blast
  define v where "v = fst (arena_alloc cnt t)"
  define t1 where "t1 = copy_if (buf \<noteq> 0 \<and> v \<noteq> 0) v buf cnt (snd (arena_alloc cnt t))"
  define t2 where "t2 = set_sc (\<lambda>sc. sc\<lparr>syscallno := 1, arg1 := scast fd, arg2 := v, arg3 := cnt\<rparr>) t1"
  have "status (hsc t2) = 0" using t(2) by (simp add: t2_def t1_def set_sc_def under_way_def)
  from threadswitch_idle [OF this, of host] obtain t3 where t3: "threadswitch host t2 = Some t3" "harena t3 = harena t2"
    "ret_val (hsc t3) = fst (host (if hsync t2 then (hsc t2)\<lparr>status := 1\<rparr> else hsc t2) (hmem t2))" by blast
  have s': "s' = set_status_0 (arena_free t3)" "r = ret_val (hsc t3)"
    using assms(3) t(1) t3(1) unfolding t2_def t1_def v_def
    by (simp_all add: host_syscall_SYS_write_def split_beta)
  have ar: "arena_bytes s' = arena_bytes t"
    by (simp add: s' set_status_0_def set_sc_def arena_free_def arena_bytes_def t3(2)) (simp add: t2_def t1_def set_sc_def)
  have v: "bytes_at v cnt \<subseteq> arena_bytes s'"
    unfolding ar v_def using arena_alloc_bytes(1) [of t cnt] t(2,3) by (simp add: under_way_def)
  have "hmem t2 (v + i) = hmem s (buf + i)" if "i < cnt" for i
  proof -
    have "cnt \<noteq> 0" using that by auto
    then have "v \<noteq> 0" using alloc_nonzero v assms(7) unfolding v_def by blast
    then have "hmem t2 (v + i) = hmem t (buf + i)"
      using that assms(4) by (simp add: t2_def t1_def set_sc_def copy_if_def memcpy_dst)
    also have "\<dots> = hmem s (buf + i)"
      using t(2) bytes_at_offset [OF that, of buf] assms(5,6) ar by (auto simp: under_way_def)
    finally show ?thesis .
  qed
  moreover have "hsc t2 = (hsc t1)\<lparr>syscallno := 1, arg1 := scast fd, arg2 := v, arg3 := cnt\<rparr>"
    by (simp add: t2_def set_sc_def)
  ultimately show ?thesis
    using s'(2) t3(3) v
    by (intro exI [of _ "if hsync t2 then (hsc t2)\<lparr>status := 1\<rparr> else hsc t2"] exI [of _ "hmem t2"]) auto
qed

text \<open>
  \<open>read\<close> delivers what the host put into the arena: the request names \<open>cnt\<close> bytes of the arena,
  the call returns the host's answer, and afterwards the caller's buffer holds the bytes the
  host left there. All \<open>cnt\<close> bytes are copied, also when the host answers that it read fewer.
\<close>

lemma read_delivers_answer:
  assumes "idle s" and "host_keeps keep host" and "host_syscall_SYS_read host fd buf cnt s = Some (s', r)"
    and "buf \<noteq> 0" and "bytes_at buf cnt \<inter> arena_bytes s' = {}" and "0 \<notin> arena_bytes s'"
  shows "\<exists>sc m. r = fst (host sc m) \<and> syscallno sc = 0 \<and> arg1 sc = scast fd \<and> arg3 sc = cnt \<and>
    bytes_at (arg2 sc) cnt \<subseteq> arena_bytes s' \<and> (\<forall>i < cnt. hmem s' (buf + i) = snd (host sc m) (arg2 sc + i))"
proof -
  from arena_ensure_ok [OF assms(1,2), of cnt] obtain t where t: "arena_ensure host cnt s = Some t"
    "under_way keep s t 0" "unat cnt \<le> unat (asize (harena t))" by blast
  define v where "v = fst (arena_alloc cnt t)"
  define t2 where "t2 = set_sc (\<lambda>sc. sc\<lparr>syscallno := 0, arg1 := scast fd, arg2 := v, arg3 := cnt\<rparr>)
    (snd (arena_alloc cnt t))"
  define sc where "sc = (if hsync t2 then (hsc t2)\<lparr>status := 1\<rparr> else hsc t2)"
  have "status (hsc t2) = 0" using t(2) by (simp add: t2_def set_sc_def under_way_def)
  from threadswitch_idle [OF this, of host] obtain t3 where t3: "threadswitch host t2 = Some t3" "harena t3 = harena t2"
    "ret_val (hsc t3) = fst (host sc (hmem t2))" "hmem t3 = snd (host sc (hmem t2))" unfolding sc_def by blast
  have s': "s' = set_status_0 (arena_free (copy_if (v \<noteq> 0 \<and> buf \<noteq> 0) buf v cnt t3))" "r = ret_val (hsc t3)"
    using assms(3) t(1) t3(1) unfolding t2_def v_def
    by (simp_all add: host_syscall_SYS_read_def split_beta)
  have ar: "arena_bytes s' = arena_bytes t"
    by (simp add: s' set_status_0_def set_sc_def arena_free_def arena_bytes_def t3(2)) (simp add: t2_def set_sc_def)
  have v: "bytes_at v cnt \<subseteq> arena_bytes s'"
    unfolding ar v_def using arena_alloc_bytes(1) [of t cnt] t(2,3) by (simp add: under_way_def)
  have "hmem s' (buf + i) = snd (host sc (hmem t2)) (v + i)" if "i < cnt" for i
  proof -
    have "cnt \<noteq> 0" using that by auto
    then have "v \<noteq> 0" using alloc_nonzero v assms(6) unfolding v_def by blast
    then show ?thesis using that assms(4) t3(4)
      by (simp add: s' set_status_0_def set_sc_def arena_free_def copy_if_def memcpy_dst)
  qed
  moreover have "syscallno sc = 0 \<and> arg1 sc = scast fd \<and> arg2 sc = v \<and> arg3 sc = cnt"
    by (simp add: sc_def t2_def set_sc_def)
  ultimately show ?thesis using s'(2) t3(3) v by (intro exI [of _ sc] exI [of _ "hmem t2"]) simp
qed

text \<open>Loads and stores of words.\<close>

lemma store64_outside: "a \<notin> bytes_at p 8 \<Longrightarrow> store64 p v m a = m a"
  by (simp add: store64_def bytes_at_def)

lemma load64_cong:
  assumes "\<And>a. a \<in> bytes_at p 8 \<Longrightarrow> m a = m' a"
  shows "load64 m p = load64 m' p"
  unfolding load64_def
  by (intro foldr_cong refl) (use assms in \<open>auto simp: bytes_at_def word_less_nat_alt unat_of_nat_small\<close>)

lemma load64_store64 [simp]: "load64 (store64 p v m) p = v"
proof -
  have "store64 p v m (p + of_nat i) = ucast (drop_bit (8 * i) v)" if "i < 8" for i
    using that by (simp add: store64_def word_less_nat_alt unat_of_nat_small)
  moreover have "ucast (ucast x :: u8) = take_bit 8 x" for x :: u64 by (rule bit_word_eqI) (simp add: bit_simps)
  ultimately have "load64 (store64 p v m) p = foldr (\<lambda>i w. push_bit 8 w OR take_bit 8 (drop_bit (8 * i) v)) [0..<8] 0"
    unfolding load64_def by (intro foldr_cong refl) auto
  moreover have "drop_bit (8 * 8) v = 0" by (rule bit_word_eqI) (simp add: bit_simps bit_imp_le_length)
  ultimately show ?thesis using join_bytes [of v 8] by simp
qed

lemma load64_store64_other:
  "bytes_at p 8 \<inter> bytes_at q 8 = {} \<Longrightarrow> load64 (store64 q v m) p = load64 m p"
  by (rule load64_cong, rule store64_outside) blast

lemma len64: "LENGTH(64) = 64"
  by simp

lemma unat_sub_wrap:
  "unat (x - r :: u64) = (if unat r \<le> unat x then unat x - unat r else unat x + 2 ^ 64 - unat r)"
  by (simp add: unat_sub_if')

lemma bytes_at_tail:
  assumes "r \<le> n"
  shows "bytes_at (b + r) (n - r) = bytes_at b n - bytes_at b r"
proof -
  have k: "x - r < n - r \<longleftrightarrow> r \<le> x \<and> x < n" for x :: u64
  proof -
    define w where "w = (2 :: nat) ^ 64"
    have w: "unat n < w" "unat r \<le> unat n"
      unfolding w_def using unsigned_less [of n, where 'a = nat] assms by (simp_all only: word_le_nat_alt len64)
    show ?thesis
      unfolding word_less_nat_alt word_le_nat_alt unat_sub_wrap w_def [symmetric]
      using w by (cases "unat r \<le> unat x") (simp_all add: less_diff_conv2)
  qed
  have "a - (b + r) < n - r \<longleftrightarrow> r \<le> a - b \<and> a - b < n" for a using k [of "a - b"] by (simp only: diff_diff_eq)
  then show ?thesis by (intro set_eqI) (simp only: bytes_at_def not_less mem_Collect_eq Diff_iff conj_commute)
qed

end
