(* ===== verification/Enclave_Syscalls.thy ===== *)
theory Enclave_Syscalls
  imports Enclave_Mem Hostcalls
begin

text \<open>
  The system calls on enclave memory of \<^verbatim>\<open>src/sgx/enclave_mem.c\<close>: \<open>mmap\<close> of anonymous memory and of
  files, and \<open>mremap\<close>, \<open>munmap\<close> and \<open>msync\<close>, which serve addresses inside the heap with the page
  allocator and forward the others to the host. Flags are integers; page protections are not part
  of the state, so that the calls of \<open>mprotect\<close> have no effect here.
\<close>

section \<open>Flags\<close>

definition MAP_SHARED :: int where "MAP_SHARED = 1"
definition MAP_PRIVATE :: int where "MAP_PRIVATE = 2"
definition MAP_FIXED :: int where "MAP_FIXED = 16"
definition MAP_ANONYMOUS :: int where "MAP_ANONYMOUS = 32"
definition PROT_WRITE :: int where "PROT_WRITE = 2"
definition MREMAP_FIXED :: int where "MREMAP_FIXED = 2"

definition ENCLAVE_MMAP_FILES_PRIVATE :: int where "ENCLAVE_MMAP_FILES_PRIVATE = 1"
definition ENCLAVE_MMAP_FILES_SHARED :: int where "ENCLAVE_MMAP_FILES_SHARED = 2"

lemmas flag_defs = MAP_SHARED_def MAP_PRIVATE_def MAP_FIXED_def MAP_ANONYMOUS_def PROT_WRITE_def
  MREMAP_FIXED_def ENCLAVE_MMAP_FILES_PRIVATE_def ENCLAVE_MMAP_FILES_SHARED_def

text \<open>The static variable \<open>supported_flags\<close> is set by the first call.\<close>

definition enclave_mmap_flags_supported :: "emm \<Rightarrow> int \<Rightarrow> int \<Rightarrow> emm \<times> bool" where
  "enclave_mmap_flags_supported st flags fd =
     (let st = (if supported_flags st = - 1
                then st\<lparr>supported_flags :=
                       if mmap_files st = ENCLAVE_MMAP_FILES_SHARED then MAP_PRIVATE OR MAP_SHARED
                       else if mmap_files st = ENCLAVE_MMAP_FILES_PRIVATE then MAP_PRIVATE
                       else 0\<rparr>
                else st)
      in (st, fd = - 1 \<and> flags AND MAP_ANONYMOUS \<noteq> 0 \<or> supported_flags st AND flags \<noteq> 0))"

section \<open>Mapping\<close>

definition memset :: "u64 \<Rightarrow> u8 \<Rightarrow> u64 \<Rightarrow> (u64 \<Rightarrow> u8) \<Rightarrow> u64 \<Rightarrow> u8" where
  "memset dst c n bytes = (\<lambda>a. if a - dst < n then c else bytes a)"

text \<open>
  The files of the process are those of the kernel library: their state, of type \<open>'f\<close>, and what \<open>lseek\<close> from the
  start and \<open>read\<close> do to it are an argument of the model. A call of \<open>read\<close> delivers bytes, at most as many as it is asked
  for and none at the end of the file, or fails.
\<close>

datatype read_outcome = Rd "u8 list" | Rd_error

record 'f file_ops =
  f_lseek :: "int \<Rightarrow> u64 \<Rightarrow> 'f \<Rightarrow> 'f"
  f_read :: "int \<Rightarrow> u64 \<Rightarrow> 'f \<Rightarrow> 'f \<times> read_outcome"

definition store_bytes :: "u64 \<Rightarrow> u8 list \<Rightarrow> (u64 \<Rightarrow> u8) \<Rightarrow> u64 \<Rightarrow> u8" where
  "store_bytes dst bs bytes = (\<lambda>a. if unat (a - dst) < length bs then bs ! unat (a - dst) else bytes a)"

text \<open>
  The loop that reads the file. \<open>ret\<close> is a \<open>size_t\<close>: a failed call returns the largest value of
  that type, which is above 0, so that the loop goes on and the test for a failure after it is
  never true. The loop also advances \<open>offset\<close>, which is not used again.
\<close>

partial_function (option) file_loop ::
    "'f file_ops \<Rightarrow> int \<Rightarrow> u64 \<Rightarrow> u64 \<Rightarrow> u64 \<Rightarrow> 'f \<Rightarrow> (u64 \<Rightarrow> u8) \<Rightarrow> ('f \<times> (u64 \<Rightarrow> u8)) option" where
  "file_loop ops fd mem len readb f bytes =
     (case f_read ops fd (len - readb) f of
        (f, Rd_error) \<Rightarrow> file_loop ops fd mem len (readb + (- 1)) f bytes
      | (f, Rd bs) \<Rightarrow>
          if bs = [] then Some (f, bytes)
          else file_loop ops fd mem len (readb + of_nat (length bs)) f (store_bytes (mem + readb) bs bytes))"

definition mmap_file ::
    "'f file_ops \<Rightarrow> emm \<Rightarrow> 'f \<Rightarrow> u64 \<Rightarrow> u64 \<Rightarrow> int \<Rightarrow> int \<Rightarrow> u64 \<Rightarrow> (emm \<times> 'f \<times> (errno + u64)) option" where
  "mmap_file ops st f addr len flags fd offset = do {
     (st', r) \<leftarrow> enclave_mmap st addr len (flags AND MAP_FIXED \<noteq> 0);
     let mem = (case r of Inl _ \<Rightarrow> - 1 | Inr mem \<Rightarrow> mem);
     if mem > 0
     then do {
       let f = f_lseek ops fd offset f;
       (f, bytes) \<leftarrow> file_loop ops fd mem len 0 f (em_bytes st');
       Some (st'\<lparr>em_bytes := bytes\<rparr>, f, r)
     }
     else Some (st', f, r)
   }"

definition syscall_SYS_mmap ::
    "'f file_ops \<Rightarrow> emm \<Rightarrow> 'f \<Rightarrow> u64 \<Rightarrow> u64 \<Rightarrow> int \<Rightarrow> int \<Rightarrow> int \<Rightarrow> u64 \<Rightarrow> (emm \<times> 'f \<times> (errno + u64)) option" where
  "syscall_SYS_mmap ops st f addr len prot flags fd offset =
     (if flags AND MAP_SHARED \<noteq> 0 \<and> flags AND MAP_PRIVATE \<noteq> 0 then Some (st, f, Inl EINVAL)
      else if fd = - 1 \<and> flags AND MAP_ANONYMOUS \<noteq> 0
      then do {
        (st', r) \<leftarrow> enclave_mmap st addr len (flags AND MAP_FIXED \<noteq> 0);
        case r of
          Inl e \<Rightarrow> Some (st', f, Inl e)
        | Inr mem \<Rightarrow>
            Some (if prot AND PROT_WRITE \<noteq> 0 then st'\<lparr>em_bytes := memset mem 0 len (em_bytes st')\<rparr> else st', f, Inr mem)
      }
      else if fd \<ge> 0
      then case enclave_mmap_flags_supported st flags fd of (st', ok) \<Rightarrow>
             (if ok then mmap_file ops st' f addr len flags fd offset else Some (st', f, Inl EINVAL))
      else Some (st, f, Inl EINVAL))"

section \<open>The other calls\<close>

text \<open>The state of the allocator and that of the calling thread's host calls.\<close>

type_synonym mm_sys = "emm \<times> hst"

definition MAP_FAILED :: u64 where "MAP_FAILED = - 1"

definition syscall_SYS_mremap ::
    "host \<Rightarrow> mm_sys \<Rightarrow> u64 \<Rightarrow> u64 \<Rightarrow> u64 \<Rightarrow> i32 \<Rightarrow> u64 \<Rightarrow> (mm_sys \<times> u64) option" where
  "syscall_SYS_mremap host s old_addr old_length new_length flags new_addr =
     (case s of (st, hs) \<Rightarrow>
        if \<not> in_mmap_range st old_addr 0
        then map_option (\<lambda>(hs', r). ((st, hs'), r))
               (host_syscall_SYS_mremap host old_addr old_length new_length flags new_addr hs)
        else map_option (\<lambda>(st', r). ((st', hs), case r of Inl _ \<Rightarrow> MAP_FAILED | Inr a \<Rightarrow> a))
               (enclave_mremap st old_addr old_length new_addr new_length (sint flags AND MREMAP_FIXED \<noteq> 0)))"

definition syscall_SYS_munmap :: "host \<Rightarrow> mm_sys \<Rightarrow> u64 \<Rightarrow> u64 \<Rightarrow> (mm_sys \<times> i32) option" where
  "syscall_SYS_munmap host s addr len =
     (case s of (st, hs) \<Rightarrow>
        if in_mmap_range st addr 0
        then map_option (\<lambda>(st', _). ((st', hs), 0)) (enclave_munmap st addr len)
        else map_option (\<lambda>(hs', r). ((st, hs'), r)) (host_syscall_SYS_munmap host addr len hs))"

definition syscall_SYS_msync :: "host \<Rightarrow> mm_sys \<Rightarrow> u64 \<Rightarrow> u64 \<Rightarrow> i32 \<Rightarrow> (mm_sys \<times> i32) option" where
  "syscall_SYS_msync host s addr len flags =
     (case s of (st, hs) \<Rightarrow>
        if \<not> in_mmap_range st addr 0
        then map_option (\<lambda>(hs', r). ((st, hs'), r)) (host_syscall_SYS_msync host addr len flags hs)
        else Some (s, 0))"

record sysinfo =
  totalram :: u64
  freeram :: u64
  totalswap :: u64
  freeswap :: u64
  procs :: u16
  totalhigh :: u64
  freehigh :: u64
  mem_unit :: u32

definition syscall_SYS_sysinfo :: "emm \<Rightarrow> sysinfo" where
  "syscall_SYS_sysinfo st =
     \<lparr>totalram = mmap_num_pages st * PAGE_SIZE, freeram = (mmap_num_pages st - used_pages st) * PAGE_SIZE,
      totalswap = 0, freeswap = 0, procs = 1, totalhigh = 0, freehigh = 0, mem_unit = 1\<rparr>"

section \<open>Proofs\<close>

lemma em_fields [simp]:
  "em_ok (st\<lparr>em_bytes := b\<rparr>) = em_ok st" "em_ok (st\<lparr>supported_flags := f\<rparr>) = em_ok st"
  "mapped (st\<lparr>em_bytes := b\<rparr>) = mapped st" "mapped (st\<lparr>supported_flags := f\<rparr>) = mapped st"
  "mapped_bytes (st\<lparr>em_bytes := b\<rparr>) = mapped_bytes st" "mapped_bytes (st\<lparr>supported_flags := f\<rparr>) = mapped_bytes st"
proof -
  have m: "mapped (st\<lparr>em_bytes := b\<rparr>) = mapped st" "mapped (st\<lparr>supported_flags := f\<rparr>) = mapped st"
    by (simp_all add: mapped_def page_index_def)
  then show "mapped (st\<lparr>em_bytes := b\<rparr>) = mapped st" "mapped (st\<lparr>supported_flags := f\<rparr>) = mapped st" .
  show "em_ok (st\<lparr>em_bytes := b\<rparr>) = em_ok st" "em_ok (st\<lparr>supported_flags := f\<rparr>) = em_ok st"
    by (simp_all add: em_ok_def em_inv_def m)
  show "mapped_bytes (st\<lparr>em_bytes := b\<rparr>) = mapped_bytes st" "mapped_bytes (st\<lparr>supported_flags := f\<rparr>) = mapped_bytes st"
    by (simp_all add: mapped_bytes_def page_addr_def m)
qed

lemma flags_supported_st:
  "\<exists>f. fst (enclave_mmap_flags_supported st flags fd) = st\<lparr>supported_flags := f\<rparr>"
  by (auto simp: enclave_mmap_flags_supported_def Let_def intro: exI [of _ "supported_flags st"])

lemma unat_sub_offset:
  assumes "k < 2 ^ 64"
  shows "unat (a - (d + of_nat k) :: u64) = (if k \<le> unat (a - d) then unat (a - d) - k else unat (a - d) + 2 ^ 64 - k)"
proof -
  have k: "unat (of_nat k :: u64) = k" using assms by (intro unat_of_nat_small) simp
  have e: "a - (d + of_nat k) = (a - d) - of_nat k" by (simp add: algebra_simps)
  show ?thesis unfolding e unat_sub_if_size k word_size by simp
qed

lemma store_bytes_offset:
  assumes "r + length bs < 2 ^ 64"
  shows "store_bytes (mem + of_nat r) bs bytes a =
    (if r \<le> unat (a - mem) \<and> unat (a - mem) < r + length bs then bs ! (unat (a - mem) - r) else bytes a)"
  unfolding store_bytes_def using assms unat_sub_offset [of r a mem] by auto

text \<open>
  What \<open>lseek\<close> and \<open>read\<close> are documented to do on a regular file with the contents \<open>cont\<close> where no call fails: \<open>pos\<close> is the position
  in the file, and a call that is not at the end of the file delivers at least one byte of those asked for.
\<close>

definition reads_file :: "'f file_ops \<Rightarrow> int \<Rightarrow> u8 list \<Rightarrow> ('f \<Rightarrow> nat) \<Rightarrow> bool" where
  "reads_file ops fd cont pos \<longleftrightarrow> (\<forall>f off. pos (f_lseek ops fd off f) = unat off) \<and>
     (\<forall>f n. \<exists>f' k. f_read ops fd n f = (f', Rd (take k (drop (pos f) cont))) \<and> pos f' = pos f + k \<and> k \<le> unat n \<and>
        k \<le> length cont - pos f \<and> (k = 0 \<longrightarrow> n = 0 \<or> length cont \<le> pos f))"

lemma file_loop_reads:
  assumes api: "reads_file ops fd cont pos" and "pos f = off + r" and "off + unat len \<le> length cont" and "r \<le> unat len"
  shows "\<exists>f'. file_loop ops fd mem len (of_nat r) f bytes =
    Some (f', \<lambda>a. if r \<le> unat (a - mem) \<and> unat (a - mem) < unat len then cont ! (off + unat (a - mem)) else bytes a)"
  using assms(2,4)
proof (induction "unat len - r" arbitrary: r f bytes rule: less_induct)
  case less
  have l: "unat len < 2 ^ 64" using unsigned_less [of len, where 'a = nat] by simp
  have n: "unat (len - of_nat r) = unat len - r"
    using less.prems(2) l by (simp add: unat_sub word_le_nat_alt unat_of_nat take_bit_nat_eq_self)
  obtain f1 k where k: "f_read ops fd (len - of_nat r) f = (f1, Rd (take k (drop (pos f) cont)))" "pos f1 = pos f + k"
    "k \<le> unat len - r" "k = 0 \<longrightarrow> unat len - r = 0 \<or> length cont \<le> pos f" "k \<le> length cont - pos f"
    using api n unfolding reads_file_def by (metis unat_0)
  let ?bs = "take k (drop (pos f) cont)"
  have len: "length ?bs = k" using k(5) by simp
  show ?case
  proof (cases "k = 0")
    case True
    then have "r = unat len" using k(4) less.prems assms(3) by auto
    moreover have "file_loop ops fd mem len (of_nat r) f bytes = Some (f1, bytes)"
      using k(1) True by (subst file_loop.simps) simp
    ultimately show ?thesis by (intro exI [of _ f1]) (auto simp: fun_eq_iff)
  next
    case False
    have st: "file_loop ops fd mem len (of_nat r) f bytes =
        file_loop ops fd mem len (of_nat (r + k)) f1 (store_bytes (mem + of_nat r) ?bs bytes)"
      using k(1) False len by (subst file_loop.simps) (auto simp del: length_take length_drop)
    have "unat len - (r + k) < unat len - r" "pos f1 = off + (r + k)" "r + k \<le> unat len" using False k(2,3) less.prems by auto
    from less.hyps [OF this, of "store_bytes (mem + of_nat r) ?bs bytes"] obtain f' where
      h: "file_loop ops fd mem len (of_nat (r + k)) f1 (store_bytes (mem + of_nat r) ?bs bytes) =
        Some (f', \<lambda>a. if r + k \<le> unat (a - mem) \<and> unat (a - mem) < unat len then cont ! (off + unat (a - mem))
          else store_bytes (mem + of_nat r) ?bs bytes a)" by blast
    have "store_bytes (mem + of_nat r) ?bs bytes a = (if r \<le> unat (a - mem) \<and> unat (a - mem) < r + k then cont ! (off + unat (a - mem)) else bytes a)" for a
      using store_bytes_offset [of r ?bs mem bytes a] len k(3,5) l less.prems by (auto simp: nth_take)
    then show ?thesis unfolding st h using k(3) less.prems(2) by (intro exI [of _ f']) (auto simp: fun_eq_iff)
  qed
qed

lemma memset_offset: "memset mem c n bytes a = (if unat (a - mem) < unat n then c else bytes a)"
  by (simp add: memset_def word_less_nat_alt)

text \<open>What the allocator does for a request that is not for a fixed address, in bytes.\<close>

lemma enclave_mmap_fresh:
  assumes "em_ok st" and "addr mod PAGE_SIZE = 0" and "len \<noteq> 0" and "fits addr len"
  obtains st' r where "enclave_mmap st addr len False = Some (st', r)" and "em_ok st'" and "em_bytes st' = em_bytes st"
    and "case r of Inl e \<Rightarrow> st' = st \<and> e = ENOMEM
      | Inr a \<Rightarrow> a \<noteq> 0 \<and> mapping_bytes (a, len) \<inter> mapped_bytes st = {} \<and>
          mapped_bytes st' = mapped_bytes st \<union> mapping_bytes (a, len)"
proof -
  have inv: "em_inv st" using assms(1) by (simp add: em_ok_def)
  from enclave_mmap_result [OF inv assms(2-4)] obtain st' r where
    run: "enclave_mmap st addr len False = Some (st', r)" and res: "alloc_result st (pages_of len) (st', r)" by blast
  have "em_request (addr, len)" using assms(4) by (simp add: em_request_def)
  from em_acquire_fresh [OF assms(1) this] run have f: "em_ok st'"
    "case r of Inl _ \<Rightarrow> True | Inr a \<Rightarrow> mapping_bytes (a, len) \<inter> mapped_bytes st = {} \<and>
       mapped_bytes st' = mapped_bytes st \<union> mapping_bytes (a, len)"
    by (auto simp: em_acquire_def split: sum.splits)
  show ?thesis
    using that [OF run f(1) enclave_mmap_bytes [OF run]] f(2) res addr_not_0 [OF inv]
    by (auto simp: alloc_result_def split: sum.splits)
qed

text \<open>The contents a mapping is asked to have: zeros, or \<open>len\<close> bytes of the file from \<open>offset\<close> on.\<close>

definition mapping_content :: "'f file_ops \<Rightarrow> emm \<Rightarrow> u64 \<Rightarrow> int \<Rightarrow> int \<Rightarrow> int \<Rightarrow> u64 \<Rightarrow> u8 list \<Rightarrow> bool" where
  "mapping_content ops st len prot flags fd offset content \<longleftrightarrow>
     flags AND MAP_FIXED = 0 \<and> \<not> (flags AND MAP_SHARED \<noteq> 0 \<and> flags AND MAP_PRIVATE \<noteq> 0) \<and>
     (fd = - 1 \<and> flags AND MAP_ANONYMOUS \<noteq> 0 \<and> prot AND PROT_WRITE \<noteq> 0 \<and> content = replicate (unat len) 0 \<or>
      fd \<ge> 0 \<and> snd (enclave_mmap_flags_supported st flags fd) \<and>
        (\<exists>cont pos. reads_file ops fd cont pos \<and> unat offset + unat len \<le> length cont \<and>
          content = take (unat len) (drop (unat offset) cont)))"

definition room_for :: "emm \<Rightarrow> u64 \<Rightarrow> bool" where
  "room_for st len \<longleftrightarrow> (\<exists>k. k + pages_of len \<le> npages st \<and> mapped st \<inter> {k..<k + pages_of len} = {})"

lemma enclave_mmap_room:
  assumes "em_ok st" and "addr mod PAGE_SIZE = 0" and "len \<noteq> 0" and "fits addr len" and "room_for st len"
  obtains st' a where "enclave_mmap st addr len False = Some (st', Inr a)" and "em_ok st'" and "em_bytes st' = em_bytes st"
    and "a \<noteq> 0" and "mapping_bytes (a, len) \<inter> mapped_bytes st = {}" and "mapped_bytes st' = mapped_bytes st \<union> mapping_bytes (a, len)"
proof -
  from assms(1-4) obtain st' r where m: "enclave_mmap st addr len False = Some (st', r)" "em_ok st'" "em_bytes st' = em_bytes st"
    "case r of Inl e \<Rightarrow> st' = st \<and> e = ENOMEM
      | Inr a \<Rightarrow> a \<noteq> 0 \<and> mapping_bytes (a, len) \<inter> mapped_bytes st = {} \<and>
          mapped_bytes st' = mapped_bytes st \<union> mapping_bytes (a, len)" by (rule enclave_mmap_fresh)
  have "em_inv st" using assms(1) by (simp add: em_ok_def)
  from enclave_mmap_result [OF this assms(2-4)] m(1) have "alloc_result st (pages_of len) (st', r)" by auto
  with assms(5) obtain a where "r = Inr a" by (cases r) (auto simp: alloc_result_def room_for_def)
  with m that show ?thesis by auto
qed

lemma syscall_mmap_content:
  assumes "em_ok st" and "addr mod PAGE_SIZE = 0" and "len \<noteq> 0" and "fits addr len" and "room_for st len"
    and c: "mapping_content ops st len prot flags fd offset content"
  shows "\<exists>st' f' a. syscall_SYS_mmap ops st f addr len prot flags fd offset = Some (st', f', Inr a) \<and> em_ok st' \<and>
    mapping_bytes (a, len) \<inter> mapped_bytes st = {} \<and> mapped_bytes st' = mapped_bytes st \<union> mapping_bytes (a, len) \<and>
    (\<forall>b. em_bytes st' b = (if unat (b - a) < unat len then content ! unat (b - a) else em_bytes st b))"
proof -
  have fl: "flags AND MAP_FIXED = 0" "\<not> (flags AND MAP_SHARED \<noteq> 0 \<and> flags AND MAP_PRIVATE \<noteq> 0)"
    using c by (simp_all add: mapping_content_def)
  from c consider (anonymous) "fd = - 1" "flags AND MAP_ANONYMOUS \<noteq> 0" "prot AND PROT_WRITE \<noteq> 0" "content = replicate (unat len) 0"
    | (filed) cont pos where "fd \<ge> 0" "snd (enclave_mmap_flags_supported st flags fd)" "reads_file ops fd cont pos"
        "unat offset + unat len \<le> length cont" "content = take (unat len) (drop (unat offset) cont)"
    by (auto simp: mapping_content_def)
  then show ?thesis
  proof cases
    case anonymous
    from assms(1-5) obtain st' a where m: "enclave_mmap st addr len False = Some (st', Inr a)" "em_ok st'" "em_bytes st' = em_bytes st"
      "a \<noteq> 0" "mapping_bytes (a, len) \<inter> mapped_bytes st = {}" "mapped_bytes st' = mapped_bytes st \<union> mapping_bytes (a, len)"
      by (rule enclave_mmap_room)
    then have "syscall_SYS_mmap ops st f addr len prot flags fd offset = Some (st'\<lparr>em_bytes := memset a 0 len (em_bytes st')\<rparr>, f, Inr a)"
      using anonymous fl by (auto simp: syscall_SYS_mmap_def)
    then show ?thesis using m anonymous by (intro exI [of _ "st'\<lparr>em_bytes := memset a 0 len (em_bytes st')\<rparr>"] exI [of _ f] exI [of _ a])
      (auto simp: memset_offset)
  next
    case filed
    obtain g where st: "fst (enclave_mmap_flags_supported st flags fd) = st\<lparr>supported_flags := g\<rparr>"
      using flags_supported_st by blast
    have "em_ok (st\<lparr>supported_flags := g\<rparr>)" "room_for (st\<lparr>supported_flags := g\<rparr>) len" using assms(1,5) by (simp_all add: room_for_def)
    from this(1) assms(2-4) this(2) obtain st' a where m: "enclave_mmap (st\<lparr>supported_flags := g\<rparr>) addr len False = Some (st', Inr a)" "em_ok st'"
      "em_bytes st' = em_bytes (st\<lparr>supported_flags := g\<rparr>)" "a \<noteq> 0" "mapping_bytes (a, len) \<inter> mapped_bytes (st\<lparr>supported_flags := g\<rparr>) = {}"
      "mapped_bytes st' = mapped_bytes (st\<lparr>supported_flags := g\<rparr>) \<union> mapping_bytes (a, len)"
      by (rule enclave_mmap_room)
    let ?f = "f_lseek ops fd offset f"
    have "pos ?f = unat offset + 0" using filed(3) by (simp add: reads_file_def)
    from file_loop_reads [OF filed(3) this filed(4), of a "em_bytes st'"] obtain f' bytes where
      l: "file_loop ops fd a len 0 ?f (em_bytes st') = Some (f', bytes)"
        "\<And>b. bytes b = (if unat (b - a) < unat len then cont ! (unat offset + unat (b - a)) else em_bytes st b)"
      using m(3) by auto
    from filed st have "syscall_SYS_mmap ops st f addr len prot flags fd offset = mmap_file ops (st\<lparr>supported_flags := g\<rparr>) f addr len flags fd offset"
      using fl by (auto simp: syscall_SYS_mmap_def split: prod.splits)
    also have "\<dots> = Some (st'\<lparr>em_bytes := bytes\<rparr>, f', Inr a)" using m(1,4) l(1) fl by (simp add: mmap_file_def Let_def word_gt_0)
    finally show ?thesis using m l(2) filed(4,5)
      by (intro exI [of _ "st'\<lparr>em_bytes := bytes\<rparr>"] exI [of _ f'] exI [of _ a]) (auto simp: nth_take)
  qed
qed

section \<open>Properties\<close>

text \<open>
  C36: \<open>mmap\<close> without \<open>MAP_FIXED\<close>, when there is room, of anonymous memory that is to be writable, or of \<open>len\<close> bytes of a file that has that many
  from \<open>offset\<close> on and is read without failures: it returns a mapping made of bytes that were not mapped
  before, which holds zeros or the bytes of the file from \<open>offset\<close> on, and no other byte of the memory changes. The file is read
  in whatever parts \<open>read\<close> delivers. Anonymous memory that is not writable and parts of a file past its end are not covered.
\<close>

theorem mmap_delivers_content:
  assumes "em_ok st" and "addr mod PAGE_SIZE = 0" and "len \<noteq> 0" and "fits addr len" and "room_for st len"
    and "mapping_content ops st len prot flags fd offset content"
  shows "\<exists>st' f' a. syscall_SYS_mmap ops st f addr len prot flags fd offset = Some (st', f', Inr a) \<and> em_ok st' \<and>
    mapping_bytes (a, len) \<inter> mapped_bytes st = {} \<and> mapped_bytes st' = mapped_bytes st \<union> mapping_bytes (a, len) \<and>
    (\<forall>b. em_bytes st' b = (if unat (b - a) < unat len then content ! unat (b - a) else em_bytes st b))"
  using assms by (rule syscall_mmap_content)

definition two_at_a_time :: "u8 list \<Rightarrow> nat file_ops" where
  "two_at_a_time cont = \<lparr>f_lseek = (\<lambda>_ off _. unat off),
     f_read = (\<lambda>_ n p. let k = min (min 2 (unat n)) (length cont - p) in (p + k, Rd (take k (drop p cont))))\<rparr>"

lemma two_at_a_time_reads: "reads_file (two_at_a_time cont) fd cont id"
  by (auto simp: reads_file_def two_at_a_time_def Let_def min_def unat_eq_zero)

definition files_demo :: emm where
  "files_demo = enclave_mman_init 0x100000 5 False 1 (replicate 512 0) (\<lambda>_. 7)"

lemma files_demo_ok: "em_ok files_demo" "mapped files_demo = {}" "npages files_demo = 4"
proof -
  show "em_ok files_demo" "mapped files_demo = {}" unfolding files_demo_def
    by (rule enclave_mman_init_ok, simp add: init_ok_def init_pages_def init_bitmap_pages_def)+
  show "npages files_demo = 4" by (simp add: files_demo_def enclave_mman_init_def DIV_ROUNDUP_def)
qed

theorem mmap_delivers_content_witness:
  "\<exists>st' f' a. syscall_SYS_mmap (two_at_a_time [9, 8, 1, 2, 3, 4]) files_demo 0 0 3 1 2 3 2 = Some (st', f', Inr a) \<and>
     em_bytes st' a = 1 \<and> em_bytes st' (a + 1) = 2 \<and> em_bytes st' (a + 2) = 3"
proof -
  have "mapping_content (two_at_a_time [9, 8, 1, 2, 3, 4]) files_demo 3 1 2 3 2 [1, 2, 3]"
    unfolding mapping_content_def
  proof (intro conjI disjI2 exI [of _ "[9, 8, 1, 2, 3, 4]"] exI [of _ id] two_at_a_time_reads)
    have "supported_flags files_demo = - 1" "mmap_files files_demo = 1" by (simp_all add: files_demo_def enclave_mman_init_def Let_def)
    then show "snd (enclave_mmap_flags_supported files_demo 2 3)" by (simp add: enclave_mmap_flags_supported_def flag_defs)
  qed (simp_all add: flag_defs)
  moreover have "room_for files_demo 3" using files_demo_ok(2,3) by (auto simp: room_for_def pages_of_def)
  moreover have "fits 0 3" by (simp add: fits_def)
  ultimately show ?thesis using mmap_delivers_content [OF files_demo_ok(1), of 0 3 _ 1 2 3 2 "[1, 2, 3]" 0] by fastforce
qed

text \<open>
  A failed \<open>read\<close> does not end the call: the loop goes on, one byte before the place it had reached.
\<close>

lemma file_loop_error:
  "f_read ops fd (len - readb) f = (f', Rd_error) \<Longrightarrow>
    file_loop ops fd mem len readb f bytes = file_loop ops fd mem len (readb - 1) f' bytes"
  by (subst file_loop.simps) simp

text \<open>At the end of the file the rest of the mapping is left as it was, not cleared.\<close>

lemma file_end_not_cleared:
  "f_read ops fd (len - readb) f = (f', Rd []) \<Longrightarrow> file_loop ops fd mem len readb f bytes = Some (f', bytes)"
  by (subst file_loop.simps) simp

text \<open>Anonymous memory that is not to be writable is not cleared either: it holds what its last user left.\<close>

lemma readonly_not_cleared:
  assumes "enclave_mmap st addr len False = Some (st', Inr a)" and "prot AND PROT_WRITE = 0"
  shows "syscall_SYS_mmap ops st f addr len prot (MAP_PRIVATE OR MAP_ANONYMOUS) (- 1) offset = Some (st', f, Inr a)"
  using assms by (simp add: syscall_SYS_mmap_def flag_defs)

text \<open>\<open>munmap\<close> returns 0 for the last page of the heap although the page stays mapped.\<close>

lemma munmap_hides_errors:
  assumes "em_ok st" and "unat addr = page_addr st k" and "len \<noteq> 0" and "fits addr len"
    and "k + pages_of len = npages st" and "in_mmap_range st addr 0"
  shows "syscall_SYS_munmap host (st, hs) addr len = Some ((st, hs), 0)"
  using enclave_munmap_result [OF _ assms(2-4)] assms(1,5,6) by (simp add: em_ok_def syscall_SYS_munmap_def)

end
