(* ===== verification/Futex.thy ===== *)
theory Futex
  imports Prelude "HOL-Library.Signed_Division"
begin

text \<open>
  The futex system call of \<^verbatim>\<open>src/sched/futex.c\<close>. Every operation runs inside one critical
  section of the ticket lock \<open>futex_q_lock\<close>; a wait that blocks releases it in the same step
  that gives up the processor. The waiters form a singly linked list whose head is the thread
  that began to wait last. The current values of memory and clocks are arguments.
\<close>

section \<open>State\<close>

record timespec =
  tv_sec :: int
  tv_nsec :: int

text \<open>An entry's \<open>futex_lt\<close> is cleared only on its way out of the list.\<close>

record futex_q =
  futex_key :: u32
  futex_bitset :: u32
  futex_deadline :: u64
  fq_clock :: int
  futex_lt :: nat

text \<open>\<open>lt_err\<close> is the field \<open>err\<close> of the threads; \<open>fx_enqueued\<close> are the threads passed to
  \<open>__scheduler_enqueue\<close>, in order.\<close>

record futex_st =
  futex_queues :: "futex_q list"
  futex_sleepers :: int
  lt_err :: "nat \<Rightarrow> int"
  fx_enqueued :: "nat list"

abbreviation FUTEX_NONE :: int where "FUTEX_NONE \<equiv> 0"
abbreviation FUTEX_EXPIRED :: int where "FUTEX_EXPIRED \<equiv> 1"
abbreviation CLOCK_REALTIME :: int where "CLOCK_REALTIME \<equiv> 0"
abbreviation CLOCK_MONOTONIC :: int where "CLOCK_MONOTONIC \<equiv> 1"
abbreviation FUTEX_WAIT :: int where "FUTEX_WAIT \<equiv> 0"
abbreviation FUTEX_WAKE :: int where "FUTEX_WAKE \<equiv> 1"
abbreviation FUTEX_REQUEUE :: int where "FUTEX_REQUEUE \<equiv> 3"
abbreviation FUTEX_CMP_REQUEUE :: int where "FUTEX_CMP_REQUEUE \<equiv> 4"
abbreviation FUTEX_WAIT_BITSET :: int where "FUTEX_WAIT_BITSET \<equiv> 9"
abbreviation FUTEX_WAKE_BITSET :: int where "FUTEX_WAKE_BITSET \<equiv> 10"
abbreviation FUTEX_PRIVATE :: int where "FUTEX_PRIVATE \<equiv> 128"
abbreviation FUTEX_CLOCK_REALTIME :: int where "FUTEX_CLOCK_REALTIME \<equiv> 256"
abbreviation FUTEX_BITSET_MATCH_ANY :: u32 where "FUTEX_BITSET_MATCH_ANY \<equiv> 0xffffffff"
abbreviation fx_EAGAIN :: int where "fx_EAGAIN \<equiv> 11"
abbreviation fx_EINVAL :: int where "fx_EINVAL \<equiv> 22"
abbreviation fx_ENOSYS :: int where "fx_ENOSYS \<equiv> 38"
abbreviation fx_ETIMEDOUT :: int where "fx_ETIMEDOUT \<equiv> 110"

section \<open>Operations\<close>

definition timespec_to_usec :: "timespec \<Rightarrow> u64" where
  "timespec_to_usec ts = of_int (tv_sec ts * 1000000 + tv_nsec ts sdiv 1000)"

definition to_futex_key :: "u64 \<Rightarrow> u32" where
  "to_futex_key uaddr = ucast uaddr"

text \<open>What is done to a thread that is taken off the list.\<close>

definition fq_wakeup :: "int \<Rightarrow> futex_q \<Rightarrow> futex_st \<Rightarrow> futex_st" where
  "fq_wakeup reason fq st =
     st\<lparr>futex_sleepers := futex_sleepers st - 1, lt_err := (lt_err st)(futex_lt fq := reason),
        fx_enqueued := fx_enqueued st @ [futex_lt fq]\<rparr>"

text \<open>
  The condition of \<open>futex_tick\<close>, with its assignments to \<open>fq->clock\<close>: the value is the entry
  after the condition was evaluated, and whether it held.
\<close>

definition tick_cond :: "u64 \<Rightarrow> u64 \<Rightarrow> futex_q \<Rightarrow> futex_q \<times> bool" where
  "tick_cond real mntc fq =
     (if futex_deadline fq \<noteq> 0
      then let c1 = (if CLOCK_REALTIME \<noteq> 0 \<and> futex_deadline fq \<le> real then 1 else 0)
           in if c1 \<noteq> 0 then (fq\<lparr>fq_clock := c1\<rparr>, True)
              else let c2 = (if CLOCK_MONOTONIC \<noteq> 0 \<and> futex_deadline fq \<le> mntc then 1 else 0)
                   in (fq\<lparr>fq_clock := c2\<rparr>, c2 \<noteq> 0)
      else (fq, False))"

fun tick_scan :: "u64 \<Rightarrow> u64 \<Rightarrow> futex_q list \<Rightarrow> futex_st \<Rightarrow> futex_q list \<times> futex_st" where
  "tick_scan real mntc [] st = ([], st)"
| "tick_scan real mntc (fq # fqs) st =
     (case tick_cond real mntc fq of
        (fq', True) \<Rightarrow> tick_scan real mntc fqs (fq_wakeup FUTEX_EXPIRED fq' st)
      | (fq', False) \<Rightarrow> (case tick_scan real mntc fqs st of (rest, st') \<Rightarrow> (fq' # rest, st')))"

text \<open>\<open>busy\<close>: \<open>ticket_trylock\<close> returned \<open>EBUSY\<close>.\<close>

definition futex_tick :: "timespec \<Rightarrow> timespec \<Rightarrow> bool \<Rightarrow> futex_st \<Rightarrow> futex_st" where
  "futex_tick ts_real ts_mntc busy st =
     (if futex_sleepers st = 0 then st
      else if busy then st
      else case tick_scan (timespec_to_usec ts_real) (timespec_to_usec ts_mntc) (futex_queues st) st of
             (rest, st') \<Rightarrow> st'\<lparr>futex_queues := rest\<rparr>)"

definition futex_wait_new :: "nat \<Rightarrow> u32 \<Rightarrow> u32 \<Rightarrow> futex_q" where
  "futex_wait_new self key bitset =
     \<lparr>futex_key = key, futex_bitset = bitset, futex_deadline = 0, fq_clock = CLOCK_MONOTONIC,
      futex_lt = self\<rparr>"

text \<open>Up to the point where the thread gives up the processor.\<close>

definition do_futex_sleep ::
    "futex_q \<Rightarrow> timespec option \<Rightarrow> int \<Rightarrow> timespec \<Rightarrow> futex_st \<Rightarrow> futex_q \<times> futex_st" where
  "do_futex_sleep fq ts clock now st =
     (let st' = st\<lparr>futex_sleepers := futex_sleepers st + 1\<rparr>
      in case ts of
           None \<Rightarrow> (fq, st')
         | Some t \<Rightarrow> (fq\<lparr>fq_clock := clock,
                        futex_deadline := timespec_to_usec now + timespec_to_usec t\<rparr>, st'))"

text \<open>What \<open>__do_futex_sleep\<close> returns when the thread runs again.\<close>

definition futex_resume :: "nat \<Rightarrow> futex_st \<Rightarrow> int" where
  "futex_resume self st = (if lt_err st self = FUTEX_EXPIRED then - fx_ETIMEDOUT else 0)"

datatype fx_outcome = Fx_ret int | Fx_block

definition futex_wait ::
    "nat \<Rightarrow> (u64 \<Rightarrow> int) \<Rightarrow> u64 \<Rightarrow> int \<Rightarrow> u32 \<Rightarrow> timespec option \<Rightarrow> int \<Rightarrow> timespec \<Rightarrow> futex_st
      \<Rightarrow> futex_st \<times> fx_outcome" where
  "futex_wait self mem uaddr val bitset ts clock now st =
     (if mem uaddr = val
      then case do_futex_sleep (futex_wait_new self (to_futex_key uaddr) bitset) ts clock now st of
             (fq, st') \<Rightarrow> (st'\<lparr>futex_queues := fq # futex_queues st'\<rparr>, Fx_block)
      else (st, Fx_ret (- fx_EAGAIN)))"

fun wake_scan :: "u32 \<Rightarrow> u32 \<Rightarrow> u32 \<Rightarrow> u32 \<Rightarrow> futex_q list \<Rightarrow> futex_st
    \<Rightarrow> futex_q list \<times> u32 \<times> futex_st" where
  "wake_scan key num bitset w [] st = ([], w, st)"
| "wake_scan key num bitset w (fq # fqs) st =
     (if futex_key fq = key \<and> futex_bitset fq AND bitset \<noteq> 0 \<and> w < num
      then wake_scan key num bitset (w + 1) fqs (fq_wakeup FUTEX_NONE fq st)
      else case wake_scan key num bitset w fqs st of (rest, w', st') \<Rightarrow> (fq # rest, w', st'))"

definition futex_wake :: "u64 \<Rightarrow> u32 \<Rightarrow> u32 \<Rightarrow> futex_st \<Rightarrow> futex_st \<times> fx_outcome" where
  "futex_wake uaddr num bitset st =
     (case wake_scan (to_futex_key uaddr) num bitset 0 (futex_queues st) st of
        (rest, w, st') \<Rightarrow> (st'\<lparr>futex_queues := rest\<rparr>, Fx_ret (sint w)))"

fun requeue_scan :: "u32 \<Rightarrow> u32 \<Rightarrow> u32 \<Rightarrow> u32 \<Rightarrow> u32 \<Rightarrow> futex_q list \<Rightarrow> futex_st
    \<Rightarrow> futex_q list \<times> u32 \<times> futex_st" where
  "requeue_scan key key2 num limit w [] st = ([], w, st)"
| "requeue_scan key key2 num limit w (fq # fqs) st =
     (if futex_key fq = key \<and> w < num
      then requeue_scan key key2 num limit (w + 1) fqs (fq_wakeup FUTEX_NONE fq st)
      else if futex_key fq = key \<and> w < num + limit
      then case requeue_scan key key2 num limit (w + 1) fqs st of
             (rest, w', st') \<Rightarrow> (fq\<lparr>futex_key := key2\<rparr> # rest, w', st')
      else case requeue_scan key key2 num limit w fqs st of
             (rest, w', st') \<Rightarrow> (fq # rest, w', st'))"

definition futex_requeue :: "u64 \<Rightarrow> u64 \<Rightarrow> u32 \<Rightarrow> u32 \<Rightarrow> futex_st \<Rightarrow> futex_st \<times> fx_outcome" where
  "futex_requeue uaddr uaddr2 num limit st =
     (case requeue_scan (to_futex_key uaddr) (to_futex_key uaddr2) num limit 0 (futex_queues st) st of
        (rest, w, st') \<Rightarrow> (st'\<lparr>futex_queues := rest\<rparr>, Fx_ret (sint w)))"

text \<open>
  The system call. \<open>timeout\<close> is the pointer argument, \<open>ts_at\<close> what it points to; \<open>clock_now\<close>
  is \<open>clock_gettime\<close>; \<open>rc0\<close> is the indeterminate initial value of \<open>rc\<close>.
\<close>

record futex_env =
  fe_self :: nat
  fe_mem :: "u64 \<Rightarrow> int"
  fe_clock_now :: "int \<Rightarrow> timespec"
  fe_ts_at :: "u64 \<Rightarrow> timespec"
  fe_rc0 :: int

definition futex_switch ::
    "futex_env \<Rightarrow> u64 \<Rightarrow> int \<Rightarrow> int \<Rightarrow> u64 \<Rightarrow> u64 \<Rightarrow> int \<Rightarrow> int \<Rightarrow> timespec \<Rightarrow> futex_st
      \<Rightarrow> futex_st \<times> fx_outcome" where
  "futex_switch env uaddr op val timeout uaddr2 val3 clock now st =
     (let ts = (if timeout = 0 then None else Some (fe_ts_at env timeout));
          wait = (\<lambda>bitset. futex_wait (fe_self env) (fe_mem env) uaddr val bitset ts clock now st);
          wake = (\<lambda>bitset. futex_wake uaddr (of_int val) bitset st);
          requeue = futex_requeue uaddr uaddr2 (of_int val) (ucast timeout) st
      in if op = FUTEX_WAIT_BITSET
         then if val3 = 0 then (st, Fx_ret (- fx_EINVAL)) else wait (of_int val3)
         else if op = FUTEX_WAIT then wait FUTEX_BITSET_MATCH_ANY
         else if op = FUTEX_WAKE_BITSET
         then if val3 = 0 then (st, Fx_ret (- fx_EINVAL)) else wake (of_int val3)
         else if op = FUTEX_WAKE then wake FUTEX_BITSET_MATCH_ANY
         else if op = FUTEX_CMP_REQUEUE
         then if fe_mem env uaddr \<noteq> val3 then (st, Fx_ret (fe_rc0 env)) else requeue
         else if op = FUTEX_REQUEUE then requeue
         else (st, Fx_ret (- fx_ENOSYS)))"

definition syscall_SYS_futex ::
    "futex_env \<Rightarrow> u64 \<Rightarrow> int \<Rightarrow> int \<Rightarrow> u64 \<Rightarrow> u64 \<Rightarrow> int \<Rightarrow> futex_st \<Rightarrow> futex_st \<times> fx_outcome" where
  "syscall_SYS_futex env uaddr op0 val timeout uaddr2 val3 st =
     (let op1 = op0 AND NOT FUTEX_PRIVATE
      in if op1 AND FUTEX_CLOCK_REALTIME \<noteq> 0 \<and> \<not> (op1 AND (FUTEX_WAIT OR FUTEX_WAIT_BITSET) \<noteq> 0)
         then (st, Fx_ret (- fx_ENOSYS))
         else let clock = (if op1 AND FUTEX_CLOCK_REALTIME \<noteq> 0 then CLOCK_REALTIME else CLOCK_MONOTONIC);
                  op = op1 AND NOT FUTEX_CLOCK_REALTIME;
                  now = (if op = FUTEX_WAIT then fe_clock_now env clock else \<lparr>tv_sec = 0, tv_nsec = 0\<rparr>)
              in futex_switch env uaddr op val timeout uaddr2 val3 clock now st)"

section \<open>What the scans do\<close>

text \<open>Taking the first \<open>n\<close> elements with a property out of a list.\<close>

fun take_out :: "('a \<Rightarrow> bool) \<Rightarrow> nat \<Rightarrow> 'a list \<Rightarrow> 'a list \<times> 'a list" where
  "take_out P n [] = ([], [])"
| "take_out P n (x # xs) =
     (if P x \<and> 0 < n then map_prod ((#) x) id (take_out P (n - 1) xs)
      else map_prod id ((#) x) (take_out P n xs))"

lemma take_out_fst: "fst (take_out P n xs) = take n (filter P xs)"
  by (induction xs arbitrary: n) (auto simp: take_Cons')

lemma take_out_set: "set (fst (take_out P n xs)) \<union> set (snd (take_out P n xs)) = set xs"
  by (induction xs arbitrary: n) auto

lemma take_out_length: "length (fst (take_out P n xs)) + length (snd (take_out P n xs)) = length xs"
  by (induction xs arbitrary: n) auto

lemma take_out_subset: "set (snd (take_out P n xs)) \<subseteq> set xs"
  using take_out_set [of P n xs] by blast

lemma take_out_snd:
  "distinct xs \<Longrightarrow> snd (take_out P n xs) = filter (\<lambda>x. x \<notin> set (fst (take_out P n xs))) xs"
proof (induction xs arbitrary: n)
  case (Cons x xs)
  have sub: "set (fst (take_out P m xs)) \<subseteq> set xs" for m using take_out_set [of P m xs] by blast
  show ?case
    using Cons sub [of "n - 1"] sub [of n] by (auto intro!: filter_cong)
qed simp

lemma take_out_snd_distinct:
  "distinct (map f xs) \<Longrightarrow> distinct (map f (snd (take_out P n xs)))"
proof (induction xs arbitrary: n)
  case (Cons x xs)
  then show ?case using take_out_subset [of P n xs] by auto
qed simp

lemma fold_fq_wakeup:
  "futex_sleepers (fold (fq_wakeup r) fqs st) = futex_sleepers st - int (length fqs)"
  "fx_enqueued (fold (fq_wakeup r) fqs st) = fx_enqueued st @ map futex_lt fqs"
  "futex_queues (fold (fq_wakeup r) fqs st) = futex_queues st"
  "lt_err (fold (fq_wakeup r) fqs st) i = (if i \<in> futex_lt ` set fqs then r else lt_err st i)"
  by (induction fqs arbitrary: st) (auto simp: fq_wakeup_def)

definition fq_matches :: "u32 \<Rightarrow> u32 \<Rightarrow> futex_q \<Rightarrow> bool" where
  "fq_matches key bitset fq \<longleftrightarrow> futex_key fq = key \<and> futex_bitset fq AND bitset \<noteq> 0"

lemma wake_scan_take_out:
  "wake_scan key num bs w fqs st =
     (let e = take_out (fq_matches key bs) (unat num - unat w) fqs
      in (snd e, w + of_nat (length (fst e)), fold (fq_wakeup FUTEX_NONE) (fst e) st))"
proof (induction fqs arbitrary: w st)
  case (Cons fq fqs)
  show ?case
  proof (cases "fq_matches key bs fq \<and> w < num")
    case True
    then have "unat (w + 1) = Suc (unat w)" "0 < unat num - unat w"
      using unsigned_less [of num, where ?'a = nat]
      by (auto simp: word_less_nat_alt unat_word_ariths intro!: mod_less)
    then have "unat num - unat (w + 1) = unat num - unat w - 1" by simp
    with True Cons [of "w + 1"] show ?thesis
      using \<open>0 < unat num - unat w\<close> by (auto simp: fq_matches_def Let_def split: prod.splits)
  next
    case False
    then have "fq_matches key bs fq \<longrightarrow> unat num - unat w = 0" by (auto simp: word_less_nat_alt)
    with False Cons show ?thesis
      by (auto simp: fq_matches_def Let_def split: prod.splits)
  qed
qed simp

section \<open>Invariant\<close>

text \<open>A thread waits at most once and the counter of sleepers is the number of waiters.\<close>

definition fx_inv :: "futex_st \<Rightarrow> bool" where
  "fx_inv st \<longleftrightarrow> distinct (map futex_lt (futex_queues st)) \<and>
     futex_sleepers st = int (length (futex_queues st))"

abbreviation fx_waiting :: "futex_st \<Rightarrow> nat set" where
  "fx_waiting st \<equiv> futex_lt ` set (futex_queues st)"

lemma distinct_queues: "fx_inv st \<Longrightarrow> distinct (futex_queues st)"
  by (simp add: fx_inv_def distinct_map)

lemma fx_inv_take_out:
  assumes "fx_inv st"
  shows "fx_inv (fold (fq_wakeup r) (fst (take_out P n (futex_queues st))) st
    \<lparr>futex_queues := snd (take_out P n (futex_queues st))\<rparr>)"
  using assms take_out_snd_distinct [of futex_lt "futex_queues st" P n] take_out_length [of P n "futex_queues st"]
  by (simp add: fx_inv_def fold_fq_wakeup)

lemma fx_inv_wait:
  assumes "fx_inv st" and "self \<notin> fx_waiting st"
  shows "fx_inv (fst (futex_wait self mem uaddr val bs ts clock now st))"
  using assms
  by (auto simp: fx_inv_def futex_wait_def do_futex_sleep_def Let_def futex_wait_new_def split: option.splits)

lemma fx_inv_wake: "fx_inv st \<Longrightarrow> fx_inv (fst (futex_wake uaddr num bs st))"
  using fx_inv_take_out by (simp add: futex_wake_def wake_scan_take_out Let_def)

text \<open>Requeueing: the waiters of the first key that stay change their key, the others stay as
  they are, in the same order.\<close>

lemma requeue_scan_threads:
  assumes "requeue_scan key key2 num limit w fqs st = (rest, w', st')"
  shows "\<exists>woken. st' = fold (fq_wakeup FUTEX_NONE) woken st \<and>
    length woken + length rest = length fqs \<and>
    futex_lt ` set woken \<union> futex_lt ` set rest = futex_lt ` set fqs \<and>
    (distinct (map futex_lt fqs) \<longrightarrow> distinct (map futex_lt rest))"
  using assms
proof (induction fqs arbitrary: w st rest w' st')
  case Nil
  then show ?case by (auto intro!: exI [of _ "[]"])
next
  case (Cons fq fqs)
  show ?case
  proof (cases "futex_key fq = key \<and> w < num")
    case True
    with Cons.prems have "requeue_scan key key2 num limit (w + 1) fqs (fq_wakeup FUTEX_NONE fq st) = (rest, w', st')"
      by simp
    from Cons.IH [OF this] obtain woken where wk: "st' = fold (fq_wakeup FUTEX_NONE) woken (fq_wakeup FUTEX_NONE fq st)"
      "length woken + length rest = length fqs" "futex_lt ` set woken \<union> futex_lt ` set rest = futex_lt ` set fqs"
      "distinct (map futex_lt fqs) \<longrightarrow> distinct (map futex_lt rest)" by blast
    then show ?thesis by (intro exI [of _ "fq # woken"]) auto
  next
    case False
    with Cons.prems obtain fq' rest' v where
      v: "requeue_scan key key2 num limit v fqs st = (rest', w', st')" "rest = fq' # rest'"
      "futex_lt fq' = futex_lt fq"
      by (auto split: if_splits prod.splits)
    from Cons.IH [OF v(1)] obtain woken where wk: "st' = fold (fq_wakeup FUTEX_NONE) woken st"
      "length woken + length rest' = length fqs" "futex_lt ` set woken \<union> futex_lt ` set rest' = futex_lt ` set fqs"
      "distinct (map futex_lt fqs) \<longrightarrow> distinct (map futex_lt rest')" by blast
    then show ?thesis using v(2,3) by (intro exI [of _ woken]) auto
  qed
qed

lemma fx_inv_requeue:
  assumes "fx_inv st"
  shows "fx_inv (fst (futex_requeue uaddr uaddr2 num limit st))"
proof -
  obtain rest w' st' where e: "requeue_scan (to_futex_key uaddr) (to_futex_key uaddr2) num limit 0
      (futex_queues st) st = (rest, w', st')" by (rule prod_cases3)
  from requeue_scan_threads [OF this] assms show ?thesis
    by (auto simp: futex_requeue_def e fx_inv_def fold_fq_wakeup)
qed

definition due :: "u64 \<Rightarrow> futex_q \<Rightarrow> bool" where
  "due mntc fq \<longleftrightarrow> futex_deadline fq \<noteq> 0 \<and> futex_deadline fq \<le> mntc"

definition tick_mark :: "futex_q \<Rightarrow> futex_q" where
  "tick_mark fq = (if futex_deadline fq = 0 then fq else fq\<lparr>fq_clock := 0\<rparr>)"

lemma futex_lt_upd [simp]: "futex_lt (fq\<lparr>fq_clock := c\<rparr>) = futex_lt fq"
  by simp

lemma fq_wakeup_clock [simp]: "fq_wakeup r (fq\<lparr>fq_clock := c\<rparr>) = fq_wakeup r fq"
  by (simp add: fq_wakeup_def fun_eq_iff)

lemma tick_scan_partition:
  "tick_scan real mntc fqs st =
     (map tick_mark (filter (\<lambda>fq. \<not> due mntc fq) fqs), fold (fq_wakeup FUTEX_EXPIRED) (filter (due mntc) fqs) st)"
proof (induction fqs arbitrary: st)
  case (Cons fq fqs)
  have "tick_cond real mntc fq = (if due mntc fq then (fq\<lparr>fq_clock := 1\<rparr>, True) else (tick_mark fq, False))"
    by (auto simp: tick_cond_def due_def tick_mark_def Let_def)
  then show ?case by (simp add: Cons)
qed simp

lemma fx_inv_tick:
  assumes "fx_inv st"
  shows "fx_inv (futex_tick ts_real ts_mntc busy st)"
proof -
  have "int (length fqs) - int (length (filter (due m) fqs)) = int (length (filter (\<lambda>fq. \<not> due m fq) fqs))"
    for m fqs
    using sum_length_filter_compl [of "due m" fqs] by linarith
  moreover have "map futex_lt (map tick_mark fqs) = map futex_lt fqs" for fqs
    by (simp add: tick_mark_def)
  ultimately show ?thesis using assms
    by (auto simp: futex_tick_def tick_scan_partition fx_inv_def fold_fq_wakeup distinct_map_filter simp del: map_map)
qed

lemma fx_inv_syscall:
  assumes "fx_inv st" and "fe_self env \<notin> fx_waiting st"
  shows "fx_inv (fst (syscall_SYS_futex env uaddr op val timeout uaddr2 val3 st))"
  using assms fx_inv_wait [OF assms] fx_inv_wake [OF assms(1)] fx_inv_requeue [OF assms(1)]
  unfolding syscall_SYS_futex_def futex_switch_def Let_def by (simp split: if_splits)

section \<open>Properties\<close>

text \<open>
  Threads that do not wait make system calls in any order, and the scheduler ticks: the states
  this leads to from the empty list.
\<close>

definition fx_init :: futex_st where
  "fx_init = \<lparr>futex_queues = [], futex_sleepers = 0, lt_err = (\<lambda>_. 0), fx_enqueued = []\<rparr>"

inductive fx_reachable :: "futex_st \<Rightarrow> bool" where
  fx_start: "fx_reachable fx_init"
| fx_call: "fx_reachable st \<Longrightarrow> fe_self env \<notin> fx_waiting st \<Longrightarrow>
    fx_reachable (fst (syscall_SYS_futex env uaddr op val timeout uaddr2 val3 st))"
| fx_tick: "fx_reachable st \<Longrightarrow> fx_reachable (futex_tick ts_real ts_mntc busy st)"

lemma fx_reachable_inv: "fx_reachable st \<Longrightarrow> fx_inv st"
proof (induction rule: fx_reachable.induct)
  case fx_start
  show ?case by (simp add: fx_inv_def fx_init_def)
qed (simp_all add: fx_inv_syscall fx_inv_tick)

definition fx_demo_env :: "nat \<Rightarrow> futex_env" where
  "fx_demo_env i = \<lparr>fe_self = i, fe_mem = (\<lambda>_. 5), fe_clock_now = (\<lambda>_. \<lparr>tv_sec = 2, tv_nsec = 0\<rparr>),
     fe_ts_at = (\<lambda>_. \<lparr>tv_sec = 1, tv_nsec = 500000\<rparr>), fe_rc0 = 99\<rparr>"

definition fx_demo :: futex_st where
  "fx_demo = fst (syscall_SYS_futex (fx_demo_env 2) 4096 FUTEX_WAIT 5 64 0 0
     (fst (syscall_SYS_futex (fx_demo_env 1) 4096 FUTEX_WAIT 5 0 0 0 fx_init)))"

lemmas fx_demo_simps = fx_demo_env_def fx_init_def syscall_SYS_futex_def futex_switch_def
  futex_wait_def do_futex_sleep_def futex_wait_new_def to_futex_key_def timespec_to_usec_def

lemma fx_demo_eq: "fx_demo = \<lparr>futex_queues =
    [\<lparr>futex_key = 4096, futex_bitset = 0xffffffff, futex_deadline = 3000500, fq_clock = 1, futex_lt = 2\<rparr>,
     \<lparr>futex_key = 4096, futex_bitset = 0xffffffff, futex_deadline = 0, fq_clock = 1, futex_lt = 1\<rparr>],
    futex_sleepers = 2, lt_err = (\<lambda>_. 0), fx_enqueued = []\<rparr>"
  by (simp add: fx_demo_def fx_demo_simps)

lemma fx_demo_reachable: "fx_reachable fx_demo"
  unfolding fx_demo_def
  by (intro fx_call fx_start) (simp_all add: fx_demo_simps)

text \<open>
  C11. \<open>FUTEX_WAKE\<close> takes off the list exactly the first \<open>num\<close> waiters (in list order, the most
  recent first) whose key and bit set match, hands each of them once to the scheduler with
  the reason \<open>FUTEX_NONE\<close>, leaves all other waiters in place and order, and returns how many
  it woke.
\<close>

theorem futex_wake_exact:
  assumes "fx_reachable st" and "length (futex_queues st) < 2 ^ 31"
    and "woken = take (unat num) (filter (fq_matches (to_futex_key uaddr) bitset) (futex_queues st))"
  shows "\<exists>st'. futex_wake uaddr num bitset st = (st', Fx_ret (int (length woken))) \<and>
    futex_queues st' = filter (\<lambda>fq. fq \<notin> set woken) (futex_queues st) \<and>
    fx_enqueued st' = fx_enqueued st @ map futex_lt woken \<and>
    (\<forall>i. lt_err st' i = (if i \<in> futex_lt ` set woken then FUTEX_NONE else lt_err st i)) \<and>
    futex_sleepers st' = int (length (futex_queues st'))"
proof -
  let ?e = "take_out (fq_matches (to_futex_key uaddr) bitset) (unat num) (futex_queues st)"
  have inv: "fx_inv st" using assms(1) by (rule fx_reachable_inv)
  have w: "fst ?e = woken" using assms(3) by (simp add: take_out_fst)
  have q: "snd ?e = filter (\<lambda>fq. fq \<notin> set woken) (futex_queues st)"
    using take_out_snd [OF distinct_queues [OF inv]] w by simp
  have len: "length woken + length (snd ?e) = length (futex_queues st)"
    using take_out_length w by metis
  then have "length woken < 2 ^ 31" using assms(2) by simp
  then have "sint (of_nat (length woken) :: u32) = int (length woken)"
    by (intro sint_of_nat_small) simp
  moreover have "futex_sleepers st = int (length (futex_queues st))" using inv by (simp add: fx_inv_def)
  ultimately show ?thesis using w q len
    by (auto simp: futex_wake_def wake_scan_take_out Let_def fold_fq_wakeup)
qed

theorem futex_wake_exact_witness:
  "\<exists>st'. futex_wake 4096 1 FUTEX_BITSET_MATCH_ANY fx_demo = (st', Fx_ret 1) \<and> fx_enqueued st' = [2] \<and>
    map futex_lt (futex_queues st') = [1]"
  using futex_wake_exact [OF fx_demo_reachable, of _ 1 4096 FUTEX_BITSET_MATCH_ANY]
  by (fastforce simp: fx_demo_eq fq_matches_def to_futex_key_def)

text \<open>
  C12. No wake-up is lost: in every reachable state a thread that waits on a word is on the
  list, and a \<open>FUTEX_WAKE\<close> call of another thread on that word, for at least as many threads as
  wait, hands it to the scheduler, takes it off the list, and makes its \<open>FUTEX_WAIT\<close> return 0.
\<close>

theorem futex_no_lost_wakeup:
  assumes "fx_reachable st" and "fq \<in> set (futex_queues st)" and "futex_key fq = to_futex_key uaddr"
    and "futex_bitset fq \<noteq> 0" and "int (length (futex_queues st)) \<le> val" and "val < 2 ^ 31"
    and "syscall_SYS_futex env uaddr FUTEX_WAKE val timeout uaddr2 val3 st = (st', out)"
  shows "futex_lt fq \<in> set (drop (length (fx_enqueued st)) (fx_enqueued st')) \<and>
    futex_lt fq \<notin> fx_waiting st' \<and> futex_resume (futex_lt fq) st' = 0"
proof -
  let ?P = "fq_matches (to_futex_key uaddr) FUTEX_BITSET_MATCH_ANY"
  let ?e = "take_out ?P (unat (of_int val :: u32)) (futex_queues st)"
  have inv: "fx_inv st" using assms(1) by (rule fx_reachable_inv)
  obtain v where v: "val = int v" using assms(5) by (metis nonneg_int_cases of_nat_0_le_iff order_trans)
  then have num: "unat (of_int val :: u32) = nat val" using assms(6) by (simp add: unat_of_nat_small)
  have len: "length (filter ?P (futex_queues st)) \<le> nat val"
    using length_filter_le [of ?P "futex_queues st"] assms(5) by linarith
  have woken: "fst ?e = filter ?P (futex_queues st)" unfolding take_out_fst num using len by simp
  have "FUTEX_BITSET_MATCH_ANY = - 1" by simp
  then have "futex_bitset fq AND FUTEX_BITSET_MATCH_ANY = futex_bitset fq" by (simp only: and.right_neutral)
  then have mem: "fq \<in> set (fst ?e)" using woken assms(2,3,4) by (simp add: fq_matches_def)
  have st': "st' = fold (fq_wakeup FUTEX_NONE) (fst ?e) st\<lparr>futex_queues := snd ?e\<rparr>"
    using assms(7) by (simp add: syscall_SYS_futex_def futex_switch_def futex_wake_def wake_scan_take_out Let_def)
  have "snd ?e = filter (\<lambda>x. x \<notin> set (fst ?e)) (futex_queues st)"
    by (rule take_out_snd [OF distinct_queues [OF inv]])
  moreover have "inj_on futex_lt (set (futex_queues st))" using inv by (simp add: fx_inv_def distinct_map)
  ultimately have "futex_lt fq \<notin> futex_lt ` set (snd ?e)" using mem assms(2) by (auto dest: inj_onD)
  then show ?thesis using mem unfolding st' by (auto simp: fold_fq_wakeup futex_resume_def)
qed

theorem futex_no_lost_wakeup_witness:
  "\<exists>st' out. syscall_SYS_futex (fx_demo_env 3) 4096 FUTEX_WAKE 2 0 0 0 fx_demo = (st', out) \<and>
    1 \<in> set (fx_enqueued st') \<and> futex_resume 1 st' = 0"
proof -
  obtain st' out where c: "syscall_SYS_futex (fx_demo_env 3) 4096 FUTEX_WAKE 2 0 0 0 fx_demo = (st', out)"
    by (rule prod.exhaust)
  show ?thesis
    using futex_no_lost_wakeup [OF fx_demo_reachable _ _ _ _ _ c,
        of "\<lparr>futex_key = 4096, futex_bitset = 0xffffffff, futex_deadline = 0, fq_clock = 1, futex_lt = 1\<rparr>"] c
    by (auto simp: fx_demo_eq to_futex_key_def)
qed

text \<open>
  C13. A tick that gets the lock wakes, with the reason \<open>FUTEX_EXPIRED\<close>, exactly the waiters
  whose deadline is not zero and not after the monotonic clock, in list order, and keeps the
  others; the real time clock has no influence on it.
\<close>

theorem futex_tick_exact:
  assumes "fx_reachable st" and "st' = futex_tick ts_real ts_mntc False st"
    and "expired = filter (due (timespec_to_usec ts_mntc)) (futex_queues st)"
  shows "fx_enqueued st' = fx_enqueued st @ map futex_lt expired \<and>
    map futex_lt (futex_queues st') =
      map futex_lt (filter (\<lambda>fq. \<not> due (timespec_to_usec ts_mntc) fq) (futex_queues st)) \<and>
    (\<forall>fq\<in>set expired. futex_resume (futex_lt fq) st' = - fx_ETIMEDOUT) \<and>
    (\<forall>ts. futex_tick ts ts_mntc False st = st')"
proof (cases "futex_sleepers st = 0")
  case True
  then have "futex_queues st = []" using fx_reachable_inv [OF assms(1)] by (simp add: fx_inv_def)
  then show ?thesis using True assms(2,3) by (simp add: futex_tick_def)
next
  case False
  have "map futex_lt (map tick_mark fqs) = map futex_lt fqs" for fqs by (simp add: tick_mark_def)
  then show ?thesis using False assms(2,3)
    by (auto simp: futex_tick_def tick_scan_partition fold_fq_wakeup futex_resume_def simp del: map_map)
qed

theorem futex_tick_exact_witness:
  "fx_enqueued (futex_tick \<lparr>tv_sec = 0, tv_nsec = 0\<rparr> \<lparr>tv_sec = 4, tv_nsec = 0\<rparr> False fx_demo) = [2]"
  using futex_tick_exact [OF fx_demo_reachable refl refl, of "\<lparr>tv_sec = 0, tv_nsec = 0\<rparr>" "\<lparr>tv_sec = 4, tv_nsec = 0\<rparr>"]
  by (simp add: fx_demo_eq due_def timespec_to_usec_def)

text \<open>
  C14. Every system call and every tick keeps the bookkeeping: in every reachable state each
  thread is on the list at most once, \<open>futex_sleepers\<close> is the length of the list, and a requeue
  neither loses nor duplicates a waiter: each one is either handed to the scheduler or still
  on the list.
\<close>

theorem futex_requeue_keeps_waiters:
  assumes "fx_reachable st" and "futex_requeue uaddr uaddr2 num limit st = (st', out)"
  shows "distinct (map futex_lt (futex_queues st')) \<and>
    futex_sleepers st' = int (length (futex_queues st')) \<and>
    (\<exists>woken :: futex_q list. fx_enqueued st' = fx_enqueued st @ map futex_lt woken \<and>
      futex_lt ` set woken \<union> fx_waiting st' = fx_waiting st \<and>
      length woken + length (futex_queues st') = length (futex_queues st))"
proof -
  obtain rest w' s where e: "requeue_scan (to_futex_key uaddr) (to_futex_key uaddr2) num limit 0
      (futex_queues st) st = (rest, w', s)" by (rule prod_cases3)
  have inv: "fx_inv st" using assms(1) by (rule fx_reachable_inv)
  then have "fx_inv st'" using fx_inv_requeue [OF inv, of uaddr uaddr2 num limit] assms(2) by simp
  moreover from requeue_scan_threads [OF e] obtain woken where
    "s = fold (fq_wakeup FUTEX_NONE) woken st" "length woken + length rest = length (futex_queues st)"
    "futex_lt ` set woken \<union> futex_lt ` set rest = fx_waiting st" by blast
  moreover have "st' = s\<lparr>futex_queues := rest\<rparr>" using assms(2) by (simp add: futex_requeue_def e)
  ultimately show ?thesis
    unfolding fx_inv_def by (intro conjI exI [of _ woken]) (simp_all add: fold_fq_wakeup)
qed

theorem futex_requeue_keeps_waiters_witness:
  "\<exists>st' out. futex_requeue 4096 8192 1 1 fx_demo = (st', out) \<and> futex_sleepers st' = int (length (futex_queues st'))"
  using futex_requeue_keeps_waiters [OF fx_demo_reachable] by (metis prod.exhaust)

text \<open>
  The key of a futex is the low half of its address: a wake on one word can wake a thread
  that waits on a different word, and with \<open>num\<close> 1 leave the right one asleep.
\<close>

lemma futex_key_collision:
  assumes "uaddr' = uaddr + of_nat k * 0x100000000"
  shows "futex_wake uaddr' num bitset st = futex_wake uaddr num bitset st"
proof -
  have "unat (uaddr + of_nat (k * 2 ^ 32)) mod 2 ^ 32 = (unat uaddr + k * 2 ^ 32) mod 2 ^ 32"
    by (rule unat_add_mod [of _ 32]) simp_all
  then have "unat uaddr' mod 2 ^ 32 = unat uaddr mod 2 ^ 32" using assms by simp
  then have "to_futex_key uaddr' = to_futex_key uaddr"
    by (simp add: to_futex_key_def word_unat_eq_iff unsigned_ucast_eq take_bit_eq_mod)
  then show ?thesis by (simp add: futex_wake_def)
qed

end
