(* ===== verification/Base64.thy ===== *)
theory Base64
  imports Codec
begin

text \<open>
  Base64 as in \<^verbatim>\<open>src/shared/base64.c\<close>, which encodes and decodes the secrets, reports and
  configuration values that travel as text. Strings are lists of bytes; \<open>None\<close> is the result
  \<open>NULL\<close>. \<open>out\<close> is the size \<open>*out_len\<close> of a buffer the caller passes, if it passes one, and
  \<open>malloc_ok\<close> says whether \<open>malloc\<close> returns memory.
\<close>

section \<open>Tables and functions\<close>

definition base64_table :: "u8 list" where
  "base64_table = map of_char ''ABCDEFGHIJKLMNOPQRSTUVWXYZabcdefghijklmnopqrstuvwxyz0123456789+/''"

definition base64_decode_table :: "u8 list" where
  "base64_decode_table = [
    0x80, 0x80, 0x80, 0x80, 0x80, 0x80, 0x80, 0x80, 0x80, 0x80, 0x80, 0x80, 0x80, 0x80,
    0x80, 0x80, 0x80, 0x80, 0x80, 0x80, 0x80, 0x80, 0x80, 0x80, 0x80, 0x80, 0x80, 0x80,
    0x80, 0x80, 0x80, 0x80, 0x80, 0x80, 0x80, 0x80, 0x80, 0x80, 0x80, 0x80, 0x80, 0x80,
    0x80, 0x3e, 0x80, 0x80, 0x80, 0x3f, 0x34, 0x35, 0x36, 0x37, 0x38, 0x39, 0x3a, 0x3b,
    0x3c, 0x3d, 0x80, 0x80, 0x80, 0x00, 0x80, 0x80, 0x80, 0x00, 0x01, 0x02, 0x03, 0x04,
    0x05, 0x06, 0x07, 0x08, 0x09, 0x0a, 0x0b, 0x0c, 0x0d, 0x0e, 0x0f, 0x10, 0x11, 0x12,
    0x13, 0x14, 0x15, 0x16, 0x17, 0x18, 0x19, 0x80, 0x80, 0x80, 0x80, 0x80, 0x80, 0x1a,
    0x1b, 0x1c, 0x1d, 0x1e, 0x1f, 0x20, 0x21, 0x22, 0x23, 0x24, 0x25, 0x26, 0x27, 0x28,
    0x29, 0x2a, 0x2b, 0x2c, 0x2d, 0x2e, 0x2f, 0x30, 0x31, 0x32, 0x33, 0x80, 0x80, 0x80,
    0x80, 0x80, 0x80, 0x80, 0x80, 0x80, 0x80, 0x80, 0x80, 0x80, 0x80, 0x80, 0x80, 0x80,
    0x80, 0x80, 0x80, 0x80, 0x80, 0x80, 0x80, 0x80, 0x80, 0x80, 0x80, 0x80, 0x80, 0x80,
    0x80, 0x80, 0x80, 0x80, 0x80, 0x80, 0x80, 0x80, 0x80, 0x80, 0x80, 0x80, 0x80, 0x80,
    0x80, 0x80, 0x80, 0x80, 0x80, 0x80, 0x80, 0x80, 0x80, 0x80, 0x80, 0x80, 0x80, 0x80,
    0x80, 0x80, 0x80, 0x80, 0x80, 0x80, 0x80, 0x80, 0x80, 0x80, 0x80, 0x80, 0x80, 0x80,
    0x80, 0x80, 0x80, 0x80, 0x80, 0x80, 0x80, 0x80, 0x80, 0x80, 0x80, 0x80, 0x80, 0x80,
    0x80, 0x80, 0x80, 0x80, 0x80, 0x80, 0x80, 0x80, 0x80, 0x80, 0x80, 0x80, 0x80, 0x80,
    0x80, 0x80, 0x80, 0x80, 0x80, 0x80, 0x80, 0x80, 0x80, 0x80, 0x80, 0x80, 0x80, 0x80,
    0x80, 0x80, 0x80, 0x80, 0x80, 0x80, 0x80, 0x80, 0x80, 0x80, 0x80, 0x80, 0x80, 0x80,
    0x80, 0x80, 0x80, 0x80]"

definition b64_enc :: "u8 \<Rightarrow> u8" where
  "b64_enc x = base64_table ! unat x"

definition b64_dec :: "u8 \<Rightarrow> u8" where
  "b64_dec c = base64_decode_table ! unat c"

fun sgxlkl_base64_validate :: "u8 list \<Rightarrow> bool" where
  "sgxlkl_base64_validate [] = True"
| "sgxlkl_base64_validate (c # src) = (if b64_dec c = 0x80 then False else sgxlkl_base64_validate src)"

text \<open>The bytes written before the terminating NUL; 61 is the character \<open>=\<close>, 10 a line feed.\<close>

fun encode_loop :: "u8 list \<Rightarrow> int \<Rightarrow> u8 list" where
  "encode_loop (i0 # i1 # i2 # src) line_len =
     [b64_enc (drop_bit 2 i0), b64_enc (push_bit 4 (i0 AND 0x03) OR drop_bit 4 i1),
      b64_enc (push_bit 2 (i1 AND 0x0f) OR drop_bit 6 i2), b64_enc (i2 AND 0x3f)] @
     (if line_len + 4 \<ge> 72 then 10 # encode_loop src 0 else encode_loop src (line_len + 4))"
| "encode_loop [i0, i1] line_len =
     [b64_enc (drop_bit 2 i0), b64_enc (push_bit 4 (i0 AND 0x03) OR drop_bit 4 i1),
      b64_enc (push_bit 2 (i1 AND 0x0f)), 61]"
| "encode_loop [i0] line_len =
     [b64_enc (drop_bit 2 i0), b64_enc (push_bit 4 (i0 AND 0x03)), 61, 61]"
| "encode_loop [] line_len = []"

definition encode_olen :: "u64 \<Rightarrow> u64" where
  "encode_olen len = (let olen = len * 4 div 3 + 4 in olen + olen div 72 + 1)"

definition sgxlkl_base64_encode :: "u8 list \<Rightarrow> u64 option \<Rightarrow> bool \<Rightarrow> u8 list option" where
  "sgxlkl_base64_encode src out malloc_ok =
     (let len = of_nat (length src); olen = encode_olen len
      in if olen < len then None
         else if (case out of None \<Rightarrow> False | Some n \<Rightarrow> n < olen) then None
         else if \<not> malloc_ok then None
         else Some (encode_loop src 0))"

definition decode_count :: "u8 list \<Rightarrow> nat" where
  "decode_count src = length (filter (\<lambda>c. b64_dec c \<noteq> 0x80) src)"

definition decode_block :: "u8 list \<Rightarrow> u8 list" where
  "decode_block b = [push_bit 2 (b ! 0) OR drop_bit 4 (b ! 1), push_bit 4 (b ! 1) OR drop_bit 2 (b ! 2),
     push_bit 6 (b ! 2) OR (b ! 3)]"

fun decode_loop :: "u8 list \<Rightarrow> u8 list \<Rightarrow> nat \<Rightarrow> u8 list option" where
  "decode_loop [] block pad = Some []"
| "decode_loop (c # src) block pad =
     (let tmp = b64_dec c
      in if tmp = 0x80 then decode_loop src block pad
         else
           let pad' = (if c = 61 then pad + 1 else pad); block' = block @ [tmp]
           in if length block' = 4
              then if pad' \<noteq> 0
                   then if pad' = 1 then Some (take 2 (decode_block block'))
                        else if pad' = 2 then Some (take 1 (decode_block block'))
                        else None
                   else map_option ((@) (decode_block block')) (decode_loop src [] pad')
              else decode_loop src block' pad')"

definition sgxlkl_base64_decode :: "u8 list \<Rightarrow> u64 option \<Rightarrow> bool \<Rightarrow> u8 list option" where
  "sgxlkl_base64_decode src out malloc_ok =
     (let count = decode_count src; olen = count div 4 * 3 + 1
      in if count = 0 \<or> count mod 4 \<noteq> 0 then None
         else if (case out of None \<Rightarrow> False | Some n \<Rightarrow> unat n < olen) then None
         else if \<not> malloc_ok then None
         else decode_loop src [] 0)"

section \<open>The tables are inverse\<close>

lemma tables_ok:
  "list_all (\<lambda>i. base64_decode_table ! unat (base64_table ! i) = of_nat i \<and> base64_table ! i \<noteq> 61) [0..<64]"
  by (simp add: upt_rec base64_table_def base64_decode_table_def)

lemma b64_dec_enc:
  assumes "x < 64"
  shows "b64_dec (b64_enc x) = x" and "b64_enc x \<noteq> 61" and "x \<noteq> 0x80"
proof -
  have u: "unat x < 64" using assms by (simp add: word_less_nat_alt)
  then have "base64_decode_table ! unat (base64_table ! unat x) = of_nat (unat x) \<and> base64_table ! unat x \<noteq> 61"
    using tables_ok by (simp only: list_all_iff set_upt) auto
  then show *: "b64_dec (b64_enc x) = x" and "b64_enc x \<noteq> 61" by (simp_all add: b64_dec_def b64_enc_def)
  show "x \<noteq> 0x80" using assms by auto
qed

lemma b64_dec_special: "b64_dec 10 = 0x80" "b64_dec 61 = 0"
  by (simp_all add: b64_dec_def base64_decode_table_def)

text \<open>The four six bit groups of three bytes.\<close>

lemma masks8: "(x :: u8) AND 0x03 = take_bit 2 x" "x AND 0x0f = take_bit 4 x" "x AND 0x3f = take_bit 6 x"
  by (simp_all add: take_bit_eq_mask mask_eq_exp_minus_1)

lemma less_64_bits:
  assumes "\<And>n. 6 \<le> n \<Longrightarrow> \<not> bit (x :: u8) n"
  shows "x < 64"
proof -
  have "x = take_bit 6 x" using assms by (intro bit_eqI) (metis bit_take_bit_iff linorder_not_less)
  then have "unat x = unat (take_bit 6 x)" by simp
  also have "\<dots> < 2 ^ 6" unfolding unsigned_take_bit_eq by (rule take_bit_nat_less_exp)
  finally show ?thesis by (simp add: word_less_nat_alt)
qed

lemma groups_less:
  fixes i0 i1 i2 :: u8
  shows "drop_bit 2 i0 < 64" "push_bit 4 (i0 AND 0x03) OR drop_bit 4 i1 < 64" "push_bit 4 (i0 AND 0x03) < 64"
    "push_bit 2 (i1 AND 0x0f) OR drop_bit 6 i2 < 64" "push_bit 2 (i1 AND 0x0f) < 64" "i2 AND 0x3f < 64"
  unfolding masks8 by (rule less_64_bits; auto simp: bit_simps dest: bit_imp_le_length)+

lemma word8_bits_eqI:
  fixes x y :: u8
  assumes "bit x 0 = bit y 0" "bit x 1 = bit y 1" "bit x 2 = bit y 2" "bit x 3 = bit y 3"
    "bit x 4 = bit y 4" "bit x 5 = bit y 5" "bit x 6 = bit y 6" "bit x 7 = bit y 7"
  shows "x = y"
proof (rule bit_word_eqI)
  fix n :: nat assume "n < LENGTH(8)"
  then consider "n = 0" | "n = 1" | "n = 2" | "n = 3" | "n = 4" | "n = 5" | "n = 6" | "n = 7"
    by (simp add: numeral_eq_Suc) linarith
  then show "bit x n = bit y n" by cases (use assms in simp_all)
qed

lemma groups_join:
  fixes i0 i1 i2 :: u8
  shows "push_bit 2 (drop_bit 2 i0) OR drop_bit 4 (push_bit 4 (i0 AND 0x03) OR drop_bit 4 i1) = i0"
    "push_bit 4 (push_bit 4 (i0 AND 0x03) OR drop_bit 4 i1) OR
       drop_bit 2 (push_bit 2 (i1 AND 0x0f) OR drop_bit 6 i2) = i1"
    "push_bit 6 (push_bit 2 (i1 AND 0x0f) OR drop_bit 6 i2) OR (i2 AND 0x3f) = i2"
  unfolding masks8 by (rule word8_bits_eqI; simp add: bit_simps)+

section \<open>Decoding undoes encoding\<close>

lemma decode_quad:
  assumes "p < 64" "q < 64" "r < 64" "s < 64"
  shows "decode_loop (b64_enc p # b64_enc q # b64_enc r # b64_enc s # src) [] 0 =
    map_option ((@) (decode_block [p, q, r, s])) (decode_loop src [] 0)"
  by (simp add: b64_dec_enc assms)

lemma decode_tail2:
  assumes "p < 64" "q < 64" "r < 64"
  shows "decode_loop [b64_enc p, b64_enc q, b64_enc r, 61] [] 0 = Some (take 2 (decode_block [p, q, r, 0]))"
  by (simp add: b64_dec_enc b64_dec_special assms)

lemma decode_tail1:
  assumes "p < 64" "q < 64"
  shows "decode_loop [b64_enc p, b64_enc q, 61, 61] [] 0 = Some (take 1 (decode_block [p, q, 0, 0]))"
  by (simp add: b64_dec_enc b64_dec_special assms)

lemma groups_join_0:
  fixes i0 i1 :: u8
  shows "push_bit 2 (drop_bit 2 i0) OR drop_bit 4 (push_bit 4 (i0 AND 0x03)) = i0"
    "push_bit 4 (push_bit 4 (i0 AND 0x03) OR drop_bit 4 i1) OR drop_bit 2 (push_bit 2 (i1 AND 0x0f)) = i1"
  using groups_join(1) [of i0 0] groups_join(2) [of i0 i1 0] by simp_all

lemma decode_block_eq:
  "decode_block [p, q, r, s] = [push_bit 2 p OR drop_bit 4 q, push_bit 4 q OR drop_bit 2 r, push_bit 6 r OR s]"
  by (simp add: decode_block_def)

lemma encode_quad:
  obtains p q r s where "p < 64" "q < 64" "r < 64" "s < 64" "decode_block [p, q, r, s] = [i0, i1, i2]"
    "encode_loop (i0 # i1 # i2 # src) l = b64_enc p # b64_enc q # b64_enc r # b64_enc s #
      (if l + 4 \<ge> 72 then 10 # encode_loop src 0 else encode_loop src (l + 4))"
  by (rule that [OF groups_less(1) [of i0] groups_less(2) [of i0 i1]
      groups_less(4) [of i1 i2] groups_less(6) [of i2]])
    (unfold decode_block_eq groups_join encode_loop.simps append.simps, rule refl, rule refl)

lemma encode_tail2:
  obtains p q r where "p < 64" "q < 64" "r < 64" "take 2 (decode_block [p, q, r, 0]) = [i0, i1]"
    "encode_loop [i0, i1] l = [b64_enc p, b64_enc q, b64_enc r, 61]"
  by (rule that [OF groups_less(1) [of i0] groups_less(2) [of i0 i1] groups_less(5) [of i1]])
    (unfold decode_block_eq groups_join groups_join_0 encode_loop.simps, simp, rule refl)

lemma encode_tail1:
  obtains p q where "p < 64" "q < 64" "take 1 (decode_block [p, q, 0, 0]) = [i0]"
    "encode_loop [i0] l = [b64_enc p, b64_enc q, 61, 61]"
  by (rule that [OF groups_less(1) [of i0] groups_less(3) [of i0]])
    (unfold decode_block_eq groups_join_0 encode_loop.simps, simp, rule refl)

lemma decode_encode_loop: "decode_loop (encode_loop src l) [] 0 = Some src"
proof (induction src l rule: encode_loop.induct)
  case (1 i0 i1 i2 src l)
  have nl: "decode_loop (10 # xs) [] 0 = decode_loop xs [] 0" for xs by (simp add: b64_dec_special)
  obtain p q r s where e: "p < 64" "q < 64" "r < 64" "s < 64" "decode_block [p, q, r, s] = [i0, i1, i2]"
    "encode_loop (i0 # i1 # i2 # src) l = b64_enc p # b64_enc q # b64_enc r # b64_enc s #
      (if l + 4 \<ge> 72 then 10 # encode_loop src 0 else encode_loop src (l + 4))"
    by (rule encode_quad [of i0 i1 i2 src l]) blast
  show ?case unfolding e(6) decode_quad [OF e(1-4)] e(5) using 1 nl by (simp del: decode_loop.simps)
next
  case (2 i0 i1 l)
  show ?case by (metis encode_tail2 decode_tail2)
next
  case (3 i0 l)
  show ?case by (metis encode_tail1 decode_tail1)
qed simp

lemma quads_Cons3: "(length (a # b # c # src) + 2) div 3 = Suc ((length src + 2) div 3)"
  by simp

lemma decode_count_encode: "decode_count (encode_loop src l) = 4 * ((length src + 2) div 3)"
proof (induction src l rule: encode_loop.induct)
  case (1 i0 i1 i2 src l)
  have nl: "decode_count (10 # xs) = decode_count xs" for xs by (simp add: decode_count_def b64_dec_special)
  have ch: "decode_count (b64_enc x # xs) = Suc (decode_count xs)" if "x < 64" for x xs
    using that by (simp add: decode_count_def b64_dec_enc)
  obtain p q r s where e: "p < 64" "q < 64" "r < 64" "s < 64"
    "encode_loop (i0 # i1 # i2 # src) l = b64_enc p # b64_enc q # b64_enc r # b64_enc s #
      (if l + 4 \<ge> 72 then 10 # encode_loop src 0 else encode_loop src (l + 4))"
    by (rule encode_quad [of i0 i1 i2 src l]) blast
  show ?case unfolding quads_Cons3 e(5) using 1 by (simp add: ch nl e)
next
  case (2 i0 i1 l)
  obtain p q r where e: "p < 64" "q < 64" "r < 64" "encode_loop [i0, i1] l = [b64_enc p, b64_enc q, b64_enc r, 61]"
    by (rule encode_tail2 [of i0 i1 l]) blast
  show ?case unfolding e(4) by (simp add: decode_count_def b64_dec_enc b64_dec_special e)
next
  case (3 i0 l)
  obtain p q where e: "p < 64" "q < 64" "encode_loop [i0] l = [b64_enc p, b64_enc q, 61, 61]"
    by (rule encode_tail1 [of i0 l]) blast
  show ?case unfolding e(3) by (simp add: decode_count_def b64_dec_enc b64_dec_special e)
qed (simp add: decode_count_def)

text \<open>The buffer \<open>sgxlkl_base64_encode\<close> allocates holds what it writes.\<close>

lemma encode_loop_length: "0 \<le> l \<Longrightarrow> l < 72 \<Longrightarrow>
    72 * length (encode_loop src l) \<le> 292 * ((length src + 2) div 3) + nat l"
proof (induction src l rule: encode_loop.induct)
  case (1 i0 i1 i2 src l)
  show ?case
  proof (cases "l + 4 \<ge> 72")
    case True
    then have "nat l \<ge> 68" by simp
    then show ?thesis using 1 True unfolding quads_Cons3 by simp
  next
    case False
    then show ?thesis using 1 unfolding quads_Cons3 by (simp add: nat_add_distrib)
  qed
qed simp_all

lemma encode_olen_bound:
  assumes "length src < 2 ^ 60"
  shows "Suc (length (encode_loop src 0)) \<le> unat (encode_olen (of_nat (length src)))"
    and "\<not> encode_olen (of_nat (length src)) < of_nat (length src)"
proof -
  let ?n = "length src"
  have "unat (of_nat ?n * 4 :: u64) = ?n * 4"
    using assms unat_of_nat_small [where 'a = 64, of "?n * 4"] by (simp add: mult.commute)
  then have "unat (of_nat ?n * 4 div 3 + 4 :: u64) = ?n * 4 div 3 + 4"
    using assms by (subst unat_word_ariths) (simp add: unat_div)
  then have o: "unat (encode_olen (of_nat ?n)) = ?n * 4 div 3 + 4 + (?n * 4 div 3 + 4) div 72 + 1"
    using assms by (simp add: encode_olen_def Let_def unat_word_ariths unat_div)
  show "Suc (length (encode_loop src 0)) \<le> unat (encode_olen (of_nat ?n))"
    using encode_loop_length [of 0 src] unfolding o by simp
  show "\<not> encode_olen (of_nat ?n) < of_nat ?n"
    using o assms by (simp add: word_less_nat_alt unat_of_nat_small)
qed


interpretation b64: codec "\<lambda>src. sgxlkl_base64_encode src None True" "\<lambda>s. sgxlkl_base64_decode s None True"
  "\<lambda>src. src \<noteq> [] \<and> length src < 2 ^ 60"
proof unfold_locales
  fix src :: "u8 list" assume v: "src \<noteq> [] \<and> length src < 2 ^ 60"
  then show "sgxlkl_base64_encode src None True \<noteq> None"
    using encode_olen_bound [of src] by (simp add: sgxlkl_base64_encode_def Let_def)
  fix y assume "sgxlkl_base64_encode src None True = Some y"
  then have "y = encode_loop src 0" by (simp add: sgxlkl_base64_encode_def Let_def split: if_splits)
  moreover have "0 < (length src + 2) div 3" using v by (cases src) simp_all
  ultimately show "sgxlkl_base64_decode y None True = Some src"
    by (simp add: sgxlkl_base64_decode_def decode_count_encode decode_encode_loop Let_def)
qed

section \<open>Properties\<close>

text \<open>
  C16. Decoding undoes encoding: for every non-empty byte string shorter than \<open>2 ^ 60\<close>,
  \<open>sgxlkl_base64_encode\<close> succeeds (with memory available), \<open>sgxlkl_base64_decode\<close> of its result,
  line feeds and padding included, gives the string back, and no other string has that
  encoding.
\<close>

theorem base64_roundtrip:
  assumes "src \<noteq> []" and "length src < 2 ^ 60"
  shows "\<exists>txt. sgxlkl_base64_encode src None True = Some txt \<and>
    sgxlkl_base64_decode txt None True = Some src \<and>
    (\<forall>src'. src' \<noteq> [] \<and> length src' < 2 ^ 60 \<and> sgxlkl_base64_encode src' None True = Some txt \<longrightarrow> src' = src)"
proof -
  obtain t64 where t: "sgxlkl_base64_encode src None True = Some t64" using b64.encodes [of src] assms by blast
  have "sgxlkl_base64_decode t64 None True = Some src" using b64.decode_encode [OF _ t] assms by blast
  moreover have "src' = src"
    if "src' \<noteq> [] \<and> length src' < 2 ^ 60 \<and> sgxlkl_base64_encode src' None True = Some t64" for src'
    using b64.encode_inj [of src' src] that t assms by simp
  ultimately show ?thesis using t by blast
qed

theorem base64_roundtrip_witness:
  "\<exists>txt. sgxlkl_base64_encode [1, 2, 255, 0] None True = Some txt \<and>
    sgxlkl_base64_decode txt None True = Some [1, 2, 255, 0]"
  using base64_roundtrip [of "[1, 2, 255, 0]"] by auto



end
