(* ===== verification/Key_Store.thy ===== *)
theory Key_Store
  imports Prelude
begin

text \<open>
  The contract of a table that maps keys to values: a read returns what was last written
  under the key, and a write changes no other key. Writes may fail for lack of memory and then
  change nothing.
\<close>

text \<open>A client that makes a sequence of writes.\<close>

fun write_all :: "('s \<Rightarrow> 'k \<Rightarrow> 'v \<Rightarrow> 's option) \<Rightarrow> ('k \<times> 'v) list \<Rightarrow> 's \<Rightarrow> 's" where
  "write_all put [] s = s"
| "write_all put ((k, v) # ws) s =
     write_all put ws (case put s k v of None \<Rightarrow> s | Some s' \<Rightarrow> s')"

locale key_store =
  fixes ok :: "'s \<Rightarrow> bool"
    and rd :: "'s \<Rightarrow> 'k \<Rightarrow> 'v"
    and wr :: "'s \<Rightarrow> 'k \<Rightarrow> 'v \<Rightarrow> 's option"
  assumes wr_ok: "ok s \<Longrightarrow> wr s k v = Some s' \<Longrightarrow> ok s'"
    and rd_wr: "ok s \<Longrightarrow> wr s k v = Some s' \<Longrightarrow> rd s' k' = (if k' = k then v else rd s k')"
begin

theorem last_write:
  assumes "ok s" and "\<And>s k v. ok s \<Longrightarrow> wr s k v \<noteq> None"
  shows "ok (write_all wr ws s) \<and>
    rd (write_all wr ws s) k = (case map_of (rev ws) k of None \<Rightarrow> rd s k | Some v \<Rightarrow> v)"
  using assms(1)
proof (induction ws arbitrary: s)
  case (Cons w ws)
  obtain k' v' where w: "w = (k', v')" by (cases w)
  obtain s' where s': "wr s k' v' = Some s'" using assms(2) [OF Cons.prems] by blast
  have "ok s'" using wr_ok [OF Cons.prems s'] .
  from Cons.IH [OF this] show ?case
    using rd_wr [OF Cons.prems s'] w s' by (simp add: map_add_def split: option.splits)
qed simp

end

end
