(* ===== verification/Lthread_Tls.thy ===== *)
theory Lthread_Tls
  imports Key_Store
begin

text \<open>
  Thread-specific data of \<^verbatim>\<open>src/sched/lthread.c\<close>: each thread keeps a list of keys and
  values, and a global list holds the destructors of the keys. Pointers are 64 bit words with
  0 for \<open>NULL\<close>; destructors are code addresses, and \<open>calls\<close> records the calls made of them.
  \<open>mem\<close> says whether \<open>calloc\<close> returns memory.
\<close>

section \<open>Data and operations\<close>

record lthread_tls =
  tls_key :: u32
  tls_data :: u64

record tls_destructors =
  d_key :: u32
  destructor :: u64

record tls_sys =
  tls_of :: "nat \<Rightarrow> lthread_tls list"
  lthread_destructors :: "tls_destructors list"
  global_count :: u32
  destr_calls :: "(u64 \<times> u64) list"

fun lthread_findtlsslot :: "u32 \<Rightarrow> lthread_tls list \<Rightarrow> lthread_tls option" where
  "lthread_findtlsslot key [] = None"
| "lthread_findtlsslot key (d # ds) = (if tls_key d = key then Some d else lthread_findtlsslot key ds)"

definition lthread_addtlsslot :: "nat \<Rightarrow> u32 \<Rightarrow> u64 \<Rightarrow> bool \<Rightarrow> tls_sys \<Rightarrow> tls_sys option" where
  "lthread_addtlsslot lt key dat mem s =
     (if \<not> mem then None
      else Some (s\<lparr>tls_of := (tls_of s)(lt := \<lparr>tls_key = key, tls_data = dat\<rparr> # tls_of s lt)\<rparr>))"

definition lthread_getspecific :: "nat \<Rightarrow> u32 \<Rightarrow> tls_sys \<Rightarrow> u64" where
  "lthread_getspecific lt key s =
     (case lthread_findtlsslot key (tls_of s lt) of None \<Rightarrow> 0 | Some d \<Rightarrow> tls_data d)"

text \<open>The assignment \<open>d->data = value\<close> through the pointer \<open>lthread_findtlsslot\<close> found.\<close>

fun set_found :: "u32 \<Rightarrow> u64 \<Rightarrow> lthread_tls list \<Rightarrow> lthread_tls list" where
  "set_found key dat [] = []"
| "set_found key dat (d # ds) =
     (if tls_key d = key then d\<lparr>tls_data := dat\<rparr> # ds else d # set_found key dat ds)"

text \<open>\<open>None\<close> stands for the return value \<open>ENOMEM\<close>.\<close>

definition lthread_setspecific :: "nat \<Rightarrow> u32 \<Rightarrow> u64 \<Rightarrow> bool \<Rightarrow> tls_sys \<Rightarrow> tls_sys option" where
  "lthread_setspecific lt key dat mem s =
     (case lthread_findtlsslot key (tls_of s lt) of
        Some d \<Rightarrow> Some (s\<lparr>tls_of := (tls_of s)(lt := set_found key dat (tls_of s lt))\<rparr>)
      | None \<Rightarrow> lthread_addtlsslot lt key dat mem s)"

definition lthread_key_create :: "u64 \<Rightarrow> bool \<Rightarrow> tls_sys \<Rightarrow> (tls_sys \<times> u32) option" where
  "lthread_key_create destr mem s =
     (if \<not> mem then None
      else let k = global_count s
           in Some (s\<lparr>global_count := k + 1,
                      lthread_destructors := \<lparr>d_key = k, destructor = destr\<rparr> # lthread_destructors s\<rparr>, k))"

fun remove_destr :: "u32 \<Rightarrow> tls_destructors list \<Rightarrow> tls_destructors list option" where
  "remove_destr key [] = None"
| "remove_destr key (d # ds) =
     (if d_key d = key then Some ds else map_option ((#) d) (remove_destr key ds))"

text \<open>The second component is the return value.\<close>

definition lthread_key_delete :: "u32 \<Rightarrow> tls_sys \<Rightarrow> tls_sys \<times> int" where
  "lthread_key_delete key s =
     (case remove_destr key (lthread_destructors s) of
        Some ds \<Rightarrow> (s\<lparr>lthread_destructors := ds\<rparr>, 0)
      | None \<Rightarrow> (s, - 1))"

fun lthread_finddestr :: "u32 \<Rightarrow> tls_destructors list \<Rightarrow> u64" where
  "lthread_finddestr key [] = 0"
| "lthread_finddestr key (d # ds) =
     (if d_key d = key then destructor d else lthread_finddestr key ds)"

fun run_destr :: "tls_destructors list \<Rightarrow> lthread_tls list \<Rightarrow> (u64 \<times> u64) list" where
  "run_destr ds [] = []"
| "run_destr ds (d # rest) =
     (if tls_data d \<noteq> 0
      then let destr = lthread_finddestr (tls_key d) ds
           in if destr \<noteq> 0 then (destr, tls_data d) # run_destr ds rest else run_destr ds rest
      else run_destr ds rest)"

definition lthread_rundestructors :: "nat \<Rightarrow> tls_sys \<Rightarrow> tls_sys" where
  "lthread_rundestructors lt s =
     s\<lparr>destr_calls := destr_calls s @ run_destr (lthread_destructors s) (tls_of s lt),
       tls_of := (tls_of s)(lt := [])\<rparr>"

section \<open>Thread-specific data as a table\<close>

text \<open>No key occurs twice in the list of a thread.\<close>

definition tls_ok :: "tls_sys \<Rightarrow> bool" where
  "tls_ok s \<longleftrightarrow> (\<forall>lt. distinct (map tls_key (tls_of s lt)))"

lemma findtlsslot_None: "lthread_findtlsslot key ds = None \<longleftrightarrow> key \<notin> set (map tls_key ds)"
  by (induction ds) auto

lemma findtlsslot_set_found:
  "lthread_findtlsslot key ds \<noteq> None \<Longrightarrow>
     lthread_findtlsslot key' (set_found key dat ds) =
       (if key' = key then map_option (tls_data_update (\<lambda>_. dat)) (lthread_findtlsslot key ds)
        else lthread_findtlsslot key' ds)"
  by (induction ds) auto

lemma set_found_keys [simp]: "map tls_key (set_found key dat ds) = map tls_key ds"
  by (induction ds) auto

lemma setspecific_ok:
  "tls_ok s \<Longrightarrow> lthread_setspecific lt key dat mem s = Some s' \<Longrightarrow> tls_ok s'"
  by (auto simp: lthread_setspecific_def lthread_addtlsslot_def tls_ok_def findtlsslot_None
      split: option.splits if_splits)

lemma getspecific_setspecific:
  assumes "lthread_setspecific lt key dat mem s = Some s'"
  shows "lthread_getspecific lt' key' s' =
    (if lt' = lt \<and> key' = key then dat else lthread_getspecific lt' key' s)"
  using assms findtlsslot_set_found [of key "tls_of s lt"]
  by (auto simp: lthread_setspecific_def lthread_getspecific_def lthread_addtlsslot_def
      split: option.splits if_splits)

text \<open>The table of all threads, with memory available.\<close>

interpretation tls: key_store tls_ok "\<lambda>s (lt, key). lthread_getspecific lt key s"
  "\<lambda>s (lt, key) dat. lthread_setspecific lt key dat True s"
  by unfold_locales (auto simp: getspecific_setspecific intro: setspecific_ok split: prod.splits)

lemma setspecific_mem: "lthread_setspecific lt key dat True s \<noteq> None"
  by (simp add: lthread_setspecific_def lthread_addtlsslot_def split: option.splits)

section \<open>Properties\<close>

definition tls_init :: tls_sys where
  "tls_init = \<lparr>tls_of = (\<lambda>_. []), lthread_destructors = [], global_count = 0, destr_calls = []\<rparr>"

text \<open>
  C21. After any sequence of \<open>lthread_setspecific\<close> calls of any threads, \<open>lthread_getspecific\<close>
  returns to each thread the value it last stored under the key, and \<open>NULL\<close> where it stored
  none; threads do not see each other's values.
\<close>

theorem tls_last_value:
  "lthread_getspecific lt key
     (write_all (\<lambda>s (lt, key) dat. lthread_setspecific lt key dat True s) ws tls_init) =
   (case map_of (rev ws) (lt, key) of None \<Rightarrow> 0 | Some v \<Rightarrow> v)"
proof -
  have "tls_ok tls_init" by (simp add: tls_ok_def tls_init_def)
  moreover have "lthread_getspecific lt key tls_init = 0"
    by (simp add: lthread_getspecific_def tls_init_def)
  ultimately show ?thesis
    using tls.last_write [of tls_init ws "(lt, key)"] setspecific_mem by (auto split: prod.splits option.splits)
qed

end
