(* ===== verification/Curve25519.thy ===== *)
theory Curve25519
  imports Prelude
begin

text \<open>
  The public keys of \<^verbatim>\<open>src/wireguard/wireguard.c\<close>: arithmetic modulo the prime \<open>2 ^ 255 - 19\<close> on 16
  limbs of 16 bits in \<open>int64_t\<close> words, and the ladder that computes the public key of a private key.
  Limbs are 64 bit words read as signed numbers, the right shift is arithmetic, and additions and
  multiplications wrap around; the proofs show that the results are those of the same arithmetic on
  unbounded integers. Erasing the local variables at the end of
  the functions is left out.

  The reference is the function of RFC 7748, on integers modulo the prime.
\<close>

section \<open>The code\<close>

type_synonym fe = "u64 list"

definition shr16 :: "u64 \<Rightarrow> u64" where
  "shr16 x = signed_drop_bit 16 x"

definition carry :: "fe \<Rightarrow> fe" where
  "carry o0 = fold (\<lambda>i l.
     let l = l[(i + 1) mod 16 := l ! ((i + 1) mod 16) + (if i = 15 then 38 else 1) * shr16 (l ! i)]
     in l[i := l ! i AND 0xffff]) [0..<16] o0"

definition cswap :: "fe \<Rightarrow> fe \<Rightarrow> u64 \<Rightarrow> fe \<times> fe" where
  "cswap p q b =
     (let c = NOT (b - 1)
      in fold (\<lambda>i (p, q). let t = c AND (p ! i XOR q ! i) in (p[i := p ! i XOR t], q[i := q ! i XOR t]))
           [0..<16] (p, q))"

text \<open>One round of the loop over \<open>j\<close> in \<open>pack\<close>: subtract the prime from \<open>t\<close> and keep the difference if it is not negative.\<close>

definition pack_diff :: "fe \<Rightarrow> fe" where
  "pack_diff t =
     (let m = (replicate 16 0)[0 := t ! 0 - 0xffed];
          m = fold (\<lambda>i m. let m = m[i := t ! i - 0xffff - (shr16 (m ! (i - 1)) AND 1)]
                          in m[i - 1 := m ! (i - 1) AND 0xffff]) [1..<15] m
      in m[15 := t ! 15 - 0x7fff - (shr16 (m ! 14) AND 1)])"

definition pack_round :: "fe \<Rightarrow> fe" where
  "pack_round t =
     (let m = pack_diff t; b = shr16 (m ! 15) AND 1; m = m[14 := m ! 14 AND 0xffff]
      in fst (cswap t m (1 - b)))"

definition pack :: "fe \<Rightarrow> u8 list" where
  "pack n =
     (let t = pack_round (pack_round (carry (carry (carry n))))
      in concat (map (\<lambda>i. [ucast (t ! i AND 0xff), ucast (signed_drop_bit 8 (t ! i))]) [0..<16]))"

definition add :: "fe \<Rightarrow> fe \<Rightarrow> fe" where
  "add a b = map (\<lambda>i. a ! i + b ! i) [0..<16]"

definition subtract :: "fe \<Rightarrow> fe \<Rightarrow> fe" where
  "subtract a b = map (\<lambda>i. a ! i - b ! i) [0..<16]"

text \<open>
  The products and the reduction of \<open>multmod\<close>, for the limbs of any ring: the code has them on
  words, the proofs also on integers.
\<close>

definition mul_terms :: "'a::comm_ring_1 list \<Rightarrow> 'a list \<Rightarrow> 'a list" where
  "mul_terms a b = fold (\<lambda>i t. fold (\<lambda>j t. t[i + j := t ! (i + j) + a ! i * b ! j]) [0..<16] t) [0..<16] (replicate 31 0)"

definition mul_reduce :: "'a::comm_ring_1 list \<Rightarrow> 'a list" where
  "mul_reduce t = take 16 (fold (\<lambda>i t. t[i := t ! i + 38 * t ! (i + 16)]) [0..<15] t)"

definition multmod :: "fe \<Rightarrow> fe \<Rightarrow> fe" where
  "multmod a b = carry (carry (mul_reduce (mul_terms a b)))"

definition invert :: "fe \<Rightarrow> fe" where
  "invert i = fold (\<lambda>a c. let c = multmod c c in if a \<noteq> 2 \<and> a \<noteq> 4 then multmod c i else c) (rev [0..<254]) i"

definition normalize_key :: "u8 list \<Rightarrow> u8 list" where
  "normalize_key z = (let z = z[31 := (z ! 31 AND 127) OR 64] in z[0 := z ! 0 AND 248])"

definition fe_of :: "u64 list \<Rightarrow> fe" where
  "fe_of xs = xs @ replicate (16 - length xs) 0"

text \<open>One iteration of the loop of \<open>wg_generate_public_key\<close>, for the bit \<open>r\<close> of the key.\<close>

definition ladder_body :: "u64 \<Rightarrow> fe \<times> fe \<times> fe \<times> fe \<Rightarrow> fe \<times> fe \<times> fe \<times> fe" where
  "ladder_body r s =
     (let (a, b, c, d) = s;
          (a, b) = cswap a b r;
          (c, d) = cswap c d r;
          e = add a c;
          a = subtract a c;
          c = add b d;
          b = subtract b d;
          d = multmod e e;
          f = multmod a a;
          a = multmod c a;
          c = multmod b e;
          e = add a c;
          a = subtract a c;
          b = multmod a a;
          c = subtract d f;
          a = multmod c (fe_of [0xdb41, 1]);
          a = add a d;
          c = multmod c a;
          a = multmod d f;
          d = multmod b (fe_of [9]);
          b = multmod e e;
          (a, b) = cswap a b r;
          (c, d) = cswap c d r
      in (a, b, c, d))"

definition key_bit :: "u8 list \<Rightarrow> nat \<Rightarrow> u64" where
  "key_bit z i = ucast (drop_bit (i mod 8) (z ! (i div 8)) AND 1)"

definition wg_generate_public_key :: "u8 list \<Rightarrow> u8 list" where
  "wg_generate_public_key private_key =
     (let z = normalize_key private_key;
          (a, b, c, d) = fold (\<lambda>i. ladder_body (key_bit z i)) (rev [0..<255])
            (fe_of [1], fe_of [9], fe_of [0], fe_of [1]);
          c = invert c
      in pack (multmod a c))"

section \<open>The reference\<close>

definition p25519 :: int where
  "p25519 = 2 ^ 255 - 19"

definition le_int :: "u8 list \<Rightarrow> int" where
  "le_int bs = (\<Sum>i<length bs. uint (bs ! i) * 256 ^ i)"

definition le_bytes :: "int \<Rightarrow> u8 list" where
  "le_bytes v = map (\<lambda>i. of_int (v div 256 ^ i)) [0..<32]"

text \<open>\<open>decodeScalar25519\<close>, the ladder with its conditional swaps, and \<open>X25519\<close> of RFC 7748.\<close>

definition decode_scalar :: "u8 list \<Rightarrow> int" where
  "decode_scalar k =
     le_int (k[0 := k ! 0 AND 248, 31 := (k ! 31 AND 127) OR 64])"

definition rfc_cswap :: "bool \<Rightarrow> int \<times> int \<Rightarrow> int \<times> int" where
  "rfc_cswap b x = (if b then (snd x, fst x) else x)"

definition rfc_body :: "int \<Rightarrow> int \<times> int \<times> int \<times> int \<Rightarrow> int \<times> int \<times> int \<times> int" where
  "rfc_body x_1 s =
     (let (x_2, z_2, x_3, z_3) = s;
          A = x_2 + z_2; AA = A ^ 2;
          B = x_2 - z_2; BB = B ^ 2;
          E = AA - BB;
          C = x_3 + z_3;
          D = x_3 - z_3;
          DA = D * A;
          CB = C * B
      in (AA * BB mod p25519, E * (AA + 121665 * E) mod p25519,
          (DA + CB) ^ 2 mod p25519, x_1 * (DA - CB) ^ 2 mod p25519))"

definition rfc_step :: "int \<Rightarrow> int \<Rightarrow> nat \<Rightarrow> (int \<times> int \<times> int \<times> int) \<times> bool \<Rightarrow> (int \<times> int \<times> int \<times> int) \<times> bool" where
  "rfc_step k u t st =
     (let ((x_2, z_2, x_3, z_3), swap) = st;
          k_t = bit k t;
          swap = (swap \<noteq> k_t);
          (x_2, x_3) = rfc_cswap swap (x_2, x_3);
          (z_2, z_3) = rfc_cswap swap (z_2, z_3)
      in (rfc_body u (x_2, z_2, x_3, z_3), k_t))"

definition rfc_x25519 :: "int \<Rightarrow> int \<Rightarrow> int" where
  "rfc_x25519 k u =
     (let ((x_2, z_2, x_3, z_3), swap) = fold (rfc_step k u) (rev [0..<255]) ((1, 0, u, 1), False);
          (x_2, x_3) = rfc_cswap swap (x_2, x_3);
          (z_2, z_3) = rfc_cswap swap (z_2, z_3)
      in x_2 * z_2 ^ nat (p25519 - 2) mod p25519)"

section \<open>The value of a list of limbs\<close>

fun peval :: "int list \<Rightarrow> int" where
  "peval [] = 0"
| "peval (x # xs) = x + 65536 * peval xs"

lemma peval_append: "peval (xs @ ys) = peval xs + 65536 ^ length xs * peval ys"
  by (induction xs) (simp_all add: algebra_simps)

lemma peval_update: "k < length xs \<Longrightarrow> peval (xs[k := xs ! k + c]) = peval xs + c * 65536 ^ k"
  by (induction xs arbitrary: k) (auto simp: algebra_simps split: nat.splits)

lemma peval_zeros [simp]: "peval (replicate n 0) = 0"
  by (induction n) auto

lemma peval_bound: "(\<And>x. x \<in> set xs \<Longrightarrow> \<bar>x\<bar> \<le> B) \<Longrightarrow> 0 \<le> B \<Longrightarrow> \<bar>peval xs\<bar> \<le> B * (65536 ^ length xs - 1)"
proof (induction xs)
  case (Cons x xs)
  have "\<bar>peval (x # xs)\<bar> \<le> \<bar>x\<bar> + 65536 * \<bar>peval xs\<bar>" by simp
  also have "\<dots> \<le> B + 65536 * (B * (65536 ^ length xs - 1))" using Cons by (intro add_mono mult_left_mono) auto
  also have "\<dots> \<le> B * (65536 ^ length (x # xs) - 1)" using Cons.prems(2) by (simp add: algebra_simps)
  finally show ?case .
qed simp

section \<open>Carrying\<close>

text \<open>
  The carries on integers: limb \<open>k\<close> takes the carry from the limbs below it, which is the quotient
  of their value by \<open>65536 ^ k\<close>; what remains are the digits of the value.
\<close>

definition digit :: "int \<Rightarrow> nat \<Rightarrow> int" where
  "digit v i = v div 65536 ^ i mod 65536"

definition low_carry :: "int list \<Rightarrow> nat \<Rightarrow> int" where
  "low_carry xs k = peval (take k xs) div 65536 ^ k"

definition digits :: "int \<Rightarrow> nat \<Rightarrow> int list" where
  "digits v n = map (digit v) [0..<n]"

definition carry_step :: "nat \<Rightarrow> int list \<Rightarrow> int list" where
  "carry_step i l =
     (let l = l[(i + 1) mod 16 := l ! ((i + 1) mod 16) + (if i = 15 then 38 else 1) * (l ! i div 65536)]
      in l[i := l ! i mod 65536])"

lemma peval_take_Suc: "k < length xs \<Longrightarrow> peval (take (Suc k) xs) = peval (take k xs) + 65536 ^ k * xs ! k"
  by (simp add: take_Suc_conv_app_nth peval_append)

lemma low_carry_Suc: "k < length xs \<Longrightarrow> low_carry xs (Suc k) = (xs ! k + low_carry xs k) div 65536"
proof -
  assume "k < length xs"
  then have "low_carry xs (Suc k) = (peval (take k xs) + 65536 ^ k * xs ! k) div 65536 ^ k div 65536"
    unfolding low_carry_def peval_take_Suc [OF \<open>k < length xs\<close>]
    by (simp add: div_mult2_eq' zdiv_zmult2_eq power_Suc2 del: power_Suc)
  then show ?thesis by (simp add: low_carry_def add.commute)
qed

lemma digit_low: "k < length xs \<Longrightarrow> digit (peval xs) k = (xs ! k + low_carry xs k) mod 65536"
proof -
  assume k: "k < length xs"
  have "peval xs = peval (take (Suc k) xs) + 65536 ^ Suc k * peval (drop (Suc k) xs)"
    using peval_append [of "take (Suc k) xs" "drop (Suc k) xs"] k by simp
  also have "\<dots> = peval (take k xs) + 65536 ^ k * (xs ! k + 65536 * peval (drop (Suc k) xs))"
    using peval_take_Suc [OF k] by (simp add: algebra_simps)
  finally have "peval xs div 65536 ^ k = (xs ! k + low_carry xs k) + 65536 * peval (drop (Suc k) xs)"
    by (simp add: low_carry_def)
  then show ?thesis by (simp add: digit_def)
qed

lemma length_digits [simp]: "length (digits v n) = n"
  by (simp add: digits_def)

lemma nth_digits [simp]: "i < n \<Longrightarrow> digits v n ! i = digit v i"
  by (simp add: digits_def)

lemma digits_Suc: "digits v (Suc n) = digits v n @ [digit v n]"
  by (simp add: digits_def)

lemma peval_digits: "peval (digits v n) = v mod 65536 ^ n"
proof (induction n)
  case (Suc n)
  have "v mod 65536 ^ Suc n = v mod 65536 ^ n + 65536 ^ n * (v div 65536 ^ n mod 65536)"
    using zmod_zmult2_eq [of 65536 v "65536 ^ n"] by (simp add: power_Suc2 algebra_simps del: power_Suc)
  then show ?case using Suc by (simp add: digits_Suc peval_append digit_def)
qed (simp add: digits_def)

text \<open>After \<open>k\<close> steps the limbs below \<open>k\<close> are digits and limb \<open>k\<close> has its carry.\<close>

lemma carry_steps:
  assumes "length xs = 16" and "k \<le> 15"
  shows "fold carry_step [0..<k] xs = digits (peval xs) k @ (xs ! k + low_carry xs k) # drop (Suc k) xs"
  using assms(2)
proof (induction k)
  case 0
  have "xs = xs ! 0 # drop 1 xs" using assms(1) by (cases xs) auto
  then show ?case by (simp add: low_carry_def digits_def)
next
  case (Suc k)
  let ?l = "digits (peval xs) k @ (xs ! k + low_carry xs k) # drop (Suc k) xs"
  have d: "drop (Suc k) xs = xs ! Suc k # drop (Suc (Suc k)) xs"
    using Suc assms(1) by (simp add: Cons_nth_drop_Suc)
  have "fold carry_step [0..<Suc k] xs = carry_step k ?l" using Suc by simp
  also have "\<dots> = digits (peval xs) k @ digit (peval xs) k # (xs ! Suc k + low_carry xs (Suc k)) # drop (Suc (Suc k)) xs"
    using Suc.prems assms(1) digit_low [of k xs] low_carry_Suc [of k xs]
    by (simp add: carry_step_def d nth_append list_update_append Let_def)
  finally show ?case by (simp add: digits_Suc)
qed

definition carry_int :: "int list \<Rightarrow> int list" where
  "carry_int xs = fold carry_step [0..<16] xs"

lemma low_carry_all: "length xs = n \<Longrightarrow> low_carry xs n = peval xs div 65536 ^ n"
  by (simp add: low_carry_def)

lemma carry_int_digits:
  assumes "length xs = 16"
  shows "carry_int xs = (digits (peval xs) 16)[0 := digit (peval xs) 0 + 38 * (peval xs div 65536 ^ 16)]"
proof -
  have "[0..<16] = [0..<15] @ [15]" by (simp add: upt_rec)
  then have "carry_int xs = carry_step 15 (digits (peval xs) 15 @ [xs ! 15 + low_carry xs 15])"
    using carry_steps [of xs 15] assms by (simp add: carry_int_def)
  also have "\<dots> = (digits (peval xs) 15)[0 := digit (peval xs) 0 + 38 * low_carry xs 16] @ [digit (peval xs) 15]"
    using low_carry_Suc [of 15 xs] digit_low [of 15 xs] assms
    by (simp add: carry_step_def Let_def nth_append list_update_append)
  also have "\<dots> = (digits (peval xs) 16)[0 := digit (peval xs) 0 + 38 * (peval xs div 65536 ^ 16)]"
    using digits_Suc [of "peval xs" 15] low_carry_all [OF assms] by (simp add: list_update_append)
  finally show ?thesis .
qed

lemma peval_carry_int:
  assumes "length xs = 16"
  shows "peval (carry_int xs) = peval xs mod 2 ^ 256 + 38 * (peval xs div 2 ^ 256)"
  unfolding carry_int_digits [OF assms]
  using peval_update [of 0 "digits (peval xs) 16"] by (simp add: peval_digits)

section \<open>Words and integers\<close>

definition in64 :: "int \<Rightarrow> bool" where
  "in64 x \<longleftrightarrow> - (2 ^ 63) \<le> x \<and> x < 2 ^ 63"

abbreviation words :: "int list \<Rightarrow> u64 list" where
  "words \<equiv> map of_int"

lemma sint_of_int64: "in64 x \<Longrightarrow> sint (of_int x :: u64) = x"
  unfolding in64_def by (simp add: signed_of_int signed_take_bit_int_eq_self)

lemma shr16_of_int: "in64 x \<Longrightarrow> shr16 (of_int x) = of_int (x div 65536)"
proof -
  assume "in64 x"
  then have "sint (shr16 (of_int x)) = x div 65536"
    unfolding shr16_def by (simp add: sint_signed_drop_bit_eq sint_of_int64 drop_bit_eq_div)
  then have "(of_int (sint (shr16 (of_int x))) :: u64) = of_int (x div 65536)" by (rule arg_cong)
  then show ?thesis by simp
qed

lemma and_low16: "of_int x AND 0xffff = (of_int (x mod 65536) :: u64)"
proof -
  have "x AND 65535 = x mod 65536" using take_bit_eq_mask [of 16 x] by (simp add: take_bit_eq_mod mask_eq_exp_minus_1)
  then show ?thesis using of_int_and_eq [of x 65535, where 'a = u64] by simp
qed

lemma carry_step_words:
  assumes "length l = 16" and "i < 16" and "in64 (l ! i)"
  shows "(let w = (words l)[(i + 1) mod 16 := words l ! ((i + 1) mod 16) + (if i = 15 then 38 else 1) * shr16 (words l ! i)]
      in w[i := w ! i AND 0xffff]) = words (carry_step i l)"
proof -
  have ne: "(i + 1) mod 16 \<noteq> i" "(i + 1) mod 16 < 16" using assms(2) by (cases "i = 15"; simp)+
  have "words l ! i = of_int (l ! i)" "words l ! ((i + 1) mod 16) = of_int (l ! ((i + 1) mod 16))"
    using assms ne by simp_all
  then show ?thesis
    using assms ne by (simp add: carry_step_def Let_def shr16_of_int map_update and_low16)
qed

lemma low_carry_bound:
  assumes "\<And>x. x \<in> set xs \<Longrightarrow> \<bar>x\<bar> \<le> B" and "0 \<le> B"
  shows "\<bar>low_carry xs k\<bar> \<le> B + 1"
proof -
  let ?M = "65536 ^ length (take k xs) :: int" and ?P = "65536 ^ k :: int"
  have M: "1 \<le> ?M" "?M \<le> ?P" by (simp_all add: power_increasing)
  have "\<bar>peval (take k xs)\<bar> \<le> B * (?M - 1)" by (rule peval_bound) (use assms in \<open>auto dest: in_set_takeD\<close>)
  also have "\<dots> \<le> B * ?P" using mult_left_mono [of "?M - 1" ?P B] M assms(2) by linarith
  finally have "- (B * ?P) \<le> peval (take k xs)" "peval (take k xs) \<le> B * ?P" by auto
  then have "(- B) * ?P div ?P \<le> peval (take k xs) div ?P" "peval (take k xs) div ?P \<le> B * ?P div ?P"
    by (intro zdiv_mono1; simp)+
  moreover have "(- B) * ?P div ?P = - B" "B * ?P div ?P = B" by (rule nonzero_mult_div_cancel_right; simp)+
  ultimately show ?thesis unfolding low_carry_def by linarith
qed

text \<open>Carrying on words is carrying on integers as long as the limbs are below \<open>2 ^ 60\<close>.\<close>

lemma carry_words:
  assumes len: "length xs = 16" and B: "\<And>x. x \<in> set xs \<Longrightarrow> \<bar>x\<bar> \<le> 2 ^ 60"
  shows "carry (words xs) = words (carry_int xs)"
proof -
  define ws where "ws = (\<lambda>i (l::u64 list).
     let l = l[(i + 1) mod 16 := l ! ((i + 1) mod 16) + (if i = 15 then 38 else 1) * shr16 (l ! i)]
     in l[i := l ! i AND 0xffff])"
  have lc: "\<bar>low_carry xs k\<bar> \<le> 2 ^ 60 + 1" for k by (rule low_carry_bound) (use B in auto)
  have "fold ws [0..<k] (words xs) = words (fold carry_step [0..<k] xs)" if "k \<le> 16" for k
    using that
  proof (induction k)
    case (Suc k)
    let ?l = "fold carry_step [0..<k] xs"
    have l: "?l = digits (peval xs) k @ (xs ! k + low_carry xs k) # drop (Suc k) xs"
      using carry_steps [OF len, of k] Suc.prems by simp
    have "\<bar>xs ! k\<bar> \<le> 2 ^ 60" using B Suc.prems len by simp
    with lc [of k] have "in64 (?l ! k)" "length ?l = 16"
      using Suc.prems len by (auto simp: in64_def l nth_append)
    from carry_step_words [OF this(2) _ this(1)] show ?case using Suc by (simp add: ws_def Let_def)
  qed simp
  from this [of 16] show ?thesis by (simp add: carry_def carry_int_def ws_def)
qed


section \<open>Multiplication\<close>

lemma length_mul_inner [simp]: "length (fold (\<lambda>j t. t[i + j := t ! (i + j) + c * b ! j]) js t) = length t"
  by (induction js arbitrary: t) auto

lemma length_mul_terms [simp]: "length (mul_terms a b) = 31"
proof -
  have "length (fold (\<lambda>i t. fold (\<lambda>j t. t[i + j := t ! (i + j) + a ! i * b ! j]) [0..<16] t) is t) = length t" for "is" t
    by (induction "is" arbitrary: t) auto
  then show ?thesis by (simp add: mul_terms_def)
qed

lemma length_mul_fold [simp]: "length (fold (\<lambda>i t. t[i := t ! i + 38 * t ! (i + 16)]) is t) = length t"
  by (induction "is" arbitrary: t) auto

lemma length_mul_reduce [simp]: "length t = 31 \<Longrightarrow> length (mul_reduce t) = 16"
  by (simp add: mul_reduce_def)

text \<open>The value of the products, and of the reduction by \<open>2 ^ 256 = 38\<close>.\<close>

lemma peval_take_16: "peval (take 16 xs) = (\<Sum>j<16. xs ! j * 65536 ^ j)" if "16 \<le> length xs"
proof -
  have "peval (take n xs) = (\<Sum>j<n. xs ! j * 65536 ^ j)" if "n \<le> length xs" for n
    using that by (induction n) (simp_all add: peval_take_Suc)
  from this [of 16] that show ?thesis .
qed

lemma peval_mul_inner:
  assumes "\<forall>j\<in>set js. i + j < length t"
  shows "peval (fold (\<lambda>j t. t[i + j := t ! (i + j) + c * b ! j]) js t) = peval t + c * 65536 ^ i * (\<Sum>j\<leftarrow>js. b ! j * 65536 ^ j)"
  using assms
proof (induction js arbitrary: t)
  case (Cons j js)
  then show ?case by (simp add: peval_update) (simp add: algebra_simps power_add)
qed simp

lemma sum_list_upt: "(\<Sum>j\<leftarrow>[0..<n]. f j) = (\<Sum>j<n. f j :: int)"
  by (induction n) simp_all

lemma peval_mul_terms:
  assumes "length a = 16" and "length b = 16"
  shows "peval (mul_terms a b) = peval a * peval b"
proof -
  have b: "(\<Sum>j\<leftarrow>[0..<16]. b ! j * 65536 ^ j) = peval b" using peval_take_16 [of b] assms(2) sum_list_upt [of _ 16] by simp
  have "peval (fold (\<lambda>i t. fold (\<lambda>j t. t[i + j := t ! (i + j) + a ! i * b ! j]) [0..<16] t) is t) =
      peval t + (\<Sum>i\<leftarrow>is. a ! i * 65536 ^ i) * peval b" if "\<forall>i\<in>set is. i < 16" "length t = 31" for "is" t
    using that by (induction "is" arbitrary: t) (simp_all add: peval_mul_inner b algebra_simps)
  from this [of "[0..<16]" "replicate 31 0"] show ?thesis
    using peval_take_16 [of a] assms(1) sum_list_upt [of "\<lambda>i. a ! i * 65536 ^ i" 16] by (simp add: mul_terms_def)
qed

lemma peval_mul_reduce:
  assumes "length t = 31"
  shows "peval (mul_reduce t) = peval (take 16 t) + 38 * peval (drop 16 t)"
proof -
  let ?f = "\<lambda>i t. t[i := t ! i + 38 * t ! (i + 16)]"
  have "peval (take 16 (fold ?f [0..<n] t)) = peval (take 16 t) + 38 * peval (take n (drop 16 t)) \<and>
      drop 15 (fold ?f [0..<n] t) = drop 15 t" if "n \<le> 15" for n
    using that
  proof (induction n)
    case (Suc n)
    let ?t = "fold ?f [0..<n] t"
    have d: "drop 15 ?t = drop 15 t" and l: "length ?t = 31" using Suc assms by simp_all
    have "?t ! (n + 16) = drop 15 ?t ! Suc n" using l Suc.prems by (simp add: ac_simps)
    then have "?t ! (n + 16) = t ! (n + 16)" unfolding d using Suc.prems assms by (simp add: ac_simps)
    moreover have "peval (take 16 (?f n ?t)) = peval (take 16 ?t) + (38 * ?t ! (n + 16)) * 65536 ^ n"
      using peval_update [of n "take 16 ?t" "38 * ?t ! (n + 16)"] Suc.prems assms by (simp add: take_update_swap)
    moreover have "peval (take (Suc n) (drop 16 t)) = peval (take n (drop 16 t)) + 65536 ^ n * t ! (n + 16)"
      using peval_take_Suc [of n "drop 16 t"] Suc.prems assms by (simp add: ac_simps)
    ultimately show ?case using Suc by (simp add: algebra_simps)
  qed simp
  from this [of 15] show ?thesis using assms by (simp add: mul_reduce_def)
qed

text \<open>A row of products touches every limb at most once.\<close>

lemma mul_inner_nth:
  assumes "distinct js" and "\<forall>j\<in>set js. i + j < length t" and "k < length t"
  shows "fold (\<lambda>j t. t[i + j := t ! (i + j) + c * b ! j]) js t ! k =
    t ! k + (if i \<le> k \<and> k - i \<in> set js then c * b ! (k - i) else (0::int))"
  using assms
proof (induction js arbitrary: t)
  case (Cons j js)
  then show ?case by (cases "k = i + j") (auto simp: nth_list_update)
qed simp

lemma mul_inner_bound:
  fixes B :: int
  assumes "\<bar>c\<bar> \<le> B" and "\<And>x. x \<in> set b \<Longrightarrow> \<bar>x\<bar> \<le> B" and "length b = 16" and "i < 16" and "length t = 31" and "k < 31"
  shows "\<bar>fold (\<lambda>j t. t[i + j := t ! (i + j) + c * b ! j]) [0..<16] t ! k\<bar> \<le> \<bar>t ! k\<bar> + B * B"
proof -
  have B: "0 \<le> B" using assms(1) by simp
  have "\<bar>c * b ! m\<bar> \<le> B * B" if "m < 16" for m
    unfolding abs_mult using assms(1,2,3) that B by (intro mult_mono) auto
  moreover have "0 \<le> B * B" using B by simp
  ultimately show ?thesis
    using mul_inner_nth [of "[0..<16]" i t k c b] assms(4-6)
    by (auto simp: abs_triangle_ineq [THEN order_trans] intro: order_trans [OF abs_triangle_ineq] add_mono)
qed

lemma mul_terms_bound:
  assumes "\<And>x. x \<in> set a \<Longrightarrow> \<bar>x\<bar> \<le> B" and "\<And>x. x \<in> set b \<Longrightarrow> \<bar>x\<bar> \<le> B" and "length a = 16" and "length b = 16" and "k < 31"
  shows "\<bar>mul_terms a b ! k\<bar> \<le> 16 * (B * B :: int)"
proof -
  let ?f = "\<lambda>i t. fold (\<lambda>j t. t[i + j := t ! (i + j) + a ! i * b ! j]) [0..<16] t"
  have "\<bar>fold ?f [0..<n] (replicate 31 0) ! k\<bar> \<le> int n * (B * B) \<and> length (fold ?f [0..<n] (replicate 31 0)) = 31"
    if "n \<le> 16" for n
    using that
  proof (induction n)
    case 0
    then show ?case using assms(5) by simp
  next
    case (Suc n)
    have "\<bar>a ! n\<bar> \<le> B" using assms(1,3) Suc.prems by simp
    then have "\<bar>?f n (fold ?f [0..<n] (replicate 31 0)) ! k\<bar> \<le> \<bar>fold ?f [0..<n] (replicate 31 0) ! k\<bar> + B * B"
      using Suc assms by (intro mul_inner_bound) auto
    with Suc show ?case by (simp add: distrib_right)
  qed
  from this [of 16] show ?thesis by (simp add: mul_terms_def)
qed

lemma mul_reduce_nth:
  assumes "length t = 31" and "k < 16"
  shows "mul_reduce t ! k = (if k < 15 then t ! k + 38 * t ! (k + 16) else t ! k)"
proof -
  have "fold (\<lambda>i t. t[i := t ! i + 38 * t ! (i + 16)]) [0..<n] t ! m = (if m < n then t ! m + 38 * t ! (m + 16) else t ! m)"
    if "n \<le> 15" "m < 31" for n m
    using that assms(1) by (induction n arbitrary: m) (auto simp: nth_list_update less_Suc_eq)
  from this [of 15 k] assms(2) show ?thesis by (simp add: mul_reduce_def)
qed

lemma mul_reduce_bound:
  assumes "\<And>x. x \<in> set a \<Longrightarrow> \<bar>x\<bar> \<le> 2 ^ 18" and "\<And>x. x \<in> set b \<Longrightarrow> \<bar>x\<bar> \<le> 2 ^ 18" and "length a = 16" and "length b = 16"
    and "x \<in> set (mul_reduce (mul_terms a b))"
  shows "\<bar>x\<bar> \<le> (2 ^ 46 :: int)"
proof -
  obtain k where k: "k < 16" "x = mul_reduce (mul_terms a b) ! k"
    using assms(5) by (auto simp: in_set_conv_nth)
  have b: "\<bar>mul_terms a b ! m\<bar> \<le> 16 * (2 ^ 18 * 2 ^ 18)" if "m < 31" for m
    by (rule mul_terms_bound) (use assms that in auto)
  show ?thesis using b [of k] b [of "k + 16"] k by (auto simp: mul_reduce_nth)
qed

text \<open>The same products on words.\<close>

lemma words_mul_inner:
  assumes "\<forall>j\<in>set js. i + j < length t \<and> j < length b"
  shows "words (fold (\<lambda>j t. t[i + j := t ! (i + j) + c * b ! j]) js t) =
    fold (\<lambda>j t. t[i + j := t ! (i + j) + of_int c * words b ! j]) js (words t)"
  using assms by (induction js arbitrary: t) (simp_all add: map_update)

lemma words_mul_terms:
  assumes "length a = 16" and "length b = 16"
  shows "words (mul_terms a b) = mul_terms (words a) (words b)"
proof -
  have "words (fold (\<lambda>i t. fold (\<lambda>j t. t[i + j := t ! (i + j) + a ! i * b ! j]) [0..<16] t) is t) =
      fold (\<lambda>i t. fold (\<lambda>j t. t[i + j := t ! (i + j) + words a ! i * words b ! j]) [0..<16] t) is (words t)"
    if "\<forall>i\<in>set is. i < 16" "length t = 31" for "is" t
    using that assms by (induction "is" arbitrary: t) (simp_all add: words_mul_inner)
  from this [of "[0..<16]" "replicate 31 0"] show ?thesis by (simp add: mul_terms_def)
qed

lemma words_mul_reduce:
  assumes "length t = 31"
  shows "words (mul_reduce t) = mul_reduce (words t)"
proof -
  have "words (fold (\<lambda>i t. t[i := t ! i + 38 * t ! (i + 16)]) is t) =
      fold (\<lambda>i t. t[i := t ! i + 38 * t ! (i + 16)]) is (words t)" if "\<forall>i\<in>set is. i < 15" "length t = 31" for "is" t
    using that by (induction "is" arbitrary: t) (simp_all add: map_update)
  from this [of "[0..<15]" t] assms show ?thesis by (simp add: mul_reduce_def take_map [symmetric])
qed

section \<open>Field elements\<close>

definition loose :: "int list \<Rightarrow> bool" where
  "loose xs \<longleftrightarrow> length xs = 16 \<and> (\<forall>x\<in>set xs. \<bar>x\<bar> \<le> 2 ^ 18)"

definition tight :: "int list \<Rightarrow> bool" where
  "tight xs \<longleftrightarrow> (\<exists>v c. xs = (digits v 16)[0 := digit v 0 + 38 * c] \<and> c = v div 2 ^ 256 \<and> - 1 \<le> c \<and> c \<le> 1)"

lemma digit_range: "0 \<le> digit v i" "digit v i < 65536"
  by (simp_all add: digit_def)

lemma tight_loose: "tight xs \<Longrightarrow> length xs = 16 \<and> (\<forall>x\<in>set xs. \<bar>x\<bar> \<le> 2 ^ 17)"
  unfolding tight_def
proof (elim exE conjE)
  fix v c assume xs: "xs = (digits v 16)[0 := digit v 0 + 38 * c]" and c: "- 1 \<le> c" "c \<le> 1"
  have "\<bar>xs ! i\<bar> \<le> 2 ^ 17" if "i < 16" for i
    using that c digit_range [of v i] by (auto simp: xs nth_list_update)
  moreover have "length xs = 16" by (simp add: xs)
  ultimately show ?thesis by (auto simp: in_set_conv_nth)
qed

definition mul_int :: "int list \<Rightarrow> int list \<Rightarrow> int list" where
  "mul_int a b = carry_int (carry_int (mul_reduce (mul_terms a b)))"

lemma carry_int_bound:
  assumes "length xs = 16" and "\<And>x. x \<in> set xs \<Longrightarrow> \<bar>x\<bar> \<le> 2 ^ 46"
  shows "length (carry_int xs) = 16 \<and> (\<forall>x\<in>set (carry_int xs). \<bar>x\<bar> \<le> 2 ^ 60) \<and>
    - (2 ^ 256) \<le> peval (carry_int xs) \<and> peval (carry_int xs) < 2 * 2 ^ 256"
proof -
  let ?v = "peval xs"
  have "\<bar>low_carry xs 16\<bar> \<le> 2 ^ 46 + 1" by (rule low_carry_bound) (use assms in auto)
  then have c: "\<bar>?v div 65536 ^ 16\<bar> \<le> 2 ^ 46 + 1" using low_carry_all [OF assms(1)] by simp
  have "\<bar>carry_int xs ! i\<bar> \<le> 2 ^ 60" if "i < 16" for i
    using that c digit_range [of ?v i] unfolding carry_int_digits [OF assms(1)] by (auto simp: nth_list_update)
  moreover have l: "length (carry_int xs) = 16" by (simp add: carry_int_digits [OF assms(1)])
  moreover have "0 \<le> ?v mod 2 ^ 256" "?v mod 2 ^ 256 < 2 ^ 256" by simp_all
  moreover have "\<bar>?v div 2 ^ 256\<bar> \<le> 2 ^ 46 + 1" using c by simp
  ultimately show ?thesis unfolding peval_carry_int [OF assms(1)] by (auto simp: in_set_conv_nth abs_le_iff)
qed

lemma carry_int_tight:
  assumes "length xs = 16" and "- (2 ^ 256) \<le> peval xs" and "peval xs < 2 * 2 ^ 256"
  shows "tight (carry_int xs)"
proof -
  have "(- 1) * 2 ^ 256 div 2 ^ 256 \<le> peval xs div 2 ^ 256" "peval xs div 2 ^ 256 \<le> (2 * 2 ^ 256 - 1) div (2 ^ 256 :: int)"
    using assms by (intro zdiv_mono1; simp)+
  then show ?thesis unfolding tight_def carry_int_digits [OF assms(1)]
    by (intro exI [of _ "peval xs"] exI [of _ "peval xs div 2 ^ 256"]) simp
qed

lemma p_double: "(2 :: int) ^ 256 = 2 * p25519 + 38"
  by (simp add: p25519_def)

lemma fold_mod_p: "(x + 2 ^ 256 * y) mod p25519 = (x + 38 * y) mod p25519"
proof -
  have e: "x + 2 ^ 256 * y = (x + 38 * y) + p25519 * (2 * y)" unfolding p_double by (simp add: algebra_simps)
  show ?thesis unfolding e by (rule mod_mult_self2)
qed

lemma carry_int_mod: "length xs = 16 \<Longrightarrow> peval (carry_int xs) mod p25519 = peval xs mod p25519"
  unfolding peval_carry_int using fold_mod_p [of "peval xs mod 2 ^ 256" "peval xs div 2 ^ 256"] mod_mult_div_eq by metis

text \<open>On loose limbs \<open>multmod\<close> multiplies modulo the prime and returns tight limbs.\<close>

lemma multmod_correct:
  assumes "loose a" and "loose b"
  shows "multmod (words a) (words b) = words (mul_int a b)" and "tight (mul_int a b)"
    and "peval (mul_int a b) mod p25519 = peval a * peval b mod p25519"
proof -
  have ab: "length a = 16" "length b = 16" "\<And>x. x \<in> set a \<Longrightarrow> \<bar>x\<bar> \<le> 2 ^ 18" "\<And>x. x \<in> set b \<Longrightarrow> \<bar>x\<bar> \<le> 2 ^ 18"
    using assms by (auto simp: loose_def)
  let ?t = "mul_reduce (mul_terms a b)"
  have t: "length ?t = 16" "\<And>x. x \<in> set ?t \<Longrightarrow> \<bar>x\<bar> \<le> 2 ^ 46" using mul_reduce_bound [OF ab(3,4,1,2)] by simp_all
  note c = carry_int_bound [OF t]
  have "carry (words ?t) = words (carry_int ?t)" by (rule carry_words [OF t(1)]) (use t(2) in force)
  moreover have "carry (words (carry_int ?t)) = words (carry_int (carry_int ?t))" using c by (intro carry_words) auto
  ultimately show "multmod (words a) (words b) = words (mul_int a b)"
    using ab by (simp add: multmod_def mul_int_def words_mul_reduce words_mul_terms flip: words_mul_terms)
  show "tight (mul_int a b)" unfolding mul_int_def using c by (intro carry_int_tight) auto
  have "peval (mul_terms a b) = peval (take 16 (mul_terms a b)) + 2 ^ 256 * peval (drop 16 (mul_terms a b))"
    using peval_append [of "take 16 (mul_terms a b)" "drop 16 (mul_terms a b)"] by simp
  then have "peval ?t mod p25519 = peval (mul_terms a b) mod p25519"
    using fold_mod_p peval_mul_reduce [OF length_mul_terms] by metis
  then show "peval (mul_int a b) mod p25519 = peval a * peval b mod p25519"
    unfolding mul_int_def using carry_int_mod c t(1) peval_mul_terms [OF ab(1,2)] by metis
qed

definition rep :: "fe \<Rightarrow> int \<Rightarrow> bool" where
  "rep w v \<longleftrightarrow> (\<exists>xs. tight xs \<and> w = words xs \<and> peval xs mod p25519 = v mod p25519)"

definition lrep :: "fe \<Rightarrow> int \<Rightarrow> bool" where
  "lrep w v \<longleftrightarrow> (\<exists>xs. loose xs \<and> w = words xs \<and> peval xs mod p25519 = v mod p25519)"

lemma rep_lrep: "rep w v \<Longrightarrow> lrep w v"
  unfolding rep_def lrep_def loose_def using tight_loose by force

lemma rep_length: "rep w v \<Longrightarrow> length w = 16"
  using tight_loose by (auto simp: rep_def)

lemma rep_mod: "rep w v \<Longrightarrow> v mod p25519 = v' mod p25519 \<Longrightarrow> rep w v'"
  by (simp add: rep_def)

lemma rep_mult: "lrep a x \<Longrightarrow> lrep b y \<Longrightarrow> rep (multmod a b) (x * y)"
proof -
  assume "lrep a x" "lrep b y"
  then obtain xs ys where a: "loose xs" "a = words xs" "peval xs mod p25519 = x mod p25519"
    and b: "loose ys" "b = words ys" "peval ys mod p25519 = y mod p25519" by (auto simp: lrep_def)
  have "peval xs * peval ys mod p25519 = x * y mod p25519" using a(3) b(3) by (rule mod_mult_cong)
  then show ?thesis unfolding rep_def using multmod_correct [OF a(1) b(1)] a(2) b(2) by metis
qed

lemma peval_pointwise:
  assumes "length xs = 16" and "length ys = 16"
  shows "peval (map (\<lambda>i. xs ! i + s * ys ! i) [0..<16]) = peval xs + s * peval ys"
proof -
  let ?zs = "map (\<lambda>i. xs ! i + s * ys ! i) [0..<16]"
  have "peval ?zs = (\<Sum>j<16. ?zs ! j * 65536 ^ j)" using peval_take_16 [of ?zs] by simp
  also have "\<dots> = (\<Sum>j<16. xs ! j * 65536 ^ j + s * (ys ! j * 65536 ^ j))" by (intro sum.cong) (auto simp: algebra_simps)
  also have "\<dots> = (\<Sum>j<16. xs ! j * 65536 ^ j) + s * (\<Sum>j<16. ys ! j * 65536 ^ j)"
    by (simp only: sum.distrib sum_distrib_left)
  finally show ?thesis using peval_take_16 [of xs] peval_take_16 [of ys] assms by simp
qed

lemma lrep_pointwise:
  assumes "rep a x" and "rep b y" and s: "s = 1 \<or> s = - 1"
  shows "lrep (map (\<lambda>i. a ! i + of_int s * b ! i) [0..<16]) (x + s * y)"
proof -
  obtain xs ys where a: "tight xs" "a = words xs" "peval xs mod p25519 = x mod p25519"
    and b: "tight ys" "b = words ys" "peval ys mod p25519 = y mod p25519" using assms by (auto simp: rep_def)
  note ta = tight_loose [OF a(1)] and tb = tight_loose [OF b(1)]
  let ?zs = "map (\<lambda>i. xs ! i + s * ys ! i) [0..<16]"
  have "\<bar>xs ! i + s * ys ! i\<bar> \<le> 2 ^ 18" if "i < 16" for i
  proof -
    have "\<bar>xs ! i\<bar> \<le> 2 ^ 17" "\<bar>ys ! i\<bar> \<le> 2 ^ 17" using ta tb that by auto
    with s show ?thesis by auto
  qed
  then have "loose ?zs" by (auto simp: loose_def)
  moreover have "map (\<lambda>i. a ! i + of_int s * b ! i) [0..<16] = words ?zs"
    using ta tb by (simp add: a(2) b(2))
  moreover have "peval ?zs mod p25519 = (x + s * y) mod p25519"
    unfolding peval_pointwise [OF conjunct1 [OF ta] conjunct1 [OF tb]]
    using a(3) mod_mult_cong [OF refl b(3), of s] by (rule mod_add_cong)
  ultimately show ?thesis by (auto simp: lrep_def)
qed

lemma lrep_add: "rep a x \<Longrightarrow> rep b y \<Longrightarrow> lrep (add a b) (x + y)"
  using lrep_pointwise [of a x b y 1] by (simp add: add_def)

lemma lrep_subtract: "rep a x \<Longrightarrow> rep b y \<Longrightarrow> lrep (subtract a b) (x - y)"
  using lrep_pointwise [of a x b y "- 1"] by (simp add: subtract_def)

lemma rep_digits: "0 \<le> v \<Longrightarrow> v < 2 ^ 256 \<Longrightarrow> rep (words (digits v 16)) v"
proof -
  assume v: "0 \<le> v" "v < 2 ^ 256"
  have "digits v 16 = (digits v 16)[0 := digit v 0 + 38 * 0]" using list_update_id [of "digits v 16" 0] by simp
  moreover have "(0::int) = v div 2 ^ 256" using v by simp
  ultimately have "tight (digits v 16)" unfolding tight_def by (intro exI [of _ v] exI [of _ 0]) simp
  moreover have "peval (digits v 16) = v" using v by (simp add: peval_digits)
  ultimately show ?thesis by (auto simp: rep_def)
qed

lemma rep_small:
  assumes "0 \<le> x" and "x < 65536" and "0 \<le> y" and "y < 65536"
  shows "rep (of_int x # of_int y # replicate 14 0) (x + 65536 * y)"
proof -
  have d: "digit (x + 65536 * y) i = (if i = 0 then x else if i = 1 then y else 0)" for i
  proof (cases i)
    case (Suc k)
    have "(x + 65536 * y) div 65536 = y" using assms by simp
    then have "(x + 65536 * y) div 65536 ^ i = y div 65536 ^ k" by (simp add: Suc zdiv_zmult2_eq)
    moreover have "y div 65536 ^ k = 0" if "k \<noteq> 0"
    proof -
      have "(65536 :: int) ^ 1 \<le> 65536 ^ k" using that by (intro power_increasing) auto
      then show ?thesis using assms by (intro div_pos_pos_trivial) auto
    qed
    ultimately show ?thesis using assms Suc by (cases "k = 0") (simp_all add: digit_def)
  qed (use assms in \<open>simp add: digit_def\<close>)
  have "words (digits (x + 65536 * y) 16) = of_int x # of_int y # replicate 14 0"
    by (rule nth_equalityI) (auto simp: d nth_Cons split: nat.splits)
  moreover have "x + 65536 * y < 2 ^ 256" using assms by simp
  ultimately show ?thesis using rep_digits [of "x + 65536 * y"] assms by simp
qed

lemma rep_constants: "rep (fe_of [1]) 1" "rep (fe_of [9]) 9" "rep (fe_of [0]) 0" "rep (fe_of [0xdb41, 1]) 121665"
  using rep_small [of 1 0] rep_small [of 9 0] rep_small [of 0 0] rep_small [of 56129 1]
  by (simp_all add: fe_of_def numeral_eq_Suc)

section \<open>Swapping\<close>

lemma cswap_correct:
  assumes "length p = 16" and "length q = 16"
  shows "cswap p q (of_bool b) = (if b then (q, p) else (p, q))"
proof -
  define c where "c = NOT (of_bool b - 1 :: u64)"
  have c: "c = (if b then - 1 else 0)" by (simp add: c_def)
  let ?f = "\<lambda>i (p, q). let t = c AND (p ! i XOR q ! i) in (p[i := p ! i XOR t], q[i := q ! i XOR t])"
  have "length (fst (fold ?f [0..<n] (p, q))) = 16 \<and> length (snd (fold ?f [0..<n] (p, q))) = 16 \<and>
      (\<forall>k<16. fst (fold ?f [0..<n] (p, q)) ! k = (if k < n \<and> b then q ! k else p ! k) \<and>
        snd (fold ?f [0..<n] (p, q)) ! k = (if k < n \<and> b then p ! k else q ! k))" if "n \<le> 16" for n
    using that
  proof (induction n)
    case (Suc n)
    obtain p' q' where pq: "fold ?f [0..<n] (p, q) = (p', q')" by (cases "fold ?f [0..<n] (p, q)")
    with Suc have i: "length p' = 16" "length q' = 16" "\<And>k. k < 16 \<Longrightarrow> p' ! k = (if k < n \<and> b then q ! k else p ! k)"
      "\<And>k. k < 16 \<Longrightarrow> q' ! k = (if k < n \<and> b then p ! k else q ! k)" by auto
    have "x XOR (x XOR y) = y" "y XOR (x XOR y) = x" for x y :: u64
      by (simp_all add: xor.left_commute flip: xor.assoc)
    then have "?f n (p', q') = (if b then (p'[n := q' ! n], q'[n := p' ! n]) else (p', q'))" by (simp add: c Let_def)
    then have "fold ?f [0..<Suc n] (p, q) = (if b then (p'[n := q' ! n], q'[n := p' ! n]) else (p', q'))"
      using pq by simp
    then show ?case using Suc.prems i by (simp add: nth_list_update less_Suc_eq)
  qed (use assms in simp)
  from this [of 16] show ?thesis
    using assms by (auto simp: cswap_def Let_def c_def [symmetric] intro!: prod_eqI nth_equalityI)
qed

section \<open>The ladder\<close>

definition reps :: "fe \<times> fe \<times> fe \<times> fe \<Rightarrow> int \<times> int \<times> int \<times> int \<Rightarrow> bool" where
  "reps s S \<longleftrightarrow> (case s of (a, b, c, d) \<Rightarrow> case S of (x_2, z_2, x_3, z_3) \<Rightarrow>
     rep a x_2 \<and> rep b x_3 \<and> rep c z_2 \<and> rep d z_3)"

definition cs4 :: "bool \<Rightarrow> int \<times> int \<times> int \<times> int \<Rightarrow> int \<times> int \<times> int \<times> int" where
  "cs4 b S = (if b then (case S of (x_2, z_2, x_3, z_3) \<Rightarrow> (x_3, z_3, x_2, z_2)) else S)"

lemma rep_mod_p: "rep w v \<Longrightarrow> rep w (v mod p25519)"
  by (simp add: rep_def)

text \<open>The field operations of one iteration, without the swaps.\<close>

lemma body_reps:
  assumes "rep a x_2" and "rep b x_3" and "rep c z_2" and "rep d z_3"
  defines "e1 \<equiv> add a c" and "a1 \<equiv> subtract a c" and "c1 \<equiv> add b d" and "b1 \<equiv> subtract b d"
  defines "d2 \<equiv> multmod e1 e1" and "f2 \<equiv> multmod a1 a1" and "a2 \<equiv> multmod c1 a1" and "c2 \<equiv> multmod b1 e1"
  defines "e3 \<equiv> add a2 c2" and "a3 \<equiv> subtract a2 c2" and "c3 \<equiv> subtract d2 f2"
  shows "reps (multmod d2 f2, multmod e3 e3,
      multmod c3 (add (multmod c3 (fe_of [0xdb41, 1])) d2), multmod (multmod a3 a3) (fe_of [9]))
    (rfc_body 9 (x_2, z_2, x_3, z_3))"
proof -
  let ?A = "x_2 + z_2" and ?B = "x_2 - z_2" and ?C = "x_3 + z_3" and ?D = "x_3 - z_3"
  have l1: "lrep e1 ?A" "lrep a1 ?B" "lrep c1 ?C" "lrep b1 ?D"
    unfolding e1_def a1_def c1_def b1_def using assms(1-4) by (simp_all add: lrep_add lrep_subtract)
  have r2: "rep d2 (?A * ?A)" "rep f2 (?B * ?B)" "rep a2 (?C * ?B)" "rep c2 (?D * ?A)"
    unfolding d2_def f2_def a2_def c2_def using l1 by (simp_all add: rep_mult)
  have l3: "lrep e3 (?C * ?B + ?D * ?A)" "lrep a3 (?C * ?B - ?D * ?A)" "lrep c3 (?A * ?A - ?B * ?B)"
    unfolding e3_def a3_def c3_def using r2 by (simp_all add: lrep_add lrep_subtract)
  have a24: "rep (multmod c3 (fe_of [0xdb41, 1])) ((?A * ?A - ?B * ?B) * 121665)"
    using l3(3) rep_lrep [OF rep_constants(4)] by (rule rep_mult)
  have "rep (multmod d2 f2) (?A ^ 2 * ?B ^ 2 mod p25519)"
    using rep_mod_p [OF rep_mult [OF rep_lrep [OF r2(1)] rep_lrep [OF r2(2)]]] by (simp add: power2_eq_square)
  moreover have "rep (multmod e3 e3) ((?D * ?A + ?C * ?B) ^ 2 mod p25519)"
    using rep_mod_p [OF rep_mult [OF l3(1) l3(1)]] by (simp add: power2_eq_square add.commute)
  moreover have "rep (multmod c3 (add (multmod c3 (fe_of [0xdb41, 1])) d2))
      ((?A ^ 2 - ?B ^ 2) * (?A ^ 2 + 121665 * (?A ^ 2 - ?B ^ 2)) mod p25519)"
  proof -
    have "(?A * ?A - ?B * ?B) * ((?A * ?A - ?B * ?B) * 121665 + ?A * ?A) =
        (?A ^ 2 - ?B ^ 2) * (?A ^ 2 + 121665 * (?A ^ 2 - ?B ^ 2))" by (simp add: power2_eq_square)
    with rep_mod_p [OF rep_mult [OF l3(3) lrep_add [OF a24 r2(1)]]] show ?thesis by simp
  qed
  moreover have "rep (multmod (multmod a3 a3) (fe_of [9])) (9 * (?D * ?A - ?C * ?B) ^ 2 mod p25519)"
  proof -
    have "(?C * ?B - ?D * ?A) * (?C * ?B - ?D * ?A) * 9 = 9 * (?D * ?A - ?C * ?B) ^ 2"
      by (simp add: power2_eq_square algebra_simps)
    with rep_mod_p [OF rep_mult [OF rep_lrep [OF rep_mult [OF l3(2) l3(2)]] rep_lrep [OF rep_constants(2)]]]
    show ?thesis by simp
  qed
  ultimately show ?thesis by (simp add: reps_def rfc_body_def Let_def)
qed

lemma reps_swap:
  "reps (a, b, c, d) S \<Longrightarrow> reps (fst (cswap a b (of_bool k)), snd (cswap a b (of_bool k)),
     fst (cswap c d (of_bool k)), snd (cswap c d (of_bool k))) (cs4 k S)"
proof -
  assume r: "reps (a, b, c, d) S"
  then have "length a = 16" "length b = 16" "length c = 16" "length d = 16"
    by (auto simp: reps_def rep_length split: prod.splits)
  then have "cswap a b (of_bool k) = (if k then (b, a) else (a, b))" "cswap c d (of_bool k) = (if k then (d, c) else (c, d))"
    by (simp_all only: cswap_correct)
  with r show ?thesis by (cases S) (simp add: reps_def cs4_def)
qed

lemma ladder_body_reps:
  assumes "reps s S"
  shows "reps (ladder_body (of_bool k) s) (cs4 k (rfc_body 9 (cs4 k S)))"
proof -
  obtain a b c d where s: "s = (a, b, c, d)" by (cases s)
  define a' where "a' = fst (cswap a b (of_bool k))"
  define b' where "b' = snd (cswap a b (of_bool k))"
  define c' where "c' = fst (cswap c d (of_bool k))"
  define d' where "d' = snd (cswap c d (of_bool k))"
  have "reps (a', b', c', d') (cs4 k S)"
    using reps_swap [of a b c d S k] assms by (simp add: s a'_def b'_def c'_def d'_def)
  then obtain x_2 z_2 x_3 z_3 where S: "cs4 k S = (x_2, z_2, x_3, z_3)" "rep a' x_2" "rep b' x_3" "rep c' z_2" "rep d' z_3"
    by (cases "cs4 k S") (auto simp: reps_def)
  from reps_swap [OF body_reps [OF S(2-5)], of k] show ?thesis
    by (simp add: s S(1) ladder_body_def Let_def a'_def b'_def c'_def d'_def split_beta)
qed

lemma cs4_cs4: "cs4 a (cs4 b S) = cs4 (a \<noteq> b) S"
  by (cases S) (auto simp: cs4_def)

lemma rfc_step_eq: "rfc_step k u t (S, sw) = (rfc_body u (cs4 (sw \<noteq> bit k t) S), bit k t)"
  by (cases S) (auto simp: rfc_step_def rfc_cswap_def cs4_def)

text \<open>The swaps the code does after an iteration are done before the next one in the reference.\<close>

lemma ladder_reps:
  assumes "reps s (cs4 sw S)"
  shows "\<exists>S' sw'. fold (rfc_step k 9) is (S, sw) = (S', sw') \<and>
    reps (fold (\<lambda>i. ladder_body (of_bool (bit k i))) is s) (cs4 sw' S')"
  using assms
proof (induction "is" arbitrary: s S sw)
  case (Cons i "is")
  have "reps (ladder_body (of_bool (bit k i)) s) (cs4 (bit k i) (rfc_body 9 (cs4 (sw \<noteq> bit k i) S)))"
    using ladder_body_reps [OF Cons.prems, of "bit k i"] unfolding cs4_cs4 by (simp only: neq_commute)
  from Cons.IH [OF this] show ?case by (simp add: rfc_step_eq)
qed simp

section \<open>Inversion\<close>

definition inv_exp :: "nat \<Rightarrow> nat \<Rightarrow> nat" where
  "inv_exp a e = (if a \<noteq> 2 \<and> a \<noteq> 4 then 2 * e + 1 else 2 * e)"

lemma invert_fold:
  assumes "rep i x" and "rep c (x ^ e)"
  shows "rep (fold (\<lambda>a c. let c = multmod c c in if a \<noteq> 2 \<and> a \<noteq> 4 then multmod c i else c) as c) (x ^ fold inv_exp as e)"
  using assms(2)
proof (induction as arbitrary: c e)
  case (Cons a as)
  have sq: "rep (multmod c c) (x ^ (2 * e))"
    using rep_mult [OF rep_lrep [OF Cons.prems] rep_lrep [OF Cons.prems]] by (simp add: mult_2 power_add)
  have "rep (multmod (multmod c c) i) (x ^ (2 * e + 1))"
    using rep_mult [OF rep_lrep [OF sq] rep_lrep [OF assms(1)]] by (simp add: ac_simps)
  with sq Cons.IH [of _ "inv_exp a e"] show ?case by (simp add: inv_exp_def Let_def)
qed simp

lemma inv_exp_fold: "5 \<le> n \<Longrightarrow> fold inv_exp (rev [0..<n]) e + 21 = (e + 1) * 2 ^ n"
proof (induction n arbitrary: e)
  case (Suc n)
  show ?case
  proof (cases "5 \<le> n")
    case True
    with Suc.IH [of "2 * e + 1"] show ?thesis by (simp add: inv_exp_def)
  next
    case False
    with Suc.prems have "n = 4" by simp
    then show ?thesis by (simp add: inv_exp_def numeral_eq_Suc)
  qed
qed simp

lemma invert_rep: "rep i x \<Longrightarrow> rep (invert i) (x ^ nat (p25519 - 2))"
proof -
  assume i: "rep i x"
  have "fold inv_exp (rev [0..<254]) 1 + 21 = 2 * 2 ^ 254" using inv_exp_fold [of 254 1] by simp
  then have "int (fold inv_exp (rev [0..<254]) 1) = p25519 - 2" unfolding p25519_def by simp
  then have "fold inv_exp (rev [0..<254]) 1 = nat (p25519 - 2)" by simp
  with invert_fold [OF i, of i 1 "rev [0..<254]"] i show ?thesis by (simp add: invert_def)
qed

section \<open>The bits of the key\<close>

lemma le_int_Nil: "le_int [] = 0"
  by (simp add: le_int_def)

lemma le_int_Cons: "le_int (b # bs) = uint b + 256 * le_int bs"
proof -
  have "le_int (b # bs) = uint b + (\<Sum>i<length bs. uint (bs ! i) * 256 ^ Suc i)"
    unfolding le_int_def using sum.lessThan_Suc_shift [of "\<lambda>i. uint ((b # bs) ! i) * 256 ^ i" "length bs"] by simp
  then show ?thesis by (simp add: le_int_def sum_distrib_left ac_simps)
qed

lemma uint_take_bit8: "take_bit 8 (uint b) = uint (b :: u8)"
  using uint_bounded [of b] uint_nonnegative [of b] by (simp add: take_bit_int_eq_self)

lemma bit_le_int: "i < 8 * length bs \<Longrightarrow> bit (le_int bs) i \<longleftrightarrow> bit (bs ! (i div 8)) (i mod 8)"
proof (induction bs arbitrary: i)
  case (Cons b bs)
  have e: "le_int (b # bs) = concat_bit 8 (uint b) (le_int bs)"
    using uint_take_bit8 [of b] by (simp add: le_int_Cons concat_bit_eq push_bit_eq_mult)
  show ?case
  proof (cases "i < 8")
    case True
    then show ?thesis unfolding e by (simp add: bit_concat_bit_iff bit_uint_iff)
  next
    case False
    then obtain k where k: "i = k + 8" by (metis le_add_diff_inverse2 not_less)
    have "(k + 8) div 8 = Suc (k div 8)" by simp
    with k Cons.prems Cons.IH [of k] show ?thesis unfolding e by (simp add: bit_concat_bit_iff del: div_add_self2)
  qed
qed simp

lemma key_bit_eq: "length z = 32 \<Longrightarrow> i < 256 \<Longrightarrow> key_bit z i = of_bool (bit (le_int z) i)"
proof -
  assume "length z = 32" "i < 256"
  then have "bit (le_int z) i \<longleftrightarrow> bit (z ! (i div 8)) (i mod 8)" by (simp add: bit_le_int)
  moreover have "drop_bit n w AND 1 = of_bool (bit w n)" for n and w :: u8
    by (simp add: and_one_eq bit_iff_odd_drop_bit odd_iff_mod_2_eq_one)
  ultimately show ?thesis by (simp add: key_bit_def)
qed

section \<open>The packed result\<close>

lemma carry_int_norm:
  assumes "length xs = 16" and "0 \<le> peval xs" and "peval xs < 2 ^ 256"
  shows "carry_int xs = digits (peval xs) 16"
proof -
  have "digits (peval xs) 16 ! 0 = digit (peval xs) 0 + 38 * (peval xs div 65536 ^ 16)" using assms by simp
  then show ?thesis unfolding carry_int_digits [OF assms(1)] using list_update_id [of "digits (peval xs) 16" 0] by metis
qed

lemma tight_peval:
  assumes "tight xs"
  shows "- 38 \<le> peval xs" and "peval xs < 2 ^ 256 + 38"
proof -
  obtain v where xs: "xs = (digits v 16)[0 := digit v 0 + 38 * (v div 2 ^ 256)]" and c: "- 1 \<le> v div 2 ^ 256" "v div 2 ^ 256 \<le> 1"
    using assms by (auto simp: tight_def)
  have e: "peval xs = v mod 2 ^ 256 + 38 * (v div 2 ^ 256)"
    unfolding xs using peval_update [of 0 "digits v 16"] by (simp add: peval_digits)
  have "0 \<le> v mod 2 ^ 256" "v mod 2 ^ 256 < 2 ^ 256" by simp_all
  with c show "- 38 \<le> peval xs" "peval xs < 2 ^ 256 + 38" unfolding e by linarith+
qed

lemma carry_int_range:
  assumes "length xs = 16" and "- 38 \<le> peval xs" and "peval xs < 2 ^ 256 + 38"
  shows "0 \<le> peval (carry_int xs) \<and> peval (carry_int xs) < 2 ^ 256"
proof -
  let ?u = "peval xs" and ?M = "2 ^ 256 :: int"
  have q: "?u mod ?M = ?u - ?M * (?u div ?M)" by (rule minus_mult_div_eq_mod [symmetric])
  consider "?u < 0" | "0 \<le> ?u" "?u < ?M" | "?M \<le> ?u" by linarith
  then show ?thesis
  proof cases
    case 1
    then have d: "?u div ?M = - 1" using assms(2) by (simp add: div_eq_minus1)
    show ?thesis unfolding peval_carry_int [OF assms(1)] q d using assms(2) 1 by simp
  next
    case 2
    then show ?thesis unfolding peval_carry_int [OF assms(1)] by simp
  next
    case 3
    then have d: "?u div ?M = 1" using assms(3) div_pos_geq [of ?M ?u] by simp
    show ?thesis unfolding peval_carry_int [OF assms(1)] q d using assms(3) 3 by simp
  qed
qed

lemma digits_bound: "x \<in> set (digits v n) \<Longrightarrow> \<bar>x\<bar> \<le> 2 ^ 60"
proof -
  assume "x \<in> set (digits v n)"
  then obtain i where "x = digit v i" by (auto simp: digits_def)
  with digit_range [of v i] show ?thesis by simp
qed

lemma words_carry_tight:
  assumes "tight xs"
  shows "\<exists>v. carry (carry (carry (words xs))) = words (digits v 16) \<and> 0 \<le> v \<and> v < 2 ^ 256 \<and>
    v mod p25519 = peval xs mod p25519"
proof -
  note t = tight_loose [OF assms] and p = tight_peval [OF assms]
  let ?v = "peval (carry_int xs)"
  have l: "length xs = 16" "length (carry_int xs) = 16" using t carry_int_digits [of xs] by simp_all
  have r: "0 \<le> ?v" "?v < 2 ^ 256" using carry_int_range [OF l(1) p] by simp_all
  have "\<bar>x\<bar> \<le> 2 ^ 60" if "x \<in> set xs" for x using t that by force
  then have "carry (words xs) = words (carry_int xs)" by (rule carry_words [OF l(1)])
  moreover have "\<forall>x\<in>set (carry_int xs). \<bar>x\<bar> \<le> 2 ^ 60" using t by (intro carry_int_bound [THEN conjunct2, THEN conjunct1]) force+
  then have "carry (words (carry_int xs)) = words (carry_int (carry_int xs))" by (intro carry_words) (use l in auto)
  moreover have "carry_int (carry_int xs) = digits ?v 16" using carry_int_norm [OF l(2) r] .
  moreover have "carry (words (digits ?v 16)) = words (carry_int (digits ?v 16))"
    by (intro carry_words digits_bound) simp_all
  moreover have "carry_int (digits ?v 16) = digits ?v 16"
    using carry_int_norm [of "digits ?v 16"] r by (simp add: peval_digits)
  ultimately show ?thesis using r carry_int_mod [OF l(1)] by auto
qed

text \<open>The limbs of the prime, and the limbs \<open>pack\<close> subtracts them from, limb by limb.\<close>

definition p_limb :: "nat \<Rightarrow> int" where
  "p_limb i = (if i = 0 then 0xffed else if i = 15 then 0x7fff else 0xffff)"

definition diff_limbs :: "int \<Rightarrow> int list" where
  "diff_limbs v = map (\<lambda>i. digit v i - p_limb i) [0..<16]"

lemma peval_p: "peval (map p_limb [0..<16]) = p25519"
  by (simp add: p_limb_def p25519_def upt_rec)

lemma length_diff_limbs [simp]: "length (diff_limbs v) = 16"
  by (simp add: diff_limbs_def)

lemma peval_diff:
  assumes "0 \<le> v" and "v < 2 ^ 256"
  shows "peval (diff_limbs v) = v - p25519"
proof -
  have "diff_limbs v = map (\<lambda>i. digits v 16 ! i + (- 1) * map p_limb [0..<16] ! i) [0..<16]"
    by (simp add: diff_limbs_def)
  then show ?thesis using peval_pointwise [of "digits v 16" "map p_limb [0..<16]" "- 1"] assms
    by (simp add: peval_p peval_digits)
qed

definition raw :: "int \<Rightarrow> nat \<Rightarrow> int" where
  "raw v i = diff_limbs v ! i + low_carry (diff_limbs v) i"

lemma raw_range: "i < 16 \<Longrightarrow> - 65536 \<le> raw v i \<and> raw v i < 65536 \<and> - 1 \<le> low_carry (diff_limbs v) i \<and> low_carry (diff_limbs v) i \<le> 0"
proof (induction i)
  case 0
  then show ?case using digit_range [of v 0] by (simp add: raw_def low_carry_def diff_limbs_def p_limb_def)
next
  case (Suc i)
  have "low_carry (diff_limbs v) (Suc i) = raw v i div 65536"
    using low_carry_Suc [of i "diff_limbs v"] Suc.prems by (simp add: raw_def)
  moreover have "- 1 \<le> raw v i div 65536" "raw v i div 65536 \<le> 0"
    using zdiv_mono1 [of "- 65536" "raw v i" 65536] zdiv_mono1 [of "raw v i" 65535 65536] Suc by simp_all
  moreover have "diff_limbs v ! Suc i = digit v (Suc i) - p_limb (Suc i)" using Suc.prems by (simp add: diff_limbs_def)
  moreover have "0 \<le> p_limb (Suc i)" "p_limb (Suc i) \<le> 65535" by (simp_all add: p_limb_def)
  ultimately show ?case using digit_range [of v "Suc i"] unfolding raw_def by linarith
qed

lemma raw_borrow:
  assumes "i < 16"
  shows "shr16 (of_int (raw v i)) AND 1 = of_int (- (raw v i div 65536))"
    and "raw v i div 65536 = low_carry (diff_limbs v) (Suc i)"
proof -
  note r = raw_range [OF assms, of v]
  have "raw v i div 65536 = - 1 \<or> raw v i div 65536 = 0" using r
    by (cases "raw v i < 0") (simp_all add: div_eq_minus1 div_pos_pos_trivial, linarith)
  moreover have "in64 (raw v i)" using r by (simp add: in64_def)
  ultimately show "shr16 (of_int (raw v i)) AND 1 = of_int (- (raw v i div 65536))" by (auto simp: shr16_of_int)
  show "raw v i div 65536 = low_carry (diff_limbs v) (Suc i)"
    using low_carry_Suc [of i "diff_limbs v"] assms by (simp add: raw_def)
qed

lemma pack_loop:
  assumes v: "0 \<le> v" "v < 2 ^ 256" and "1 \<le> k" and "k \<le> 15"
  shows "fold (\<lambda>i m. let m = m[i := words (digits v 16) ! i - 0xffff - (shr16 (m ! (i - 1)) AND 1)]
      in m[i - 1 := m ! (i - 1) AND 0xffff]) [1..<k] ((replicate 16 0)[0 := words (digits v 16) ! 0 - 0xffed]) =
    words (digits (v - p25519) (k - 1) @ raw v (k - 1) # replicate (16 - k) 0)"
  using assms(3,4)
proof (induction k rule: nat_induct_at_least)
  case base
  have "replicate 16 (0::u64) = 0 # replicate 15 0" by (simp add: numeral_eq_Suc)
  then show ?case by (simp add: digits_def raw_def low_carry_def diff_limbs_def p_limb_def)
next
  case (Suc k)
  let ?f = "\<lambda>i m. let m = m[i := words (digits v 16) ! i - 0xffff - (shr16 (m ! (i - 1)) AND 1)]
      in m[i - 1 := m ! (i - 1) AND 0xffff]"
  let ?m = "words (digits (v - p25519) (k - 1) @ raw v (k - 1) # replicate (16 - k) 0)"
  obtain j where j: "k = Suc j" using Suc.hyps by (cases k) auto
  have "15 - j = Suc (14 - j)" using Suc.prems j by simp
  then have z: "replicate (15 - j) (0::u64) = 0 # replicate (14 - j) 0" by simp
  have d: "digit (v - p25519) j = raw v j mod 65536"
    using digit_low [of j "diff_limbs v"] Suc.prems j by (simp add: peval_diff [OF v] raw_def)
  have b: "shr16 (?m ! (k - 1)) AND 1 = of_int (- low_carry (diff_limbs v) k)"
    using raw_borrow [of j v] Suc.prems by (simp add: j nth_append)
  have r: "words (digits v 16) ! k - 0xffff - of_int (- low_carry (diff_limbs v) k) = of_int (raw v k)"
    using Suc.prems Suc.hyps by (simp add: raw_def diff_limbs_def p_limb_def)
  have "?f k ?m = words (digits (v - p25519) k @ raw v k # replicate (16 - Suc k) 0)"
    unfolding Let_def b r using Suc.prems d
    by (simp add: j z list_update_append nth_append digits_Suc and_low16)
  then show ?case using Suc by simp
qed

lemma pack_round_correct:
  assumes v: "0 \<le> v" "v < 2 ^ 256"
  shows "pack_round (words (digits v 16)) = words (digits (if p25519 \<le> v then v - p25519 else v) 16)"
proof -
  let ?w = "v - p25519" and ?t = "words (digits v 16)"
  have r: "?t ! 15 - 0x7fff - of_int (- low_carry (diff_limbs v) 15) = of_int (raw v 15)"
    by (simp add: raw_def diff_limbs_def p_limb_def)
  have m14: "words (digits ?w 14 @ [raw v 14, 0]) ! 14 = of_int (raw v 14)" by (simp add: nth_append)
  have "pack_diff ?t = words (digits ?w 14 @ [raw v 14, raw v 15])"
    using pack_loop [OF v, of 15] raw_borrow [of 14 v] m14 r
    by (simp add: pack_diff_def Let_def list_update_append numeral_2_eq_2 [symmetric] del: of_int_minus)
  moreover have "digit ?w 14 = raw v 14 mod 65536"
    using digit_low [of 14 "diff_limbs v"] by (simp add: peval_diff [OF v] raw_def)
  ultimately have m: "(pack_diff ?t)[14 := pack_diff ?t ! 14 AND 0xffff] = words (digits ?w 15 @ [raw v 15])"
    "pack_diff ?t ! 15 = of_int (raw v 15)"
    using digits_Suc [of ?w 14] by (simp_all add: list_update_append nth_append and_low16)
  have c: "raw v 15 div 65536 = ?w div 2 ^ 256"
    using raw_borrow(2) [of 15 v] low_carry_all [of "diff_limbs v" 16] by (simp add: peval_diff [OF v])
  have p: "0 < p25519" "p25519 < 2 ^ 256" by (simp_all add: p25519_def)
  have w: "?w div 2 ^ 256 = (if p25519 \<le> v then 0 else - 1)"
    using v p by (auto intro: div_pos_pos_trivial simp: div_eq_minus1)
  have b: "1 - (shr16 (pack_diff ?t ! 15) AND 1) = of_bool (p25519 \<le> v)"
  proof -
    have "shr16 (of_int (raw v 15)) AND 1 = of_int (- (if p25519 \<le> v then 0 else - 1))"
      using raw_borrow(1) [of 15 v] unfolding c w by simp
    then show ?thesis unfolding m(2) by simp
  qed
  have "raw v 15 = digit ?w 15" if "p25519 \<le> v"
  proof -
    have "raw v 15 div 65536 = 0" using that c w by simp
    then have "raw v 15 = raw v 15 mod 65536" using div_mult_mod_eq [of "raw v 15" 65536] by simp
    then show ?thesis using digit_low [of 15 "diff_limbs v"] by (simp add: peval_diff [OF v] raw_def)
  qed
  then have "words (digits ?w 15 @ [raw v 15]) = words (digits ?w 16)" if "p25519 \<le> v"
    using that digits_Suc [of ?w 15] by simp
  then show ?thesis unfolding pack_round_def Let_def b m(1) by (subst cswap_correct) auto
qed


lemma mod_two_rounds:
  assumes "0 \<le> v" and "v < 2 ^ 256"
  shows "(let u = (if p25519 \<le> v then v - p25519 else v) in if p25519 \<le> u then u - p25519 else u) = v mod p25519"
proof -
  have p: "0 < p25519" "2 ^ 256 = 2 * p25519 + 38" "38 < p25519" by (simp_all add: p25519_def)
  have sub: "(x - p25519) mod p25519 = x mod p25519" for x by simp
  consider "v < p25519" | "p25519 \<le> v" "v - p25519 < p25519" | "p25519 \<le> v" "p25519 \<le> v - p25519" by linarith
  then show ?thesis
  proof cases
    case 1
    with assms show ?thesis by simp
  next
    case 2
    then have "(v - p25519) mod p25519 = v - p25519" by (intro mod_pos_pos_trivial) auto
    with 2 sub [of v] show ?thesis by simp
  next
    case 3
    then have "v - p25519 - p25519 < p25519" using assms p by linarith
    with 3 have "(v - p25519 - p25519) mod p25519 = v - p25519 - p25519" by (intro mod_pos_pos_trivial) auto
    with 3 sub [of v] sub [of "v - p25519"] show ?thesis by simp
  qed
qed

lemma concat_pairs: "concat (map (\<lambda>i. [g (2 * i), g (2 * i + 1)]) [0..<n]) = map g [0..<2 * n]"
  by (induction n) simp_all

lemma u8_of_int_eq: "(of_int a :: u8) = of_int b \<longleftrightarrow> a mod 256 = b mod 256"
  by (simp add: word_of_int_eq_iff take_bit_eq_mod)

lemma limb_bytes:
  assumes "0 \<le> d" and "d < 65536"
  shows "ucast (of_int d AND 0xff :: u64) = (of_int d :: u8)" and "ucast (signed_drop_bit 8 (of_int d :: u64)) = (of_int (d div 256) :: u8)"
proof -
  have s: "sint (of_int d :: u64) = d" using assms by (intro sint_of_int64) (simp add: in64_def)
  have "(of_int d AND 0xff :: u64) = of_int (d AND 255)" using of_int_and_eq [of d 255, where 'a = u64] by simp
  moreover have "d AND 255 = d mod 256" using take_bit_eq_mask [of 8 d] by (simp add: take_bit_eq_mod mask_eq_exp_minus_1)
  moreover have "ucast (of_int x :: u64) = (of_int x :: u8)" if "0 \<le> x" "x < 65536" for x
    using that by (simp add: unsigned_ucast_eq unsigned_of_int take_bit_int_eq_self ucast_eq)
  moreover have "0 \<le> d mod 256" "d mod 256 < 65536" by (simp_all add: order_less_trans [of _ 256])
  ultimately show "ucast (of_int d AND 0xff :: u64) = (of_int d :: u8)" by (simp add: u8_of_int_eq)
  have "sint (signed_drop_bit 8 (of_int d :: u64)) = d div 256" by (simp add: sint_signed_drop_bit_eq s drop_bit_eq_div)
  then have "(of_int (sint (signed_drop_bit 8 (of_int d :: u64))) :: u64) = of_int (d div 256)" by (rule arg_cong)
  then have "signed_drop_bit 8 (of_int d :: u64) = of_int (d div 256)" by simp
  moreover have "0 \<le> d div 256" "d div 256 < 65536" using assms by (simp_all add: div_less_iff_less_mult pos_imp_zdiv_nonneg_iff)
  ultimately show "ucast (signed_drop_bit 8 (of_int d :: u64)) = (of_int (d div 256) :: u8)"
    using \<open>\<And>x. 0 \<le> x \<Longrightarrow> x < 65536 \<Longrightarrow> ucast (of_int x :: u64) = (of_int x :: u8)\<close> by simp
qed

lemma digit_bytes:
  "digit r i mod 256 = r div 256 ^ (2 * i) mod 256" "digit r i div 256 = r div 256 ^ (2 * i + 1) mod 256"
proof -
  have q: "(256 :: int) ^ (2 * i) = 65536 ^ i" by (simp add: power_mult)
  show "digit r i mod 256 = r div 256 ^ (2 * i) mod 256" unfolding q digit_def by (simp add: mod_mod_cancel)
  have "y mod 65536 div 256 = y div 256 mod 256" for y :: int using zmod_zmult2_eq [of 256 y 256] by simp
  moreover have "r div 256 ^ (2 * i + 1) = r div 65536 ^ i div 256"
    unfolding power_add q using zdiv_zmult2_eq [of 256 r "65536 ^ i"] by simp
  ultimately show "digit r i div 256 = r div 256 ^ (2 * i + 1) mod 256" unfolding digit_def by simp
qed
lemma pack_correct:
  assumes "rep w x"
  shows "pack w = le_bytes (x mod p25519)"
proof -
  obtain xs where xs: "tight xs" "w = words xs" "peval xs mod p25519 = x mod p25519" using assms by (auto simp: rep_def)
  from words_carry_tight [OF xs(1)] obtain v where v: "carry (carry (carry w)) = words (digits v 16)"
    "0 \<le> v" "v < 2 ^ 256" "v mod p25519 = x mod p25519" using xs by auto
  define u where "u = (if p25519 \<le> v then v - p25519 else v)"
  have u: "0 \<le> u" "u < 2 ^ 256" using v(2,3) by (auto simp: u_def p25519_def)
  let ?r = "x mod p25519"
  have "(if p25519 \<le> u then u - p25519 else u) = ?r"
    using mod_two_rounds [OF v(2,3)] unfolding Let_def u_def [symmetric] v(4) .
  then have t: "pack_round (pack_round (carry (carry (carry w)))) = words (digits ?r 16)"
    unfolding v(1) pack_round_correct [OF v(2,3)] u_def [symmetric] pack_round_correct [OF u] by simp
  have b: "[ucast (of_int (digit ?r i) AND 0xff :: u64), ucast (signed_drop_bit 8 (of_int (digit ?r i) :: u64))] =
      [of_int (?r div 256 ^ (2 * i)), of_int (?r div 256 ^ (2 * i + 1)) :: u8]" for i
    unfolding limb_bytes [OF digit_range] by (simp add: u8_of_int_eq digit_bytes del: power_mult power_Suc)
  have e: "map (\<lambda>i. [ucast (words (digits ?r 16) ! i AND 0xff), ucast (signed_drop_bit 8 (words (digits ?r 16) ! i))]) [0..<16] =
      map (\<lambda>i. [of_int (?r div 256 ^ (2 * i)), of_int (?r div 256 ^ (2 * i + 1)) :: u8]) [0..<16]"
    by (rule map_cong [OF refl]) (simp only: set_upt atLeastLessThan_iff nth_map length_digits nth_digits b)
  have "2 * 16 = (32::nat)" by simp
  with concat_pairs [of "\<lambda>i. of_int (?r div 256 ^ i) :: u8" 16] show ?thesis
    unfolding pack_def Let_def t le_bytes_def e by (simp only:)
qed

lemma normalize_key_scalar: "length z = 32 \<Longrightarrow> le_int (normalize_key z) = decode_scalar z"
  by (simp add: normalize_key_def decode_scalar_def Let_def list_update_swap [of 31 0])

lemma public_key_correct:
  assumes "length key = 32"
  shows "wg_generate_public_key key = le_bytes (rfc_x25519 (decode_scalar key) 9)"
proof -
  define js where "js = rev [0..<255 :: nat]"
  have js: "i < 256" if "i \<in> set js" for i using that unfolding js_def set_rev set_upt by simp
  define k where "k = decode_scalar key"
  define z where "z = normalize_key key"
  have z: "length z = 32" "le_int z = k"
    using assms normalize_key_scalar by (simp_all add: z_def k_def normalize_key_def Let_def)
  let ?s = "(fe_of [1], fe_of [9], fe_of [0], fe_of [1])"
  have bits: "fold (\<lambda>i. ladder_body (key_bit z i)) (js) s = fold (\<lambda>i. ladder_body (of_bool (bit k i))) (js) s" for s
    by (rule fold_cong) (use key_bit_eq [OF z(1)] z(2) js in auto)
  have "reps ?s (cs4 False (1, 0, 9, 1))" using rep_constants by (simp add: reps_def cs4_def)
  from ladder_reps [OF this, of k "js"] obtain S' sw' where
    f: "fold (rfc_step k 9) (js) ((1, 0, 9, 1), False) = (S', sw')"
    and r: "reps (fold (\<lambda>i. ladder_body (of_bool (bit k i))) (js) ?s) (cs4 sw' S')" by blast
  obtain a b c d where s: "fold (\<lambda>i. ladder_body (of_bool (bit k i))) (js) ?s = (a, b, c, d)"
    by (cases "fold (\<lambda>i. ladder_body (of_bool (bit k i))) (js) ?s")
  obtain x_2 z_2 x_3 z_3 where S: "cs4 sw' S' = (x_2, z_2, x_3, z_3)" by (cases "cs4 sw' S'")
  have "rep a x_2" "rep c z_2" using r by (simp_all add: s S reps_def)
  then have "rep (multmod a (invert c)) (x_2 * z_2 ^ nat (p25519 - 2))"
    by (intro rep_mult rep_lrep invert_rep)
  then have "pack (multmod a (invert c)) = le_bytes (x_2 * z_2 ^ nat (p25519 - 2) mod p25519)" by (rule pack_correct)
  moreover have "rfc_x25519 k 9 = x_2 * z_2 ^ nat (p25519 - 2) mod p25519"
    using S f by (cases S') (auto simp: rfc_x25519_def js_def [symmetric] rfc_cswap_def cs4_def Let_def split: if_splits)
  ultimately show ?thesis
    unfolding k_def [symmetric] by (simp add: wg_generate_public_key_def js_def [symmetric] Let_def z_def [symmetric] bits s)
qed

section \<open>Properties\<close>

lemma words_sint: "words (map sint w) = w"
  by (simp add: comp_def)

lemma sint_words: "(\<And>x. x \<in> set xs \<Longrightarrow> \<bar>x\<bar> \<le> 2 ^ 60) \<Longrightarrow> map sint (words xs) = xs"
proof (induction xs)
  case (Cons x xs)
  have "\<bar>x\<bar> \<le> 2 ^ 60" using Cons.prems [of x] by simp
  then have "sint (of_int x :: u64) = x" by (intro sint_of_int64) (auto simp: in64_def abs_le_iff)
  with Cons show ?case by simp
qed simp

text \<open>
  C38: on limbs below \<open>2 ^ 18\<close> in absolute value, as sums and differences of two results have them,
  \<open>multmod\<close> multiplies the values of the limbs modulo the prime, and the limbs of the result are below
  \<open>2 ^ 17\<close>: machine arithmetic does not overflow anywhere on the way.
\<close>

theorem multmod_mod_p:
  assumes "length a = 16" and "length b = 16" and "\<And>x. x \<in> set a \<Longrightarrow> \<bar>sint x\<bar> \<le> 2 ^ 18" and "\<And>x. x \<in> set b \<Longrightarrow> \<bar>sint x\<bar> \<le> 2 ^ 18"
  shows "length (multmod a b) = 16 \<and> (\<forall>x\<in>set (multmod a b). \<bar>sint x\<bar> \<le> 2 ^ 17) \<and>
    peval (map sint (multmod a b)) mod p25519 = peval (map sint a) * peval (map sint b) mod p25519"
proof -
  have l: "loose (map sint a)" "loose (map sint b)" using assms by (auto simp: loose_def)
  note m = multmod_correct [OF l, unfolded words_sint]
  let ?r = "mul_int (map sint a) (map sint b)"
  have t: "length ?r = 16" "\<forall>x\<in>set ?r. \<bar>x\<bar> \<le> 2 ^ 17" using tight_loose [OF m(2)] by simp_all
  then have s: "map sint (words ?r) = ?r" by (intro sint_words) force
  have "\<forall>x\<in>set (map sint (words ?r)). \<bar>x\<bar> \<le> 2 ^ 17" unfolding s by (rule t(2))
  then show ?thesis unfolding m(1) using s m(3) t(1) by simp
qed

theorem multmod_mod_p_witness:
  "peval (map sint (multmod (fe_of [0xdb41, 1]) (fe_of [9]))) mod p25519 = 121665 * 9"
proof -
  have "peval (map sint (multmod (fe_of [0xdb41, 1]) (fe_of [9]))) mod p25519 =
      peval (map sint (fe_of [0xdb41, 1])) * peval (map sint (fe_of [9])) mod p25519"
    by (rule multmod_mod_p [THEN conjunct2, THEN conjunct2]) (auto simp: fe_of_def)
  then show ?thesis by (simp add: fe_of_def p25519_def numeral_eq_Suc)
qed

text \<open>
  C37: the public key that \<open>wg_generate_public_key\<close> computes for a private key of 32 bytes is the
  function \<open>X25519\<close> of RFC 7748 at the clamped key and the base point 9, encoded in 32 bytes,
  least significant first. The code works on 16 limbs of 16 bits with delayed carries, swaps
  around every step and inverts by a power; the reference is the RFC's ladder on integers.
\<close>

theorem public_key_is_x25519:
  assumes "length private_key = 32"
  shows "wg_generate_public_key private_key = le_bytes (rfc_x25519 (decode_scalar private_key) 9)"
  using assms by (rule public_key_correct)

theorem public_key_is_x25519_witness:
  "wg_generate_public_key (replicate 32 7) = le_bytes (rfc_x25519 (decode_scalar (replicate 32 7)) 9)"
  by (rule public_key_is_x25519) simp

end
