(* ===== verification/Wg_Keys.thy ===== *)
theory Wg_Keys
  imports Base64
begin

text \<open>
  Keys as text in \<^verbatim>\<open>src/wireguard/wireguard.c\<close>: 32 bytes as 44 characters of base64, computed without
  tables and without branches on the key. \<open>int\<close> variables are integers, a right shift of them is
  arithmetic and a left shift multiplies; \<open>char\<close> is signed. A string is the list of its characters
  before the terminating NUL.
\<close>

section \<open>The code\<close>

definition sextet_char :: "u8 \<Rightarrow> u8" where
  "sextet_char x =
     (let input = uint x
      in of_int (input + 65 + (drop_bit 8 (25 - input) AND 6) - (drop_bit 8 (51 - input) AND 75)
                 - (drop_bit 8 (61 - input) AND 15) + (drop_bit 8 (62 - input) AND 3)))"

definition encode_base64 :: "u8 list \<Rightarrow> u8 list" where
  "encode_base64 src = map sextet_char
     [drop_bit 2 (src ! 0) AND 63, (push_bit 4 (src ! 0) OR drop_bit 4 (src ! 1)) AND 63,
      (push_bit 2 (src ! 1) OR drop_bit 6 (src ! 2)) AND 63, src ! 2 AND 63]"

definition wg_key_to_base64 :: "u8 list \<Rightarrow> u8 list" where
  "wg_key_to_base64 key =
     (let base64 = concat (map (\<lambda>i. encode_base64 [key ! (i * 3), key ! (i * 3 + 1), key ! (i * 3 + 2)]) [0..<10]) @
            encode_base64 [key ! 30, key ! 31, 0]
      in base64[43 := 61])"

definition sextet_of :: "u8 \<Rightarrow> int" where
  "sextet_of ch =
     (let c = sint ch
      in - 1 + (drop_bit 8 ((64 - c) AND (c - 91)) AND (c - 64)) + (drop_bit 8 ((96 - c) AND (c - 123)) AND (c - 70))
         + (drop_bit 8 ((47 - c) AND (c - 58)) AND (c + 5)) + (drop_bit 8 ((42 - c) AND (c - 44)) AND 63)
         + (drop_bit 8 ((46 - c) AND (c - 48)) AND 64))"

definition decode_base64 :: "u8 list \<Rightarrow> int" where
  "decode_base64 src = fold (\<lambda>i val. val OR push_bit (18 - 6 * i) (sextet_of (src ! i))) [0..<4] 0"

definition val_bytes :: "int \<Rightarrow> u8 list" where
  "val_bytes val = [of_int (drop_bit 16 val AND 0xff), of_int (drop_bit 8 val AND 0xff), of_int (val AND 0xff)]"

definition sign_bit :: "int \<Rightarrow> u8" where
  "sign_bit val = ucast (drop_bit 31 (of_int val :: u32))"

text \<open>The result is the key as it is after the call and the value returned; 22 is \<open>EINVAL\<close>.\<close>

definition wg_key_from_base64 :: "u8 list \<Rightarrow> u8 list \<Rightarrow> u8 list \<times> int" where
  "wg_key_from_base64 key base64 =
     (if length base64 \<noteq> 44 \<or> base64 ! 43 \<noteq> 61 then (key, - 22)
      else
        let vals = map (\<lambda>i. decode_base64 [base64 ! (i * 4), base64 ! (i * 4 + 1), base64 ! (i * 4 + 2), base64 ! (i * 4 + 3)]) [0..<10];
            last_val = decode_base64 [base64 ! 40, base64 ! 41, base64 ! 42, 65];
            ret = fold (\<lambda>val ret. ret OR sign_bit val) vals 0;
            ret = ret OR (sign_bit last_val OR of_int (last_val AND 0xff))
        in (concat (map val_bytes vals) @ take 2 (val_bytes last_val), - (22 AND NOT (drop_bit 8 (uint ret - 1)))))"

section \<open>Single characters\<close>

lemma sign_mask: "- 256 \<le> k \<Longrightarrow> k < 256 \<Longrightarrow> drop_bit 8 (k :: int) = (if k < 0 then - 1 else 0)"
  by (auto simp: drop_bit_eq_div div_eq_minus1 intro!: div_pos_pos_trivial int_div_pos_eq[where r = "256 + k"])

lemma enc_formula:
  fixes i :: int
  assumes "0 \<le> i" "i < 64"
  shows "i + 65 + (drop_bit 8 (25 - i) AND 6) - (drop_bit 8 (51 - i) AND 75) - (drop_bit 8 (61 - i) AND 15)
     + (drop_bit 8 (62 - i) AND 3) =
     (if i \<le> 25 then i + 65 else if i \<le> 51 then i + 71 else if i \<le> 61 then i - 4 else if i = 62 then 43 else 47)"
  using assms sign_mask [of "25 - i"] sign_mask [of "51 - i"] sign_mask [of "61 - i"] sign_mask [of "62 - i"] by simp

lemma enc_char_ranges:
  assumes "x < 64"
  shows "sextet_char x = of_int (let i = uint x in if i \<le> 25 then i + 65 else if i \<le> 51 then i + 71
     else if i \<le> 61 then i - 4 else if i = 62 then 43 else 47)"
  unfolding sextet_char_def Let_def
  by (subst enc_formula) (use assms in \<open>simp_all add: word_less_def\<close>)

lemma in_range_mask:
  fixes c :: int
  assumes "- 128 \<le> c" "c < 128" "0 \<le> lo" "lo \<le> 127" "0 \<le> hi" "hi \<le> 127"
  shows "drop_bit 8 ((lo - c) AND (c - hi)) AND v = (if lo < c \<and> c < hi then v else 0)"
  using assms sign_mask [of "lo - c"] sign_mask [of "c - hi"] by simp

lemma dec_char_ranges: "sextet_of ch = (let c = sint ch in if 65 \<le> c \<and> c \<le> 90 then c - 65 else if 97 \<le> c \<and> c \<le> 122 then c - 71
     else if 48 \<le> c \<and> c \<le> 57 then c + 4 else if c = 43 then 62 else if c = 47 then 63 else - 1)"
proof -
  have "- 128 \<le> sint ch" "sint ch < 128"
    using sint_greater_eq [of ch] sint_less [of ch] by simp_all
  note m = in_range_mask [OF this]
  show ?thesis unfolding sextet_of_def Let_def by (simp only: m) auto
qed
lemma enc_char_table: 
  assumes a: "x < 64"
  shows "sextet_char x = b64_enc x"
proof -
  have "list_all (\<lambda>n. sextet_char (of_nat n) = base64_table ! n) [0..<64]"
    by (simp add: upt_rec base64_table_def enc_char_ranges)
  moreover have "unat x \<in> {0..<64}" using assms by (simp add: word_less_nat_alt)
  ultimately have "sextet_char (of_nat (unat x)) = base64_table ! unat x" unfolding list_all_iff set_upt by blast
  then show ?thesis by (simp add: b64_enc_def)
qed

lemma dec_enc_char:
  assumes "x < 64"
  shows "sextet_of (sextet_char x) = uint x"
proof -
  have "0 \<le> uint x" "uint x < 64" using assms by (simp_all add: word_less_def)
  note u = this
  have s: "- 128 \<le> k \<Longrightarrow> k < 128 \<Longrightarrow> sint (of_int k :: u8) = k" for k
    by (simp add: sint_sbintrunc' signed_take_bit_int_eq_self)
  have "sint (sextet_char x) = (let i = uint x in if i \<le> 25 then i + 65 else if i \<le> 51 then i + 71
     else if i \<le> 61 then i - 4 else if i = 62 then 43 else 47)"
    unfolding enc_char_ranges [OF assms] by (rule s) (use u in \<open>auto simp: Let_def\<close>)
  then show ?thesis unfolding dec_char_ranges using u by (auto simp: Let_def)
qed

lemma dec_char_cases:
  obtains (bad) "sextet_of ch = - 1" | (good) x where "x < 64" "ch = sextet_char x" "sextet_of ch = uint x"
proof (cases "sextet_of ch = - 1")
  case False
  define x :: u8 where "x = of_int (sextet_of ch)"
  have r: "0 \<le> sextet_of ch \<and> sextet_of ch < 64" using False unfolding dec_char_ranges Let_def by (auto split: if_splits)
  then have u: "uint x = sextet_of ch" by (simp add: x_def uint_word_of_int_eq take_bit_int_eq_self)
  then have x: "x < 64" using r by (simp add: word_less_def)
  have w: "sint ch = k \<Longrightarrow> ch = of_int k" for k by (auto simp: of_int_sint)
  have "ch = sextet_char x"
    using False unfolding enc_char_ranges [OF x] u Let_def unfolding dec_char_ranges Let_def by (auto split: if_splits dest: w)
  with x u show ?thesis using good by simp
qed (rule bad)


section \<open>Groups of four characters\<close>

lemma six_bits:
  assumes "(x :: u8) < 64"
  shows "6 \<le> n \<Longrightarrow> \<not> bit x n"
proof -
  have "unat x < 2 ^ 6" using assms by (simp add: word_less_nat_alt)
  then have "unat (take_bit 6 x) = unat x" unfolding unsigned_take_bit_eq by (simp add: take_bit_nat_eq_self)
  then have "take_bit 6 x = x" unfolding word_unat_eq_iff .
  then show "6 \<le> n \<Longrightarrow> \<not> bit x n" by (metis bit_take_bit_iff linorder_not_less)
qed

lemma encode_base64_groups:
  "encode_base64 [i0, i1, i2] = map sextet_char [drop_bit 2 i0, push_bit 4 (i0 AND 0x03) OR drop_bit 4 i1,
     push_bit 2 (i1 AND 0x0f) OR drop_bit 6 i2, i2 AND 0x3f]"
proof -
  have "drop_bit 2 i0 AND 63 = drop_bit 2 i0" 
    "(push_bit 4 i0 OR drop_bit 4 i1) AND 63 = push_bit 4 (i0 AND 0x03) OR drop_bit 4 i1"
    "(push_bit 2 i1 OR drop_bit 6 i2) AND 63 = push_bit 2 (i1 AND 0x0f) OR drop_bit 6 i2"
    unfolding masks8 by (rule word8_bits_eqI; simp add: bit_simps; auto dest: bit_imp_le_length)+
  then show ?thesis by (simp add: encode_base64_def)
qed

lemma encode_block:
  assumes "p < 64" "q < 64" "r < 64" "s < 64"
  shows "encode_base64 (decode_block [p, q, r, s]) = map sextet_char [p, q, r, s]"
proof -
  note b = six_bits [OF assms(1)] six_bits [OF assms(2)] six_bits [OF assms(3)] six_bits [OF assms(4)]
  have "drop_bit 2 (push_bit 2 p OR drop_bit 4 q) = p"
    "push_bit 4 ((push_bit 2 p OR drop_bit 4 q) AND 0x03) OR drop_bit 4 (push_bit 4 q OR drop_bit 2 r) = q"
    "push_bit 2 ((push_bit 4 q OR drop_bit 2 r) AND 0x0f) OR drop_bit 6 (push_bit 6 r OR s) = r"
    "(push_bit 6 r OR s) AND 0x3f = s"
    unfolding masks8 by (rule word8_bits_eqI; simp add: bit_simps b)+
  then show ?thesis by (simp add: decode_block_eq encode_base64_groups)
qed

lemma decode_base64_bits: "bit (decode_base64 [a, b, c, d]) n \<longleftrightarrow>
    18 \<le> n \<and> bit (sextet_of a) (n - 18) \<or> 12 \<le> n \<and> bit (sextet_of b) (n - 12) \<or>
    6 \<le> n \<and> bit (sextet_of c) (n - 6) \<or> bit (sextet_of d) n"
  by (auto simp: decode_base64_def upt_rec bit_simps)

lemma val_bytes_block:
  assumes "p < 64" "q < 64" "r < 64" "s < 64"
  shows "val_bytes (decode_base64 (map sextet_char [p, q, r, s])) = decode_block [p, q, r, s]"
proof -
  note b = six_bits [OF assms(1)] six_bits [OF assms(2)] six_bits [OF assms(3)] six_bits [OF assms(4)]
  have m: "k AND 0xff = take_bit 8 k" for k :: int by (simp add: take_bit_eq_mask mask_eq_exp_minus_1)
  show ?thesis unfolding val_bytes_def decode_block_eq m list.map
    by (intro list.inject [THEN iffD2] conjI word8_bits_eqI refl)
      (simp_all add: bit_simps bit_word_of_int_iff decode_base64_bits dec_enc_char assms bit_uint_iff b)
qed

lemma sign_bit_eq: "sign_bit val = (if bit val 31 then 1 else 0)"
  unfolding sign_bit_def
  by (rule word8_bits_eqI) (auto simp: bit_simps bit_word_of_int_iff bit_1_iff)

lemma decode_base64_sign: 
  "sign_bit (decode_base64 [a, b, c, d]) = (if - 1 \<in> sextet_of ` {a, b, c, d} then 1 else 0)"
proof -
  have u: "uint x \<noteq> - 1" for x :: u8 using uint_ge_0 [of x] by linarith
  have "bit (sextet_of ch) n \<longleftrightarrow> sextet_of ch = - 1" if "6 \<le> n" for ch n
    by (cases ch rule: dec_char_cases) (use that in \<open>auto simp: bit_uint_iff six_bits u\<close>)
  then show ?thesis by (auto simp: sign_bit_eq decode_base64_bits)
qed

lemma decode_base64_cases:
  assumes "sign_bit (decode_base64 [a, b, c, d]) = 0"
  obtains p q r s where "p < 64" "q < 64" "r < 64" "s < 64" "[a, b, c, d] = map sextet_char [p, q, r, s]"
proof -
  have "\<exists>x < 64. ch = sextet_char x" if "ch \<in> {a, b, c, d}" for ch
    by (cases ch rule: dec_char_cases) (use that assms in \<open>auto simp: decode_base64_sign split: if_splits\<close>)
  then have "\<exists>x < 64. a = sextet_char x" "\<exists>x < 64. b = sextet_char x" "\<exists>x < 64. c = sextet_char x" "\<exists>x < 64. d = sextet_char x" by simp_all
  then show ?thesis using that by fastforce
qed


section \<open>Whole keys\<close>

lemma length_blocks:
  assumes "\<And>i. i < n \<Longrightarrow> length (f i) = k"
  shows "length (concat (map f [0..<n])) = n * k"
  using assms by (induction n) simp_all

lemma nth_blocks:
  assumes "\<And>i. i < n \<Longrightarrow> length (f i) = k" "i < n" "j < k"
  shows "(concat (map f [0..<n]) @ rest) ! (i * k + j) = f i ! j"
  using assms
proof (induction n arbitrary: rest)
  case (Suc n)
  have l: "length (concat (map f [0..<n])) = n * k" using Suc.prems(1) by (intro length_blocks) simp
  show ?case
  proof (cases "i < n")
    case True
    then show ?thesis using Suc.IH [of "f n @ rest"] Suc.prems by simp
  next
    case False
    then have "i = n" using Suc.prems by simp
    then show ?thesis using Suc.prems by (simp add: nth_append l)
  qed
qed simp

lemma drop_three: "n + 3 \<le> length xs \<Longrightarrow> drop n xs = xs ! n # xs ! (n + 1) # xs ! (n + 2) # drop (n + 3) xs"
  by (simp add: Cons_nth_drop_Suc numeral_eq_Suc)

lemma encode_loop_quad:
  "encode_loop (i0 # i1 # i2 # src) l = encode_base64 [i0, i1, i2] @
     (if l + 4 \<ge> 72 then 10 # encode_loop src 0 else encode_loop src (l + 4))"
  unfolding encode_loop.simps encode_base64_groups list.map
  by (simp only: enc_char_table groups_less)

lemma encode_loop_pair: "encode_loop [i0, i1] l = take 3 (encode_base64 [i0, i1, 0]) @ [61]"
proof -
  have "encode_base64 [i0, i1, 0] = [b64_enc (drop_bit 2 i0), b64_enc (push_bit 4 (i0 AND 0x03) OR drop_bit 4 i1),
      b64_enc (push_bit 2 (i1 AND 0x0f)), b64_enc 0]"
    unfolding encode_base64_groups list.map drop_bit_of_0 or.right_neutral and_zero_eq
    by (simp only: enc_char_table groups_less) (simp add: enc_char_table)
  then show ?thesis by (simp only: encode_loop.simps) simp
qed

lemma encode_loop_blocks:
  assumes "n * 3 \<le> length src" "0 \<le> l" "l + 4 * int n < 72"
  shows "encode_loop src l = concat (map (\<lambda>i. encode_base64 [src ! (i * 3), src ! (i * 3 + 1), src ! (i * 3 + 2)]) [0..<n])
     @ encode_loop (drop (n * 3) src) (l + 4 * int n)"
  using assms
proof (induction n)
  case (Suc n)
  have "encode_loop (drop (n * 3) src) (l + 4 * int n) =
      encode_base64 [src ! (n * 3), src ! (n * 3 + 1), src ! (n * 3 + 2)] @ encode_loop (drop (n * 3 + 3) src) (l + 4 * int n + 4)"
    using Suc.prems by (subst drop_three) (simp_all add: encode_loop_quad del: encode_loop.simps)
  then show ?case using Suc by (simp add: algebra_simps)
qed simp

lemma key_drop30: "length key = 32 \<Longrightarrow> drop 30 key = [key ! 30, key ! 31]"
  using Cons_nth_drop_Suc [of 30 key] Cons_nth_drop_Suc [of 31 key] by simp

lemma to_base64_eq:
  "wg_key_to_base64 key = concat (map (\<lambda>i. encode_base64 [key ! (i * 3), key ! (i * 3 + 1), key ! (i * 3 + 2)]) [0..<10])
     @ take 3 (encode_base64 [key ! 30, key ! 31, 0]) @ [61]"
proof -
  have l: "length (concat (map (\<lambda>i. encode_base64 [key ! (i * 3), key ! (i * 3 + 1), key ! (i * 3 + 2)]) [0..<10])) = 10 * 4"
    by (rule length_blocks) (simp add: encode_base64_def)
  have "(xs @ ys)[43 := v] = xs @ ys[3 := v]" if "length xs = 40" for xs ys :: "u8 list" and v
    using that by (simp add: list_update_append)
  then show ?thesis unfolding wg_key_to_base64_def Let_def using l by (simp add: encode_base64_def numeral_eq_Suc)
qed

lemma to_base64_loop:
  assumes "length key = 32"
  shows "wg_key_to_base64 key = encode_loop key 0"
  using encode_loop_blocks [of 10 key 0] assms
  by (simp add: to_base64_eq key_drop30 encode_loop_pair del: encode_loop.simps)

lemma length_to_base64: "length (wg_key_to_base64 key) = 44"
  unfolding to_base64_eq length_append by (subst length_blocks [where k = 4]) (simp_all add: encode_base64_def)


text \<open>A group of four characters is accepted exactly when it encodes three bytes.\<close>

lemma decode_encode_base64:
  "val_bytes (decode_base64 (encode_base64 [i0, i1, i2])) = [i0, i1, i2]"
  "sign_bit (decode_base64 (encode_base64 [i0, i1, i2])) = 0"
proof -
  show "val_bytes (decode_base64 (encode_base64 [i0, i1, i2])) = [i0, i1, i2]"
    unfolding encode_base64_groups val_bytes_block [OF groups_less(1) groups_less(2) groups_less(4) groups_less(6)]
    by (simp only: decode_block_eq groups_join)
  have u: "x < 64 \<Longrightarrow> sextet_of (sextet_char x) \<noteq> - 1" for x
    using uint_ge_0 [of x] unfolding dec_enc_char by linarith
  show "sign_bit (decode_base64 (encode_base64 [i0, i1, i2])) = 0"
    unfolding encode_base64_groups list.map decode_base64_sign
    using u [OF groups_less(1)] u [OF groups_less(2)] u [OF groups_less(4)] u [OF groups_less(6)]
    by (simp only: image_insert image_empty insert_iff empty_iff) metis
qed

lemma encode_decode_base64:
  assumes "sign_bit (decode_base64 [a, b, c, d]) = 0"
  shows "encode_base64 (val_bytes (decode_base64 [a, b, c, d])) = [a, b, c, d]"
  using assms by (rule decode_base64_cases) (simp only: val_bytes_block encode_block)

lemma fold_or_0: "fold (\<lambda>val ret. ret OR f val) vals r = (0 :: u8) \<longleftrightarrow> r = 0 \<and> (\<forall>v \<in> set vals. f v = 0)"
  by (induction vals arbitrary: r) (auto simp: or_eq_0_iff)

lemma error_code: "- (22 AND NOT (drop_bit 8 (uint (ret :: u8) - 1))) = (if ret = 0 then 0 else - 22)"
proof -
  have "drop_bit 8 (uint ret - 1) = 0" if "ret \<noteq> 0"
    using that unsigned_less [of ret, where 'a = int] uint_ge_0 [of ret]
    by (subst sign_mask) (simp_all add: word_greater_zero_iff [symmetric] word_less_def)
  then show ?thesis by simp
qed

abbreviation group :: "u8 list \<Rightarrow> nat \<Rightarrow> u8 list" where
  "group text i \<equiv> [text ! (i * 4), text ! (i * 4 + 1), text ! (i * 4 + 2), text ! (i * 4 + 3)]"

abbreviation last_group :: "u8 list \<Rightarrow> u8 list" where
  "last_group text \<equiv> [text ! 40, text ! 41, text ! 42, 65]"

lemma from_base64_eq:
  "wg_key_from_base64 key text = 
    (if length text \<noteq> 44 \<or> text ! 43 \<noteq> 61 then (key, - 22)
     else (concat (map (\<lambda>i. val_bytes (decode_base64 (group text i))) [0..<10]) @ take 2 (val_bytes (decode_base64 (last_group text))),
       if (\<forall>i < 10. sign_bit (decode_base64 (group text i)) = 0) \<and> sign_bit (decode_base64 (last_group text)) = 0 \<and>
         val_bytes (decode_base64 (last_group text)) ! 2 = 0 then 0 else - 22))"
proof -
  have "(\<forall>v \<in> set (map f [0..<10]). g v = (0 :: u8)) \<longleftrightarrow> (\<forall>i < 10. g (f i) = 0)" for f :: "nat \<Rightarrow> int" and g
    by auto
  then show ?thesis
    unfolding wg_key_from_base64_def Let_def error_code or_eq_0_iff fold_or_0
    by (auto simp: val_bytes_def comp_def)
qed

lemma concat_threes:
  "n * 3 \<le> length xs \<Longrightarrow> concat (map (\<lambda>i. [xs ! (i * 3), xs ! (i * 3 + 1), xs ! (i * 3 + 2)]) [0..<n]) = take (n * 3) xs"
  by (induction n) (simp_all add: take_Suc_conv_app_nth numeral_eq_Suc)

lemma concat_fours:
  "n * 4 \<le> length xs \<Longrightarrow> concat (map (group xs) [0..<n]) = take (n * 4) xs"
  by (induction n) (simp_all add: take_Suc_conv_app_nth numeral_eq_Suc)

lemma group_to_base64:
  assumes "i < 10"
  shows "group (wg_key_to_base64 key) i = encode_base64 [key ! (i * 3), key ! (i * 3 + 1), key ! (i * 3 + 2)]"
proof -
  let ?f = "\<lambda>i. encode_base64 [key ! (i * 3), key ! (i * 3 + 1), key ! (i * 3 + 2)]"
  have l: "length (?f j) = 4" for j by (simp add: encode_base64_def)
  have "wg_key_to_base64 key ! (i * 4 + j) = ?f i ! j" if "j < 4" for j
    unfolding to_base64_eq by (rule nth_blocks) (use that assms l in auto)
  from this [of 0] this [of 1] this [of 2] this [of 3] show ?thesis by (simp add: encode_base64_def)
qed

lemma last_group_to_base64:
  "last_group (wg_key_to_base64 key) = encode_base64 [key ! 30, key ! 31, 0]" "wg_key_to_base64 key ! 43 = 61"
proof -
  define c where "c = concat (map (\<lambda>i. encode_base64 [key ! (i * 3), key ! (i * 3 + 1), key ! (i * 3 + 2)]) [0..<10])"
  have l: "length c = 10 * 4" unfolding c_def by (rule length_blocks) (simp add: encode_base64_def)
  have e: "sextet_char 0 = 65" by (simp add: enc_char_ranges)
  show "last_group (wg_key_to_base64 key) = encode_base64 [key ! 30, key ! 31, 0]"
    unfolding to_base64_eq c_def [symmetric] by (simp add: nth_append l encode_base64_def e)
  show "wg_key_to_base64 key ! 43 = 61"
    unfolding to_base64_eq c_def [symmetric] by (simp add: nth_append l encode_base64_def)
qed


lemma from_to_base64:
  assumes "length key = 32"
  shows "wg_key_from_base64 old (wg_key_to_base64 key) = (key, 0)"
proof -
  have k: "concat (map (\<lambda>i. [key ! (i * 3), key ! (i * 3 + 1), key ! (i * 3 + 2)]) [0..<10]) @ [key ! 30, key ! 31] = key"
    using concat_threes [of 10 key] assms key_drop30 [OF assms] append_take_drop_id [of 30 key] by simp
  have vs: "map (\<lambda>i. val_bytes (decode_base64 (group (wg_key_to_base64 key) i))) [0..<10] =
      map (\<lambda>i. [key ! (i * 3), key ! (i * 3 + 1), key ! (i * 3 + 2)]) [0..<10]"
    by (intro map_cong refl) (simp only: group_to_base64 atLeastLessThan_iff set_upt decode_encode_base64)
  have "\<forall>i < 10. sign_bit (decode_base64 (group (wg_key_to_base64 key) i)) = 0"
    by (intro allI impI) (simp only: group_to_base64 decode_encode_base64)
  then show ?thesis
    unfolding from_base64_eq last_group_to_base64 decode_encode_base64 length_to_base64 vs
    using k by simp
qed

lemma to_from_base64:
  assumes "length key = 32" and "wg_key_from_base64 old text = (key, 0)"
  shows "text = wg_key_to_base64 key"
proof -
  let ?v = "\<lambda>i. val_bytes (decode_base64 (group text i))"
  let ?w = "val_bytes (decode_base64 (last_group text))"
  have len: "length text = 44" "text ! 43 = 61" and key: "key = concat (map ?v [0..<10]) @ take 2 ?w"
    and ok: "\<And>i. i < 10 \<Longrightarrow> sign_bit (decode_base64 (group text i)) = 0" "sign_bit (decode_base64 (last_group text)) = 0" "?w ! 2 = 0"
    using assms(2) unfolding from_base64_eq by (simp_all split: if_splits)
  have v3: "length (?v i) = 3" "length ?w = 3" for i by (simp_all add: val_bytes_def)
  have "[key ! (i * 3), key ! (i * 3 + 1), key ! (i * 3 + 2)] = ?v i" if "i < 10" for i
  proof -
    have "key ! (i * 3 + j) = ?v i ! j" if "j < 3" for j
      unfolding key by (rule nth_blocks) (use that \<open>i < 10\<close> v3 in auto)
    from this [of 0] this [of 1] this [of 2] show ?thesis by (simp add: val_bytes_def)
  qed
  then have "concat (map (\<lambda>i. encode_base64 [key ! (i * 3), key ! (i * 3 + 1), key ! (i * 3 + 2)]) [0..<10]) =
      concat (map (group text) [0..<10])"
    by (intro arg_cong [where f = concat] map_cong refl) (simp only: encode_decode_base64 ok atLeastLessThan_iff set_upt)
  also have "\<dots> = take 40 text" using concat_fours [of 10 "text"] len by simp
  finally have front: "concat (map (\<lambda>i. encode_base64 [key ! (i * 3), key ! (i * 3 + 1), key ! (i * 3 + 2)]) [0..<10]) = take 40 text" .
  have "length (concat (map ?v [0..<10])) = 10 * 3" by (rule length_blocks) (rule v3)
  then have "[key ! 30, key ! 31, 0] = ?w"
    unfolding key using ok(3) by (simp add: nth_append val_bytes_def)
  then have tail_eq: "encode_base64 [key ! 30, key ! 31, 0] = last_group text" by (simp only: encode_decode_base64 ok)
  have "text = take 40 text @ [text ! 40, text ! 41, text ! 42, text ! 43]"
    using append_take_drop_id [of 40 "text"] Cons_nth_drop_Suc [of 40 "text"] Cons_nth_drop_Suc [of 41 "text"]
      Cons_nth_drop_Suc [of 42 "text"] Cons_nth_drop_Suc [of 43 "text"] len by simp
  then show ?thesis unfolding to_base64_eq front tail_eq using len by simp
qed

text \<open>
  C39: keys as text are exactly the base64 of the configuration codec, computed without tables: the
  44 characters of a 32 byte key are what the table driven encoder of \<^verbatim>\<open>src/shared/base64.c\<close>
  produces, a text is accepted with a key as its result exactly when it is the text of that key
  (so non-canonical texts, with bits left over, are refused), and every refusal returns
  \<open>-EINVAL\<close>.
\<close>

theorem wg_key_text_exact:
  assumes "length key = 32"
  shows "wg_key_to_base64 key = encode_loop key 0 \<and>
    (wg_key_from_base64 old text = (key, 0) \<longleftrightarrow> text = wg_key_to_base64 key) \<and>
    snd (wg_key_from_base64 old text) \<in> {0, - 22}"
proof (intro conjI)
  show "wg_key_from_base64 old text = (key, 0) \<longleftrightarrow> text = wg_key_to_base64 key"
    using from_to_base64 [OF assms] to_from_base64 [OF assms] by metis
  show "snd (wg_key_from_base64 old text) \<in> {0, - 22}" by (simp add: from_base64_eq)
qed (rule to_base64_loop [OF assms])

theorem wg_key_text_exact_witness:
  "\<exists>text. wg_key_from_base64 [] text = (replicate 32 (7 :: u8), 0) \<and> text = encode_loop (replicate 32 7) 0"
  using wg_key_text_exact [of "replicate 32 7" "[]" "wg_key_to_base64 (replicate 32 7)"] by auto

end
