(* ===== verification/Wg_Peers.thy ===== *)
theory Wg_Peers
  imports Wg_Keys Sgxlkl_Util "HOL-Library.Monad_Syntax"
begin

text \<open>
  The configuration of WireGuard peers, \<^verbatim>\<open>src/wireguard/wireguard_util.c\<close>: keys, allowed address
  ranges and endpoints are read from text and the peers are added to a device. The chains of peers
  and of address ranges are lists. The resolver functions \<open>inet_pton\<close> and \<open>getaddrinfo\<close> and the
  transfer to the kernel, \<open>wg_set_device\<close>, are arguments; the \<open>k\<close>-th call of \<open>getaddrinfo\<close> for
  an endpoint may have another outcome than the one before. Allocation results are arguments too.
  Messages on the error stream are left out.
\<close>

section \<open>Data\<close>

record wg_allowedip =
  ip_family :: u16
  ip_addr :: "u8 list"
  ip_cidr :: u8

record wg_peer =
  pr_flags :: u32
  pr_public_key :: "u8 list"
  pr_preshared_key :: "u8 list"
  pr_endpoint :: "u8 list"
  pr_allowedips :: "wg_allowedip list"

definition AF_UNSPEC :: u16 where "AF_UNSPEC = 0"
definition AF_INET :: u16 where "AF_INET = 2"
definition AF_INET6 :: u16 where "AF_INET6 = 10"
definition WGPEER_REPLACE_ALLOWEDIPS :: u32 where "WGPEER_REPLACE_ALLOWEDIPS = 2"
definition WGPEER_HAS_PUBLIC_KEY :: u32 where "WGPEER_HAS_PUBLIC_KEY = 4"
definition EAI_NONAME :: int where "EAI_NONAME = - 2"
definition EAI_FAIL :: int where "EAI_FAIL = - 4"
definition EAI_NODATA :: int where "EAI_NODATA = - 5"
definition EINVAL :: int where "EINVAL = 22"

record addrinfo =
  ai_family :: u16
  ai_addrlen :: u32
  ai_addr :: "u8 list"

text \<open>The library functions and what the build and the allocator decide.\<close>

record wg_env =
  inet_pton :: "u16 \<Rightarrow> string \<Rightarrow> u8 list option"
  getaddrinfo :: "string \<Rightarrow> string \<Rightarrow> nat \<Rightarrow> int + addrinfo"
  has_nodata :: bool
  strdup_ok :: bool
  calloc_ok :: "nat \<Rightarrow> bool"

section \<open>Allowed addresses\<close>

definition strsep :: "char \<Rightarrow> string \<Rightarrow> string \<times> string option" where
  "strsep d s = (takeWhile (\<lambda>c. c \<noteq> d) s, case dropWhile (\<lambda>c. c \<noteq> d) s of [] \<Rightarrow> None | _ # t \<Rightarrow> Some t)"

lemma strsep_shorter: "strsep d s = (tok, sep) \<Longrightarrow> sep = None \<or> (\<exists>t. sep = Some t \<and> length t < length s)"
  using length_dropWhile_le [of "\<lambda>c. c \<noteq> d" s] by (auto simp: strsep_def split: list.splits)

definition wgu_parse_ip :: "wg_env \<Rightarrow> wg_allowedip \<Rightarrow> string \<Rightarrow> wg_allowedip \<times> bool" where
  "wgu_parse_ip env ip val =
     (let ip = ip\<lparr>ip_family := AF_UNSPEC\<rparr>;
          ip = (if CHR '':'' \<in> set val
                then case inet_pton env AF_INET6 val of Some a \<Rightarrow> ip\<lparr>ip_addr := a, ip_family := AF_INET6\<rparr> | None \<Rightarrow> ip
                else case inet_pton env AF_INET val of Some a \<Rightarrow> ip\<lparr>ip_addr := a, ip_family := AF_INET\<rparr> | None \<Rightarrow> ip)
      in (ip, ip_family ip \<noteq> AF_UNSPEC))"

text \<open>The length of the network prefix, \<open>None\<close> for the jumps to \<open>err\<close>.\<close>

definition cidr_of :: "string option \<Rightarrow> u16 \<Rightarrow> u64 option" where
  "cidr_of msk family =
     (case msk of
        Some m \<Rightarrow>
          if m = [] \<or> \<not> is_digit 10 (hd m) then None
          else (case strtoul 10 m of (cidr, rest, _) \<Rightarrow>
            if rest \<noteq> [] \<or> (cidr > 32 \<and> family = AF_INET) \<or> (cidr > 128 \<and> family = AF_INET6) then None
            else Some cidr)
      | None \<Rightarrow>
          if family = AF_INET then Some 32 else if family = AF_INET6 then Some 128 else None)"

definition zero_ip :: wg_allowedip where
  "zero_ip = \<lparr>ip_family = 0, ip_addr = replicate 16 0, ip_cidr = 0\<rparr>"

function allowedips_loop :: "wg_env \<Rightarrow> nat \<Rightarrow> string option \<Rightarrow> wg_allowedip list \<Rightarrow> wg_allowedip list \<times> bool" where
  "allowedips_loop env i None ips = (ips, True)"
| "allowedips_loop env i (Some s) ips =
     (let (entry, sep) = strsep CHR '','' s; (ip, msk) = strsep CHR ''/'' entry
      in if \<not> calloc_ok env i then (ips, False)
         else
           let (new_allowedip, ok) = wgu_parse_ip env zero_ip ip
           in if \<not> ok then (ips, False)
              else (case cidr_of msk (ip_family new_allowedip) of
                      None \<Rightarrow> (ips, False)
                    | Some cidr \<Rightarrow> allowedips_loop env (i + 1) sep (ips @ [new_allowedip\<lparr>ip_cidr := ucast cidr\<rparr>])))"
  by pat_completeness auto
termination
  by (relation "measure (\<lambda>(env, i, sep, ips). case sep of None \<Rightarrow> 0 | Some s \<Rightarrow> length s + 1)")
    (auto dest!: strsep_shorter [OF sym] split: option.splits)

text \<open>Called with no address range parsed yet, as \<open>wgu_add_peers\<close> does.\<close>

definition wgu_parse_allowedips :: "wg_env \<Rightarrow> wg_peer \<Rightarrow> string \<Rightarrow> wg_peer \<times> bool" where
  "wgu_parse_allowedips env peer val =
     (if \<not> strdup_ok env then (peer, False)
      else
        let peer = peer\<lparr>pr_flags := pr_flags peer OR WGPEER_REPLACE_ALLOWEDIPS\<rparr>
        in if val = [] then (peer, True)
           else let (ips, ok) = allowedips_loop env 0 (Some val) [] in (peer\<lparr>pr_allowedips := ips\<rparr>, ok))"

section \<open>Endpoints\<close>

text \<open>Host and service of an endpoint, \<open>None\<close> when the text is refused.\<close>

definition split_endpoint :: "string \<Rightarrow> (string \<times> string) option" where
  "split_endpoint val =
     (if val = [] then None
      else if hd val = CHR ''['' then
        (case dropWhile (\<lambda>c. c \<noteq> CHR '']'') val of
           [] \<Rightarrow> None
         | _ # rest \<Rightarrow>
             (case rest of
                [] \<Rightarrow> None
              | c # port \<Rightarrow> if c \<noteq> CHR '':'' \<or> port = [] then None else Some (takeWhile (\<lambda>c. c \<noteq> CHR '']'') (tl val), port)))
      else
        (case dropWhile (\<lambda>c. c \<noteq> CHR '':'') (rev val) of
           [] \<Rightarrow> None
         | _ # host \<Rightarrow>
             let port = rev (takeWhile (\<lambda>c. c \<noteq> CHR '':'') (rev val))
             in if port = [] then None else Some (rev host, port)))"

text \<open>
  The loop around \<open>getaddrinfo\<close>. The result says at which attempt the loop was left; a loop that
  goes on for ever has no result.
\<close>

partial_function (option) resolve_loop ::
    "bool \<Rightarrow> (nat \<Rightarrow> int + addrinfo) \<Rightarrow> nat \<Rightarrow> u32 \<Rightarrow> (nat \<times> addrinfo option) option" where
  "resolve_loop nodata gai k timeout =
     (case gai k of
        Inr resolved \<Rightarrow> Some (k, Some resolved)
      | Inl ret \<Rightarrow>
          let timeout = timeout * 3 div 2
          in if ret = EAI_NONAME \<or> ret = EAI_FAIL \<or> (nodata \<and> ret = EAI_NODATA) \<or> timeout \<ge> 90000000
             then Some (k, None)
             else resolve_loop nodata gai (k + 1) timeout)"

definition wgu_parse_endpoint :: "wg_env \<Rightarrow> u8 list \<Rightarrow> string \<Rightarrow> (u8 list \<times> bool) option" where
  "wgu_parse_endpoint env endpoint val =
     (if \<not> strdup_ok env then Some (endpoint, False)
      else (case split_endpoint val of
              None \<Rightarrow> Some (endpoint, False)
            | Some (host, service) \<Rightarrow> do {
                (_, resolved) \<leftarrow> resolve_loop (has_nodata env) (getaddrinfo env host service) 0 1000000;
                case resolved of
                  None \<Rightarrow> Some (endpoint, False)
                | Some r \<Rightarrow>
                    if (ai_family r = AF_INET \<and> ai_addrlen r = 16) \<or> (ai_family r = AF_INET6 \<and> ai_addrlen r = 28)
                    then Some (take (unat (ai_addrlen r)) (ai_addr r) @ drop (unat (ai_addrlen r)) endpoint, True)
                    else Some (endpoint, False)
              }))"

section \<open>Peers\<close>

record wg_peer_text =
  t_key :: "string option"
  t_allowed_ips :: "string option"
  t_endpoint :: "string option"

record wg_device =
  wd_name :: string
  wd_peers :: "wg_peer list"

definition zero_peer :: wg_peer where
  "zero_peer = \<lparr>pr_flags = 0, pr_public_key = replicate 32 0, pr_preshared_key = replicate 32 0, pr_endpoint = replicate 28 0,
     pr_allowedips = []\<rparr>"

definition wgu_add_peer :: "(wg_device \<Rightarrow> int) \<Rightarrow> wg_device \<Rightarrow> wg_peer \<Rightarrow> bool \<Rightarrow> wg_device \<times> int" where
  "wgu_add_peer wg_set_device dev new_peer set_device =
     (let dev = dev\<lparr>wd_peers := wd_peers dev @ [new_peer]\<rparr>
      in if set_device \<and> wg_set_device dev < 0 then (dev, wg_set_device dev) else (dev, 0))"

text \<open>
  The first loop of \<open>wgu_add_peers\<close>: \<open>old\<close> is what the memory allocated for the new peers holds.
  An incomplete entry is passed over, and its place keeps that content.
\<close>

definition missing :: "string option \<Rightarrow> bool" where
  "missing t = (case t of None \<Rightarrow> True | Some s \<Rightarrow> s = [])"

definition parse_peer :: "wg_env \<Rightarrow> wg_peer_text \<Rightarrow> (int + wg_peer) option" where
  "parse_peer env cfg =
     (let peer = zero_peer\<lparr>pr_flags := WGPEER_HAS_PUBLIC_KEY OR WGPEER_REPLACE_ALLOWEDIPS\<rparr>;
          (key, ret) = wg_key_from_base64 (pr_public_key peer) (map of_char (the (t_key cfg)));
          peer = peer\<lparr>pr_public_key := key\<rparr>
      in if ret \<noteq> 0 then Some (Inl ret)
         else
           let (peer, ok) = wgu_parse_allowedips env peer (the (t_allowed_ips cfg))
           in if \<not> ok then Some (Inl (- EINVAL))
              else do {
                (endpoint, ok) \<leftarrow> wgu_parse_endpoint env (pr_endpoint peer) (the (t_endpoint cfg));
                Some (if \<not> ok then Inl (- EINVAL) else Inr (peer\<lparr>pr_endpoint := endpoint\<rparr>))
              })"

fun parse_peers :: "wg_env \<Rightarrow> wg_peer_text list \<Rightarrow> wg_peer list \<Rightarrow> (int + wg_peer list) option" where
  "parse_peers env (cfg # cfgs) (p0 # old) =
     (if missing (t_key cfg) \<or> missing (t_allowed_ips cfg) \<or> missing (t_endpoint cfg)
      then map_option (map_sum id ((#) p0)) (parse_peers env cfgs old)
      else do {
        r \<leftarrow> parse_peer env cfg;
        case r of
          Inl ret \<Rightarrow> Some (Inl ret)
        | Inr peer \<Rightarrow> map_option (map_sum id ((#) peer)) (parse_peers env cfgs old)
      })"
| "parse_peers env _ _ = Some (Inr [])"

fun add_loop :: "(wg_device \<Rightarrow> int) \<Rightarrow> wg_device \<Rightarrow> wg_peer list \<Rightarrow> bool \<Rightarrow> wg_device \<times> int" where
  "add_loop wg_set_device dev [] set_device = (dev, 0)"
| "add_loop wg_set_device dev (p # ps) set_device =
     (let (dev, ret) = wgu_add_peer wg_set_device dev p set_device
      in if ret \<noteq> 0 then (dev, ret) else add_loop wg_set_device dev ps set_device)"

definition wgu_add_peers ::
    "wg_env \<Rightarrow> (wg_device \<Rightarrow> int) \<Rightarrow> wg_device \<Rightarrow> wg_peer_text list \<Rightarrow> wg_peer list \<Rightarrow> bool \<Rightarrow> (wg_device \<times> int) option" where
  "wgu_add_peers env wg_set_device dev peers old set_device = do {
     r \<leftarrow> parse_peers env peers old;
     Some (case r of
             Inl ret \<Rightarrow> (dev, ret)
           | Inr new_peers \<Rightarrow> add_loop wg_set_device dev new_peers set_device)
   }"

section \<open>Text of a configuration\<close>

text \<open>
  The text of an address range, with \<open>ntop\<close> for the printing of addresses, and of a list of them. An
  address is good when its text is free of separators, has a colon exactly in the version 6 family
  and is read back by \<open>inet_pton\<close>.
\<close>

definition ip_text :: "(u16 \<Rightarrow> u8 list \<Rightarrow> string) \<Rightarrow> wg_allowedip \<Rightarrow> string" where
  "ip_text ntop ip = ntop (ip_family ip) (ip_addr ip) @ ''/'' @ decimal (unat (ip_cidr ip))"

fun ips_text :: "(u16 \<Rightarrow> u8 list \<Rightarrow> string) \<Rightarrow> wg_allowedip list \<Rightarrow> string" where
  "ips_text ntop [] = []"
| "ips_text ntop [ip] = ip_text ntop ip"
| "ips_text ntop (ip # ips) = ip_text ntop ip @ '','' @ ips_text ntop ips"

definition good_ip :: "wg_env \<Rightarrow> (u16 \<Rightarrow> u8 list \<Rightarrow> string) \<Rightarrow> wg_allowedip \<Rightarrow> bool" where
  "good_ip env ntop ip \<longleftrightarrow>
     (let t = ntop (ip_family ip) (ip_addr ip)
      in (ip_family ip = AF_INET \<and> ip_cidr ip \<le> 32 \<and> CHR '':'' \<notin> set t \<or>
          ip_family ip = AF_INET6 \<and> ip_cidr ip \<le> 128 \<and> CHR '':'' \<in> set t) \<and>
         CHR '','' \<notin> set t \<and> CHR ''/'' \<notin> set t \<and> inet_pton env (ip_family ip) t = Some (ip_addr ip))"

lemma strsep_append: "d \<notin> set s \<Longrightarrow> strsep d (s @ d # t) = (s, Some t)" "d \<notin> set s \<Longrightarrow> strsep d s = (s, None)"
proof -
  show "d \<notin> set s \<Longrightarrow> strsep d (s @ d # t) = (s, Some t)"
    by (subgoal_tac "takeWhile (\<lambda>c. c \<noteq> d) (s @ d # t) = s \<and> dropWhile (\<lambda>c. c \<noteq> d) (s @ d # t) = d # t")
      (simp_all add: strsep_def, induction s, auto)
  show "d \<notin> set s \<Longrightarrow> strsep d s = (s, None)"
    by (subgoal_tac "takeWhile (\<lambda>c. c \<noteq> d) s = s \<and> dropWhile (\<lambda>c. c \<noteq> d) s = []")
      (simp_all add: strsep_def, induction s, auto)
qed

lemma decimal_digits: "set (decimal n) \<subseteq> {c. is_digit 10 c}"
proof (induction n rule: decimal.induct)
  case (1 n)
  have "is_digit 10 (dec_char d)" if "d < 10" for d using that by (simp add: is_digit_def digit_of_dec_char)
  then show ?case using 1 by (subst decimal.simps) auto
qed

lemma not_in_decimal: "CHR '','' \<notin> set (decimal n)" "CHR ''/'' \<notin> set (decimal n)"
  using decimal_digits [of n] by (auto simp: is_digit_def digit_of_def)

lemma cidr_of_decimal:
  assumes "unat c \<le> 128" "family = AF_INET \<Longrightarrow> unat c \<le> 32"
  shows "cidr_of (Some (decimal (unat (c :: u8)))) family = Some (of_nat (unat c))"
proof -
  obtain d t where d: "decimal (unat c) = dec_char d # t" "d < 10" using decimal_hd by blast
  have "is_digit 10 (dec_char d)" using d(2) by (simp add: is_digit_def digit_of_dec_char)
  moreover have "strtoul 10 (decimal (unat c)) = (of_nat (unat c), [], False)"
    using strtoul_decimal [of "unat c" "[]"] assms(1) by simp
  moreover have "unat (of_nat (unat c) :: u64) = unat c" using assms(1) by (intro unat_of_nat_small) simp
  ultimately show ?thesis
    using assms d(1) by (auto simp: cidr_of_def word_less_nat_alt)
qed

lemma read_ip:
  assumes "good_ip env ntop ip"
  obtains new where "wgu_parse_ip env zero_ip (ntop (ip_family ip) (ip_addr ip)) = (new, True)"
    "ip_family new = ip_family ip" "new\<lparr>ip_cidr := ip_cidr ip\<rparr> = ip"
    "cidr_of (Some (decimal (unat (ip_cidr ip)))) (ip_family ip) = Some (of_nat (unat (ip_cidr ip)))"
proof -
  have "unat (ip_cidr ip) \<le> 128" "ip_family ip = AF_INET \<Longrightarrow> unat (ip_cidr ip) \<le> 32"
    using assms by (auto simp: good_ip_def Let_def word_le_nat_alt AF_INET_def AF_INET6_def)
  note c = cidr_of_decimal [OF this]
  have "wgu_parse_ip env zero_ip (ntop (ip_family ip) (ip_addr ip)) = (zero_ip\<lparr>ip_family := ip_family ip, ip_addr := ip_addr ip\<rparr>, True)"
    using assms by (auto simp: good_ip_def Let_def wgu_parse_ip_def AF_INET_def AF_INET6_def AF_UNSPEC_def)
  then show ?thesis using that c by simp
qed

lemma read_entry:
  assumes "\<And>k. calloc_ok env k" and g: "good_ip env ntop ip" and s: "strsep CHR '','' s = (ip_text ntop ip, sep)"
  shows "allowedips_loop env i (Some s) acc = allowedips_loop env (i + 1) sep (acc @ [ip])"
proof -
  have t: "CHR ''/'' \<notin> set (ntop (ip_family ip) (ip_addr ip))" using g by (simp add: good_ip_def Let_def)
  obtain new where n: "wgu_parse_ip env zero_ip (ntop (ip_family ip) (ip_addr ip)) = (new, True)"
    "ip_family new = ip_family ip" "new\<lparr>ip_cidr := ip_cidr ip\<rparr> = ip"
    "cidr_of (Some (decimal (unat (ip_cidr ip)))) (ip_family ip) = Some (of_nat (unat (ip_cidr ip)))" using read_ip [OF g] .
  have "ucast (ucast (ip_cidr ip) :: u64) = ip_cidr ip" by (rule bit_word_eqI) (auto simp: bit_simps dest: bit_imp_le_length)
  then show ?thesis using assms t n by (simp add: strsep_append ip_text_def)
qed

lemma ip_text_no_comma: "good_ip env ntop ip \<Longrightarrow> CHR '','' \<notin> set (ip_text ntop ip)"
  by (auto simp: good_ip_def ip_text_def Let_def not_in_decimal)

lemma read_ips:
  assumes "\<And>k. calloc_ok env k"
  shows "ips \<noteq> [] \<Longrightarrow> \<forall>ip \<in> set ips. good_ip env ntop ip \<Longrightarrow>
    allowedips_loop env i (Some (ips_text ntop ips)) acc = (acc @ ips, True)"
proof (induction ntop ips arbitrary: i acc rule: ips_text.induct)
  case (2 ntop ip)
  then have g: "good_ip env ntop ip" by simp
  then show ?case using read_entry [OF assms g strsep_append(2) [OF ip_text_no_comma [OF g]]] by simp
next
  case (3 ntop ip ip' ips)
  then have g: "good_ip env ntop ip" by simp
  then show ?case using read_entry [OF assms g strsep_append(1) [OF ip_text_no_comma [OF g]]] 3 by simp
qed simp

section \<open>Endpoints\<close>

text \<open>An endpoint in its two forms; in the form without brackets the service has no colon.\<close>

definition endpoint_text :: "bool \<Rightarrow> string \<Rightarrow> string \<Rightarrow> string" where
  "endpoint_text brackets host service = (if brackets then ''['' @ host @ '']:'' @ service else host @ '':'' @ service)"

definition good_endpoint :: "bool \<Rightarrow> string \<Rightarrow> string \<Rightarrow> bool" where
  "good_endpoint brackets host service \<longleftrightarrow> service \<noteq> [] \<and>
     (if brackets then CHR '']'' \<notin> set host else CHR '':'' \<notin> set service \<and> (host = [] \<or> hd host \<noteq> CHR ''[''))"

lemma while_before:
  assumes "d \<notin> set s"
  shows "takeWhile (\<lambda>c. c \<noteq> d) (s @ d # t) = s" "dropWhile (\<lambda>c. c \<noteq> d) (s @ d # t) = d # t"
  using assms by (induction s) auto

lemma read_endpoint:
  assumes "good_endpoint brackets host service"
  shows "split_endpoint (endpoint_text brackets host service) = Some (host, service)"
proof (cases brackets)
  case True
  then have h: "CHR '']'' \<notin> set host" "CHR '']'' \<notin> set (CHR ''['' # host)" "service \<noteq> []"
    using assms by (auto simp: good_endpoint_def)
  show ?thesis
    using True h while_before [OF h(1), of "CHR '':'' # service"] while_before [OF h(2), of "CHR '':'' # service"]
    by (simp add: endpoint_text_def split_endpoint_def)
next
  case False
  then have h: "CHR '':'' \<notin> set (rev service)" "service \<noteq> []" "host = [] \<or> hd host \<noteq> CHR ''[''"
    using assms by (auto simp: good_endpoint_def)
  then have "endpoint_text brackets host service \<noteq> []" "hd (endpoint_text brackets host service) \<noteq> CHR ''[''"
    using False by (auto simp: endpoint_text_def hd_append)
  then show ?thesis
    using False h while_before [OF h(1), of "rev host"]
    by (simp add: endpoint_text_def split_endpoint_def Let_def)
qed

text \<open>The waiting time before each attempt; at most twelve attempts are made.\<close>

fun timeout_at :: "nat \<Rightarrow> u32" where
  "timeout_at 0 = 1000000"
| "timeout_at (Suc k) = timeout_at k * 3 div 2"

lemma timeout_bounds: "k < 11 \<Longrightarrow> timeout_at (Suc k) < 90000000" "90000000 \<le> timeout_at 12"
proof -
  have "list_all (\<lambda>k. timeout_at (Suc k) < 90000000) [0..<11]" by code_simp
  then show "k < 11 \<Longrightarrow> timeout_at (Suc k) < 90000000" by (simp add: list_all_iff del: timeout_at.simps)
  show "90000000 \<le> timeout_at 12" by code_simp
qed

lemma resolve_loop_ends: "i \<le> 11 \<Longrightarrow> \<exists>k r. k \<le> 11 \<and> resolve_loop nodata gai i (timeout_at i) = Some (k, r)"
proof (induction "11 - i" arbitrary: i)
  case 0
  then show ?case using timeout_bounds(2) by (subst resolve_loop.simps) (auto simp: numeral_eq_Suc split: sum.splits)
next
  case (Suc d)
  then have "\<exists>k r. k \<le> 11 \<and> resolve_loop nodata gai (i + 1) (timeout_at (Suc i)) = Some (k, r)" by (simp del: timeout_at.simps)
  then show ?case using Suc.prems by (subst resolve_loop.simps) (auto simp: Let_def split: sum.splits)
qed

text \<open>A host resolves when \<open>getaddrinfo\<close> succeeds after at most eleven transient failures.\<close>

definition resolves :: "wg_env \<Rightarrow> string \<Rightarrow> string \<Rightarrow> addrinfo \<Rightarrow> bool" where
  "resolves env host service info \<longleftrightarrow>
     (\<exists>k < 12. getaddrinfo env host service k = Inr info \<and>
        (\<forall>j < k. \<exists>e. getaddrinfo env host service j = Inl e \<and> e \<notin> {EAI_NONAME, EAI_FAIL, EAI_NODATA}))"

lemma resolve_loop_succeeds:
  assumes "resolves env host service info"
  shows "\<exists>k. resolve_loop nodata (getaddrinfo env host service) 0 1000000 = Some (k, Some info)"
proof -
  let ?g = "getaddrinfo env host service"
  obtain k where k: "k < 12" "?g k = Inr info" and t: "\<And>j. j < k \<Longrightarrow> \<exists>e. ?g j = Inl e \<and> e \<notin> {EAI_NONAME, EAI_FAIL, EAI_NODATA}"
    using assms by (auto simp: resolves_def)
  have "i \<le> k \<Longrightarrow> resolve_loop nodata ?g i (timeout_at i) = Some (k, Some info)" for i
  proof (induction "k - i" arbitrary: i)
    case 0
    then show ?case using k by (subst resolve_loop.simps) simp
  next
    case (Suc d)
    then have "resolve_loop nodata ?g (i + 1) (timeout_at (Suc i)) = Some (k, Some info)" by (simp del: timeout_at.simps)
    moreover have "i < k" using Suc by simp
    then obtain e where "?g i = Inl e" "e \<notin> {EAI_NONAME, EAI_FAIL, EAI_NODATA}" using t by blast
    moreover have "timeout_at i * 3 div 2 < 90000000" using timeout_bounds(1) [of i] Suc k(1) by simp
    ultimately show ?case by (subst resolve_loop.simps) (simp add: Let_def not_le)
  qed
  from this [of 0] show ?thesis by auto
qed


section \<open>Whole configurations\<close>

record peer_spec =
  ps_key :: "u8 list"
  ps_ips :: "wg_allowedip list"
  ps_brackets :: bool
  ps_host :: string
  ps_service :: string
  ps_info :: addrinfo

definition good_peer :: "wg_env \<Rightarrow> (u16 \<Rightarrow> u8 list \<Rightarrow> string) \<Rightarrow> peer_spec \<Rightarrow> bool" where
  "good_peer env ntop q \<longleftrightarrow>
     length (ps_key q) = 32 \<and> ps_ips q \<noteq> [] \<and> (\<forall>ip \<in> set (ps_ips q). good_ip env ntop ip) \<and>
     good_endpoint (ps_brackets q) (ps_host q) (ps_service q) \<and> resolves env (ps_host q) (ps_service q) (ps_info q) \<and>
     (ai_family (ps_info q), ai_addrlen (ps_info q)) \<in> {(AF_INET, 16), (AF_INET6, 28)} \<and>
     length (ai_addr (ps_info q)) = unat (ai_addrlen (ps_info q))"

definition peer_text :: "(u16 \<Rightarrow> u8 list \<Rightarrow> string) \<Rightarrow> peer_spec \<Rightarrow> wg_peer_text" where
  "peer_text ntop q = \<lparr>t_key = Some (map (\<lambda>w. char_of (unat w)) (wg_key_to_base64 (ps_key q))), t_allowed_ips = Some (ips_text ntop (ps_ips q)),
     t_endpoint = Some (endpoint_text (ps_brackets q) (ps_host q) (ps_service q))\<rparr>"

definition peer_of :: "peer_spec \<Rightarrow> wg_peer" where
  "peer_of q = \<lparr>pr_flags = 6, pr_public_key = ps_key q, pr_preshared_key = replicate 32 0,
     pr_endpoint = ai_addr (ps_info q) @ replicate (28 - length (ai_addr (ps_info q))) 0, pr_allowedips = ps_ips q\<rparr>"

lemma map_of_char_of: "map of_char (map (\<lambda>w. char_of (unat w)) xs) = (xs :: u8 list)"
proof -
  have "of_char (char_of (unat w)) = w" for w :: u8
  proof -
    have "(of_char (char_of (unat w)) :: u8) = of_nat (of_char (char_of (unat w)))" by (rule of_nat_of_char [symmetric])
    also have "(of_char (char_of (unat w)) :: nat) = unat w" using unsigned_less [of w, where 'a = nat] by simp
    finally show ?thesis by simp
  qed
  then show ?thesis by (simp add: comp_def)
qed

lemma text_present:
  assumes "good_peer env ntop q"
  shows "\<not> missing (t_key (peer_text ntop q))" "\<not> missing (t_allowed_ips (peer_text ntop q))" "\<not> missing (t_endpoint (peer_text ntop q))"
proof -
  have "ips_text ntop ips \<noteq> []" if "ips \<noteq> []" for ips
    using that by (induction ntop ips rule: ips_text.induct) (auto simp: ip_text_def)
  moreover have "wg_key_to_base64 (ps_key q) \<noteq> []" using length_to_base64 [of "ps_key q"] by auto
  ultimately show "\<not> missing (t_key (peer_text ntop q))" "\<not> missing (t_allowed_ips (peer_text ntop q))" "\<not> missing (t_endpoint (peer_text ntop q))"
    using assms by (auto simp: peer_text_def missing_def good_peer_def endpoint_text_def)
qed

lemma parse_peer_text:
  assumes "strdup_ok env" "\<And>k. calloc_ok env k" and g: "good_peer env ntop q"
  shows "parse_peer env (peer_text ntop q) = Some (Inr (peer_of q))"
proof -
  have ips: "allowedips_loop env 0 (Some (ips_text ntop (ps_ips q))) [] = (ps_ips q, True)" "ips_text ntop (ps_ips q) \<noteq> []"
    using read_ips [OF assms(2), of "ps_ips q" ntop 0 "[]"] text_present(2) [OF g] g
    by (auto simp: good_peer_def missing_def peer_text_def)
  obtain k where r: "resolve_loop (has_nodata env) (getaddrinfo env (ps_host q) (ps_service q)) 0 1000000 = Some (k, Some (ps_info q))"
    using g resolve_loop_succeeds [of env "ps_host q" "ps_service q" "ps_info q"] unfolding good_peer_def by blast
  have e: "split_endpoint (endpoint_text (ps_brackets q) (ps_host q) (ps_service q)) = Some (ps_host q, ps_service q)"
    using g by (intro read_endpoint) (simp add: good_peer_def)
  have "(ai_family (ps_info q) = AF_INET \<and> ai_addrlen (ps_info q) = 16 \<or> ai_family (ps_info q) = AF_INET6 \<and> ai_addrlen (ps_info q) = 28)"
    "length (ai_addr (ps_info q)) = unat (ai_addrlen (ps_info q))"
    using g by (auto simp: good_peer_def)
  then have "wgu_parse_endpoint env (replicate 28 0) (endpoint_text (ps_brackets q) (ps_host q) (ps_service q)) =
      Some (ai_addr (ps_info q) @ replicate (28 - length (ai_addr (ps_info q))) 0, True)"
    using assms(1) r e by (simp add: wgu_parse_endpoint_def)
  moreover have "wg_key_from_base64 (replicate 32 0) (wg_key_to_base64 (ps_key q)) = (ps_key q, 0)"
    using from_to_base64 g by (simp add: good_peer_def)
  moreover have "map of_char (the (t_key (peer_text ntop q))) = wg_key_to_base64 (ps_key q)"
    unfolding peer_text_def by (simp only: wg_peer_text.simps option.sel map_of_char_of)
  moreover have "the (t_allowed_ips (peer_text ntop q)) = ips_text ntop (ps_ips q)"
    "the (t_endpoint (peer_text ntop q)) = endpoint_text (ps_brackets q) (ps_host q) (ps_service q)" by (simp_all add: peer_text_def)
  ultimately show ?thesis
    using ips assms(1)
    by (simp add: parse_peer_def zero_peer_def wgu_parse_allowedips_def peer_of_def
        WGPEER_HAS_PUBLIC_KEY_def WGPEER_REPLACE_ALLOWEDIPS_def del: allowedips_loop.simps)
qed

lemma parse_peers_text:
  assumes "strdup_ok env" "\<And>k. calloc_ok env k"
  shows "length old = length qs \<Longrightarrow> \<forall>q \<in> set qs. good_peer env ntop q \<Longrightarrow>
    parse_peers env (map (peer_text ntop) qs) old = Some (Inr (map peer_of qs))"
proof (induction qs old rule: list_induct2')
  case (4 q qs p0 old)
  then have g: "good_peer env ntop q" by simp
  show ?case using 4 text_present [OF g] parse_peer_text [OF assms g] by simp
qed simp_all

lemma add_loop_all:
  assumes "\<And>d. set_device \<Longrightarrow> 0 \<le> wg_set_device d"
  shows "add_loop wg_set_device dev ps set_device = (dev\<lparr>wd_peers := wd_peers dev @ ps\<rparr>, 0)"
proof (induction ps arbitrary: dev)
  case (Cons p ps)
  have "\<not> (set_device \<and> wg_set_device d < 0)" for d using assms [of d] by auto
  then have "wgu_add_peer wg_set_device dev p set_device = (dev\<lparr>wd_peers := wd_peers dev @ [p]\<rparr>, 0)"
    unfolding wgu_add_peer_def Let_def by (simp only: if_False)
  then show ?case using Cons by simp
qed simp

lemma parse_peers_returns: "\<exists>r. parse_peers env cfgs old = Some r"
proof (induction env cfgs old rule: parse_peers.induct)
  case (1 env cfg cfgs p0 old)
  have "\<exists>r. wgu_parse_endpoint env e v = Some r" for e v
  proof -
    have "\<exists>k r. resolve_loop (has_nodata env) gai 0 1000000 = Some (k, r)" for gai
      using resolve_loop_ends [of 0 "has_nodata env" gai] by auto
    then obtain k r where "resolve_loop (has_nodata env) (getaddrinfo env (fst (the (split_endpoint v))) (snd (the (split_endpoint v)))) 0 1000000 = Some (k, r)"
      by blast
    then show ?thesis
      by (cases "split_endpoint v"; cases r) (auto simp: wgu_parse_endpoint_def case_prod_unfold)
  qed
  then have "\<exists>r. Option.bind (wgu_parse_endpoint env e v) (\<lambda>p. Some (f p)) = Some r" for e v and f :: "u8 list \<times> bool \<Rightarrow> int + wg_peer"
    by (metis Option.bind_lunit)
  then have "\<exists>r. parse_peer env cfg = Some r"
    by (simp add: parse_peer_def case_prod_unfold Let_def)
  then show ?case using 1 by (auto split: sum.splits)
qed simp_all

text \<open>
  C10: a configuration of peers written as text is what the device gets. For any list of peers whose
  keys are printed in base64, whose address ranges are printed as address, slash and length, separated by
  commas, and whose endpoints are printed as host and service (with or without brackets), the new
  peers are appended to the device in order, each with its key, all its address ranges and the
  socket address the resolver finds for its endpoint, and the result is 0. This holds when the
  resolver fails transiently up to eleven times per endpoint; on any other configuration the call
  returns as well, so the retries end.
\<close>

theorem peers_configured:
  assumes "strdup_ok env" and "\<And>k. calloc_ok env k" and "\<And>q. q \<in> set qs \<Longrightarrow> good_peer env ntop q"
    and "length old = length qs" and "\<And>d. set_device \<Longrightarrow> 0 \<le> wg_set_device d"
  shows "wgu_add_peers env wg_set_device dev (map (peer_text ntop) qs) old set_device =
      Some (dev\<lparr>wd_peers := wd_peers dev @ map peer_of qs\<rparr>, 0) \<and>
    (\<exists>r. wgu_add_peers env wg_set_device dev any old' set_device = Some r)"
proof
  show "wgu_add_peers env wg_set_device dev (map (peer_text ntop) qs) old set_device =
      Some (dev\<lparr>wd_peers := wd_peers dev @ map peer_of qs\<rparr>, 0)"
    using parse_peers_text [OF assms(1,2,4)] assms(3) add_loop_all [OF assms(5)] by (simp add: wgu_add_peers_def)
  show "\<exists>r. wgu_add_peers env wg_set_device dev any old' set_device = Some r"
    using parse_peers_returns [of env any old'] by (auto simp: wgu_add_peers_def)
qed


definition demo_wg_env :: wg_env where
  "demo_wg_env = \<lparr>inet_pton = (\<lambda>f t. if f = AF_INET \<and> t = ''10.0.0.1'' then Some [10, 0, 0, 1] else None),
     getaddrinfo = (\<lambda>h sv k. if k = 0 then Inl (- 3) else Inr \<lparr>ai_family = AF_INET, ai_addrlen = 16, ai_addr = replicate 16 9\<rparr>),
     has_nodata = True, strdup_ok = True, calloc_ok = (\<lambda>_. True)\<rparr>"

definition demo_peer :: peer_spec where
  "demo_peer = \<lparr>ps_key = replicate 32 5, ps_ips = [\<lparr>ip_family = AF_INET, ip_addr = [10, 0, 0, 1], ip_cidr = 24\<rparr>], ps_brackets = False,
     ps_host = ''h'', ps_service = ''80'', ps_info = \<lparr>ai_family = AF_INET, ai_addrlen = 16, ai_addr = replicate 16 9\<rparr>\<rparr>"

lemma demo_peer_good: "good_peer demo_wg_env (\<lambda>_ _. ''10.0.0.1'') demo_peer"
proof -
  have "resolves demo_wg_env ''h'' ''80'' (ps_info demo_peer)"
    unfolding resolves_def by (rule exI [of _ 1]) (simp add: demo_wg_env_def demo_peer_def EAI_NONAME_def EAI_FAIL_def EAI_NODATA_def)
  moreover have "good_ip demo_wg_env (\<lambda>_ _. ''10.0.0.1'') \<lparr>ip_family = AF_INET, ip_addr = [10, 0, 0, 1], ip_cidr = 24\<rparr>"
    by (simp add: good_ip_def demo_wg_env_def Let_def)
  ultimately show ?thesis by (simp add: good_peer_def demo_peer_def good_endpoint_def)
qed

theorem peers_configured_witness:
  "wgu_add_peers demo_wg_env (\<lambda>d. 0) \<lparr>wd_name = ''wg0'', wd_peers = []\<rparr> [peer_text (\<lambda>_ _. ''10.0.0.1'') demo_peer] [zero_peer] True =
     Some (\<lparr>wd_name = ''wg0'', wd_peers = [peer_of demo_peer]\<rparr>, 0)"
  using peers_configured [of demo_wg_env "[demo_peer]" "\<lambda>_ _. ''10.0.0.1''" "[zero_peer]" True "\<lambda>d. 0" "\<lparr>wd_name = ''wg0'', wd_peers = []\<rparr>"]
    demo_peer_good by (simp add: demo_wg_env_def)

text \<open>A peer without a key is passed over by the first loop and added all the same, with what the memory held.\<close>

lemma incomplete_peer_added:
  "wgu_add_peers env wg_set_device dev [\<lparr>t_key = None, t_allowed_ips = ips, t_endpoint = e\<rparr>] [p0] False =
     Some (dev\<lparr>wd_peers := wd_peers dev @ [p0]\<rparr>, 0)"
  by (simp add: wgu_add_peers_def missing_def wgu_add_peer_def)

end
