(* ===== verification/Enclave_Exceptions.thy ===== *)
theory Enclave_Exceptions
  imports Hostcalls Lthread_Sched
begin

text \<open>
  Exceptions inside the enclave: \<^verbatim>\<open>src/sgx/enclave_signal.c\<close> and the transitions and emulated
  instructions of \<^verbatim>\<open>src/sgx/sgx_enclave_config.c\<close>. Instructions that are illegal in an enclave
  (\<open>CPUID\<close>, \<open>RDTSC\<close>) and faults of the application make the host enter the enclave again to run
  \<open>__enclave_signal_handler\<close> on the saved registers of the interrupted thread.

  The state is that of the thread that handles the exception: its enclave parameters, the state
  word of the lightweight thread it runs, and the memory, slot and arena of the host calls. While
  a thread is outside (\<open>leave_enclave\<close>) the host may change the memory it shares with the enclave
  in any way: the host is an argument, a function of what it is handed and of that memory.
  \<open>None\<close> is a write through a null pointer. \<open>get_enclave_parms\<close> finds the parameters of the
  running thread; they are a field of the state here.
\<close>

section \<open>Registers and parameters\<close>

record gprsgx_t =
  rax :: u64
  rcx :: u64
  rdx :: u64
  rbx :: u64
  rsp :: u64
  rbp :: u64
  rsi :: u64
  rdi :: u64
  r8 :: u64
  r9 :: u64
  r10 :: u64
  r11 :: u64
  r12 :: u64
  r13 :: u64
  r14 :: u64
  r15 :: u64
  rflags :: u64
  rip :: u64
  ursp :: u64
  urbp :: u64
  exitinfo :: u32
  reserved :: u32
  fsbase :: u64
  gsbase :: u64

definition ACTIVE :: u64 where "ACTIVE = 0"
definition OUTSIDE :: u64 where "OUTSIDE = 1"
definition UNUSED :: u64 where "UNUSED = 2"

definition SGXLKL_EXIT_TERMINATE :: u64 where "SGXLKL_EXIT_TERMINATE = 0"
definition SGXLKL_EXIT_ERROR :: u64 where "SGXLKL_EXIT_ERROR = 2"
definition SGXLKL_EXIT_CPUID :: u64 where "SGXLKL_EXIT_CPUID = 4"
definition SGXLKL_EXIT_DORESUME :: u64 where "SGXLKL_EXIT_DORESUME = 5"
definition SGXLKL_CONFIG_ASSERT_VIOLATION :: u64 where "SGXLKL_CONFIG_ASSERT_VIOLATION = 2"

text \<open>The enclave parameters the code below reads or writes.\<close>

record enclave_parms_t =
  p_base :: u64
  p_heap :: u64
  p_heap_size :: u64
  p_exit_addr :: u64
  p_ursp :: u64
  p_urbp :: u64
  p_enclave_size :: u64
  p_thread_state :: u64
  p_eh_exit_addr :: u64
  p_eh_ursp :: u64
  p_eh_urbp :: u64
  p_eh_handling :: u64

record exst =
  parms :: enclave_parms_t
  lt_attr :: u32
  xh :: hst

section \<open>Leaving the enclave\<close>

text \<open>What \<open>ENCLU[EEXIT]\<close> hands the host: the two arguments, its stack and the address to continue at.\<close>

record exit_call =
  xrdi :: u64
  xrsi :: u64
  xrsp :: u64
  xrbp :: u64
  xaddr :: u64

type_synonym outside = "exit_call \<Rightarrow> memory \<Rightarrow> memory"

definition get_exit_address :: "exst \<Rightarrow> u64" where
  "get_exit_address s = (if p_eh_handling (parms s) \<noteq> 0 then p_eh_exit_addr (parms s) else p_exit_addr (parms s))"

definition get_ursp :: "exst \<Rightarrow> u64" where
  "get_ursp s = (if p_eh_handling (parms s) \<noteq> 0 then p_eh_ursp (parms s) else p_ursp (parms s))"

definition get_urbp :: "exst \<Rightarrow> u64" where
  "get_urbp s = (if p_eh_handling (parms s) \<noteq> 0 then p_eh_urbp (parms s) else p_urbp (parms s))"

definition get_eh_handling :: "exst \<Rightarrow> u64" where
  "get_eh_handling s = p_eh_handling (parms s)"

definition set_eh_handling :: "u64 \<Rightarrow> exst \<Rightarrow> exst" where
  "set_eh_handling val s = s\<lparr>parms := (parms s)\<lparr>p_eh_handling := val\<rparr>\<rparr>"

definition get_thread_state :: "exst \<Rightarrow> u64" where
  "get_thread_state s = p_thread_state (parms s)"

definition set_thread_state :: "u64 \<Rightarrow> exst \<Rightarrow> exst" where
  "set_thread_state st s = s\<lparr>parms := (parms s)\<lparr>p_thread_state := st\<rparr>\<rparr>"

definition leave_enclave :: "outside \<Rightarrow> u64 \<Rightarrow> u64 \<Rightarrow> exst \<Rightarrow> exst" where
  "leave_enclave host a b s =
     (let s = set_thread_state OUTSIDE s;
          x = \<lparr>xrdi = a, xrsi = b, xrsp = get_ursp s, xrbp = get_urbp s, xaddr = get_exit_address s\<rparr>;
          s = s\<lparr>xh := (xh s)\<lparr>hmem := host x (hmem (xh s))\<rparr>\<rparr>
      in set_thread_state ACTIVE s)"

definition exit_enclave :: "u64 \<Rightarrow> u64 \<Rightarrow> u64 \<Rightarrow> u64 \<Rightarrow> exst \<Rightarrow> exit_call \<times> exst" where
  "exit_enclave a b exit_address exit_thread_state s =
     (let s = set_thread_state exit_thread_state s;
          x = \<lparr>xrdi = a, xrsi = b, xrsp = get_ursp s, xrbp = get_urbp s, xaddr = exit_address\<rparr>;
          s = (if get_eh_handling s \<noteq> 0 then set_eh_handling 0 s else s)
      in (x, s))"

section \<open>Emulated instructions\<close>

text \<open>
  The request array is \<open>None\<close> for a null pointer. The branches that copy it to and from the arena
  are taken only when \<open>req\<close> is null, and then write to that null pointer.
\<close>

definition ocall_cpuid :: "outside \<Rightarrow> u32 list option \<Rightarrow> exst \<Rightarrow> (u32 list option \<times> exst) option" where
  "ocall_cpuid host request s =
     (case request of
        None \<Rightarrow> Some (request, s)
      | Some rq \<Rightarrow>
          let (req, h) = arena_alloc 16 (xh s); s = s\<lparr>xh := h\<rparr>
          in if req = 0 then None
             else
               let s = leave_enclave host SGXLKL_EXIT_CPUID req s
               in Some (Some rq, s\<lparr>xh := arena_free (xh s)\<rparr>))"

text \<open>\<open>junk\<close> holds what is on the stack where \<open>request\<close> is allocated.\<close>

definition ecall_cpuid :: "outside \<Rightarrow> u32 list \<Rightarrow> u32 list \<Rightarrow> gprsgx_t \<Rightarrow> exst \<Rightarrow> (gprsgx_t \<times> exst) option" where
  "ecall_cpuid host x86_capabilities junk regs s =
     (let request = junk[0 := ucast (rax regs), 2 := ucast (rcx regs)];
          clear_tsc = (request ! 0 = 1)
      in do {
        (regs, s) \<leftarrow>
          (if request ! 0 = 0x7 \<and> request ! 2 = 0x0
           then Some (regs\<lparr>rax := 0, rbx := ucast (x86_capabilities ! 9), rcx := ucast (x86_capabilities ! 16),
                  rdx := ucast (x86_capabilities ! 18)\<rparr>, s)
           else do {
             (request, s) \<leftarrow> ocall_cpuid host (Some request) s;
             rq \<leftarrow> request;
             Some (regs\<lparr>rax := ucast (rq ! 0), rbx := ucast (rq ! 1), rcx := ucast (rq ! 2), rdx := ucast (rq ! 3)\<rparr>, s)
           });
        let regs = (if clear_tsc then regs\<lparr>rdx := rdx regs AND NOT (push_bit 4 1)\<rparr> else regs);
        Some (regs\<lparr>rip := rip regs + 2\<rparr>, s)
      })"

definition ecall_rdtsc :: "u64 \<Rightarrow> gprsgx_t \<Rightarrow> gprsgx_t" where
  "ecall_rdtsc ts regs =
     (let msk = 0xffffffff
      in regs\<lparr>rax := ts AND msk, rdx := drop_bit 32 (ts AND NOT msk), rip := rip regs + 2\<rparr>)"

text \<open>The host reads the time stamp counter before it forwards an illegal instruction.\<close>

definition sgx_sigill_handler :: "u64 \<Rightarrow> u64 \<Rightarrow> u64" where
  "sgx_sigill_handler low high = push_bit 32 high + low"

section \<open>Handlers\<close>

datatype greg = REG_R8 | REG_R9 | REG_R10 | REG_R11 | REG_R12 | REG_R13 | REG_R14 | REG_R15 | REG_RDI |
  REG_RSI | REG_RBP | REG_RBX | REG_RDX | REG_RAX | REG_RCX | REG_RSP | REG_RIP | REG_EFL | REG_CSGSFS |
  REG_ERR | REG_TRAPNO | REG_OLDMASK | REG_CR2

type_synonym ucontext_t = "greg \<Rightarrow> u64"

record siginfo_t =
  si_signo :: i32
  si_errno :: i32
  si_code :: i32
  si_addr :: u64

definition SIGILL :: i32 where "SIGILL = 4"
definition SIGFPE :: i32 where "SIGFPE = 8"
definition SIGSEGV :: i32 where "SIGSEGV = 11"
definition SEGV_MAPERR :: i32 where "SEGV_MAPERR = 1"
definition SEGV_ACCERR :: i32 where "SEGV_ACCERR = 2"
definition LT_ST_PINNED :: nat where "LT_ST_PINNED = 10"

text \<open>
  The handler the application has installed is an argument: a function of the signal
  information, the register context and the state. The context starts with what is on the stack.
\<close>

type_synonym sig_handler = "siginfo_t \<Rightarrow> ucontext_t \<Rightarrow> exst \<Rightarrow> ucontext_t \<times> exst"

definition to_ucontext :: "gprsgx_t \<Rightarrow> ucontext_t \<Rightarrow> ucontext_t" where
  "to_ucontext regs u = u(REG_RDI := rdi regs, REG_RSI := rsi regs, REG_RDX := rdx regs, REG_RCX := rcx regs,
     REG_RAX := rax regs, REG_RSP := rsp regs, REG_RBP := rbp regs, REG_RIP := rip regs,
     REG_R8 := r8 regs, REG_R9 := r9 regs, REG_R10 := r10 regs, REG_R11 := r11 regs,
     REG_R12 := r12 regs, REG_R13 := r13 regs, REG_R14 := r14 regs, REG_R15 := r15 regs)"

definition from_ucontext :: "ucontext_t \<Rightarrow> gprsgx_t \<Rightarrow> gprsgx_t" where
  "from_ucontext u regs = regs\<lparr>rdi := u REG_RDI, rsi := u REG_RSI, rdx := u REG_RDX, rcx := u REG_RCX,
     rax := u REG_RAX, rsp := u REG_RSP, rbp := u REG_RBP, rip := u REG_RIP,
     r8 := u REG_R8, r9 := u REG_R9, r10 := u REG_R10, r11 := u REG_R11,
     r12 := u REG_R12, r13 := u REG_R13, r14 := u REG_R14, r15 := u REG_R15\<rparr>"

definition handle_sigsegv :: "sig_handler \<Rightarrow> ucontext_t \<Rightarrow> siginfo_t \<Rightarrow> gprsgx_t \<Rightarrow> exst \<Rightarrow> gprsgx_t \<times> exst \<times> i32" where
  "handle_sigsegv sigsegv_handler stack arg regs s =
     (let si = \<lparr>si_signo = si_signo arg, si_errno = 0, si_code = si_code arg, si_addr = si_addr arg\<rparr>;
          si = (if si_signo si = SIGSEGV \<and> si_addr si = 0 \<and> si_code si = SEGV_ACCERR
                then si\<lparr>si_code := SEGV_MAPERR\<rparr> else si);
          (u, s) = sigsegv_handler si (to_ucontext regs stack) s
      in (from_ucontext u regs, s, 0))"

definition handle_sigfpe :: "sig_handler \<Rightarrow> ucontext_t \<Rightarrow> siginfo_t \<Rightarrow> gprsgx_t \<Rightarrow> exst \<Rightarrow> gprsgx_t \<times> exst \<times> i32" where
  "handle_sigfpe sigfpe_handler stack arg regs s =
     (let si = arg; (u, s) = sigfpe_handler si (to_ucontext regs stack) s
      in (from_ucontext u regs, s, 0))"

text \<open>\<open>code\<close> is the memory of the enclave, read at the address of the instruction, low byte first.\<close>

definition opcode_at :: "memory \<Rightarrow> u64 \<Rightarrow> u16" where
  "opcode_at code a = ucast (code a) OR push_bit 8 (ucast (code (a + 1)))"

definition handle_sigill ::
    "outside \<Rightarrow> u32 list \<Rightarrow> u32 list \<Rightarrow> memory \<Rightarrow> u64 \<Rightarrow> gprsgx_t \<Rightarrow> exst \<Rightarrow> (gprsgx_t \<times> exst \<times> i32) option" where
  "handle_sigill host x86_capabilities junk code arg regs s =
     (let opcode = opcode_at code (rip regs)
      in if opcode = 0xa20f then do {
           (regs, s) \<leftarrow> ecall_cpuid host x86_capabilities junk regs s;
           Some (regs, s, 0)
         }
         else if opcode = 0x310f then Some (ecall_rdtsc arg regs, s, 0)
         else Some (regs, s, - 1))"

text \<open>
  What the handler finds: the cached feature words, old contents of the stack, the code of the
  enclave, the application's handlers, and the host's signal information behind a pointer. The
  argument of a signal is such a pointer, or the time stamp for an illegal instruction.
\<close>

record enclave_env =
  e_caps :: "u32 list"
  e_junk :: "u32 list"
  e_stack :: ucontext_t
  e_code :: memory
  e_sigsegv :: sig_handler
  e_sigfpe :: sig_handler
  e_siginfo :: "u64 \<Rightarrow> siginfo_t"

definition dispatch_signal ::
    "enclave_env \<Rightarrow> outside \<Rightarrow> i32 \<Rightarrow> u64 \<Rightarrow> gprsgx_t \<Rightarrow> exst \<Rightarrow> (gprsgx_t \<times> exst \<times> i32) option" where
  "dispatch_signal env host signum arg regs s =
     (if signum = SIGSEGV then Some (handle_sigsegv (e_sigsegv env) (e_stack env) (e_siginfo env arg) regs s)
      else if signum = SIGILL then handle_sigill host (e_caps env) (e_junk env) (e_code env) arg regs s
      else if signum = SIGFPE then Some (handle_sigfpe (e_sigfpe env) (e_stack env) (e_siginfo env arg) regs s)
      else Some (regs, s, - 1))"

definition enclave_signal_handler ::
    "enclave_env \<Rightarrow> outside \<Rightarrow> i32 \<Rightarrow> u64 \<Rightarrow> gprsgx_t \<Rightarrow> exst \<Rightarrow> (exit_call \<times> gprsgx_t \<times> exst) option" where
  "enclave_signal_handler env host signum arg regs s =
     (let s = set_eh_handling 1 s;
          lt_old_state = lt_attr s;
          s = s\<lparr>lt_attr := lt_attr s OR BIT LT_ST_PINNED\<rparr>
      in do {
        (regs, s, ret) \<leftarrow> dispatch_signal env host signum arg regs s;
        let s = s\<lparr>lt_attr := lt_old_state\<rparr>;
        let (x, s) =
          (if ret \<noteq> 0 then exit_enclave SGXLKL_EXIT_TERMINATE (- 1) (get_exit_address s) UNUSED s
           else exit_enclave SGXLKL_EXIT_DORESUME 0 (p_eh_exit_addr (parms s)) UNUSED s);
        Some (x, regs, s)
      })"

section \<open>What an exception does\<close>

lemma opcode_at_eq: "opcode_at code a = 0x310f \<longleftrightarrow> code a = 0x0f \<and> code (a + 1) = 0x31"
  "opcode_at code a = 0xa20f \<longleftrightarrow> code a = 0x0f \<and> code (a + 1) = 0xa2"
proof -
  have "opcode_at code a = ucast (l :: u8) OR push_bit 8 (ucast (h :: u8)) \<longleftrightarrow> code a = l \<and> code (a + 1) = h" for l h
  proof
    assume eq: "opcode_at code a = ucast l OR push_bit 8 (ucast h)"
    have "code a = l" 
    proof (rule bit_word_eqI)
      fix n assume "n < LENGTH(8)"
      then show "bit (code a) n = bit l n"
        using arg_cong [OF eq, of "\<lambda>w. bit w n"] by (simp add: opcode_at_def bit_simps)
    qed
    moreover have "code (a + 1) = h"
    proof (rule bit_word_eqI)
      fix n assume "n < LENGTH(8)"
      then show "bit (code (a + 1)) n = bit h n"
        using arg_cong [OF eq, of "\<lambda>w. bit w (n + 8)"] by (auto simp: opcode_at_def bit_simps dest: bit_imp_le_length)
    qed
    ultimately show "code a = l \<and> code (a + 1) = h" ..
  qed (simp add: opcode_at_def)
  from this [of "0x0f" "0x31"] this [of "0x0f" "0xa2"]
  show "opcode_at code a = 0x310f \<longleftrightarrow> code a = 0x0f \<and> code (a + 1) = 0x31"
    "opcode_at code a = 0xa20f \<longleftrightarrow> code a = 0x0f \<and> code (a + 1) = 0xa2" by simp_all
qed

lemma exit_while_handling:
  assumes "p_eh_handling (parms s) \<noteq> 0"
  shows "exit_enclave a b addr st s =
    (\<lparr>xrdi = a, xrsi = b, xrsp = p_eh_ursp (parms s), xrbp = p_eh_urbp (parms s), xaddr = addr\<rparr>,
     s\<lparr>parms := (parms s)\<lparr>p_thread_state := st, p_eh_handling := 0\<rparr>\<rparr>)"
  using assms
  by (simp add: exit_enclave_def Let_def set_thread_state_def set_eh_handling_def get_eh_handling_def get_ursp_def get_urbp_def)

lemma ocall_cpuid_ignores_host:
  assumes "amem (harena (xh s)) + allocated (harena (xh s)) \<noteq> 0"
  obtains s' where "ocall_cpuid host (Some rq) s = Some (Some rq, s')" "lt_attr s' = lt_attr s"
    "parms s' = (parms s)\<lparr>p_thread_state := ACTIVE\<rparr>"
  using assms by (simp add: ocall_cpuid_def arena_alloc_def Let_def leave_enclave_def set_thread_state_def)

lemma ecall_rdtsc_halves:
  "ecall_rdtsc ts regs = regs\<lparr>rax := take_bit 32 ts, rdx := drop_bit 32 ts, rip := rip regs + 2\<rparr>"
proof -
  have "ts AND 0xffffffff = take_bit 32 ts" by (simp add: take_bit_eq_mask mask_eq_exp_minus_1)
  moreover have "drop_bit 32 (ts AND NOT 0xffffffff) = drop_bit 32 ts"
  proof -
    have m: "(0xffffffff :: u64) = mask 32" by (simp add: mask_eq_exp_minus_1)
    show ?thesis unfolding m by (rule bit_word_eqI) (auto simp: bit_simps dest: bit_imp_le_length)
  qed
  ultimately show ?thesis by (simp add: ecall_rdtsc_def Let_def)
qed

lemma small_word_bits:
  assumes "(x :: u64) < 2 ^ 32" "32 \<le> n"
  shows "\<not> bit x n"
proof -
  have "unat x < 2 ^ 32" using assms(1) by (simp add: word_less_nat_alt)
  then have "unat (take_bit 32 x) = unat x" unfolding unsigned_take_bit_eq by (simp add: take_bit_nat_eq_self)
  then have "take_bit 32 x = x" unfolding word_unat_eq_iff .
  then show ?thesis using assms(2) by (metis bit_take_bit_iff linorder_not_less)
qed

lemma stamp_halves:
  assumes "low < 2 ^ 32" "high < 2 ^ 32"
  shows "take_bit 32 (sgx_sigill_handler low high) = low" "drop_bit 32 (sgx_sigill_handler low high) = high"
proof -
  note sm = small_word_bits [OF assms(1)] small_word_bits [OF assms(2)]
  have "push_bit 32 high AND low = 0" by (rule bit_word_eqI) (auto simp: bit_simps sm)
  then have e: "sgx_sigill_handler low high = push_bit 32 high OR low"
    unfolding sgx_sigill_handler_def by (rule disjunctive_add_eq_or)
  show "take_bit 32 (sgx_sigill_handler low high) = low" "drop_bit 32 (sgx_sigill_handler low high) = high"
    unfolding e by (rule bit_word_eqI, use sm linorder_not_less in \<open>auto simp: bit_simps dest: bit_imp_le_length\<close>)+
qed

text \<open>CPUID as the code answers it.\<close>

definition cpuid_answer :: "enclave_env \<Rightarrow> gprsgx_t \<Rightarrow> gprsgx_t" where
  "cpuid_answer env regs =
     (if take_bit 32 (rax regs) = 7 \<and> take_bit 32 (rcx regs) = 0
      then regs\<lparr>rax := 0, rbx := ucast (e_caps env ! 9), rcx := ucast (e_caps env ! 16), rdx := ucast (e_caps env ! 18),
             rip := rip regs + 2\<rparr>
      else regs\<lparr>rax := take_bit 32 (rax regs), rbx := ucast (e_junk env ! 1), rcx := take_bit 32 (rcx regs),
             rdx := (if take_bit 32 (rax regs) = 1 then unset_bit 4 (ucast (e_junk env ! 3)) else ucast (e_junk env ! 3)),
             rip := rip regs + 2\<rparr>)"

lemma ucast_u32_inj: "(ucast (x :: u32) :: u64) = ucast y \<longleftrightarrow> x = y"
proof
  assume e: "(ucast x :: u64) = ucast y"
  show "x = y"
  proof (rule bit_word_eqI)
    fix n assume "n < LENGTH(32)"
    then show "bit x n = bit y n" using arg_cong [OF e, of "\<lambda>w. bit w n"] by (simp add: bit_simps)
  qed
qed simp

lemma ucast_u32: "ucast (ucast (x :: u64) :: u32) = take_bit 32 x" 
  "(ucast x :: u32) = 1 \<longleftrightarrow> take_bit 32 x = 1" "(ucast x :: u32) = 7 \<longleftrightarrow> take_bit 32 x = 7"
  "(ucast x :: u32) = 0 \<longleftrightarrow> take_bit 32 x = 0"
proof -
  show t: "ucast (ucast (x :: u64) :: u32) = take_bit 32 x"
    by (rule bit_word_eqI) (auto simp: bit_simps)
  have "(ucast x :: u32) = y \<longleftrightarrow> take_bit 32 x = ucast y" for y :: u32
    unfolding t [symmetric] by (simp add: ucast_u32_inj)
  from this [of 1] this [of 7] this [of 0]
  show "(ucast x :: u32) = 1 \<longleftrightarrow> take_bit 32 x = 1" "(ucast x :: u32) = 7 \<longleftrightarrow> take_bit 32 x = 7"
  "(ucast x :: u32) = 0 \<longleftrightarrow> take_bit 32 x = 0" by simp_all
qed

lemma ecall_cpuid_result:
  assumes "length (e_junk env) = 4" and "amem (harena (xh s)) + allocated (harena (xh s)) \<noteq> 0"
  obtains s' k where "ecall_cpuid host (e_caps env) (e_junk env) regs s = Some (cpuid_answer env regs, s')"
    "parms s' = (parms s)\<lparr>p_thread_state := k\<rparr>"
proof -
  let ?rq = "(e_junk env)[0 := ucast (rax regs), 2 := ucast (rcx regs)]"
  obtain t where t: "ocall_cpuid host (Some ?rq) s = Some (Some ?rq, t)" "lt_attr t = lt_attr s"
    "parms t = (parms s)\<lparr>p_thread_state := ACTIVE\<rparr>"
    using ocall_cpuid_ignores_host [OF assms(2)] by metis
  have m: "x AND - 17 = unset_bit 4 x" for x :: u64 by (simp add: unset_bit_eq_and_not)
  show ?thesis
  proof (cases "take_bit 32 (rax regs) = 7 \<and> take_bit 32 (rcx regs) = 0")
    case True
    then show ?thesis using that [of s "p_thread_state (parms s)"] assms(1)
      by (simp add: ecall_cpuid_def cpuid_answer_def ucast_u32)
  next
    case False
    then have "ecall_cpuid host (e_caps env) (e_junk env) regs s = Some (cpuid_answer env regs, t)"
      unfolding ecall_cpuid_def cpuid_answer_def Let_def using assms(1) t(1) by (auto simp: ucast_u32 m)
    then show ?thesis using that t by simp
  qed
qed


text \<open>The bytes of the two instructions that are emulated.\<close>

abbreviation cpuid_insn :: "memory \<Rightarrow> u64 \<Rightarrow> bool" where
  "cpuid_insn code a \<equiv> code a = 0x0f \<and> code (a + 1) = 0xa2"

abbreviation rdtsc_insn :: "memory \<Rightarrow> u64 \<Rightarrow> bool" where
  "rdtsc_insn code a \<equiv> code a = 0x0f \<and> code (a + 1) = 0x31"

text \<open>The registers after an exception, \<open>None\<close> when the enclave is terminated.\<close>

definition segv_info :: "siginfo_t \<Rightarrow> siginfo_t" where
  "segv_info info = info\<lparr>si_errno := 0,
     si_code := (if si_signo info = SIGSEGV \<and> si_addr info = 0 \<and> si_code info = SEGV_ACCERR then SEGV_MAPERR else si_code info)\<rparr>"

definition exception_effect :: "enclave_env \<Rightarrow> i32 \<Rightarrow> u64 \<Rightarrow> gprsgx_t \<Rightarrow> exst \<Rightarrow> gprsgx_t option" where
  "exception_effect env signum arg regs s =
     (let info = e_siginfo env arg; u = to_ucontext regs (e_stack env)
      in if signum = SIGSEGV then Some (from_ucontext (fst (e_sigsegv env (segv_info info) u s)) regs)
         else if signum = SIGFPE then Some (from_ucontext (fst (e_sigfpe env info u s)) regs)
         else if signum = SIGILL \<and> rdtsc_insn (e_code env) (rip regs) then
           Some (regs\<lparr>rax := take_bit 32 arg, rdx := drop_bit 32 arg, rip := rip regs + 2\<rparr>)
         else if signum = SIGILL \<and> cpuid_insn (e_code env) (rip regs) then Some (cpuid_answer env regs)
         else None)"

lemma handle_sigsegv_eq: "handle_sigsegv h stack arg regs s =
   (let r = h (segv_info arg) (to_ucontext regs stack) s in (from_ucontext (fst r) regs, snd r, 0))"
  by (cases arg) (auto simp: handle_sigsegv_def segv_info_def Let_def split: prod.splits)

lemma dispatch_result:
  assumes keeps: "\<And>si u s. parms (snd (e_sigsegv env si u s)) = parms s" "\<And>si u s. parms (snd (e_sigfpe env si u s)) = parms s"
    and mem: "length (e_junk env) = 4" "amem (harena (xh s)) + allocated (harena (xh s)) \<noteq> 0"
  obtains t k where "dispatch_signal env host signum arg regs s = Some (case exception_effect env signum arg regs s of None \<Rightarrow> (regs, t, - 1) | Some r \<Rightarrow> (r, t, 0))"
    "parms t = (parms s)\<lparr>p_thread_state := k\<rparr>"
proof -
  note sigs = SIGSEGV_def SIGILL_def SIGFPE_def
  note defs = dispatch_signal_def exception_effect_def Let_def
  consider (segv) "signum = SIGSEGV" | (fpe) "signum = SIGFPE" | (tsc) "signum = SIGILL" "rdtsc_insn (e_code env) (rip regs)"
    | (cpuid) "signum = SIGILL" "cpuid_insn (e_code env) (rip regs)" | (other) "signum = SIGILL" "\<not> rdtsc_insn (e_code env) (rip regs)" "\<not> cpuid_insn (e_code env) (rip regs)"
    | (none) "signum \<notin> {SIGSEGV, SIGFPE, SIGILL}" by auto
  then show ?thesis
  proof cases
    case segv
    show ?thesis
      using that [of "snd (e_sigsegv env (segv_info (e_siginfo env arg)) (to_ucontext regs (e_stack env)) s)" "p_thread_state (parms s)"]
        keeps(1) segv by (simp add: defs handle_sigsegv_eq)
  next
    case fpe
    show ?thesis
      using that [of "snd (e_sigfpe env (e_siginfo env arg) (to_ucontext regs (e_stack env)) s)" "p_thread_state (parms s)"]
        keeps(2) fpe by (simp add: defs sigs handle_sigfpe_def split: prod.splits)
  next
    case tsc
    then show ?thesis using that [of s "p_thread_state (parms s)"]
      by (simp add: defs sigs handle_sigill_def opcode_at_eq ecall_rdtsc_halves)
  next
    case cpuid
    obtain t k where "ecall_cpuid host (e_caps env) (e_junk env) regs s = Some (cpuid_answer env regs, t)"
      "parms t = (parms s)\<lparr>p_thread_state := k\<rparr>" using ecall_cpuid_result [OF mem] by metis
    then show ?thesis using that [of t k] cpuid by (simp add: defs sigs handle_sigill_def opcode_at_eq)
  next
    case other
    then show ?thesis using that [of s "p_thread_state (parms s)"] by (auto simp: defs sigs handle_sigill_def opcode_at_eq)
  next
    case none
    then show ?thesis using that [of s "p_thread_state (parms s)"] by (simp add: defs)
  qed
qed

text \<open>
  The registers that a handler of the application sees and may change, with their names in its context, and those it
  cannot change.
\<close>

definition context_regs :: "(greg \<times> (gprsgx_t \<Rightarrow> u64)) list" where
  "context_regs = [(REG_RDI, rdi), (REG_RSI, rsi), (REG_RDX, rdx), (REG_RCX, rcx), (REG_RAX, rax), (REG_RSP, rsp),
     (REG_RBP, rbp), (REG_RIP, rip), (REG_R8, r8), (REG_R9, r9), (REG_R10, r10), (REG_R11, r11), (REG_R12, r12),
     (REG_R13, r13), (REG_R14, r14), (REG_R15, r15)]"

definition other_regs :: "(gprsgx_t \<Rightarrow> u64) list" where
  "other_regs = [rbx, rflags, ursp, urbp, fsbase, gsbase]"

text \<open>A handler is called on a context with the thread's registers and what it leaves there is taken over.\<close>

definition handled_by :: "sig_handler \<Rightarrow> siginfo_t \<Rightarrow> exst \<Rightarrow> gprsgx_t \<Rightarrow> gprsgx_t \<Rightarrow> bool" where
  "handled_by h info st regs regs' \<longleftrightarrow>
     (\<exists>u. (\<forall>(g, f) \<in> set context_regs. u g = f regs \<and> f regs' = fst (h info u st) g) \<and>
       (\<forall>f \<in> set other_regs. f regs' = f regs) \<and> exitinfo regs' = exitinfo regs \<and> reserved regs' = reserved regs)"

text \<open>\<open>CPUID\<close> is skipped, changes only its four result registers, and has the cached answer for leaf 7.\<close>

definition cpuid_emulated :: "enclave_env \<Rightarrow> gprsgx_t \<Rightarrow> gprsgx_t \<Rightarrow> bool" where
  "cpuid_emulated env regs regs' \<longleftrightarrow>
     (\<exists>a b c d. regs' = regs\<lparr>rax := a, rbx := b, rcx := c, rdx := d, rip := rip regs + 2\<rparr> \<and>
       (take_bit 32 (rax regs) = 7 \<and> take_bit 32 (rcx regs) = 0 \<longrightarrow>
          a = 0 \<and> b = ucast (e_caps env ! 9) \<and> c = ucast (e_caps env ! 16) \<and> d = ucast (e_caps env ! 18)))"

lemma cpuid_answer_emulated: "cpuid_emulated env regs (cpuid_answer env regs)"
  by (auto simp: cpuid_emulated_def cpuid_answer_def)

lemma handled_by_contexts: "handled_by h info st regs (from_ucontext (fst (h info (to_ucontext regs stack) st)) regs)"
  unfolding handled_by_def
  by (rule exI [of _ "to_ucontext regs stack"]) (simp add: context_regs_def other_regs_def to_ucontext_def from_ucontext_def)

text \<open>
  C9: what an exception does to the interrupted thread. Whatever the host does to the shared memory
  meanwhile, the handler ends, on the host's exception stack and exit address, with the enclave
  parameters as before except that the exception is over and the entry is closed, and with the
  thread no longer pinned than before. It resumes the thread exactly when the application has a
  say (faults) or the instruction is \<open>RDTSC\<close> or \<open>CPUID\<close>. After a fault each of the sixteen registers of the context is what the
  application's handler left there, which it was called with the thread's own values of, and the other registers are untouched. After
  \<open>RDTSC\<close> \<open>rdx\<close> and \<open>rax\<close> hold the halves of the 64 bit time stamp the host took; after \<open>CPUID\<close> of leaf 7 the four
  result registers hold the cached feature words. These instructions are skipped and no other register changes.
  Otherwise the enclave terminates with the registers untouched. For the other leaves of \<open>CPUID\<close> nothing is said here about the four
  result registers.
\<close>

theorem exceptions_exact:
  assumes "\<And>si u s. parms (snd (e_sigsegv env si u s)) = parms s" and "\<And>si u s. parms (snd (e_sigfpe env si u s)) = parms s"
    and "length (e_junk env) = 4" and "amem (harena (xh s)) + allocated (harena (xh s)) \<noteq> 0"
    and "low < 2 ^ 32" and "high < 2 ^ 32"
  shows "\<exists>x regs' s' st. enclave_signal_handler env host signum (if signum = SIGILL then sgx_sigill_handler low high else arg) regs s =
      Some (x, regs', s') \<and>
    xrsp x = p_eh_ursp (parms s) \<and> xrbp x = p_eh_urbp (parms s) \<and> xaddr x = p_eh_exit_addr (parms s) \<and>
    parms s' = (parms s)\<lparr>p_eh_handling := 0, p_thread_state := UNUSED\<rparr> \<and> lt_attr s' = lt_attr s \<and>
    st = s\<lparr>parms := (parms s)\<lparr>p_eh_handling := 1\<rparr>, lt_attr := lt_attr s OR BIT LT_ST_PINNED\<rparr> \<and>
    (if signum = SIGSEGV then xrdi x = SGXLKL_EXIT_DORESUME \<and>
       handled_by (e_sigsegv env) (segv_info (e_siginfo env arg)) st regs regs'
     else if signum = SIGFPE then xrdi x = SGXLKL_EXIT_DORESUME \<and>
       handled_by (e_sigfpe env) (e_siginfo env arg) st regs regs'
     else if signum = SIGILL \<and> rdtsc_insn (e_code env) (rip regs)
       then xrdi x = SGXLKL_EXIT_DORESUME \<and> regs' = regs\<lparr>rax := low, rdx := high, rip := rip regs + 2\<rparr>
     else if signum = SIGILL \<and> cpuid_insn (e_code env) (rip regs)
       then xrdi x = SGXLKL_EXIT_DORESUME \<and> cpuid_emulated env regs regs'
     else xrdi x = SGXLKL_EXIT_TERMINATE \<and> xrsi x = - 1 \<and> regs' = regs)"
proof -
  define ar where "ar = (if signum = SIGILL then sgx_sigill_handler low high else arg)"
  define st where "st = s\<lparr>parms := (parms s)\<lparr>p_eh_handling := 1\<rparr>, lt_attr := lt_attr s OR BIT LT_ST_PINNED\<rparr>"
  have st: "(set_eh_handling 1 s)\<lparr>lt_attr := lt_attr s OR BIT LT_ST_PINNED\<rparr> = st" "lt_attr (set_eh_handling 1 s) = lt_attr s"
    "amem (harena (xh st)) + allocated (harena (xh st)) \<noteq> 0"
    using assms(4) by (simp_all add: set_eh_handling_def st_def)
  obtain t k where t: "dispatch_signal env host signum ar regs st =
      Some (case exception_effect env signum ar regs st of None \<Rightarrow> (regs, t, - 1) | Some r \<Rightarrow> (r, t, 0))"
    and k: "parms t = (parms st)\<lparr>p_thread_state := k\<rparr>"
    using dispatch_result [OF assms(1-3) st(3)] by metis
  have p: "p_eh_handling (parms t) \<noteq> 0" "p_eh_ursp (parms t) = p_eh_ursp (parms s)" "p_eh_urbp (parms t) = p_eh_urbp (parms s)"
    "p_eh_exit_addr (parms t) = p_eh_exit_addr (parms s)"
    "(parms t)\<lparr>p_thread_state := UNUSED, p_eh_handling := 0\<rparr> = (parms s)\<lparr>p_eh_handling := 0, p_thread_state := UNUSED\<rparr>"
    unfolding k by (simp_all add: st_def)
  have run: "enclave_signal_handler env host signum ar regs s = 
    (case exception_effect env signum ar regs st of
       None \<Rightarrow> Some (\<lparr>xrdi = SGXLKL_EXIT_TERMINATE, xrsi = - 1, xrsp = p_eh_ursp (parms s), xrbp = p_eh_urbp (parms s), xaddr = p_eh_exit_addr (parms s)\<rparr>,
         regs, t\<lparr>lt_attr := lt_attr s, parms := (parms s)\<lparr>p_eh_handling := 0, p_thread_state := UNUSED\<rparr>\<rparr>)
     | Some r \<Rightarrow> Some (\<lparr>xrdi = SGXLKL_EXIT_DORESUME, xrsi = 0, xrsp = p_eh_ursp (parms s), xrbp = p_eh_urbp (parms s), xaddr = p_eh_exit_addr (parms s)\<rparr>,
         r, t\<lparr>lt_attr := lt_attr s, parms := (parms s)\<lparr>p_eh_handling := 0, p_thread_state := UNUSED\<rparr>\<rparr>))"
    unfolding enclave_signal_handler_def Let_def st t
    by (simp add: exit_while_handling p get_exit_address_def split: option.splits)
  show ?thesis
    unfolding ar_def [symmetric] run st_def [symmetric]
    using stamp_halves [OF assms(5,6)] handled_by_contexts cpuid_answer_emulated
    by (cases "exception_effect env signum ar regs st")
      (auto simp: exception_effect_def Let_def ar_def SIGSEGV_def SIGILL_def SIGFPE_def split: if_splits)
qed


definition demo_env :: enclave_env where
  "demo_env = \<lparr>e_caps = replicate 19 0, e_junk = replicate 4 0, e_stack = (\<lambda>_. 0), e_code = (\<lambda>a. if a = 0x1000 then 0x0f else 0x31),
     e_sigsegv = (\<lambda>si u s. (u(REG_RIP := 0x2000), s)), e_sigfpe = (\<lambda>si u s. (u, s)), e_siginfo = (\<lambda>_. \<lparr>si_signo = 11, si_errno = 0, si_code = 1, si_addr = 0\<rparr>)\<rparr>"

definition demo_exst :: exst where
  "demo_exst = \<lparr>parms = \<lparr>p_base = 0, p_heap = 0, p_heap_size = 0, p_exit_addr = 1, p_ursp = 2, p_urbp = 3, p_enclave_size = 0x10000,
       p_thread_state = ACTIVE, p_eh_exit_addr = 4, p_eh_ursp = 5, p_eh_urbp = 6, p_eh_handling = 0\<rparr>, lt_attr = 2,
     xh = \<lparr>hmem = (\<lambda>_. 0), hsc = zero_call, harena = \<lparr>amem = 0x80000, asize = 4096, allocated = 0\<rparr>, hsync = False\<rparr>\<rparr>"

definition demo_regs :: gprsgx_t where
  "demo_regs = \<lparr>rax = 0, rcx = 0, rdx = 0, rbx = 7, rsp = 0, rbp = 0, rsi = 0, rdi = 0, r8 = 0, r9 = 0, r10 = 0, r11 = 0, r12 = 0,
     r13 = 0, r14 = 0, r15 = 0, rflags = 0, rip = 0x1000, ursp = 0, urbp = 0, exitinfo = 0, reserved = 0, fsbase = 0, gsbase = 0\<rparr>"

theorem exceptions_exact_witness:
  "\<exists>x s'. enclave_signal_handler demo_env (\<lambda>x m. m) SIGILL (sgx_sigill_handler 5 6) demo_regs demo_exst =
     Some (x, demo_regs\<lparr>rax := 5, rdx := 6, rip := 0x1002\<rparr>, s') \<and> xrdi x = SGXLKL_EXIT_DORESUME \<and> lt_attr s' = 2"
  using exceptions_exact [of demo_env demo_exst 5 6 "\<lambda>x m. m" SIGILL 0 demo_regs]
  by (simp add: demo_env_def demo_exst_def demo_regs_def SIGILL_def SIGSEGV_def SIGFPE_def) auto

end
