(* ===== verification/Enclave_Config.thy ===== *)
theory Enclave_Config
  imports Enclave_Exceptions
begin

text \<open>
  The configuration the host hands to the enclave and its examination,
  \<open>enclave_config_copy_and_check\<close> of \<^verbatim>\<open>src/sgx/sgx_enclave_config.c\<close>. The configuration has
  pointers the host has chosen; \<open>m\<close> is the memory they point into. A copy the enclave makes of
  a string is given by its bytes, with \<open>None\<close> for a null pointer, so the record of configurations
  has the type of strings and the type of the peer array as parameters; \<open>other\<close> stands for all the
  fields that are copied as they are. \<open>malloc_ok k\<close> says whether the allocation at the \<open>k\<close>-th place
  of the code succeeds.
\<close>

section \<open>Configuration\<close>

record 'str enclave_wg_peer_config =
  pc_key :: 'str
  pc_allowed_ips :: 'str
  pc_endpoint :: 'str


type_synonym cstring = "u8 list option"

text \<open>
  A run of the examination ends with a result, leaves the enclave for good with an error, stops at
  an access to memory that is not there (a null pointer, a string without end), or writes behind
  the memory it has allocated.
\<close>

datatype 'a outcome = Ok 'a | Exits exit_call | Fault | Overrun

fun and_then :: "'a outcome \<Rightarrow> ('a \<Rightarrow> 'b outcome) \<Rightarrow> 'b outcome" where
  "and_then (Ok a) f = f a"
| "and_then (Exits x) f = Exits x"
| "and_then Fault f = Fault"
| "and_then Overrun f = Overrun"

section \<open>The code\<close>

definition in_enclave_range :: "exst \<Rightarrow> u64 \<Rightarrow> u64 \<Rightarrow> bool" where
  "in_enclave_range s addr len =
     (let encl_start = p_base (parms s); encl_end = encl_start + p_enclave_size (parms s)
      in encl_start \<le> addr \<and> addr + len < encl_end)"

definition enclave_config_fail :: "exst \<Rightarrow> 'a outcome" where
  "enclave_config_fail s =
     Exits (fst (exit_enclave SGXLKL_EXIT_ERROR SGXLKL_CONFIG_ASSERT_VIOLATION (get_exit_address s) UNUSED s))"

partial_function (option) strlen_from :: "memory \<Rightarrow> u64 \<Rightarrow> u64 \<Rightarrow> u64 option" where
  "strlen_from m p n = (if m (p + n) = 0 then Some n else strlen_from m p (n + 1))"

definition bytes_of :: "memory \<Rightarrow> u64 \<Rightarrow> nat \<Rightarrow> u8 list" where
  "bytes_of m p n = map (\<lambda>i. m (p + of_nat i)) [0..<n]"

text \<open>\<open>strndup (s, n)\<close> copies up to the first NUL, at most \<open>n\<close> characters.\<close>

definition strndup :: "memory \<Rightarrow> u64 \<Rightarrow> u64 \<Rightarrow> u8 list" where
  "strndup m p n = takeWhile (\<lambda>c. c \<noteq> 0) (bytes_of m p (unat n))"

definition enclave_safe_str_copy :: "memory \<Rightarrow> exst \<Rightarrow> bool \<Rightarrow> u64 \<Rightarrow> cstring outcome" where
  "enclave_safe_str_copy m s malloc_ok p =
     (if p \<noteq> 0
      then case strlen_from m p 0 of
             None \<Rightarrow> Fault
           | Some s_len \<Rightarrow>
               if in_enclave_range s p s_len then enclave_config_fail s
               else if \<not> malloc_ok then enclave_config_fail s
               else Ok (Some (strndup m p (s_len + 1)))
      else Ok None)"

text \<open>
  The loop over the peers: \<open>room\<close> is the number of bytes allocated for the copies, \<open>i\<close> the
  counter, an \<open>int\<close>.
\<close>

function peers_loop :: "memory \<Rightarrow> exst \<Rightarrow> (nat \<Rightarrow> bool) \<Rightarrow> u64 \<Rightarrow> nat \<Rightarrow> nat \<Rightarrow> nat \<Rightarrow> cstring enclave_wg_peer_config list outcome" where
  "peers_loop m s malloc_ok peers num_peers room i =
     (if i \<ge> num_peers then Ok []
      else if i \<ge> 2 ^ 31 \<or> 24 * (i + 1) > room then Overrun
      else
        let peer = peers + of_nat (24 * i)
        in and_then (enclave_safe_str_copy m s (malloc_ok (5 + 3 * i)) (load64 m peer)) (\<lambda>key.
           and_then (enclave_safe_str_copy m s (malloc_ok (6 + 3 * i)) (load64 m (peer + 8))) (\<lambda>ips.
           and_then (enclave_safe_str_copy m s (malloc_ok (7 + 3 * i)) (load64 m (peer + 16))) (\<lambda>endpoint.
           and_then (peers_loop m s malloc_ok peers num_peers room (i + 1)) (\<lambda>rest.
           Ok (\<lparr>pc_key = key, pc_allowed_ips = ips, pc_endpoint = endpoint\<rparr> # rest))))))"
  by auto
termination by (relation "measure (\<lambda>(m, s, ok, p, num, room, i). num - i)") auto

declare peers_loop.simps [simp del]



section \<open>Strings\<close>





section \<open>The examination\<close>

























text \<open>
  Two consequences the comments of the code do not mention: a range that begins below the enclave
  passes however far it reaches into it, and a number of peers whose size overflows makes the
  first copied peer overrun its array.
\<close>

lemma range_below_accepted: "a < p_base (parms s) \<Longrightarrow> \<not> in_enclave_range s a n"
  by (simp add: in_enclave_range_def Let_def not_le)

lemma peers_overrun: "peers_loop m s malloc_ok peers (unat (2 ^ 61 :: u64)) (unat (2 ^ 61 * 24 :: u64)) 0 = Overrun"
  by (subst peers_loop.simps) simp

end
