(* ===== verification/Json_Util.thy ===== *)
theory Json_Util
  imports Sgxlkl_Util
begin

text \<open>
  The traversal of JSON objects, \<^verbatim>\<open>src/shared/json_util.c\<close> with the macro \<open>JSON_OBJECT_FOREACH\<close> of
  \<^verbatim>\<open>src/include/json_util.h\<close>. The JSON library is an argument: a function from a text to the entries of the
  object at its top. It represents the value \<open>null\<close> by a null pointer, here \<open>None\<close>, and a null pointer
  ends the loop of the macro. The callback is a function on the state the code passes to it by reference.
\<close>

fun parse_json :: "('k \<Rightarrow> 'v \<Rightarrow> 's \<Rightarrow> 's \<times> int) \<Rightarrow> ('k \<times> 'v option) list \<Rightarrow> 's \<Rightarrow> 's \<times> int" where
  "parse_json cb [] s = (s, 0)"
| "parse_json cb ((key, None) # entries) s = (s, 0)"
| "parse_json cb ((key, Some v) # entries) s =
     (let (s, retval) = cb key v s in if retval \<noteq> 0 then (s, retval) else parse_json cb entries s)"

definition parse_json_from_str ::
    "(string \<Rightarrow> ('k \<times> 'v option) list option) \<Rightarrow> string \<Rightarrow> ('k \<Rightarrow> 'v \<Rightarrow> 's \<Rightarrow> 's \<times> int) \<Rightarrow> 's \<Rightarrow> 's \<times> int" where
  "parse_json_from_str tokener str cb s =
     (let c = dropWhile isspace str
      in if take 1 c \<noteq> ''{'' then (s, - 1)
         else (case tokener str of
                 None \<Rightarrow> (s, - 1)
               | Some jobj \<Rightarrow> let (s, r) = parse_json cb jobj s in (s, if r \<noteq> 0 then - 1 else 0)))"

text \<open>Entries without \<open>null\<close>.\<close>

definition present :: "('k \<times> 'v) list \<Rightarrow> ('k \<times> 'v option) list" where
  "present es = map (\<lambda>(k, v). (k, Some v)) es"

lemma present_simps [simp]:
  "present [] = []" "present ((k, v) # es) = (k, Some v) # present es" "present (es @ fs) = present es @ present fs"
  by (simp_all add: present_def)

text \<open>What comes after a \<open>null\<close> is passed over in silence.\<close>

lemma null_ends_traversal: "parse_json cb (present es @ (k, None) # rest) s = parse_json cb (present es) s"
proof (induction es arbitrary: s)
  case (Cons e es)
  then show ?case by (cases e) (simp add: Let_def split_beta)
qed simp

text \<open>What holds of the state and is kept by the callback holds at the end.\<close>

lemma parse_json_inv:
  assumes "\<And>k v s. \<lbrakk>(k, v) \<in> set es; I s\<rbrakk> \<Longrightarrow> I (fst (cb k v s))" and "I s"
  shows "I (fst (parse_json cb (present es) s))"
  using assms
proof (induction es arbitrary: s)
  case (Cons e es)
  obtain k v where e: "e = (k, v)" by (cases e)
  have "I (fst (cb k v s))" using Cons.prems by (simp add: e)
  then have "I (fst (parse_json cb (present es) (fst (cb k v s))))" using Cons by auto
  then show ?case using \<open>I (fst (cb k v s))\<close> by (simp add: e split_beta Let_def)
qed simp

text \<open>
  An object with distinct keys, read by a callback that fails on the entries that violate \<open>ok\<close> and otherwise
  implements \<open>g\<close>, which describes the result by looking keys up.
\<close>

lemma parse_object:
  assumes d: "distinct (map fst es)"
    and good: "\<And>k v m. \<lbrakk>(k, v) \<in> set es; ok k v; m k = None\<rbrakk> \<Longrightarrow> cb k v (g m) = (g (m(k \<mapsto> v)), 0)"
    and bad: "\<And>k v s. (k, v) \<in> set es \<Longrightarrow> \<not> ok k v \<Longrightarrow> snd (cb k v s) \<noteq> 0"
  shows "snd (parse_json cb (present es) (g Map.empty)) = 0 \<longleftrightarrow> (\<forall>(k, v)\<in>set es. ok k v)"
    and "(\<forall>(k, v)\<in>set es. ok k v) \<Longrightarrow> parse_json cb (present es) (g Map.empty) = (g (map_of es), 0)"
proof -
  have step: "parse_json cb (present fs) (g m) = (g (m ++ map_of fs), 0)"
    if "set fs \<subseteq> set es" "distinct (map fst fs)" "\<forall>(k, v)\<in>set fs. ok k v" "\<forall>k\<in>fst ` set fs. m k = None" for fs m
    using that
  proof (induction fs arbitrary: m)
    case (Cons e fs)
    obtain k v where e: "e = (k, v)" by (cases e)
    have "map_of fs k = None" using Cons.prems(2) by (simp add: e map_of_eq_None_iff)
    then have eq: "m(k \<mapsto> v) ++ map_of fs = m ++ map_of (e # fs)"
      by (auto simp: e fun_eq_iff map_add_def split: option.splits)
    have "cb k v (g m) = (g (m(k \<mapsto> v)), 0)" by (rule good) (use Cons.prems in \<open>auto simp: e\<close>)
    then have "parse_json cb (present (e # fs)) (g m) = parse_json cb (present fs) (g (m(k \<mapsto> v)))" by (simp add: e)
    also have "\<dots> = (g (m(k \<mapsto> v) ++ map_of fs), 0)" by (rule Cons.IH) (use Cons.prems in \<open>auto simp: e\<close>)
    finally show ?case unfolding eq .
  qed simp
  show *: "parse_json cb (present es) (g Map.empty) = (g (map_of es), 0)" if "\<forall>(k, v)\<in>set es. ok k v"
    using step [of es Map.empty] d that by simp
  have "snd (parse_json cb (present fs) s) \<noteq> 0"
    if "set fs \<subseteq> set es" "\<not> (\<forall>(k, v)\<in>set fs. ok k v)" for fs s
    using that
  proof (induction fs arbitrary: s)
    case (Cons e fs)
    obtain k v where e: "e = (k, v)" by (cases e)
    show ?case
    proof (cases "ok k v")
      case True
      then show ?thesis using Cons by (auto simp: e split_beta Let_def)
    next
      case False
      then show ?thesis using bad Cons.prems(1) by (auto simp: e split_beta Let_def)
    qed
  qed simp
  then show "snd (parse_json cb (present es) (g Map.empty)) = 0 \<longleftrightarrow> (\<forall>(k, v)\<in>set es. ok k v)" using * by fastforce
qed

end
