(* ===== verification/Run_Config.thy ===== *)
theory Run_Config
  imports Json_Util "HOL-Library.Monad_Syntax"
begin

text \<open>
  The options of the launcher, \<^verbatim>\<open>src/main/sgxlkl_config.c\<close>, with the traversal of a parsed
  configuration file of the theory \<open>Json_Util\<close>. Each option has a row in a table with its
  default; a configuration file may set it, and the environment overrides both. The environment
  is an argument. Warnings and error messages are left out; \<open>None\<close> is a failed assertion.
\<close>

section \<open>The table\<close>

datatype opt_type = TYPE_CHAR | TYPE_UINT | TYPE_BOOL | TYPE_JSON

record sgxlkl_config_elem =
  env_key :: string
  json_key :: string
  opt_ty :: opt_type
  def_char :: "string option"
  def_uint_val :: u64
  def_uint_max :: u64
  def_bool :: bool
  configured :: bool
  inited :: bool
  val_uint :: u64
  val_char :: "string option"
  val_bool :: bool

type_synonym options = "sgxlkl_config_elem list"
type_synonym environ = "string \<Rightarrow> string option"

definition opt_row :: "string \<Rightarrow> string \<Rightarrow> opt_type \<Rightarrow> sgxlkl_config_elem" where
  "opt_row env json ty = \<lparr>env_key = env, json_key = json, opt_ty = ty, def_char = None, def_uint_val = 0, def_uint_max = 0, def_bool = False,
     configured = False, inited = False, val_uint = 0, val_char = None, val_bool = False\<rparr>"

definition char_opt :: "string \<Rightarrow> string \<Rightarrow> string option \<Rightarrow> sgxlkl_config_elem" where
  "char_opt env json d = (opt_row env json TYPE_CHAR)\<lparr>def_char := d\<rparr>"

definition json_opt :: "string \<Rightarrow> string \<Rightarrow> string option \<Rightarrow> sgxlkl_config_elem" where
  "json_opt env json d = (opt_row env json TYPE_JSON)\<lparr>def_char := d\<rparr>"

definition uint_opt :: "string \<Rightarrow> string \<Rightarrow> u64 \<Rightarrow> u64 \<Rightarrow> sgxlkl_config_elem" where
  "uint_opt env json d m = (opt_row env json TYPE_UINT)\<lparr>def_uint_val := d, def_uint_max := m\<rparr>"

definition bool_opt :: "string \<Rightarrow> string \<Rightarrow> bool \<Rightarrow> sgxlkl_config_elem" where
  "bool_opt env json d = (opt_row env json TYPE_BOOL)\<lparr>def_bool := d\<rparr>"

text \<open>A default that is given without a maximum has the maximum 0.\<close>

definition sgxlkl_config :: options where
  "sgxlkl_config = [
     json_opt ''SGXLKL_APP_CONFIG'' ''app_config'' None,
     char_opt ''SGXLKL_CMDLINE'' ''cmdline'' (Some ''''),
     char_opt ''SGXLKL_CWD'' ''cwd'' (Some ''/''),
     char_opt ''SGXLKL_DEBUGMOUNT'' ''debugmount'' None,
     char_opt ''SGXLKL_DPDK_IP4'' ''dpdk_ip4'' (Some ''10.0.42.1''),
     char_opt ''SGXLKL_DPDK_GW4'' ''dpdk_gw4'' (Some ''10.0.42.254''),
     uint_opt ''SGXLKL_DPDK_MASK4'' ''dpdk_mask4'' 24 0,
     char_opt ''SGXLKL_DPDK_IP6'' ''dpdk_ip6'' (Some ''fdbf:9188:5fbd:a895::1''),
     char_opt ''SGXLKL_DPDK_GW6'' ''dpdk_gw6'' (Some ''fe80::1''),
     uint_opt ''SGXLKL_DPDK_MASK6'' ''dpdk_mask6'' 64 0,
     uint_opt ''SGXLKL_DPDK_MTU'' ''mtu'' 1500 0,
     bool_opt ''SGXLKL_ENABLE_SGXIO'' ''enable_sgxio'' True,
     uint_opt ''SGXLKL_ESPINS'' ''espins'' 500 0xffffffffffffffff,
     uint_opt ''SGXLKL_ESLEEP'' ''esleep'' 16000 0xffffffffffffffff,
     uint_opt ''SGXLKL_ETHREADS'' ''ethreads'' 1 1024,
     char_opt ''SGXLKL_ETHREADS_AFFINITY'' ''ethreads_affinity'' None,
     bool_opt ''SGXLKL_EXIT_ON_HOST_CALLS'' ''exit_on_host_calls'' False,
     bool_opt ''SGXLKL_GETTIME_VDSO'' ''gettime_vdso'' True,
     char_opt ''SGXLKL_GW4'' ''gw4'' (Some ''10.0.1.254''),
     char_opt ''SGXLKL_HD'' ''hd'' None,
     char_opt ''SGXLKL_HD_KEY'' ''hd_key'' None,
     bool_opt ''SGXLKL_HD_RO'' ''hd_readonly'' False,
     char_opt ''SGXLKL_HDS'' ''hds'' (Some ''''),
     char_opt ''SGXLKL_HD_VERITY'' ''hd_verity'' None,
     char_opt ''SGXLKL_HD_VERITY_OFFSET'' ''hd_verity_offset'' None,
     uint_opt ''SGXLKL_HEAP'' ''heap'' (200 * 1024 * 1024) 0xffffffffffffffff,
     char_opt ''SGXLKL_HOSTNAME'' ''hostname'' (Some ''lkl''),
     bool_opt ''SGXLKL_HOSTNET'' ''hostnet'' False,
     char_opt ''SGXLKL_IAS_CERT'' ''ias_cert'' None,
     char_opt ''SGXLKL_IAS_KEY_FILE'' ''ias_key_file'' None,
     char_opt ''SGXLKL_IAS_QUOTE_TYPE'' ''ias_quote_type'' (Some ''Unlinkable''),
     char_opt ''SGXLKL_IAS_SERVER'' ''ias_server'' (Some ''test-as.sgx.trustedservices.intel.com:443''),
     char_opt ''SGXLKL_IAS_SPID'' ''ias_spid'' None,
     char_opt ''SGXLKL_IP4'' ''ip4'' (Some ''10.0.1.1''),
     bool_opt ''SGXLKL_KERNEL_VERBOSE'' ''kernel_verbose'' False,
     char_opt ''SGXLKL_KEY'' ''key'' None,
     uint_opt ''SGXLKL_MASK4'' ''mask4'' 24 32,
     uint_opt ''SGXLKL_MAX_USER_THREADS'' ''max_user_threads'' 256 65536,
     char_opt ''SGXLKL_MMAP_FILES'' ''mmap_files'' (Some ''None''),
     bool_opt ''SGXLKL_NON_PIE'' ''non_pie'' False,
     bool_opt ''SGXLKL_PRINT_APP_RUNTIME'' ''print_app_runtime'' False,
     bool_opt ''SGXLKL_PRINT_HOST_SYSCALL_STATS'' ''print_host_syscall_stats'' False,
     bool_opt ''SGXLKL_REAL_TIME_PRIO'' ''real_time_prio'' False,
     uint_opt ''SGXLKL_REMOTE_ATTEST_PORT'' ''remote_attest_port'' 56000 65535,
     uint_opt ''SGXLKL_REMOTE_CMD_PORT'' ''remote_cmd_port'' 56001 65535,
     bool_opt ''SGXLKL_REMOTE_CMD_ETH0'' ''remote_cmd_eth0'' False,
     bool_opt ''SGXLKL_REMOTE_CONFIG'' ''remote_config'' False,
     uint_opt ''SGXLKL_REPORT_NONCE'' ''report_nonce'' 0 0xffffffffffffffff,
     char_opt ''SGXLKL_SHMEM_FILE'' ''shmem_file'' None,
     uint_opt ''SGXLKL_SHMEM_SIZE'' ''shmem_size'' 0 (1024 * 1024 * 1024),
     bool_opt ''SGXLKL_SIGPIPE'' ''sigpipe'' False,
     uint_opt ''SGXLKL_SSLEEP'' ''ssleep'' 4000 0xffffffffffffffff,
     uint_opt ''SGXLKL_SSPINS'' ''sspins'' 100 0xffffffffffffffff,
     char_opt ''SGXLKL_SPDK_HD_KEY'' ''spdk_hd_key'' None,
     bool_opt ''SGXLKL_SPDK_SKIP_UNMOUNT'' ''spdk_skip_unmount'' False,
     uint_opt ''SGXLKL_STACK_SIZE'' ''stack_size'' (512 * 1024) 0xffffffffffffffff,
     uint_opt ''SGXLKL_STHREADS'' ''sthreads'' 4 1024,
     char_opt ''SGXLKL_STHREADS_AFFINITY'' ''sthreads_affinity'' None,
     char_opt ''SGXLKL_SYSCTL'' ''sysctl'' None,
     char_opt ''SGXLKL_TAP'' ''tap'' None,
     uint_opt ''SGXLKL_TAP_MTU'' ''tap_mtu'' 0 2147483647,
     bool_opt ''SGXLKL_TAP_OFFLOAD'' ''tap_offload'' False,
     bool_opt ''SGXLKL_TRACE_HOST_SYSCALL'' ''trace_host_syscall'' False,
     bool_opt ''SGXLKL_TRACE_INTERNAL_SYSCALL'' ''trace_internal_syscall'' False,
     bool_opt ''SGXLKL_TRACE_LKL_SYSCALL'' ''trace_lkl_syscall'' False,
     bool_opt ''SGXLKL_TRACE_MMAP'' ''trace_mmap'' False,
     bool_opt ''SGXLKL_TRACE_SYSCALL'' ''trace_syscall'' False,
     bool_opt ''SGXLKL_TRACE_THREAD'' ''trace_thread'' False,
     bool_opt ''SGXLKL_VERBOSE'' ''verbose'' False,
     bool_opt ''SGXLKL_WAIT_ON_HOST_CALLS'' ''wait_on_host_calls'' False,
     bool_opt ''SGXLKL_WAIT_ON_IO_HOST_CALLS'' ''wait_on_io_host_calls'' False,
     char_opt ''SGXLKL_WG_IP'' ''wg_ip'' (Some ''10.0.42.1''),
     uint_opt ''SGXLKL_WG_PORT'' ''wg_port'' 56002 65535,
     char_opt ''SGXLKL_WG_KEY'' ''wg_key'' None,
     char_opt ''SGXLKL_WG_PEERS'' ''wg_peers'' (Some ''''),
     bool_opt ''SGXLKL_X86_ACC'' ''x86_acc'' True,
     bool_opt ''SGXLKL_XTS_PROXY'' ''xts_proxy'' True,
     bool_opt ''SGXLKL_GSO_OFFLOAD'' ''gso_offload'' True,
     bool_opt ''SGXLKL_CHKSUM_OFFLOAD'' ''chksum_offload'' True,
     bool_opt ''SGXLKL_DPDK_ZEROCOPY'' ''dpdk_zerocopy'' True,
     bool_opt ''SGXLKL_SPDK_ZEROCOPY'' ''spdk_zerocopy'' True]"

section \<open>Reading a configuration file\<close>

datatype json_value = J_boolean bool | J_int int | J_string string | J_object string | J_other

definition config_elem_by_key :: "options \<Rightarrow> string \<Rightarrow> nat option" where
  "config_elem_by_key cfg key = find (\<lambda>i. json_key (cfg ! i) = key) [0..<length cfg]"

text \<open>What an entry does to the row it names, \<open>None\<close> for the jumps to \<open>end\<close>.\<close>

definition parse_value :: "environ \<Rightarrow> json_value \<Rightarrow> sgxlkl_config_elem \<Rightarrow> sgxlkl_config_elem option" where
  "parse_value env v ce =
     (case v of
        J_boolean b \<Rightarrow>
          if opt_ty ce \<noteq> TYPE_BOOL then None else Some (ce\<lparr>val_bool := getenv_bool env (env_key ce) b\<rparr>)
      | J_int i \<Rightarrow>
          if opt_ty ce \<noteq> TYPE_UINT then None
          else Some (ce\<lparr>val_uint := getenv_uint64 env (env_key ce) (of_int i) (def_uint_max ce)\<rparr>)
      | J_string s \<Rightarrow>
          if opt_ty ce = TYPE_UINT then
            let val = size_str_to_uint64 s (def_uint_val ce) (def_uint_max ce)
            in Some (ce\<lparr>val_uint := getenv_uint64 env (env_key ce) val (def_uint_max ce)\<rparr>)
          else if opt_ty ce \<noteq> TYPE_CHAR then None
          else Some (ce\<lparr>val_char := getenv_str env (env_key ce) (Some s)\<rparr>)
      | J_object s \<Rightarrow>
          if opt_ty ce \<noteq> TYPE_JSON then None else Some (ce\<lparr>val_char := getenv_str env (env_key ce) (Some s)\<rparr>)
      | J_other \<Rightarrow> Some ce)"

definition parse_sgxlkl_config_entry :: "environ \<Rightarrow> string \<Rightarrow> json_value \<Rightarrow> options \<Rightarrow> options \<times> int" where
  "parse_sgxlkl_config_entry env key v cfg =
     (case config_elem_by_key cfg key of
        None \<Rightarrow> (cfg, 0)
      | Some i \<Rightarrow>
          (case parse_value env v (cfg ! i) of
             None \<Rightarrow> (cfg, 0)
           | Some ce \<Rightarrow> (cfg[i := ce\<lparr>inited := True, configured := True\<rparr>], 0)))"

definition parse_sgxlkl_config_from_str ::
    "(string \<Rightarrow> (string \<times> json_value option) list option) \<Rightarrow> environ \<Rightarrow> string \<Rightarrow> options \<Rightarrow> options \<times> int" where
  "parse_sgxlkl_config_from_str tokener env str cfg = parse_json_from_str tokener str (parse_sgxlkl_config_entry env) cfg"

section \<open>Looking options up\<close>

definition sgxlkl_configured :: "environ \<Rightarrow> nat \<Rightarrow> options \<Rightarrow> bool option" where
  "sgxlkl_configured env opt cfg =
     (if opt < length cfg then Some (configured (cfg ! opt) \<or> env (env_key (cfg ! opt)) \<noteq> None) else None)"

definition sgxlkl_config_bool :: "environ \<Rightarrow> nat \<Rightarrow> options \<Rightarrow> (options \<times> bool) option" where
  "sgxlkl_config_bool env opt_key cfg =
     (if opt_key < length cfg \<and> opt_ty (cfg ! opt_key) = TYPE_BOOL
      then let opt = cfg ! opt_key
           in if inited opt then Some (cfg, val_bool opt)
              else let v = getenv_bool env (env_key opt) (def_bool opt)
                   in Some (cfg[opt_key := opt\<lparr>val_bool := v, inited := True\<rparr>], v)
      else None)"

definition sgxlkl_config_uint64 :: "environ \<Rightarrow> nat \<Rightarrow> options \<Rightarrow> (options \<times> u64) option" where
  "sgxlkl_config_uint64 env opt_key cfg =
     (if opt_key < length cfg \<and> opt_ty (cfg ! opt_key) = TYPE_UINT
      then let opt = cfg ! opt_key
           in if inited opt then Some (cfg, val_uint opt)
              else let v = getenv_uint64 env (env_key opt) (def_uint_val opt) (def_uint_max opt)
                   in Some (cfg[opt_key := opt\<lparr>val_uint := v, inited := True\<rparr>], v)
      else None)"

definition sgxlkl_config_str :: "environ \<Rightarrow> nat \<Rightarrow> options \<Rightarrow> (options \<times> string option) option" where
  "sgxlkl_config_str env opt_key cfg =
     (if opt_key < length cfg \<and> (opt_ty (cfg ! opt_key) = TYPE_CHAR \<or> opt_ty (cfg ! opt_key) = TYPE_JSON)
      then let opt = cfg ! opt_key
           in if inited opt then Some (cfg, val_char opt)
              else let v = getenv_str env (env_key opt) (def_char opt)
                   in Some (cfg[opt_key := opt\<lparr>val_char := v, inited := True\<rparr>], v)
      else None)"

section \<open>The value of an option\<close>

datatype opt_val = V_bool bool | V_uint u64 | V_str "string option"

definition read_option :: "environ \<Rightarrow> nat \<Rightarrow> options \<Rightarrow> (options \<times> opt_val) option" where
  "read_option env i cfg =
     (case opt_ty (cfg ! i) of
        TYPE_BOOL \<Rightarrow> map_option (map_prod id V_bool) (sgxlkl_config_bool env i cfg)
      | TYPE_UINT \<Rightarrow> map_option (map_prod id V_uint) (sgxlkl_config_uint64 env i cfg)
      | _ \<Rightarrow> map_option (map_prod id V_str) (sgxlkl_config_str env i cfg))"

fun run_reads :: "environ \<Rightarrow> nat list \<Rightarrow> options \<Rightarrow> options" where
  "run_reads env [] cfg = cfg"
| "run_reads env (i # is) cfg = run_reads env is (case read_option env i cfg of None \<Rightarrow> cfg | Some (cfg', _) \<Rightarrow> cfg')"

text \<open>
  The value a file gives to an option, if any: that of the last entry with its key and a type that fits. The
  value of the option: the environment, else the file, else the default.
\<close>

fun fits :: "opt_type \<Rightarrow> json_value \<Rightarrow> bool" where
  "fits TYPE_BOOL (J_boolean b) = True"
| "fits TYPE_UINT (J_int i) = True"
| "fits TYPE_UINT (J_string s) = True"
| "fits TYPE_CHAR (J_string s) = True"
| "fits TYPE_JSON (J_object s) = True"
| "fits _ _ = False"

definition file_value :: "sgxlkl_config_elem \<Rightarrow> (string \<times> json_value) list \<Rightarrow> json_value option" where
  "file_value ce entries =
     (let vs = filter (\<lambda>(k, v). k = json_key ce \<and> fits (opt_ty ce) v) entries in if vs = [] then None else Some (snd (last vs)))"

definition file_or_default :: "sgxlkl_config_elem \<Rightarrow> json_value option \<Rightarrow> opt_val" where
  "file_or_default ce fv =
     (case opt_ty ce of
        TYPE_BOOL \<Rightarrow> V_bool (case fv of Some (J_boolean b) \<Rightarrow> b | _ \<Rightarrow> def_bool ce)
      | TYPE_UINT \<Rightarrow> V_uint (case fv of Some (J_int i) \<Rightarrow> of_int i
          | Some (J_string s) \<Rightarrow> size_str_to_uint64 s (def_uint_val ce) (def_uint_max ce) | _ \<Rightarrow> def_uint_val ce)
      | _ \<Rightarrow> V_str (case fv of Some (J_string s) \<Rightarrow> Some s | Some (J_object s) \<Rightarrow> Some s | _ \<Rightarrow> def_char ce))"

definition option_value :: "environ \<Rightarrow> sgxlkl_config_elem \<Rightarrow> json_value option \<Rightarrow> opt_val" where
  "option_value env ce fv =
     (case file_or_default ce fv of
        V_bool b \<Rightarrow> V_bool (getenv_bool env (env_key ce) b)
      | V_uint d \<Rightarrow> V_uint (getenv_uint64 env (env_key ce) d (def_uint_max ce))
      | V_str s \<Rightarrow> V_str (getenv_str env (env_key ce) s))"

definition stored :: "sgxlkl_config_elem \<Rightarrow> opt_val" where
  "stored ce = (case opt_ty ce of TYPE_BOOL \<Rightarrow> V_bool (val_bool ce) | TYPE_UINT \<Rightarrow> V_uint (val_uint ce) | _ \<Rightarrow> V_str (val_char ce))"

section \<open>Invariant\<close>

definition row_ok :: "environ \<Rightarrow> (string \<times> json_value) list \<Rightarrow> sgxlkl_config_elem \<Rightarrow> sgxlkl_config_elem \<Rightarrow> bool" where
  "row_ok env es ce0 ce \<longleftrightarrow>
     (env_key ce, json_key ce, opt_ty ce, def_char ce, def_uint_val ce, def_uint_max ce, def_bool ce) =
       (env_key ce0, json_key ce0, opt_ty ce0, def_char ce0, def_uint_val ce0, def_uint_max ce0, def_bool ce0) \<and>
     configured ce = (file_value ce0 es \<noteq> None) \<and>
     (if inited ce then stored ce = option_value env ce0 (file_value ce0 es) else file_value ce0 es = None)"

definition rows_ok :: "environ \<Rightarrow> (string \<times> json_value) list \<Rightarrow> options \<Rightarrow> bool" where
  "rows_ok env es cfg \<longleftrightarrow> length cfg = length sgxlkl_config \<and> (\<forall>i < length cfg. row_ok env es (sgxlkl_config ! i) (cfg ! i))"

lemma table_keys: "distinct (map json_key sgxlkl_config)"
  by (simp add: sgxlkl_config_def char_opt_def json_opt_def uint_opt_def bool_opt_def opt_row_def)

lemma table_fresh: "list_all (\<lambda>ce. \<not> inited ce \<and> \<not> configured ce) sgxlkl_config"
  by (simp add: sgxlkl_config_def char_opt_def json_opt_def uint_opt_def bool_opt_def opt_row_def)

lemma rows_ok_start: "rows_ok env [] sgxlkl_config"
  using table_fresh by (auto simp: rows_ok_def row_ok_def file_value_def list_all_length)

lemma parse_value_row:
  assumes "row_ok env es ce0 ce" "v \<noteq> J_other"
  shows "parse_value env v ce \<noteq> None \<longleftrightarrow> fits (opt_ty ce0) v"
  using assms by (cases v; cases "opt_ty ce0") (auto simp: parse_value_def row_ok_def Let_def)

lemma parse_value_ok:
  assumes "row_ok env es ce0 ce" "v \<noteq> J_other" "parse_value env v ce = Some ce'"
  shows "row_ok env (es @ [(json_key ce0, v)]) ce0 (ce'\<lparr>inited := True, configured := True\<rparr>)"
proof -
  have f: "fits (opt_ty ce0) v" using parse_value_row [OF assms(1,2)] assms(3) by simp
  then have "file_value ce0 (es @ [(json_key ce0, v)]) = Some v" by (simp add: file_value_def)
  then show ?thesis using assms f
    by (cases v; cases "opt_ty ce0")
      (auto simp: parse_value_def row_ok_def stored_def option_value_def file_or_default_def Let_def split: if_splits)
qed

lemma row_ok_other:
  assumes "row_ok env es ce0 ce" "k \<noteq> json_key ce0 \<or> \<not> fits (opt_ty ce0) v"
  shows "row_ok env (es @ [(k, v)]) ce0 ce"
proof -
  have "file_value ce0 (es @ [(k, v)]) = file_value ce0 es" using assms(2) by (auto simp: file_value_def)
  then show ?thesis using assms(1) by (simp add: row_ok_def)
qed

lemma rows_ok_other:
  assumes "rows_ok env es cfg" "\<And>i. i < length cfg \<Longrightarrow> k \<noteq> json_key (sgxlkl_config ! i) \<or> \<not> fits (opt_ty (sgxlkl_config ! i)) v"
  shows "rows_ok env (es @ [(k, v)]) cfg"
  using assms row_ok_other unfolding rows_ok_def by blast

lemma elem_by_key:
  assumes "rows_ok env es cfg"
  shows "config_elem_by_key cfg k = Some i \<Longrightarrow> i < length cfg \<and> json_key (sgxlkl_config ! i) = k \<and> (\<forall>j < length cfg. j \<noteq> i \<longrightarrow> json_key (sgxlkl_config ! j) \<noteq> k)"
    and "config_elem_by_key cfg k = None \<Longrightarrow> i < length cfg \<Longrightarrow> json_key (sgxlkl_config ! i) \<noteq> k"
proof -
  have l: "length cfg = length sgxlkl_config" and j: "\<And>i. i < length cfg \<Longrightarrow> json_key (cfg ! i) = json_key (sgxlkl_config ! i)"
    using assms by (auto simp: rows_ok_def row_ok_def)
  have d: "i < length cfg \<Longrightarrow> j < length cfg \<Longrightarrow> i \<noteq> j \<Longrightarrow> json_key (sgxlkl_config ! i) \<noteq> json_key (sgxlkl_config ! j)" for i j
    using table_keys l by (simp add: distinct_conv_nth)
  show "config_elem_by_key cfg k = Some i \<Longrightarrow> i < length cfg \<and> json_key (sgxlkl_config ! i) = k \<and> (\<forall>j < length cfg. j \<noteq> i \<longrightarrow> json_key (sgxlkl_config ! j) \<noteq> k)"
    using j d by (fastforce simp: config_elem_by_key_def find_Some_iff)
  show "config_elem_by_key cfg k = None \<Longrightarrow> i < length cfg \<Longrightarrow> json_key (sgxlkl_config ! i) \<noteq> k"
    using j by (auto simp: config_elem_by_key_def find_None_iff)
qed

lemma entry_ok:
  assumes ok: "rows_ok env es cfg" and "v \<noteq> J_other"
  shows "rows_ok env (es @ [(k, v)]) (fst (parse_sgxlkl_config_entry env k v cfg))"
proof (cases "config_elem_by_key cfg k")
  case None
  have "rows_ok env (es @ [(k, v)]) cfg" by (rule rows_ok_other [OF ok]) (use elem_by_key(2) [OF ok None] in blast)
  then show ?thesis using None by (simp add: parse_sgxlkl_config_entry_def)
next
  case (Some i)
  note i = elem_by_key(1) [OF ok Some]
  have r: "row_ok env es (sgxlkl_config ! i) (cfg ! i)" using ok i by (simp add: rows_ok_def)
  show ?thesis
  proof (cases "parse_value env v (cfg ! i)")
    case None
    then have "\<not> fits (opt_ty (sgxlkl_config ! i)) v" using parse_value_row [OF r assms(2)] by simp
    then have "rows_ok env (es @ [(k, v)]) cfg" using i by (intro rows_ok_other [OF ok]) metis
    then show ?thesis using Some None by (simp add: parse_sgxlkl_config_entry_def)
  next
    case (Some ce)
    note p = parse_value_ok [OF r assms(2) Some]
    let ?cfg = "cfg[i := ce\<lparr>inited := True, configured := True\<rparr>]"
    have "row_ok env (es @ [(k, v)]) (sgxlkl_config ! j) (?cfg ! j)" if j: "j < length cfg" for j
    proof (cases "j = i")
      case False
      then have "k \<noteq> json_key (sgxlkl_config ! j)" using i j by auto
      moreover have "row_ok env es (sgxlkl_config ! j) (cfg ! j)" using ok j by (simp add: rows_ok_def)
      ultimately show ?thesis using row_ok_other False by simp
    qed (use p i in simp)
    then show ?thesis
      using ok \<open>config_elem_by_key cfg k = Some i\<close> Some by (simp add: parse_sgxlkl_config_entry_def rows_ok_def)
  qed
qed


lemma parse_entries_ok:
  assumes "\<And>k. (k, J_other) \<notin> set es"
  shows "\<exists>cfg. parse_json (parse_sgxlkl_config_entry env) (present es) sgxlkl_config = (cfg, 0) \<and> rows_ok env es cfg"
proof -
  have "\<exists>cfg'. parse_json (parse_sgxlkl_config_entry env) (present es) cfg = (cfg', 0) \<and> rows_ok env (ds @ es) cfg'"
    if "rows_ok env ds cfg" "\<And>k. (k, J_other) \<notin> set es" for ds es cfg
    using that
  proof (induction es arbitrary: ds cfg)
    case (Cons e es)
    obtain k v where e: "e = (k, v)" by (cases e)
    have "snd (parse_sgxlkl_config_entry env k v cfg) = 0" by (simp add: parse_sgxlkl_config_entry_def split: option.splits)
    moreover have "v \<noteq> J_other" using Cons.prems(2) e by auto
    then have "rows_ok env (ds @ [e]) (fst (parse_sgxlkl_config_entry env k v cfg))" using entry_ok [OF Cons.prems(1)] e by simp
    from Cons.IH [OF this] have "\<exists>cfg'. parse_json (parse_sgxlkl_config_entry env) (present es) (fst (parse_sgxlkl_config_entry env k v cfg)) = (cfg', 0) \<and>
        rows_ok env ((ds @ [e]) @ es) cfg'" using Cons.prems(2) by auto
    ultimately show ?case by (simp add: e case_prod_unfold Let_def)
  qed simp
  from this [OF rows_ok_start assms] show ?thesis by simp
qed

lemma read_option_ok:
  assumes ok: "rows_ok env es cfg" and i: "i < length sgxlkl_config"
  shows "\<exists>cfg'. read_option env i cfg = Some (cfg', option_value env (sgxlkl_config ! i) (file_value (sgxlkl_config ! i) es)) \<and> rows_ok env es cfg'"
proof -
  have l: "i < length cfg" and r: "row_ok env es (sgxlkl_config ! i) (cfg ! i)" using ok i by (auto simp: rows_ok_def)
  have upd: "rows_ok env es (cfg[i := ce])" if "row_ok env es (sgxlkl_config ! i) ce" for ce
    using ok that l by (auto simp: rows_ok_def nth_list_update)
  show ?thesis
  proof (cases "inited (cfg ! i)")
    case True
    then show ?thesis using l r ok
      by (cases "opt_ty (sgxlkl_config ! i)")
        (auto simp: read_option_def sgxlkl_config_bool_def sgxlkl_config_uint64_def sgxlkl_config_str_def row_ok_def stored_def Let_def)
  next
    case False
    then show ?thesis using l r
      by (cases "opt_ty (sgxlkl_config ! i)")
        (auto simp: read_option_def sgxlkl_config_bool_def sgxlkl_config_uint64_def sgxlkl_config_str_def row_ok_def stored_def Let_def
          option_value_def file_or_default_def intro!: upd)
  qed
qed

lemma run_reads_ok: "rows_ok env es cfg \<Longrightarrow> rows_ok env es (run_reads env is cfg)"
proof (induction "is" arbitrary: cfg)
  case (Cons i "is")
  show ?case
  proof (cases "i < length sgxlkl_config")
    case True
    then show ?thesis using Cons read_option_ok [OF Cons.prems True] by (auto split: option.splits)
  next
    case False
    then have "read_option env i cfg = None"
      using Cons.prems by (auto simp: rows_ok_def read_option_def sgxlkl_config_bool_def sgxlkl_config_uint64_def sgxlkl_config_str_def split: opt_type.splits)
    then show ?thesis using Cons by simp
  qed
qed simp


text \<open>
  What the value of an option should be, in terms of the strings themselves. A size string is a decimal number with an
  optional unit. The environment counts first, then the file, then the default; a switch is off when its
  variable begins with 0 if it is otherwise on, and on when it begins with 1 if it is otherwise off.
\<close>

definition size_value :: "u64 \<Rightarrow> string \<Rightarrow> u64 \<Rightarrow> bool" where
  "size_value mx str w \<longleftrightarrow>
     (\<exists>n s. str = decimal n @ s \<and> n < 2 ^ 64 \<and> (s = [] \<or> \<not> is_digit 10 (hd s)) \<and> unat w = min (n * unit_bytes s) (unat mx))"

definition size_string :: "string \<Rightarrow> bool" where
  "size_string str \<longleftrightarrow> (\<exists>n s. str = decimal n @ s \<and> n < 2 ^ 64 \<and> (s = [] \<or> \<not> is_digit 10 (hd s)))"

definition switch_value :: "bool \<Rightarrow> string option \<Rightarrow> bool" where
  "switch_value otherwise var =
     (case var of None \<Rightarrow> otherwise
      | Some v \<Rightarrow> if otherwise then \<not> (\<exists>r. v = CHR ''0'' # r) else (\<exists>r. v = CHR ''1'' # r))"

fun has_value :: "string option \<Rightarrow> sgxlkl_config_elem \<Rightarrow> json_value option \<Rightarrow> opt_val \<Rightarrow> bool" where
  "has_value var ce fv (V_bool b) \<longleftrightarrow> opt_ty ce = TYPE_BOOL \<and>
     b = switch_value (case fv of Some (J_boolean f) \<Rightarrow> f | _ \<Rightarrow> def_bool ce) var"
| "has_value var ce fv (V_uint w) \<longleftrightarrow> opt_ty ce = TYPE_UINT \<and>
     (case (var, fv) of
        (Some str, _) \<Rightarrow> size_value (def_uint_max ce) str w
      | (None, Some (J_int i)) \<Rightarrow> w = of_int i
      | (None, Some (J_string str)) \<Rightarrow> size_value (def_uint_max ce) str w
      | (None, _) \<Rightarrow> w = def_uint_val ce)"
| "has_value var ce fv (V_str t) \<longleftrightarrow> opt_ty ce \<in> {TYPE_CHAR, TYPE_JSON} \<and>
     (case (var, fv) of
        (Some str, _) \<Rightarrow> t = Some str
      | (None, Some (J_string str)) \<Rightarrow> t = Some str
      | (None, Some (J_object str)) \<Rightarrow> t = Some str
      | (None, _) \<Rightarrow> t = def_char ce)"

text \<open>The strings that a numeric option is set to are size strings, and its row has a maximum.\<close>

definition sizes_ok :: "string option \<Rightarrow> sgxlkl_config_elem \<Rightarrow> json_value option \<Rightarrow> bool" where
  "sizes_ok var ce fv \<longleftrightarrow> (opt_ty ce = TYPE_UINT \<longrightarrow> 0 < def_uint_max ce \<and> (\<forall>str. var = Some str \<longrightarrow> size_string str) \<and>
     (\<forall>str. fv = Some (J_string str) \<longrightarrow> size_string str))"

lemma size_value_code: "size_string str \<Longrightarrow> size_value mx str (size_str_to_uint64 str dflt mx)"
  unfolding size_string_def size_value_def using size_str_decimal size_multiplier_unit by metis

lemma switch_value_code: "getenv_bool env var b = switch_value b (env var)"
proof -
  have "take 1 v = [c] \<longleftrightarrow> (\<exists>r. v = c # r)" for v :: string and c by (cases v) auto
  then show ?thesis by (simp add: getenv_bool_def switch_value_def split: option.splits)
qed

lemma option_value_right:
  assumes "sizes_ok (env (env_key ce)) ce fv"
  shows "has_value (env (env_key ce)) ce fv (option_value env ce fv)"
  using assms
  by (cases "opt_ty ce")
    (auto simp: option_value_def file_or_default_def sizes_ok_def switch_value_code getenv_str_def getenv_uint64_def size_value_code
      split: option.splits json_value.splits)

text \<open>
  C40: options come from the environment, else from the configuration file, else from the table. After a
  file with an object at its top has been read (without \<open>null\<close> and with only values of the types the options have),
  looking up an option gives the same value whatever has been looked up before: that of the environment variable when it is
  set, else that of the file's last fitting entry
  for the key, else the default, as the number, text or truth value its type asks for. Entries with unknown keys or of the
  wrong type change nothing, and an option counts as configured exactly when the file or the
  environment has it. A numeric option has a maximum in the table (those of the DPDK network have none), and the strings it is
  set to are size strings.
\<close>

theorem option_precedence:
  assumes "tokener str = Some (present entries)" and "take 1 (dropWhile isspace str) = ''{''" and "\<And>k. (k, J_other) \<notin> set entries"
    and "i < length sgxlkl_config" and "ce = sgxlkl_config ! i" and "sizes_ok (env (env_key ce)) ce (file_value ce entries)"
  shows "\<exists>cfg v. parse_sgxlkl_config_from_str tokener env str sgxlkl_config = (cfg, 0) \<and>
    has_value (env (env_key ce)) ce (file_value ce entries) v \<and>
    (\<forall>reads. map_option snd (read_option env i (run_reads env reads cfg)) = Some v \<and>
       sgxlkl_configured env i (run_reads env reads cfg) = Some (file_value ce entries \<noteq> None \<or> env (env_key ce) \<noteq> None))"
proof -
  obtain cfg where p: "parse_json (parse_sgxlkl_config_entry env) (present entries) sgxlkl_config = (cfg, 0)" and ok: "rows_ok env entries cfg"
    using parse_entries_ok [OF assms(3)] by blast
  have "parse_sgxlkl_config_from_str tokener env str sgxlkl_config = (cfg, 0)"
    using assms(1,2) p by (simp add: parse_sgxlkl_config_from_str_def parse_json_from_str_def Let_def)
  moreover have r: "rows_ok env entries (run_reads env reads cfg)" for reads using run_reads_ok [OF ok] .
  moreover have "sgxlkl_configured env i (run_reads env reads cfg) =
      Some (file_value ce entries \<noteq> None \<or> env (env_key ce) \<noteq> None)" for reads
    using r [of reads] assms(4,5) by (auto simp: sgxlkl_configured_def rows_ok_def row_ok_def)
  moreover have "map_option snd (read_option env i (run_reads env reads cfg)) = Some (option_value env ce (file_value ce entries))" for reads
    using read_option_ok [OF r [of reads] assms(4)] assms(5) by auto
  ultimately show ?thesis using option_value_right [of env ce "file_value ce entries"] assms(6) by blast
qed

theorem option_precedence_witness:
  "\<exists>cfg v. parse_sgxlkl_config_from_str (\<lambda>_. Some [(''heap'', Some (J_string (decimal 1 @ ''M'')))])
      (\<lambda>k. if k = ''SGXLKL_HEAP'' then Some (decimal 2 @ ''K'') else None) ''{}'' sgxlkl_config = (cfg, 0) \<and>
    size_value 0xffffffffffffffff (decimal 2 @ ''K'') v \<and>
    map_option snd (read_option (\<lambda>k. if k = ''SGXLKL_HEAP'' then Some (decimal 2 @ ''K'') else None) 25
      (run_reads (\<lambda>k. if k = ''SGXLKL_HEAP'' then Some (decimal 2 @ ''K'') else None) [1, 25] cfg)) = Some (V_uint v)"
proof -
  let ?env = "\<lambda>k. if k = ''SGXLKL_HEAP'' then Some (decimal 2 @ ''K'') else None"
  let ?ce = "uint_opt ''SGXLKL_HEAP'' ''heap'' (200 * 1024 * 1024) 0xffffffffffffffff"
  have row: "sgxlkl_config ! 25 = ?ce" "25 < length sgxlkl_config" by (simp_all add: sgxlkl_config_def)
  have "size_string (decimal 2 @ ''K'')" "size_string (decimal 1 @ ''M'')"
    unfolding size_string_def by (intro exI conjI, rule refl, simp_all add: is_digit_def digit_of_def)+
  then have ok: "sizes_ok (?env (env_key ?ce)) ?ce (file_value ?ce [(''heap'', J_string (decimal 1 @ ''M''))])"
    by (auto simp: sizes_ok_def uint_opt_def opt_row_def file_value_def)
  have pre: "(\<lambda>_. Some [(''heap'', Some (J_string (decimal 1 @ ''M'')))]) ''{}'' = Some (present [(''heap'', J_string (decimal 1 @ ''M''))])"
    "take 1 (dropWhile isspace ''{}'') = ''{''" "\<And>k. (k, J_other) \<notin> set [(''heap'', J_string (decimal 1 @ ''M''))]"
    by (simp, simp add: isspace_def, simp)
  from option_precedence [where tokener = "\<lambda>_. Some [(''heap'', Some (J_string (decimal 1 @ ''M'')))]" and env = ?env, OF pre row(2) row(1) [symmetric] ok]
  obtain cfg v where p: "parse_sgxlkl_config_from_str (\<lambda>_. Some [(''heap'', Some (J_string (decimal 1 @ ''M'')))]) ?env ''{}'' sgxlkl_config = (cfg, 0)"
    "has_value (?env (env_key ?ce)) ?ce (file_value ?ce [(''heap'', J_string (decimal 1 @ ''M''))]) v"
    "map_option snd (read_option ?env 25 (run_reads ?env [1, 25] cfg)) = Some v" by blast
  from p(2) obtain w where "v = V_uint w" "size_value 0xffffffffffffffff (decimal 2 @ ''K'') w"
    by (cases v) (auto simp: uint_opt_def opt_row_def)
  with p(1,3) show ?thesis by blast
qed

text \<open>
  Two surprises: an option whose row has no maximum becomes 0 when the environment sets it, and an
  entry of another JSON type makes the option 0 or absent instead of leaving its default.
\<close>

lemma env_without_maximum:
  "map_option snd (sgxlkl_config_uint64 (\<lambda>v. Some ''9000'') 10 sgxlkl_config) = Some 0"
proof -
  have row: "sgxlkl_config ! 10 = uint_opt ''SGXLKL_DPDK_MTU'' ''mtu'' 1500 0" "10 < length sgxlkl_config" by (simp_all add: sgxlkl_config_def)
  then show ?thesis
    by (simp add: sgxlkl_config_uint64_def uint_opt_def opt_row_def getenv_uint64_def size_str_to_uint64_def
        strtoul_def strip_sign_def strip_prefix_def isspace_def is_digit_def digit_of_def size_multiplier_def Let_def)
qed

lemma other_type_zero:
  assumes "opt_ty ce = TYPE_UINT" "val_uint ce = 0"
  shows "map_option snd (sgxlkl_config_uint64 env 0 [the (parse_value env J_other ce)\<lparr>inited := True\<rparr>]) = Some 0"
  using assms by (simp add: parse_value_def sgxlkl_config_uint64_def)

end
