(* ===== verification/Block_Device.thy ===== *)
theory Block_Device
  imports Hostcalls
begin

text \<open>
  The block devices behind the kernel's disks: \<^verbatim>\<open>src/lkl/disk.c\<close>, which turns a request into calls
  of \<open>pread64\<close> and \<open>pwrite64\<close> on the host, and \<^verbatim>\<open>src/lkl/disk_mem.c\<close>, which copies from and to a disk
  image that the host has mapped. The types of requests and results come from the kernel library;
  a request has the fields the code uses, with its vector of buffers as the list of their addresses
  and lengths. The table of disks is an argument. A pinned thread waits for the host without
  being suspended: setting \<open>LT_ST_PINNED\<close> in the state of the running thread is setting \<open>hsync\<close>.
\<close>

section \<open>Requests on a file of the host\<close>

record enclave_disk_config =
  dfd :: i32
  capacity :: u64
  dmmap :: u64
  wait_on_io :: bool

datatype blk_type = BLK_READ | BLK_WRITE | BLK_FLUSH | BLK_FLUSH_OUT | BLK_OTHER
datatype blk_status = BLK_OK | BLK_IOERR | BLK_UNSUP

type_synonym iovec = "u64 \<times> u64"

record lkl_blk_req =
  rtype :: blk_type
  rsector :: u64
  rbuf :: "iovec list"

fun get_disk_config :: "enclave_disk_config list \<Rightarrow> i32 \<Rightarrow> enclave_disk_config option" where
  "get_disk_config [] fd = None"
| "get_disk_config (d # disks) fd = (if dfd d = fd then Some d else get_disk_config disks fd)"

definition fd_get_capacity :: "enclave_disk_config list \<Rightarrow> i32 \<Rightarrow> i32 \<times> u64 option" where
  "fd_get_capacity disks fd =
     (case get_disk_config disks fd of Some d \<Rightarrow> (0, Some (capacity d)) | None \<Rightarrow> (- 1, None))"

type_synonym transfer = "i32 \<Rightarrow> u64 \<Rightarrow> u64 \<Rightarrow> u64 \<Rightarrow> hst \<Rightarrow> (hst \<times> u64) option"

text \<open>
  The loop over the parts of one buffer: \<open>len\<close> and the answer \<open>ret\<close> are of type \<open>int\<close>. The result has
  the last answer and the new offset; an answer that is not positive ends the request.
\<close>

partial_function (option) rw_loop :: "transfer \<Rightarrow> i32 \<Rightarrow> u64 \<Rightarrow> i32 \<Rightarrow> u64 \<Rightarrow> hst \<Rightarrow> (hst \<times> i32 \<times> u64) option" where
  "rw_loop fn fd addr len off s = do {
     (s, r) \<leftarrow> fn fd addr (scast len) off s;
     let ret = (ucast r :: i32);
     (if sint ret \<le> 0 then Some (s, ret, off)
     else do {
       let len = len - ret;
       let off = off + scast ret;
       (if 0 < sint len then rw_loop fn fd (addr + scast ret) len off s else Some (s, ret, off))
     })
   }"

definition waits_on_io :: "enclave_disk_config list \<Rightarrow> i32 \<Rightarrow> bool" where
  "waits_on_io disks fd = (case get_disk_config disks fd of Some d \<Rightarrow> wait_on_io d | None \<Rightarrow> False)"

fun rw_bufs :: "transfer \<Rightarrow> enclave_disk_config list \<Rightarrow> i32 \<Rightarrow> iovec list \<Rightarrow> u64 \<Rightarrow> i32 \<Rightarrow> hst \<Rightarrow> (hst \<times> i32) option" where
  "rw_bufs fn disks fd [] off ret s = Some (s, ret)"
| "rw_bufs fn disks fd ((base, len) # bufs) off ret s = do {
     let lt_old_state = hsync s;
     let s = (if waits_on_io disks fd then s\<lparr>hsync := True\<rparr> else s);
     (s, ret, off) \<leftarrow> rw_loop fn fd base (ucast len) off s;
     let s = s\<lparr>hsync := lt_old_state\<rparr>;
     (if sint ret \<le> 0 then Some (s, ret) else rw_bufs fn disks fd bufs off ret s)
   }"

definition do_plain_rw :: "transfer \<Rightarrow> enclave_disk_config list \<Rightarrow> i32 \<Rightarrow> lkl_blk_req \<Rightarrow> hst \<Rightarrow> (hst \<times> i32) option" where
  "do_plain_rw fn disks fd req s = rw_bufs fn disks fd (rbuf req) (rsector req * 512) 0 s"

definition blk_result :: "hst \<times> i32 \<Rightarrow> hst \<times> blk_status" where
  "blk_result = (\<lambda>(s, err). (s, if sint err < 0 then BLK_IOERR else BLK_OK))"

definition blk_request :: "host \<Rightarrow> enclave_disk_config list \<Rightarrow> i32 \<Rightarrow> lkl_blk_req \<Rightarrow> hst \<Rightarrow> (hst \<times> blk_status) option" where
  "blk_request host disks fd req s =
     (case rtype req of
        BLK_READ \<Rightarrow> map_option blk_result (do_plain_rw (host_syscall_SYS_pread64 host) disks fd req s)
      | BLK_WRITE \<Rightarrow> map_option blk_result (do_plain_rw (host_syscall_SYS_pwrite64 host) disks fd req s)
      | BLK_FLUSH \<Rightarrow> map_option blk_result (host_syscall_SYS_fdatasync host fd s)
      | BLK_FLUSH_OUT \<Rightarrow> map_option blk_result (host_syscall_SYS_fdatasync host fd s)
      | BLK_OTHER \<Rightarrow> Some (s, BLK_UNSUP))"

section \<open>Requests on a mapped image\<close>

text \<open>The offset is the same for every buffer of the request.\<close>

fun mem_read_loop :: "u64 \<Rightarrow> iovec list \<Rightarrow> memory \<Rightarrow> memory" where
  "mem_read_loop src [] m = m"
| "mem_read_loop src ((base, len) # bufs) m =
     mem_read_loop src bufs (memcpy base src (scast (ucast len :: i32)) m)"

fun mem_write_loop :: "u64 \<Rightarrow> iovec list \<Rightarrow> memory \<Rightarrow> memory" where
  "mem_write_loop dst [] m = m"
| "mem_write_loop dst ((base, len) # bufs) m =
     mem_write_loop dst bufs (memcpy dst base (scast (ucast len :: i32)) m)"

definition mem_do_read :: "enclave_disk_config list \<Rightarrow> i32 \<Rightarrow> lkl_blk_req \<Rightarrow> hst \<Rightarrow> hst \<times> i32" where
  "mem_do_read disks fd req s =
     (case get_disk_config disks fd of
        None \<Rightarrow> (s, - 1)
      | Some d \<Rightarrow> (s\<lparr>hmem := mem_read_loop (dmmap d + rsector req * 512) (rbuf req) (hmem s)\<rparr>, 0))"

definition mem_do_write :: "enclave_disk_config list \<Rightarrow> i32 \<Rightarrow> lkl_blk_req \<Rightarrow> hst \<Rightarrow> hst \<times> i32" where
  "mem_do_write disks fd req s =
     (case get_disk_config disks fd of
        None \<Rightarrow> (s, - 1)
      | Some d \<Rightarrow> (s\<lparr>hmem := mem_write_loop (dmmap d + rsector req * 512) (rbuf req) (hmem s)\<rparr>, 0))"

definition mem_flush :: "host \<Rightarrow> enclave_disk_config list \<Rightarrow> i32 \<Rightarrow> hst \<Rightarrow> (hst \<times> i32) option" where
  "mem_flush host disks fd s =
     (case get_disk_config disks fd of
        Some d \<Rightarrow> host_syscall_SYS_msync host (dmmap d) (capacity d) 4 s
      | None \<Rightarrow> Some (s, - 22))"

definition mem_blk_request :: "host \<Rightarrow> enclave_disk_config list \<Rightarrow> i32 \<Rightarrow> lkl_blk_req \<Rightarrow> hst \<Rightarrow> (hst \<times> blk_status) option" where
  "mem_blk_request host disks fd req s =
     (case rtype req of
        BLK_READ \<Rightarrow> Some (blk_result (mem_do_read disks fd req s))
      | BLK_WRITE \<Rightarrow> Some (blk_result (mem_do_write disks fd req s))
      | BLK_FLUSH \<Rightarrow> map_option blk_result (mem_flush host disks fd s)
      | BLK_FLUSH_OUT \<Rightarrow> map_option blk_result (mem_flush host disks fd s)
      | BLK_OTHER \<Rightarrow> Some (s, BLK_UNSUP))"

section \<open>A host that keeps a file\<close>

text \<open>
  What the documentation of the system calls promises of a file of \<open>cap\<close> bytes that is open as
  \<open>fd\<close>. The file is somewhere in the memory of the host, \<open>own\<close>, and \<open>file\<close> reads it from there. \<open>pread\<close> and
  \<open>pwrite\<close> within the file transfer some of the bytes, possibly none, or fail with an error number. No
  call changes the memory \<open>encl\<close> of the enclave.
\<close>

definition is_error :: "u64 \<Rightarrow> bool" where
  "is_error r \<longleftrightarrow> - 4095 \<le> sint r \<and> sint r < 0"

definition in_file :: "nat \<Rightarrow> u64 \<Rightarrow> u64 \<Rightarrow> bool" where
  "in_file cap off n \<longleftrightarrow> 0 < n \<and> n < 2 ^ 31 \<and> unat off + unat n \<le> cap"

definition pread_ok :: "(memory \<Rightarrow> u64 \<Rightarrow> u8) \<Rightarrow> syscall_t \<Rightarrow> memory \<Rightarrow> u64 \<times> memory \<Rightarrow> bool" where
  "pread_ok file sc m = (\<lambda>(r, m'). file m' = file m \<and>
     (is_error r \<or> r \<le> arg3 sc \<and> load_bytes m' (arg2 sc) (unat r) = load_bytes (file m) (arg4 sc) (unat r)))"

definition pwrite_ok :: "(memory \<Rightarrow> u64 \<Rightarrow> u8) \<Rightarrow> syscall_t \<Rightarrow> memory \<Rightarrow> u64 \<times> memory \<Rightarrow> bool" where
  "pwrite_ok file sc m = (\<lambda>(r, m').
     is_error r \<and> file m' = file m \<or>
     r \<le> arg3 sc \<and> file m' = write_bytes (arg4 sc) (load_bytes m (arg2 sc) (unat r)) (file m))"

definition serves_file :: "host \<Rightarrow> i32 \<Rightarrow> nat \<Rightarrow> (memory \<Rightarrow> u64 \<Rightarrow> u8) \<Rightarrow> u64 set \<Rightarrow> u64 set \<Rightarrow> bool" where
  "serves_file host fd cap file own encl \<longleftrightarrow>
     cap \<le> 2 ^ 63 \<and> own \<inter> encl = {} \<and> host_keeps encl host \<and>
     (\<forall>m m'. (\<forall>a\<in>own. m a = m' a) \<longrightarrow> file m = file m') \<and>
     (\<forall>sc m. syscallno sc = 17 \<and> arg1 sc = scast fd \<and> in_file cap (arg4 sc) (arg3 sc) \<longrightarrow> pread_ok file sc m (host sc m)) \<and>
     (\<forall>sc m. syscallno sc = 18 \<and> arg1 sc = scast fd \<and> in_file cap (arg4 sc) (arg3 sc) \<longrightarrow> pwrite_ok file sc m (host sc m))"

text \<open>The host's answer to call number \<open>no\<close> on the file at position \<open>off\<close>, with the buffer at \<open>v\<close> and the file's contents being \<open>c\<close>.\<close>

definition answered :: "host \<Rightarrow> u64 \<Rightarrow> i32 \<Rightarrow> u64 \<Rightarrow> u64 \<Rightarrow> (memory \<Rightarrow> u64 \<Rightarrow> u8) \<Rightarrow> (u64 \<Rightarrow> u8) \<Rightarrow> u64 \<Rightarrow> bool" where
  "answered host no fd v off file c r \<longleftrightarrow>
     (\<exists>sc m. syscallno sc = no \<and> arg1 sc = scast fd \<and> arg2 sc = v \<and> 0 < arg3 sc \<and> arg4 sc = off \<and> file m = c \<and> fst (host sc m) = r)"

text \<open>The transfer of \<open>tot\<close> bytes from position \<open>off\<close> on ended after \<open>k\<close> of them because the host transferred no more.\<close>

definition cut_short ::
    "host \<Rightarrow> u64 \<Rightarrow> i32 \<Rightarrow> u64 \<Rightarrow> (memory \<Rightarrow> u64 \<Rightarrow> u8) \<Rightarrow> (u64 \<Rightarrow> u8) \<Rightarrow> u64 \<Rightarrow> nat \<Rightarrow> nat \<Rightarrow> i32 \<Rightarrow> bool" where
  "cut_short host no fd v file c off tot k ret \<longleftrightarrow> k < tot \<and>
     (\<exists>r. answered host no fd v (off + of_nat k) file c r \<and> (is_error r \<or> r = 0) \<and> ret = ucast r)"

lemma cut_short_shift:
  "cut_short host no fd v file c (off + n) tot k ret \<Longrightarrow> cut_short host no fd v file c off (unat n + tot) (unat n + k) ret"
  by (auto simp: cut_short_def add.assoc)

lemma cut_short_mono: "cut_short host no fd v file c off tot k ret \<Longrightarrow> tot \<le> tot' \<Longrightarrow> cut_short host no fd v file c off tot' k ret"
  by (auto simp: cut_short_def)

text \<open>A state between calls with the arena away from the file and the enclave.\<close>

definition dev_ready :: "u64 set \<Rightarrow> u64 set \<Rightarrow> hst \<Rightarrow> bool" where
  "dev_ready own encl s \<longleftrightarrow> idle s \<and> arena_bytes s \<inter> (own \<union> encl \<union> {0}) = {}"

lemma serves_fileD:
  assumes "serves_file host fd cap file own encl"
  shows "cap \<le> 2 ^ 63" and "own \<inter> encl = {}" and "host_keeps encl host"
    and "(\<And>a. a \<in> own \<Longrightarrow> m a = m' a) \<Longrightarrow> file m = file m'"
    and "\<lbrakk>syscallno sc = 17; arg1 sc = scast fd; in_file cap (arg4 sc) (arg3 sc)\<rbrakk> \<Longrightarrow> pread_ok file sc m (host sc m)"
    and "\<lbrakk>syscallno sc = 18; arg1 sc = scast fd; in_file cap (arg4 sc) (arg3 sc)\<rbrakk> \<Longrightarrow> pwrite_ok file sc m (host sc m)"
proof -
  note a = assms [unfolded serves_file_def]
  note b = a [THEN conjunct2, THEN conjunct2, THEN conjunct2]
  show "cap \<le> 2 ^ 63" "own \<inter> encl = {}" "host_keeps encl host" using a by simp_all
  show "file m = file m'" if "\<And>a. a \<in> own \<Longrightarrow> m a = m' a" using b [THEN conjunct1] that by simp
  show "pread_ok file sc m (host sc m)"
    if "syscallno sc = 17" "arg1 sc = scast fd" "in_file cap (arg4 sc) (arg3 sc)"
    using b [THEN conjunct2, THEN conjunct1, rule_format] that by simp
  show "pwrite_ok file sc m (host sc m)"
    if "syscallno sc = 18" "arg1 sc = scast fd" "in_file cap (arg4 sc) (arg3 sc)"
    using b [THEN conjunct2, THEN conjunct2, rule_format] that by simp
qed

text \<open>A call, seen from the enclave: its memory is unchanged outside \<open>out\<close>, and so is the arena.\<close>

definition dev_step :: "u64 set \<Rightarrow> u64 set \<Rightarrow> u64 set \<Rightarrow> hst \<Rightarrow> hst \<Rightarrow> bool" where
  "dev_step own encl out s s' \<longleftrightarrow> dev_ready own encl s' \<and> harena s' = harena s \<and> hsync s' = hsync s \<and>
     (\<forall>a\<in>encl. a \<notin> out \<longrightarrow> hmem s' a = hmem s a)"

lemma ensure_room: "n \<le> asize (harena s) \<Longrightarrow> arena_ensure host n s = Some s"
  by (simp add: arena_ensure_def not_less [symmetric])

lemma fresh_buffer:
  assumes "dev_ready own encl t" and "unat n \<le> unat (asize (harena t))" and "0 < n"
  shows "bytes_at (fst (arena_alloc n t)) n \<subseteq> arena_bytes t" and "fst (arena_alloc n t) \<noteq> 0"
    and "bytes_at (fst (arena_alloc n t)) n \<inter> (own \<union> encl) = {}"
proof -
  show b: "bytes_at (fst (arena_alloc n t)) n \<subseteq> arena_bytes t"
    using arena_alloc_bytes(1) [of t n] assms by (simp add: dev_ready_def idle_def)
  show "fst (arena_alloc n t) \<noteq> 0"
    by (rule alloc_nonzero [OF b]) (use assms in \<open>auto simp: dev_ready_def\<close>)
  show "bytes_at (fst (arena_alloc n t)) n \<inter> (own \<union> encl) = {}"
    using b assms(1) by (auto simp: dev_ready_def)
qed

lemma load_bytes_eq:
  "load_bytes m a (unat n) = load_bytes m' b (unat n) \<longleftrightarrow> (\<forall>i < n. m (a + i) = m' (b + i))"
proof -
  have "(\<forall>i < n. m (a + i) = m' (b + i)) \<longleftrightarrow> (\<forall>j < unat n. m (a + of_nat j) = m' (b + of_nat j))"
  proof (safe, goal_cases)
    case (1 j)
    then have "(of_nat j :: u64) < n" using unsigned_less [of n, where 'a = nat]
      by (simp add: word_less_nat_alt unat_of_nat take_bit_nat_eq_self)
    then show ?case using 1 by simp
  next
    case (2 i)
    from 2(1) [rule_format, of "unat i"] 2(2) show ?case by (simp add: word_less_nat_alt)
  qed
  then show ?thesis by (auto simp: load_bytes_def)
qed

lemma memcpy_outside: "a \<notin> bytes_at d n \<Longrightarrow> memcpy d src n m a = m a"
  by (simp add: memcpy_def bytes_at_def)

lemma pread_dev:
  assumes f: "serves_file host fd cap file own encl" and r: "dev_ready own encl s"
    and n: "in_file cap off n" and b: "buf \<noteq> 0" "bytes_at buf n \<subseteq> encl" and room: "n \<le> asize (harena s)"
  shows "\<exists>s' r. host_syscall_SYS_pread64 host fd buf n off s = Some (s', r) \<and>
    dev_step own encl (bytes_at buf n) s s' \<and> file (hmem s') = file (hmem s) \<and> answered host 17 fd (amem (harena s)) off file (file (hmem s)) r \<and>
    (is_error r \<or> r \<le> n \<and> load_bytes (hmem s') buf (unat r) = load_bytes (file (hmem s)) off (unat r))"
proof -
  define t where "t = s"
  have t: "arena_ensure host n s = Some t" "dev_step own encl {} s t" "unat n \<le> unat (asize (harena t))"
    "file (hmem t) = file (hmem s)" "harena t = harena s"
    using ensure_room [OF room] r room by (simp_all add: t_def dev_step_def word_le_nat_alt)
  have rt: "dev_ready own encl t" using t(2) by (simp add: dev_step_def)
  have n0: "0 < n" using n by (simp add: in_file_def)
  define v where "v = fst (arena_alloc n t)"
  note v = fresh_buffer [OF rt t(3) n0, folded v_def]
  have vs: "v = amem (harena s)" using n0 r by (auto simp: v_def t_def arena_alloc_def dev_ready_def idle_def)
  define t2 where "t2 = set_sc (\<lambda>sc. sc\<lparr>syscallno := 17, arg1 := scast fd, arg2 := v, arg3 := n, arg4 := off\<rparr>)
    (snd (arena_alloc n t))"
  define sc where "sc = (if hsync t2 then (hsc t2)\<lparr>status := 1\<rparr> else hsc t2)"
  have sc: "syscallno sc = 17" "arg1 sc = scast fd" "arg2 sc = v" "arg3 sc = n" "arg4 sc = off"
    by (simp_all add: sc_def t2_def set_sc_def)
  have m2: "hmem t2 = hmem t" "hsync t2 = hsync t" by (simp_all add: t2_def set_sc_def)
  have "status (hsc t2) = 0" using rt by (simp add: t2_def set_sc_def dev_ready_def idle_def)
  from threadswitch_idle [OF this, of host] obtain t3 where t3: "threadswitch host t2 = Some t3" "harena t3 = harena t2"
    "hsync t3 = hsync t2" "ret_val (hsc t3) = fst (host sc (hmem t))" "hmem t3 = snd (host sc (hmem t))"
    unfolding sc_def m2(1) by blast
  let ?s = "set_status_0 (arena_free (copy_if True buf v n t3))"
  have run: "host_syscall_SYS_pread64 host fd buf n off s = Some (?s, ret_val (hsc t3))"
    using t(1) t3(1) v(2) b(1) unfolding t2_def v_def by (simp add: host_syscall_SYS_pread64_def split_beta)
  have ms: "hmem ?s = memcpy buf v n (hmem t3)"
    by (simp add: set_status_0_def set_sc_def arena_free_def copy_if_def)
  have ok: "pread_ok file sc (hmem t) (host sc (hmem t))"
    by (rule serves_fileD(5) [OF f]) (use sc n in simp_all)
  have "file (hmem ?s) = file (hmem t3)"
    by (rule serves_fileD(4) [OF f]) (use b(2) serves_fileD(2) [OF f] in \<open>auto simp: ms intro!: memcpy_outside\<close>)
  also have "\<dots> = file (hmem s)" using ok t(4) by (simp add: t3(5) pread_ok_def split_beta)
  finally have fs: "file (hmem ?s) = file (hmem s)" .
  have "hmem ?s a = hmem s a" if "a \<in> encl" "a \<notin> bytes_at buf n" for a
    using that t(2) serves_fileD(3) [OF f] by (simp add: ms memcpy_outside t3(5) host_keeps_def dev_step_def)
  moreover have "harena ?s = harena s"
    using rt t(5) t3(2) by (simp add: set_status_0_def arena_free_def set_sc_def t2_def arena_alloc_def dev_ready_def idle_def)
  moreover have "dev_ready own encl ?s" "hsync ?s = hsync s"
    using rt t(2) t3(2,3) m2(2)
    by (simp_all add: dev_ready_def idle_def arena_bytes_def set_status_0_def arena_free_def set_sc_def t2_def dev_step_def)
  ultimately have st: "dev_step own encl (bytes_at buf n) s ?s" by (simp add: dev_step_def)
  have "load_bytes (hmem ?s) buf (unat (ret_val (hsc t3))) = load_bytes (file (hmem s)) off (unat (ret_val (hsc t3)))"
    if "\<not> is_error (ret_val (hsc t3))"
    unfolding load_bytes_eq
  proof (intro allI impI)
    fix i assume "i < ret_val (hsc t3)"
    then have "i < n" and "hmem t3 (v + i) = file (hmem s) (off + i)"
      using ok that t(4) sc by (auto simp: pread_ok_def split_beta t3(4,5) load_bytes_eq)
    then show "hmem ?s (buf + i) = file (hmem s) (off + i)" by (simp add: ms memcpy_dst)
  qed
  moreover have "is_error (ret_val (hsc t3)) \<or> ret_val (hsc t3) \<le> n"
    using ok sc by (auto simp: pread_ok_def split_beta t3(4))
  moreover have "answered host 17 fd (amem (harena s)) off file (file (hmem s)) (ret_val (hsc t3))"
    unfolding answered_def t3(4) using sc t(4) n0 vs by blast
  ultimately show ?thesis using run st fs by blast
qed

lemma pwrite_dev:
  assumes f: "serves_file host fd cap file own encl" and r: "dev_ready own encl s"
    and n: "in_file cap off n" and b: "buf \<noteq> 0" "bytes_at buf n \<subseteq> encl" and room: "n \<le> asize (harena s)"
  shows "\<exists>s' r. host_syscall_SYS_pwrite64 host fd buf n off s = Some (s', r) \<and> dev_step own encl {} s s' \<and>
    answered host 18 fd (amem (harena s)) off file (file (hmem s)) r \<and>
    (is_error r \<and> file (hmem s') = file (hmem s) \<or>
     r \<le> n \<and> file (hmem s') = write_bytes off (load_bytes (hmem s) buf (unat r)) (file (hmem s)))"
proof -
  define t where "t = s"
  have t: "arena_ensure host n s = Some t" "dev_step own encl {} s t" "unat n \<le> unat (asize (harena t))"
    "file (hmem t) = file (hmem s)" "harena t = harena s"
    using ensure_room [OF room] r room by (simp_all add: t_def dev_step_def word_le_nat_alt)
  have rt: "dev_ready own encl t" using t(2) by (simp add: dev_step_def)
  have n0: "0 < n" using n by (simp add: in_file_def)
  define v where "v = fst (arena_alloc n t)"
  note v = fresh_buffer [OF rt t(3) n0, folded v_def]
  have vs: "v = amem (harena s)" using n0 r by (auto simp: v_def t_def arena_alloc_def dev_ready_def idle_def)
  define t1 where "t1 = copy_if True v buf n (snd (arena_alloc n t))"
  define t2 where "t2 = set_sc (\<lambda>sc. sc\<lparr>syscallno := 18, arg1 := scast fd, arg2 := v, arg3 := n, arg4 := off\<rparr>) t1"
  define sc where "sc = (if hsync t2 then (hsc t2)\<lparr>status := 1\<rparr> else hsc t2)"
  have sc: "syscallno sc = 18" "arg1 sc = scast fd" "arg2 sc = v" "arg3 sc = n" "arg4 sc = off"
    by (simp_all add: sc_def t2_def set_sc_def)
  have m2: "hmem t2 = memcpy v buf n (hmem t)" "hsync t2 = hsync t"
    by (simp_all add: t2_def t1_def set_sc_def copy_if_def)
  have "status (hsc t2) = 0" using rt by (simp add: t2_def t1_def set_sc_def dev_ready_def idle_def)
  from threadswitch_idle [OF this, of host] obtain t3 where t3: "threadswitch host t2 = Some t3" "harena t3 = harena t2"
    "hsync t3 = hsync t2" "ret_val (hsc t3) = fst (host sc (hmem t2))" "hmem t3 = snd (host sc (hmem t2))"
    unfolding sc_def by blast
  let ?s = "set_status_0 (arena_free t3)"
  have run: "host_syscall_SYS_pwrite64 host fd buf n off s = Some (?s, ret_val (hsc t3))"
    using t(1) t3(1) v(2) b(1) unfolding t2_def t1_def v_def by (simp add: host_syscall_SYS_pwrite64_def split_beta)
  have ms: "hmem ?s = hmem t3" by (simp add: set_status_0_def set_sc_def arena_free_def)
  have ok: "pwrite_ok file sc (hmem t2) (host sc (hmem t2))"
    by (rule serves_fileD(6) [OF f]) (use sc n in simp_all)
  have "file (hmem t2) = file (hmem t)"
    by (rule serves_fileD(4) [OF f]) (use v(3) in \<open>auto simp: m2 intro!: memcpy_outside\<close>)
  then have f2: "file (hmem t2) = file (hmem s)" using t(4) by simp
  have "hmem ?s a = hmem s a" if "a \<in> encl" for a
  proof -
    have "hmem ?s a = hmem t2 a" using that serves_fileD(3) [OF f] by (simp add: ms t3(5) host_keeps_def)
    also have "\<dots> = hmem t a" using that v(3) unfolding m2(1) by (intro memcpy_outside) auto
    finally show ?thesis using that t(2) by (simp add: dev_step_def)
  qed
  moreover have "harena ?s = harena s"
    using rt t(5) t3(2) by (simp add: set_status_0_def arena_free_def set_sc_def t2_def t1_def arena_alloc_def dev_ready_def idle_def)
  moreover have "dev_ready own encl ?s" "hsync ?s = hsync s"
    using rt t(2) t3(2,3) m2(2)
    by (simp_all add: dev_ready_def idle_def arena_bytes_def set_status_0_def arena_free_def set_sc_def t2_def t1_def dev_step_def)
  ultimately have st: "dev_step own encl {} s ?s" by (simp add: dev_step_def)
  have "hmem t2 (v + i) = hmem s (buf + i)" if "i < n" for i
    using that b(2) bytes_at_offset [OF that, of buf] t(2) by (simp add: m2 memcpy_dst dev_step_def subset_eq)
  then have "load_bytes (hmem t2) v (unat r) = load_bytes (hmem s) buf (unat r)" if "r \<le> n" for r
    using that by (simp add: load_bytes_eq)
  moreover have "answered host 18 fd (amem (harena s)) off file (file (hmem s)) (ret_val (hsc t3))"
    unfolding answered_def t3(4) using sc f2 n0 vs by blast
  ultimately show ?thesis using run st ok sc by (auto simp: pwrite_ok_def split_beta t3(4,5) ms f2)
qed

lemma load_bytes_split:
  "r \<le> n \<Longrightarrow> load_bytes f a (unat n) = load_bytes f a (unat r) @ load_bytes f (a + r) (unat (n - r))"
  using load_bytes_append [of f a "unat r" "unat n - unat r"] by (simp add: unat_sub word_le_nat_alt)

lemma write_bytes_append:
  assumes "length xs + length ys < 2 ^ 64"
  shows "write_bytes (off + of_nat (length xs)) ys (write_bytes off xs f) = write_bytes off (xs @ ys) f"
proof
  fix x
  define d where "d = unat (x - off)"
  have l: "unat (of_nat (length xs) :: u64) = length xs" using assms by (intro unat_of_nat_small) simp
  have "x - (off + of_nat (length xs)) = (x - off) - of_nat (length xs)" by simp
  then have u: "unat (x - (off + of_nat (length xs))) = (if length xs \<le> d then d - length xs else d + 2 ^ 64 - length xs)"
    unfolding d_def by (simp only: unat_sub_wrap l)
  show "write_bytes (off + of_nat (length xs)) ys (write_bytes off xs f) x = write_bytes off (xs @ ys) f x"
  proof (cases "length xs \<le> d")
    case True
    then have "d - length xs < length ys \<longleftrightarrow> d < length xs + length ys" by linarith
    then show ?thesis using True unfolding write_bytes_def u d_def [symmetric] by (simp add: nth_append)
  next
    case False
    then have "\<not> d + 2 ^ 64 - length xs < length ys" using assms by linarith
    then show ?thesis using False unfolding write_bytes_def u d_def [symmetric] by (simp add: nth_append)
  qed
qed

text \<open>Lengths and answers as \<open>int\<close>.\<close>

lemma int_len:
  assumes "n < (2 ^ 31 :: u64)"
  shows "scast (ucast n :: i32) = n" and "sint (ucast n :: i32) = uint n"
proof -
  have u: "uint n < 2 ^ 31" using assms by (simp add: word_less_def)
  show s: "sint (ucast n :: i32) = uint n"
    using u by (simp add: sint_uint unsigned_ucast_eq take_bit_int_eq_self signed_take_bit_int_eq_self_iff)
      (rule order_trans [OF _ uint_ge_0], simp)
  show "scast (ucast n :: i32) = n" by (simp add: scast_eq s)
qed

lemma error_int:
  assumes "is_error r"
  shows "sint (ucast r :: i32) < 0"
proof -
  have "sint (ucast r :: i32) = signed_take_bit 31 (sint r)"
    by (simp add: sint_uint unsigned_ucast_eq signed_take_bit_take_bit)
  also have "\<dots> = sint r" using assms by (intro signed_take_bit_int_eq_self) (simp_all add: is_error_def)
  finally show ?thesis using assms by (simp add: is_error_def)
qed

lemma int_sub: "(ucast n - ucast r :: i32) = ucast (n - r :: u64)"
proof (transfer, goal_cases)
  case (1 n r)
  show ?case using take_bit_diff [of 32 "take_bit 64 n" "take_bit 64 r"] take_bit_diff [of 32 n r] by simp
qed

lemma in_file_tail:
  assumes "in_file cap off n" and "0 < r" and "r < n" and "cap \<le> 2 ^ 63"
  shows "in_file cap (off + r) (n - r)"
proof -
  have n: "unat (n - r) = unat n - unat r" using assms(3) by (simp add: unat_sub order.strict_implies_order)
  have "unat (off + r) = unat off + unat r"
    by (rule unat_add_small) (use assms in \<open>simp add: in_file_def word_less_nat_alt\<close>)
  then show ?thesis using assms n by (auto simp: in_file_def word_less_nat_alt)
qed

lemma dev_step_ready: "dev_step own encl out s t \<Longrightarrow> dev_ready own encl t"
  by (simp add: dev_step_def)

lemma dev_step_trans:
  "\<lbrakk>dev_step own encl out1 s t; dev_step own encl out2 t u; out1 \<union> out2 \<subseteq> out\<rbrakk> \<Longrightarrow> dev_step own encl out s u"
  unfolding dev_step_def by (metis UnI1 UnI2 subsetD)

lemma rw_loop_unfold:
  assumes "n < 2 ^ 31" and "fn fd addr n off s = Some (s1, r)"
  shows "is_error r \<or> r = 0 \<Longrightarrow> rw_loop fn fd addr (ucast n) off s = Some (s1, ucast r, off)"
    and "\<lbrakk>0 < r; r \<le> n\<rbrakk> \<Longrightarrow> rw_loop fn fd addr (ucast n) off s =
      (if r = n then Some (s1, ucast r, off + n) else rw_loop fn fd (addr + r) (ucast (n - r)) (off + r) s1)"
proof -
  have u: "rw_loop fn fd addr (ucast n) off s =
    (if sint (ucast r :: i32) \<le> 0 then Some (s1, ucast r, off)
     else if 0 < sint (ucast (n - r) :: i32)
     then rw_loop fn fd (addr + scast (ucast r :: i32)) (ucast (n - r)) (off + scast (ucast r :: i32)) s1
     else Some (s1, ucast r, off + scast (ucast r :: i32)))"
    by (subst rw_loop.simps) (simp add: int_len [OF assms(1)] assms(2) int_sub Let_def)
  show "rw_loop fn fd addr (ucast n) off s = Some (s1, ucast r, off)" if "is_error r \<or> r = 0"
    using that error_int [of r] u by auto
  show "rw_loop fn fd addr (ucast n) off s =
      (if r = n then Some (s1, ucast r, off + n) else rw_loop fn fd (addr + r) (ucast (n - r)) (off + r) s1)"
    if r: "0 < r" "r \<le> n"
  proof -
    have lt: "r < 2 ^ 31" "n - r < 2 ^ 31"
      using order_le_less_trans [OF r(2) assms(1)] order_le_less_trans [OF word_sub_le_iff [THEN iffD2, OF r(2)] assms(1)]
      by simp_all
    have "0 < uint r" "0 < uint (n - r) \<longleftrightarrow> r \<noteq> n" using r by (auto simp: word_less_def uint_0_iff order_less_le)
    then show ?thesis unfolding u by (simp add: int_len [OF lt(1)] int_len [OF lt(2)] int_len [OF assms(1)])
  qed
qed

text \<open>One buffer, whatever the sizes of the parts.\<close>

lemma read_loop_dev:
  assumes f: "serves_file host fd cap file own encl" and z: "0 \<notin> encl"
    and "dev_ready own encl s" and "in_file cap off n" and "bytes_at buf n \<subseteq> encl" and "n \<le> asize (harena s)"
  shows "\<exists>s' ret off' k. rw_loop (host_syscall_SYS_pread64 host) fd buf (ucast n) off s = Some (s', ret, off') \<and>
    dev_step own encl (bytes_at buf n) s s' \<and> file (hmem s') = file (hmem s) \<and>
    load_bytes (hmem s') buf k = load_bytes (file (hmem s)) off k \<and>
    (k = unat n \<and> 0 < sint ret \<and> off' = off + n \<or> cut_short host 17 fd (amem (harena s)) file (file (hmem s)) off (unat n) k ret)"
  using assms(3-)
proof (induction "unat n" arbitrary: n buf off s rule: less_induct)
  case less
  have n: "0 < n" "n < 2 ^ 31" using less.prems(2) by (simp_all add: in_file_def)
  have "buf \<noteq> 0" using z less.prems(3) n(1) by (auto simp: bytes_at_def subset_eq)
  from pread_dev [OF f less.prems(1,2) this less.prems(3,4)] obtain s1 r where
    run: "host_syscall_SYS_pread64 host fd buf n off s = Some (s1, r)" and st: "dev_step own encl (bytes_at buf n) s s1"
    and fl: "file (hmem s1) = file (hmem s)" and an: "answered host 17 fd (amem (harena s)) off file (file (hmem s)) r"
    and r: "is_error r \<or> r \<le> n \<and> load_bytes (hmem s1) buf (unat r) = load_bytes (file (hmem s)) off (unat r)"
    by blast
  note unf = rw_loop_unfold [OF n(2), of "host_syscall_SYS_pread64 host", OF run]
  consider "is_error r \<or> r = 0" | "r = n" "0 < r" | "0 < r" "r < n" using r by (fastforce simp: word_neq_0_conv)
  then show ?case
  proof cases
    case 1
    then have "cut_short host 17 fd (amem (harena s)) file (file (hmem s)) off (unat n) 0 (ucast r)"
      using an n(1) by (auto simp: cut_short_def word_less_nat_alt)
    then show ?thesis using unf(1) [OF 1] st fl by (intro exI [of _ s1] exI [of _ "ucast r"] exI [of _ off] exI [of _ 0]) (simp add: load_bytes_def)
  next
    case 2
    then have "\<not> is_error r" using int_len(2) [OF n(2)] error_int [of r] by auto
    then show ?thesis using unf(2) 2 r st fl int_len(2) [OF n(2)]
      by (intro exI [of _ s1] exI [of _ "ucast n"] exI [of _ "off + n"] exI [of _ "unat n"]) (simp add: word_less_def)
  next
    case 3
    have "\<not> is_error r" using 3 n(2) int_len(2) [of r] error_int [of r] by (auto dest: order_less_trans)
    then have lr: "load_bytes (hmem s1) buf (unat r) = load_bytes (file (hmem s)) off (unat r)" using r by simp
    have le: "r \<le> n" using 3 by simp
    have tl: "bytes_at (buf + r) (n - r) \<subseteq> bytes_at buf n" by (auto simp: bytes_at_tail [OF le])
    have "unat (n - r) < unat n" using 3 by (simp add: unat_sub le word_less_nat_alt)
    have ha: "harena s1 = harena s" using st by (simp add: dev_step_def)
    have room: "n - r \<le> asize (harena s1)"
      using st word_sub_le_iff [THEN iffD2, OF le] less.prems(4) by (simp add: dev_step_def)
    from less.hyps [OF \<open>unat (n - r) < unat n\<close> dev_step_ready [OF st] in_file_tail [OF less.prems(2) 3(1,2) serves_fileD(1) [OF f]]
        order_trans [OF tl less.prems(3)] room]
    obtain s' ret off' k where
      h: "rw_loop (host_syscall_SYS_pread64 host) fd (buf + r) (ucast (n - r)) (off + r) s1 = Some (s', ret, off')"
      "dev_step own encl (bytes_at (buf + r) (n - r)) s1 s'" "file (hmem s') = file (hmem s1)"
      "load_bytes (hmem s') (buf + r) k = load_bytes (file (hmem s1)) (off + r) k"
      "k = unat (n - r) \<and> 0 < sint ret \<and> off' = off + r + (n - r) \<or>
         cut_short host 17 fd (amem (harena s1)) file (file (hmem s1)) (off + r) (unat (n - r)) k ret"
      by blast
    have "hmem s' (buf + i) = hmem s1 (buf + i)" if "i < r" for i
    proof -
      have "buf + i \<in> encl" "buf + i \<notin> bytes_at (buf + r) (n - r)"
        using that le less.prems(3) bytes_at_offset [of i n buf] bytes_at_offset [of i r buf]
        by (auto simp: bytes_at_tail [OF le])
      then show ?thesis using h(2) by (simp add: dev_step_def)
    qed
    then have "load_bytes (hmem s') buf (unat r) = load_bytes (hmem s1) buf (unat r)" by (simp add: load_bytes_eq)
    then have "load_bytes (hmem s') buf (unat r + k) = load_bytes (file (hmem s)) off (unat r + k)"
      using h(4) lr fl by (simp add: load_bytes_append)
    moreover have sum: "unat r + unat (n - r) = unat n" using le by (simp add: unat_sub word_le_nat_alt)
    moreover have "unat r + k = unat n \<and> 0 < sint ret \<and> off' = off + n \<or> cut_short host 17 fd (amem (harena s)) file (file (hmem s)) off (unat n) (unat r + k) ret"
      using h(5) cut_short_shift [where off = off and n = r and tot = "unat (n - r)"] sum fl ha by auto
    ultimately show ?thesis
      using unf(2) [OF 3(1) le] 3(2) h(1-3) fl dev_step_trans [OF st h(2)] tl
      by (intro exI [of _ s'] exI [of _ ret] exI [of _ off'] exI [of _ "unat r + k"]) auto
  qed
qed

lemma write_loop_dev:
  assumes f: "serves_file host fd cap file own encl" and z: "0 \<notin> encl"
    and "dev_ready own encl s" and "in_file cap off n" and "bytes_at buf n \<subseteq> encl" and "n \<le> asize (harena s)"
  shows "\<exists>s' ret off' k. rw_loop (host_syscall_SYS_pwrite64 host) fd buf (ucast n) off s = Some (s', ret, off') \<and>
    dev_step own encl {} s s' \<and>
    file (hmem s') = write_bytes off (take k (load_bytes (hmem s) buf (unat n))) (file (hmem s)) \<and>
    (k = unat n \<and> 0 < sint ret \<and> off' = off + n \<or> cut_short host 18 fd (amem (harena s)) file (file (hmem s')) off (unat n) k ret)"
  using assms(3-)
proof (induction "unat n" arbitrary: n buf off s rule: less_induct)
  case less
  have n: "0 < n" "n < 2 ^ 31" using less.prems(2) by (simp_all add: in_file_def)
  have "buf \<noteq> 0" using z less.prems(3) n(1) by (auto simp: bytes_at_def subset_eq)
  from pwrite_dev [OF f less.prems(1,2) this less.prems(3,4)] obtain s1 r where
    run: "host_syscall_SYS_pwrite64 host fd buf n off s = Some (s1, r)" and st: "dev_step own encl {} s s1"
    and an: "answered host 18 fd (amem (harena s)) off file (file (hmem s)) r"
    and r: "is_error r \<and> file (hmem s1) = file (hmem s) \<or> r \<le> n \<and>
      file (hmem s1) = write_bytes off (load_bytes (hmem s) buf (unat r)) (file (hmem s))"
    by blast
  note unf = rw_loop_unfold [OF n(2), of "host_syscall_SYS_pwrite64 host", OF run]
  have nn: "is_error r \<or> r \<le> n" "r \<le> n \<Longrightarrow> \<not> is_error r"
    using r n(2) int_len(2) [of r] error_int [of r] by (auto dest: order_le_less_trans)
  have "file (hmem s1) = file (hmem s)" if "is_error r \<or> r = 0" using that r nn by (auto simp: write_bytes_def load_bytes_def)
  then consider "is_error r \<or> r = 0" "file (hmem s1) = file (hmem s)" | "r = n" "0 < r" "\<not> is_error r" | "0 < r" "r < n" "\<not> is_error r"
    using nn by (fastforce simp: word_neq_0_conv)
  then show ?case
  proof cases
    case 1
    then have "cut_short host 18 fd (amem (harena s)) file (file (hmem s1)) off (unat n) 0 (ucast r)"
      using an n(1) by (auto simp: cut_short_def word_less_nat_alt)
    then show ?thesis using unf(1) [OF 1(1)] 1(2) st
      by (intro exI [of _ s1] exI [of _ "ucast r"] exI [of _ off] exI [of _ 0]) (simp add: write_bytes_def)
  next
    case 2
    then show ?thesis using unf(2) r st int_len(2) [OF n(2)]
      by (intro exI [of _ s1] exI [of _ "ucast n"] exI [of _ "off + n"] exI [of _ "unat n"]) (simp add: word_less_def)
  next
    case 3
    have le: "r \<le> n" using 3 by simp
    have tl: "bytes_at (buf + r) (n - r) \<subseteq> bytes_at buf n" by (auto simp: bytes_at_tail [OF le])
    have "unat (n - r) < unat n" using 3 by (simp add: unat_sub le word_less_nat_alt)
    have ha: "harena s1 = harena s" using st by (simp add: dev_step_def)
    have room: "n - r \<le> asize (harena s1)"
      using st word_sub_le_iff [THEN iffD2, OF le] less.prems(4) by (simp add: dev_step_def)
    from less.hyps [OF \<open>unat (n - r) < unat n\<close> dev_step_ready [OF st] in_file_tail [OF less.prems(2) 3(1,2) serves_fileD(1) [OF f]]
        order_trans [OF tl less.prems(3)] room]
    obtain s' ret off' k where
      h: "rw_loop (host_syscall_SYS_pwrite64 host) fd (buf + r) (ucast (n - r)) (off + r) s1 = Some (s', ret, off')"
      "dev_step own encl {} s1 s'"
      "file (hmem s') = write_bytes (off + r) (take k (load_bytes (hmem s1) (buf + r) (unat (n - r)))) (file (hmem s1))"
      "k = unat (n - r) \<and> 0 < sint ret \<and> off' = off + r + (n - r) \<or>
         cut_short host 18 fd (amem (harena s1)) file (file (hmem s')) (off + r) (unat (n - r)) k ret"
      by blast
    have "hmem s1 (buf + r + i) = hmem s (buf + r + i)" if "i < n - r" for i
      using bytes_at_offset [OF that, of "buf + r"] tl less.prems(3) st by (auto simp: dev_step_def)
    then have same: "load_bytes (hmem s1) (buf + r) (unat (n - r)) = load_bytes (hmem s) (buf + r) (unat (n - r))"
      by (simp add: load_bytes_eq)
    let ?xs = "load_bytes (hmem s) buf (unat r)" and ?ys = "load_bytes (hmem s) (buf + r) (unat (n - r))"
    have "unat r + unat (n - r) < 2 ^ 64" using 3 unsigned_less [of n, where 'a = nat] by (simp add: unat_sub le word_less_nat_alt)
    then have "length ?xs + length (take k ?ys) < 2 ^ 64" by simp
    note wa = write_bytes_append [OF this, of off "file (hmem s)"]
    have "file (hmem s') = write_bytes off (?xs @ take k ?ys) (file (hmem s))"
      using h(3) r 3 wa unfolding same by simp
    also have "?xs @ take k ?ys = take (unat r + k) (load_bytes (hmem s) buf (unat n))"
      by (simp add: load_bytes_split [OF le])
    finally have fs: "file (hmem s') = write_bytes off (take (unat r + k) (load_bytes (hmem s) buf (unat n))) (file (hmem s))" .
    have sum: "unat r + unat (n - r) = unat n" using le by (simp add: unat_sub word_le_nat_alt)
    have "unat r + k = unat n \<and> 0 < sint ret \<and> off' = off + n \<or> cut_short host 18 fd (amem (harena s)) file (file (hmem s')) off (unat n) (unat r + k) ret"
      using h(4) cut_short_shift [where off = off and n = r and tot = "unat (n - r)"] sum ha by auto
    then show ?thesis
      using fs unf(2) [OF 3(1) le] 3(2) h(1) dev_step_trans [OF st h(2)]
      by (intro exI [of _ s'] exI [of _ ret] exI [of _ off'] exI [of _ "unat r + k"]) auto
  qed
qed

section \<open>Requests with several buffers\<close>

definition bufs_total :: "iovec list \<Rightarrow> nat" where
  "bufs_total bufs = (\<Sum>(b, n)\<leftarrow>bufs. unat n)"

definition bufs_data :: "memory \<Rightarrow> iovec list \<Rightarrow> u8 list" where
  "bufs_data m bufs = concat (map (\<lambda>(b, n). load_bytes m b (unat n)) bufs)"

definition bufs_bytes :: "iovec list \<Rightarrow> u64 set" where
  "bufs_bytes bufs = (\<Union>(b, n)\<in>set bufs. bytes_at b n)"

definition bufs_ok :: "u64 set \<Rightarrow> iovec list \<Rightarrow> bool" where
  "bufs_ok encl bufs \<longleftrightarrow> 0 \<notin> encl \<and> bufs_bytes bufs \<subseteq> encl \<and> (\<forall>(b, n)\<in>set bufs. 0 < n \<and> n < 2 ^ 31)"

text \<open>No buffer is longer than the arena, so that it need not grow.\<close>

definition fits_arena :: "hst \<Rightarrow> iovec list \<Rightarrow> bool" where
  "fits_arena s bufs \<longleftrightarrow> (\<forall>(b, n)\<in>set bufs. n \<le> asize (harena s))"

fun disjoint_bufs :: "iovec list \<Rightarrow> bool" where
  "disjoint_bufs [] \<longleftrightarrow> True"
| "disjoint_bufs ((b, n) # bufs) \<longleftrightarrow> bytes_at b n \<inter> bufs_bytes bufs = {} \<and> disjoint_bufs bufs"

lemma bufs_simps [simp]:
  "bufs_total [] = 0" "bufs_total ((b, n) # bufs) = unat n + bufs_total bufs"
  "bufs_data m [] = []" "bufs_data m ((b, n) # bufs) = load_bytes m b (unat n) @ bufs_data m bufs"
  "bufs_bytes [] = {}" "bufs_bytes ((b, n) # bufs) = bytes_at b n \<union> bufs_bytes bufs"
  by (simp_all add: bufs_total_def bufs_data_def bufs_bytes_def)

lemma bufs_ok_Cons:
  "bufs_ok encl ((b, n) # bufs) \<longleftrightarrow> bufs_ok encl bufs \<and> bytes_at b n \<subseteq> encl \<and> 0 < n \<and> n < 2 ^ 31"
  by (auto simp: bufs_ok_def)

lemma length_bufs_data [simp]: "length (bufs_data m bufs) = bufs_total bufs"
  by (induction bufs) auto

lemma load_bytes_cong: "(\<And>a. a \<in> bytes_at b n \<Longrightarrow> m a = m' a) \<Longrightarrow> load_bytes m b (unat n) = load_bytes m' b (unat n)"
  by (simp add: load_bytes_eq bytes_at_offset)

lemma bufs_data_cong: "(\<And>a. a \<in> bufs_bytes bufs \<Longrightarrow> m a = m' a) \<Longrightarrow> bufs_data m bufs = bufs_data m' bufs"
  by (induction bufs) (auto intro!: load_bytes_cong)

lemma dev_step_pin:
  assumes "dev_step own encl out (if p then s\<lparr>hsync := True\<rparr> else s) t"
  shows "dev_step own encl out s (t\<lparr>hsync := hsync s\<rparr>)"
  using assms by (auto simp: dev_step_def dev_ready_def idle_def arena_bytes_def split: if_splits)

lemma fits_arena_step: "dev_step own encl out s t \<Longrightarrow> fits_arena t bufs = fits_arena s bufs"
  by (simp add: dev_step_def fits_arena_def)

lemma dev_ready_pin [simp]: "dev_ready own encl (s\<lparr>hsync := b\<rparr>) = dev_ready own encl s"
  by (simp add: dev_ready_def idle_def arena_bytes_def)

lemma in_file_head:
  assumes "unat off + bufs_total ((b, n) # bufs) \<le> cap" and "cap \<le> 2 ^ 63" and "0 < n" and "n < 2 ^ 31"
  shows "in_file cap off n" and "unat (off + n) + bufs_total bufs \<le> cap"
proof -
  show "in_file cap off n" using assms by (simp add: in_file_def)
  have "unat (off + n) = unat off + unat n" by (rule unat_add_small) (use assms in simp)
  then show "unat (off + n) + bufs_total bufs \<le> cap" using assms(1) by simp
qed

text \<open>One buffer with the thread pinned for the time of the transfer.\<close>

lemma read_buf_dev:
  assumes f: "serves_file host fd cap file own encl" and "0 \<notin> encl" and "dev_ready own encl s" and "in_file cap off n"
    and "bytes_at buf n \<subseteq> encl" and "n \<le> asize (harena s)" and "t = (if waits_on_io disks fd then s\<lparr>hsync := True\<rparr> else s)"
  shows "\<exists>s' ret off' k. rw_loop (host_syscall_SYS_pread64 host) fd buf (ucast n) off t = Some (s', ret, off') \<and>
    dev_step own encl (bytes_at buf n) s (s'\<lparr>hsync := hsync s\<rparr>) \<and> file (hmem s') = file (hmem s) \<and>
    load_bytes (hmem s') buf k = load_bytes (file (hmem s)) off k \<and>
    (k = unat n \<and> 0 < sint ret \<and> off' = off + n \<or> cut_short host 17 fd (amem (harena s)) file (file (hmem s)) off (unat n) k ret)"
proof -
  have t: "dev_ready own encl t" "n \<le> asize (harena t)" "hmem t = hmem s" "harena t = harena s" using assms by simp_all
  from read_loop_dev [OF f assms(2) t(1) assms(4,5) t(2)] show ?thesis
    unfolding t(3,4) using dev_step_pin assms(7) by blast
qed

lemma write_buf_dev:
  assumes f: "serves_file host fd cap file own encl" and "0 \<notin> encl" and "dev_ready own encl s" and "in_file cap off n"
    and "bytes_at buf n \<subseteq> encl" and "n \<le> asize (harena s)" and "t = (if waits_on_io disks fd then s\<lparr>hsync := True\<rparr> else s)"
  shows "\<exists>s' ret off' k. rw_loop (host_syscall_SYS_pwrite64 host) fd buf (ucast n) off t = Some (s', ret, off') \<and>
    dev_step own encl {} s (s'\<lparr>hsync := hsync s\<rparr>) \<and>
    file (hmem s') = write_bytes off (take k (load_bytes (hmem s) buf (unat n))) (file (hmem s)) \<and>
    (k = unat n \<and> 0 < sint ret \<and> off' = off + n \<or> cut_short host 18 fd (amem (harena s)) file (file (hmem s')) off (unat n) k ret)"
proof -
  have t: "dev_ready own encl t" "n \<le> asize (harena t)" "hmem t = hmem s" "harena t = harena s" using assms by simp_all
  from write_loop_dev [OF f assms(2) t(1) assms(4,5) t(2)] show ?thesis
    unfolding t(3,4) using dev_step_pin assms(7) by blast
qed

lemma cut_short_stops: "cut_short host no fd v file c off tot k ret \<Longrightarrow> sint ret \<le> 0"
  using error_int by (fastforce simp: cut_short_def)

lemma read_bufs_dev:
  assumes f: "serves_file host fd cap file own encl"
    and "bufs_ok encl bufs" and "disjoint_bufs bufs" and "dev_ready own encl s" and "fits_arena s bufs"
    and "unat off + bufs_total bufs \<le> cap" and "0 \<le> sint ret"
  shows "\<exists>s' ret' k. rw_bufs (host_syscall_SYS_pread64 host) disks fd bufs off ret s = Some (s', ret') \<and>
    dev_step own encl (bufs_bytes bufs) s s' \<and> file (hmem s') = file (hmem s) \<and>
    take k (bufs_data (hmem s') bufs) = load_bytes (file (hmem s)) off k \<and>
    (k = bufs_total bufs \<and> 0 \<le> sint ret' \<or> cut_short host 17 fd (amem (harena s)) file (file (hmem s)) off (bufs_total bufs) k ret')"
  using assms(2-)
proof (induction bufs arbitrary: off ret s)
  case Nil
  then show ?case by (intro exI [of _ s] exI [of _ ret] exI [of _ 0]) (simp add: dev_step_def load_bytes_def)
next
  case (Cons bn bufs)
  obtain b n where bn: "bn = (b, n)" by (cases bn)
  note p = Cons.prems [unfolded bn bufs_ok_Cons]
  define t where "t = (if waits_on_io disks fd then s\<lparr>hsync := True\<rparr> else s)"
  have z: "0 \<notin> encl" using p(1) by (simp add: bufs_ok_def)
  have n: "0 < n" "n < 2 ^ 31" "bytes_at b n \<subseteq> encl" "n \<le> asize (harena s)" using p(1,4) by (simp_all add: fits_arena_def)
  note hd = in_file_head [OF p(5) serves_fileD(1) [OF f] n(1,2)]
  from read_buf_dev [OF f z p(3) hd(1) n(3,4) t_def] obtain s1 r off' k where
    l: "rw_loop (host_syscall_SYS_pread64 host) fd b (ucast n) off t = Some (s1, r, off')"
      "dev_step own encl (bytes_at b n) s (s1\<lparr>hsync := hsync s\<rparr>)" "file (hmem s1) = file (hmem s)"
      "load_bytes (hmem s1) b k = load_bytes (file (hmem s)) off k"
      "k = unat n \<and> 0 < sint r \<and> off' = off + n \<or> cut_short host 17 fd (amem (harena s)) file (file (hmem s)) off (unat n) k r" by blast
  let ?s1 = "s1\<lparr>hsync := hsync s\<rparr>"
  show ?case
  proof (cases "sint r \<le> 0")
    case True
    then have c: "cut_short host 17 fd (amem (harena s)) file (file (hmem s)) off (unat n) k r" using l(5) by auto
    then have "take k (load_bytes (hmem s1) b (unat n)) = load_bytes (hmem s1) b k"
      by (auto simp: load_bytes_def cut_short_def take_map)
    moreover have "k \<le> unat n" using c by (simp add: cut_short_def)
    moreover have "dev_step own encl (bufs_bytes (bn # bufs)) s ?s1" using l(2) by (simp add: bn dev_step_def)
    ultimately show ?thesis using True l(1,3,4) cut_short_mono [OF c, of "bufs_total (bn # bufs)"]
      by (intro exI [of _ ?s1] exI [of _ r] exI [of _ k]) (simp add: bn Let_def t_def [symmetric])
  next
    case False
    then have r: "0 < sint r" "off' = off + n" "k = unat n" using l(5) cut_short_stops by auto
    have ha: "harena s1 = harena s" using l(2) by (simp add: dev_step_def)
    have pre: "bufs_ok encl bufs" "disjoint_bufs bufs" "dev_ready own encl ?s1" "fits_arena ?s1 bufs" "0 \<le> sint r"
      using p dev_step_ready [OF l(2)] r(1) fits_arena_step [OF l(2)] by (simp_all add: fits_arena_def)
    from Cons.IH [OF pre(1-4) hd(2) pre(5)] obtain s' ret' j where
      h: "rw_bufs (host_syscall_SYS_pread64 host) disks fd bufs (off + n) r ?s1 = Some (s', ret')"
      "dev_step own encl (bufs_bytes bufs) ?s1 s'" "file (hmem s') = file (hmem s)"
      "take j (bufs_data (hmem s') bufs) = load_bytes (file (hmem s)) (off + n) j"
      "j = bufs_total bufs \<and> 0 \<le> sint ret' \<or> cut_short host 17 fd (amem (harena s)) file (file (hmem s)) (off + n) (bufs_total bufs) j ret'"
      using l(3) ha by auto
    have "load_bytes (hmem s') b (unat n) = load_bytes (hmem s1) b (unat n)"
      by (rule load_bytes_cong) (use h(2) p(2) n(3) in \<open>auto simp: dev_step_def\<close>)
    then have "take (unat n + j) (bufs_data (hmem s') (bn # bufs)) = load_bytes (file (hmem s)) off (unat n + j)"
      using h(4) l(4) r(3) by (simp add: bn load_bytes_append)
    moreover have "dev_step own encl (bufs_bytes (bn # bufs)) s s'"
      by (rule dev_step_trans [OF l(2) h(2)]) (simp add: bn)
    moreover have "rw_bufs (host_syscall_SYS_pread64 host) disks fd (bn # bufs) off ret s = Some (s', ret')"
      using l(1) h(1) r(1,2) by (simp add: bn Let_def t_def [symmetric])
    moreover have "unat n + j = bufs_total (bn # bufs) \<and> 0 \<le> sint ret' \<or>
        cut_short host 17 fd (amem (harena s)) file (file (hmem s)) off (bufs_total (bn # bufs)) (unat n + j) ret'"
      using h(5) cut_short_shift [where off = off and n = n and tot = "bufs_total bufs"] by (auto simp: bn)
    ultimately show ?thesis using h(3) by blast
  qed
qed

lemma write_bufs_dev:
  assumes f: "serves_file host fd cap file own encl"
    and "bufs_ok encl bufs" and "dev_ready own encl s" and "fits_arena s bufs"
    and "unat off + bufs_total bufs \<le> cap" and "0 \<le> sint ret"
  shows "\<exists>s' ret' k. rw_bufs (host_syscall_SYS_pwrite64 host) disks fd bufs off ret s = Some (s', ret') \<and>
    dev_step own encl {} s s' \<and>
    file (hmem s') = write_bytes off (take k (bufs_data (hmem s) bufs)) (file (hmem s)) \<and>
    (k = bufs_total bufs \<and> 0 \<le> sint ret' \<or> cut_short host 18 fd (amem (harena s)) file (file (hmem s')) off (bufs_total bufs) k ret')"
  using assms(2-)
proof (induction bufs arbitrary: off ret s)
  case Nil
  then show ?case by (intro exI [of _ s] exI [of _ ret] exI [of _ 0]) (simp add: dev_step_def write_bytes_def)
next
  case (Cons bn bufs)
  obtain b n where bn: "bn = (b, n)" by (cases bn)
  note p = Cons.prems [unfolded bn bufs_ok_Cons]
  define t where "t = (if waits_on_io disks fd then s\<lparr>hsync := True\<rparr> else s)"
  have z: "0 \<notin> encl" using p(1) by (simp add: bufs_ok_def)
  have n: "0 < n" "n < 2 ^ 31" "bytes_at b n \<subseteq> encl" "n \<le> asize (harena s)" using p(1,3) by (simp_all add: fits_arena_def)
  note hd = in_file_head [OF p(4) serves_fileD(1) [OF f] n(1,2)]
  from write_buf_dev [OF f z p(2) hd(1) n(3,4) t_def] obtain s1 r off' k where
    l: "rw_loop (host_syscall_SYS_pwrite64 host) fd b (ucast n) off t = Some (s1, r, off')"
      "dev_step own encl {} s (s1\<lparr>hsync := hsync s\<rparr>)"
      "file (hmem s1) = write_bytes off (take k (load_bytes (hmem s) b (unat n))) (file (hmem s))"
      "k = unat n \<and> 0 < sint r \<and> off' = off + n \<or> cut_short host 18 fd (amem (harena s)) file (file (hmem s1)) off (unat n) k r" by blast
  let ?s1 = "s1\<lparr>hsync := hsync s\<rparr>"
  show ?case
  proof (cases "sint r \<le> 0")
    case True
    then have c: "cut_short host 18 fd (amem (harena s)) file (file (hmem s1)) off (unat n) k r" using l(4) by auto
    then have "k \<le> unat n" by (simp add: cut_short_def)
    then show ?thesis using True l(1-3) cut_short_mono [OF c, of "bufs_total (bn # bufs)"]
      by (intro exI [of _ ?s1] exI [of _ r] exI [of _ k]) (simp add: bn Let_def t_def [symmetric])
  next
    case False
    then have r: "0 < sint r" "off' = off + n" "k = unat n" using l(4) cut_short_stops by auto
    have ha: "harena s1 = harena s" using l(2) by (simp add: dev_step_def)
    have pre: "bufs_ok encl bufs" "dev_ready own encl ?s1" "fits_arena ?s1 bufs" "0 \<le> sint r"
      using p dev_step_ready [OF l(2)] r(1) fits_arena_step [OF l(2)] by (simp_all add: fits_arena_def)
    from Cons.IH [OF pre(1-3) hd(2) pre(4)] obtain s' ret' j where
      h: "rw_bufs (host_syscall_SYS_pwrite64 host) disks fd bufs (off + n) r ?s1 = Some (s', ret')"
      "dev_step own encl {} ?s1 s'"
      "file (hmem s') = write_bytes (off + n) (take j (bufs_data (hmem s1) bufs)) (file (hmem s1))"
      "j = bufs_total bufs \<and> 0 \<le> sint ret' \<or> cut_short host 18 fd (amem (harena s)) file (file (hmem s')) (off + n) (bufs_total bufs) j ret'"
      using ha by auto
    have same: "bufs_data (hmem s1) bufs = bufs_data (hmem s) bufs"
      by (rule bufs_data_cong) (use l(2) p(1) in \<open>auto simp: dev_step_def bufs_ok_def\<close>)
    let ?xs = "load_bytes (hmem s) b (unat n)" and ?ys = "take j (bufs_data (hmem s) bufs)"
    have "length ?xs + length ?ys < 2 ^ 64" using p(4) serves_fileD(1) [OF f] by simp
    note wa = write_bytes_append [OF this, of off "file (hmem s)"]
    have "file (hmem s') = write_bytes off (?xs @ ?ys) (file (hmem s))"
      using h(3) l(3) r(3) wa unfolding same by simp
    also have "?xs @ ?ys = take (unat n + j) (bufs_data (hmem s) (bn # bufs))" by (simp add: bn)
    finally have "file (hmem s') = write_bytes off (take (unat n + j) (bufs_data (hmem s) (bn # bufs))) (file (hmem s))" .
    moreover have "rw_bufs (host_syscall_SYS_pwrite64 host) disks fd (bn # bufs) off ret s = Some (s', ret')"
      using l(1) h(1) r(1,2) by (simp add: bn Let_def t_def [symmetric])
    moreover have "dev_step own encl {} s s'" by (rule dev_step_trans [OF l(2) h(2)]) simp
    moreover have "unat n + j = bufs_total (bn # bufs) \<and> 0 \<le> sint ret' \<or>
        cut_short host 18 fd (amem (harena s)) file (file (hmem s')) off (bufs_total (bn # bufs)) (unat n + j) ret'"
      using h(4) cut_short_shift [where off = off and n = n and tot = "bufs_total bufs"] by (auto simp: bn)
    ultimately show ?thesis by blast
  qed
qed

lemma sector_offset:
  assumes "unat (rsector req) * 512 + t \<le> cap" and "cap \<le> 2 ^ 63"
  shows "unat (rsector req * 512) + t \<le> cap"
proof -
  have "unat (rsector req * 512) = unat (rsector req) * 512"
    using assms unat_word_ariths(2) [of "rsector req" 512] by simp
  then show ?thesis using assms(1) by simp
qed

section \<open>Where the devices differ from what a disk does\<close>

text \<open>
  A transfer that the host answers with 0, the end of the file, ends the request, with the other buffers
  untouched, and the request reports success.
\<close>

lemma disk_eof_reported_ok:
  assumes "rtype req = BLK_READ" and "rbuf req = (b, n) # bufs" and "n < 2 ^ 31"
    and "host_syscall_SYS_pread64 host fd b n (rsector req * 512) (if waits_on_io disks fd then s\<lparr>hsync := True\<rparr> else s) = Some (s', 0)"
  shows "blk_request host disks fd req s = Some (s'\<lparr>hsync := hsync s\<rparr>, BLK_OK)"
proof -
  have "rw_loop (host_syscall_SYS_pread64 host) fd b (ucast n) (rsector req * 512)
      (if waits_on_io disks fd then s\<lparr>hsync := True\<rparr> else s) = Some (s', 0, rsector req * 512)"
    by (subst rw_loop.simps) (simp add: int_len(1) [OF assms(3)] assms(4))
  then show ?thesis by (simp add: blk_request_def assms(1,2) do_plain_rw_def blk_result_def)
qed

text \<open>
  On a mapped image every buffer of a read request is filled from the same position, that of the
  sector: a request with one buffer reads what it should, one with more repeats the
  beginning of the data in each buffer.
\<close>

lemma mem_read_loop_outside: "a \<notin> bufs_bytes bufs \<Longrightarrow> \<forall>(b, n)\<in>set bufs. n < 2 ^ 31 \<Longrightarrow> mem_read_loop src bufs m a = m a"
  by (induction bufs arbitrary: m) (auto simp: memcpy_outside int_len)

lemma disk_mem_read_repeats:
  assumes "get_disk_config disks fd = Some d" and "rtype req = BLK_READ" and "bufs_ok encl (rbuf req)" and "disjoint_bufs (rbuf req)"
    and "\<forall>(b, n)\<in>set (rbuf req). bytes_at (dmmap d + rsector req * 512) n \<inter> encl = {}"
  shows "\<exists>s'. mem_blk_request host disks fd req s = Some (s', BLK_OK) \<and>
    bufs_data (hmem s') (rbuf req) = concat (map (\<lambda>(b, n). load_bytes (hmem s) (dmmap d + rsector req * 512) (unat n)) (rbuf req))"
proof -
  have loop: "bufs_data (mem_read_loop src bufs m) bufs = concat (map (\<lambda>(b, n). load_bytes m src (unat n)) bufs)"
    if "bufs_ok encl bufs" "disjoint_bufs bufs" "\<forall>(b, n)\<in>set bufs. bytes_at src n \<inter> encl = {}" for src bufs m
    using that
  proof (induction bufs arbitrary: m)
    case (Cons bn bufs)
    obtain b n where bn: "bn = (b, n)" by (cases bn)
    note p = Cons.prems [unfolded bn bufs_ok_Cons]
    have lt: "\<forall>(b, n)\<in>set bufs. n < 2 ^ 31" and n: "n < 2 ^ 31" "bytes_at b n \<subseteq> encl" using p(1) by (auto simp: bufs_ok_def)
    have "load_bytes (mem_read_loop src bufs (memcpy b src n m)) b (unat n) = load_bytes (memcpy b src n m) b (unat n)"
      by (rule load_bytes_cong) (use p(2) lt in \<open>auto intro!: mem_read_loop_outside\<close>)
    also have "\<dots> = load_bytes m src (unat n)" by (simp add: load_bytes_eq memcpy_dst)
    finally have hd: "load_bytes (mem_read_loop src bufs (memcpy b src n m)) b (unat n) = load_bytes m src (unat n)" .
    have "load_bytes (memcpy b src n m) src (unat k) = load_bytes m src (unat k)" if "(c, k) \<in> set bufs" for c k
    proof (rule load_bytes_cong, rule memcpy_outside)
      fix a assume "a \<in> bytes_at src k"
      moreover have "bytes_at src k \<inter> encl = {}" using that p(3) by auto
      ultimately show "a \<notin> bytes_at b n" using n(2) by blast
    qed
    then have "concat (map (\<lambda>(c, k). load_bytes (memcpy b src n m) src (unat k)) bufs) = concat (map (\<lambda>(c, k). load_bytes m src (unat k)) bufs)"
      by (intro arg_cong [of _ _ concat] map_cong) auto
    then show ?case using Cons.IH [of "memcpy b src n m"] p hd by (simp add: bn int_len [OF n(1)])
  qed simp
  show ?thesis using loop [OF assms(3-5)] by (simp add: mem_blk_request_def mem_do_read_def assms(1,2) blk_result_def)
qed

section \<open>Properties\<close>

lemma request_status:
  assumes "k = tot \<and> 0 \<le> sint ret \<or> cut_short host no fd v file c off tot k ret" and "st = (if sint ret < 0 then BLK_IOERR else BLK_OK)"
  shows "k = tot \<and> st = BLK_OK \<or> k < tot \<and> (\<exists>r. answered host no fd v (off + of_nat k) file c r \<and>
    (is_error r \<and> st = BLK_IOERR \<or> r = 0 \<and> st = BLK_OK))"
  using assms error_int unfolding cut_short_def by (elim disjE conjE exE) auto

text \<open>
  A host with a file of two sectors that transfers at most 100 bytes at a time and refuses
  addresses outside of what it has mapped.
\<close>

definition disk_file :: "memory \<Rightarrow> u64 \<Rightarrow> u8" where
  "disk_file m x = (if x < 1024 then m (0x10000 + x) else 0)"

definition disk_pread :: "syscall_t \<Rightarrow> memory \<Rightarrow> u64 \<times> memory" where
  "disk_pread sc m =
     (let r = min (arg3 sc) 100
      in if 0x100000000 \<le> arg2 sc \<and> arg2 sc < 0x200000000
         then (r, \<lambda>a. if a - arg2 sc < r then disk_file m (arg4 sc + (a - arg2 sc)) else m a) else (- 14, m))"

definition disk_pwrite :: "syscall_t \<Rightarrow> memory \<Rightarrow> u64 \<times> memory" where
  "disk_pwrite sc m =
     (let r = min (arg3 sc) 100
      in (r, \<lambda>a. if in_file 1024 (arg4 sc) (arg3 sc) \<and> a - (0x10000 + arg4 sc) < r then m (arg2 sc + (a - (0x10000 + arg4 sc))) else m a))"

definition disk_host :: host where
  "disk_host sc m =
     (if syscallno sc = 17 then disk_pread sc m else if syscallno sc = 18 then disk_pwrite sc m
      else (0x100000000, m))"

lemma min_len: "min n (100 :: u64) \<le> n" "unat (min n 100) \<le> 100" "0 < n \<Longrightarrow> 0 < min n (100 :: u64)"
  by (auto simp: min_def word_le_nat_alt)

lemma disk_pread_ok:
  assumes "in_file 1024 (arg4 sc) (arg3 sc)"
  shows "pread_ok disk_file sc m (disk_pread sc m)"
proof (cases "0x100000000 \<le> arg2 sc \<and> arg2 sc < 0x200000000")
  case True
  define r where "r = min (arg3 sc) 100"
  have r: "r \<le> arg3 sc" "unat r \<le> 100" "0 < r" using min_len assms by (simp_all add: r_def in_file_def)
  let ?m = "\<lambda>a. if a - arg2 sc < r then disk_file m (arg4 sc + (a - arg2 sc)) else m a"
  have "\<not> 0x10000 + x - arg2 sc < r" if "x < 1024" for x
  proof -
    have "unat (0x10000 + x) = 0x10000 + unat x" by (rule unat_add_small [THEN trans]) (use that in \<open>simp_all add: word_less_nat_alt\<close>)
    then show ?thesis using True r(2) that by (auto simp: word_less_nat_alt word_le_nat_alt unat_sub_wrap)
  qed
  then have "disk_file ?m = disk_file m" by (simp add: fun_eq_iff disk_file_def)
  then show ?thesis using True r assms by (simp add: pread_ok_def disk_pread_def Let_def load_bytes_eq flip: r_def)
next
  case False
  then have "disk_pread sc m = (- 14, m)" by (auto simp: disk_pread_def Let_def)
  then show ?thesis by (simp add: pread_ok_def is_error_def)
qed

lemma disk_pwrite_ok:
  assumes "in_file 1024 (arg4 sc) (arg3 sc)"
  shows "pwrite_ok disk_file sc m (disk_pwrite sc m)"
proof -
  define r where "r = min (arg3 sc) 100"
  have r: "r \<le> arg3 sc" "0 < r" using min_len assms by (simp_all add: r_def in_file_def)
  let ?m = "\<lambda>a. if a - (0x10000 + arg4 sc) < r then m (arg2 sc + (a - (0x10000 + arg4 sc))) else m a"
  have o: "unat (arg4 sc) + unat r \<le> 1024" using r(1) assms by (simp add: in_file_def word_le_nat_alt)
  have "disk_file ?m x = write_bytes (arg4 sc) (load_bytes m (arg2 sc) (unat r)) (disk_file m) x" for x
  proof (cases "x < 1024")
    case True
    then show ?thesis by (simp add: disk_file_def write_bytes_def load_bytes_def word_less_nat_alt)
  next
    case False
    then have "\<not> x - arg4 sc < r" using o by (simp add: word_less_nat_alt unat_sub_wrap)
    then show ?thesis using False by (simp add: disk_file_def write_bytes_def word_less_nat_alt)
  qed
  then show ?thesis using r assms by (simp add: pwrite_ok_def disk_pwrite_def Let_def fun_eq_iff flip: r_def)
qed

definition disk_encl :: "u64 set" where
  "disk_encl = bytes_at 0x20000 0x1000"

definition disk_own :: "u64 set" where
  "disk_own = bytes_at 0x10000 1024"

lemma disk_areas:
  "a \<in> disk_encl \<longleftrightarrow> 0x20000 \<le> unat a \<and> unat a < 0x21000" "a \<in> disk_own \<longleftrightarrow> 0x10000 \<le> unat a \<and> unat a < 0x10400"
  by (simp_all add: disk_encl_def disk_own_def bytes_at_nat)

lemma disk_host_keeps: "host_keeps disk_encl disk_host"
  unfolding host_keeps_def
proof (intro allI ballI)
  fix sc :: syscall_t and m a assume "a \<in> disk_encl"
  then have a: "0x20000 \<le> unat a" "unat a < 0x21000" by (simp_all add: disk_areas)
  have "\<not> a - arg2 sc < min (arg3 sc) 100" if "0x100000000 \<le> arg2 sc" "arg2 sc < 0x200000000"
    using that a min_len(2) [of "arg3 sc"] by (auto simp: word_less_nat_alt word_le_nat_alt unat_sub_wrap)
  then have 1: "snd (disk_pread sc m) a = m a" by (auto simp: disk_pread_def Let_def)
  have "\<not> a - (0x10000 + arg4 sc) < min (arg3 sc) 100" if "in_file 1024 (arg4 sc) (arg3 sc)"
  proof -
    have o: "unat (arg4 sc) < 1024" using that by (auto simp: in_file_def word_less_nat_alt)
    have "unat (0x10000 + arg4 sc) = 0x10000 + unat (arg4 sc)"
      by (rule unat_add_small [THEN trans]) (use o in simp_all)
    then show ?thesis using a o min_len(2) [of "arg3 sc"] by (auto simp: word_less_nat_alt unat_sub_wrap)
  qed
  then have 2: "snd (disk_pwrite sc m) a = m a" by (auto simp: disk_pwrite_def Let_def)
  show "snd (disk_host sc m) a = m a" using 1 2 by (simp add: disk_host_def)
qed

lemma disk_host_serves: "serves_file disk_host fd 1024 disk_file disk_own disk_encl"
proof -
  have "disk_own \<inter> disk_encl = {}" by (auto simp: disk_areas)
  moreover have "\<forall>m m'. (\<forall>a\<in>disk_own. m a = m' a) \<longrightarrow> disk_file m = disk_file m'"
    by (auto simp: disk_file_def disk_own_def bytes_at_def fun_eq_iff)
  ultimately show ?thesis
    by (simp add: serves_file_def disk_host_keeps disk_host_def disk_pread_ok disk_pwrite_ok)
qed

definition disk_state :: hst where
  "disk_state = sample_state\<lparr>harena := \<lparr>amem = 0x100000000, asize = 4096, allocated = 0\<rparr>\<rparr>"

lemma disk_state_ready: "dev_ready disk_own disk_encl disk_state"
  by (auto simp: dev_ready_def disk_state_def sample_state_def zero_call_def idle_def arena_bytes_def bytes_at_nat disk_areas)

lemma disk_bufs_ok: "bufs_ok disk_encl [(0x20000, 300), (0x20800, 200)]"
  by (auto simp: bufs_ok_def bytes_at_nat disk_areas)

lemma disk_fits: "fits_arena disk_state [(0x20000, 300), (0x20800, 200)]"
  by (simp add: fits_arena_def disk_state_def)

lemma disk_host_answers:
  assumes "no = 17 \<or> no = 18" and "answered disk_host no fd (amem (harena disk_state)) off disk_file c r"
  shows "\<not> is_error r" "r \<noteq> 0"
proof -
  from assms obtain n where "r = min n 100" "0 < n"
    by (auto simp: answered_def disk_host_def disk_pread_def disk_pwrite_def disk_state_def Let_def)
  then have "r \<noteq> 0" "r < 2 ^ 31" using min_len [of n] by (auto simp: word_less_nat_alt)
  then show "\<not> is_error r" "r \<noteq> 0" using int_len(2) [of r] error_int [of r] by auto
qed

text \<open>
  C27. Writing to a disk that is a file of the host. Whatever parts the host writes at a time, a write request
  within the file returns. Either the file has, from the position
  of the sector on, the data of the buffers one after the other, and the request reports success; or a beginning of
  that data has been written, and the host answered the call for what came next with an error, which is reported as one, or
  with 0, which is reported as success. The file is as before elsewhere, the memory of the enclave is unchanged,
  and the thread is pinned after the request exactly when it was before. No buffer is longer than the thread's arena, which is
  created with 4096 bytes.
\<close>

theorem disk_write_exact:
  assumes "serves_file host fd cap file own encl" and "dev_ready own encl s" and "rtype req = BLK_WRITE"
    and "bufs_ok encl (rbuf req)" and "fits_arena s (rbuf req)" and "unat (rsector req) * 512 + bufs_total (rbuf req) \<le> cap"
  shows "\<exists>s' st k. blk_request host disks fd req s = Some (s', st) \<and> dev_step own encl {} s s' \<and>
    file (hmem s') = write_bytes (rsector req * 512) (take k (bufs_data (hmem s) (rbuf req))) (file (hmem s)) \<and>
    (k = bufs_total (rbuf req) \<and> st = BLK_OK \<or>
     k < bufs_total (rbuf req) \<and> (\<exists>r. answered host 18 fd (amem (harena s)) (rsector req * 512 + of_nat k) file (file (hmem s')) r \<and>
       (is_error r \<and> st = BLK_IOERR \<or> r = 0 \<and> st = BLK_OK)))"
proof -
  have off: "unat (rsector req * 512) + bufs_total (rbuf req) \<le> cap"
    by (rule sector_offset [OF assms(6) serves_fileD(1) [OF assms(1)]])
  from write_bufs_dev [OF assms(1,4,2,5) off, of 0 disks] obtain s' ret k where
    h: "rw_bufs (host_syscall_SYS_pwrite64 host) disks fd (rbuf req) (rsector req * 512) 0 s = Some (s', ret)"
      "dev_step own encl {} s s'"
      "file (hmem s') = write_bytes (rsector req * 512) (take k (bufs_data (hmem s) (rbuf req))) (file (hmem s))"
      "k = bufs_total (rbuf req) \<and> 0 \<le> sint ret \<or>
        cut_short host 18 fd (amem (harena s)) file (file (hmem s')) (rsector req * 512) (bufs_total (rbuf req)) k ret"
    by auto
  have "blk_request host disks fd req s = Some (s', if sint ret < 0 then BLK_IOERR else BLK_OK)"
    using h(1) by (simp add: blk_request_def do_plain_rw_def blk_result_def assms(3))
  with h(2,3) request_status [OF h(4) refl] show ?thesis by blast
qed

theorem disk_write_exact_witness:
  "\<exists>s'. blk_request disk_host [] 5 \<lparr>rtype = BLK_WRITE, rsector = 1, rbuf = [(0x20000, 300), (0x20800, 200)]\<rparr> disk_state = Some (s', BLK_OK) \<and>
     disk_file (hmem s') = write_bytes 512 (bufs_data (hmem disk_state) [(0x20000, 300), (0x20800, 200)]) (disk_file (hmem disk_state))"
proof -
  let ?req = "\<lparr>rtype = BLK_WRITE, rsector = 1, rbuf = [(0x20000, 300), (0x20800, 200)]\<rparr>"
  have pre: "rtype ?req = BLK_WRITE" "bufs_ok disk_encl (rbuf ?req)" "fits_arena disk_state (rbuf ?req)"
    "unat (rsector ?req) * 512 + bufs_total (rbuf ?req) \<le> 1024" using disk_bufs_ok disk_fits by simp_all
  from disk_write_exact [OF disk_host_serves disk_state_ready pre, of "[]" 5] obtain s' st k where
    h: "blk_request disk_host [] 5 ?req disk_state = Some (s', st)"
      "disk_file (hmem s') = write_bytes (rsector ?req * 512) (take k (bufs_data (hmem disk_state) (rbuf ?req))) (disk_file (hmem disk_state))"
      "k = bufs_total (rbuf ?req) \<and> st = BLK_OK \<or> (\<exists>r. answered disk_host 18 5 (amem (harena disk_state)) (rsector ?req * 512 + of_nat k)
        disk_file (disk_file (hmem s')) r \<and> (is_error r \<or> r = 0))" by blast
  then have k: "k = bufs_total (rbuf ?req)" "st = BLK_OK" using disk_host_answers [of 18] by blast+
  have "take k (bufs_data (hmem disk_state) (rbuf ?req)) = bufs_data (hmem disk_state) (rbuf ?req)"
    unfolding k(1) by (simp only: take_all_iff length_bufs_data)
  with h(1,2) k(2) show ?thesis by auto
qed

text \<open>
  C28. Reading from such a disk. Either the request reports success and the buffers hold, one after
  the other, the bytes of the file from the position of the sector on; or this is so for their first \<open>k\<close> bytes only, and the host answered
  the call for what came next with an error, which is reported as one, or with 0, which is reported as
  success. Nothing else in the memory of the
  enclave is changed, and the file is not changed, whatever the outcome. No buffer is longer than the arena.
\<close>

theorem disk_read_exact:
  assumes "serves_file host fd cap file own encl" and "dev_ready own encl s" and "rtype req = BLK_READ"
    and "bufs_ok encl (rbuf req)" and "disjoint_bufs (rbuf req)" and "fits_arena s (rbuf req)"
    and "unat (rsector req) * 512 + bufs_total (rbuf req) \<le> cap"
  shows "\<exists>s' st k. blk_request host disks fd req s = Some (s', st) \<and> dev_step own encl (bufs_bytes (rbuf req)) s s' \<and>
    file (hmem s') = file (hmem s) \<and> take k (bufs_data (hmem s') (rbuf req)) = load_bytes (file (hmem s)) (rsector req * 512) k \<and>
    (k = bufs_total (rbuf req) \<and> st = BLK_OK \<or>
     k < bufs_total (rbuf req) \<and> (\<exists>r. answered host 17 fd (amem (harena s)) (rsector req * 512 + of_nat k) file (file (hmem s)) r \<and>
       (is_error r \<and> st = BLK_IOERR \<or> r = 0 \<and> st = BLK_OK)))"
proof -
  have off: "unat (rsector req * 512) + bufs_total (rbuf req) \<le> cap"
    by (rule sector_offset [OF assms(7) serves_fileD(1) [OF assms(1)]])
  from read_bufs_dev [OF assms(1,4,5,2,6) off, of 0 disks] obtain s' ret k where
    h: "rw_bufs (host_syscall_SYS_pread64 host) disks fd (rbuf req) (rsector req * 512) 0 s = Some (s', ret)"
      "dev_step own encl (bufs_bytes (rbuf req)) s s'" "file (hmem s') = file (hmem s)"
      "take k (bufs_data (hmem s') (rbuf req)) = load_bytes (file (hmem s)) (rsector req * 512) k"
      "k = bufs_total (rbuf req) \<and> 0 \<le> sint ret \<or>
        cut_short host 17 fd (amem (harena s)) file (file (hmem s)) (rsector req * 512) (bufs_total (rbuf req)) k ret"
    by auto
  have "blk_request host disks fd req s = Some (s', if sint ret < 0 then BLK_IOERR else BLK_OK)"
    using h(1) by (simp add: blk_request_def do_plain_rw_def blk_result_def assms(3))
  with h(2-4) request_status [OF h(5) refl] show ?thesis by blast
qed

theorem disk_read_exact_witness:
  "\<exists>s'. blk_request disk_host [] 5 \<lparr>rtype = BLK_READ, rsector = 1, rbuf = [(0x20000, 300), (0x20800, 200)]\<rparr> disk_state = Some (s', BLK_OK) \<and>
     bufs_data (hmem s') [(0x20000, 300), (0x20800, 200)] = load_bytes (disk_file (hmem disk_state)) 512 500"
proof -
  let ?req = "\<lparr>rtype = BLK_READ, rsector = 1, rbuf = [(0x20000, 300), (0x20800, 200)]\<rparr>"
  have "disjoint_bufs [(0x20000, 300), (0x20800, 200)]" by (auto simp: bytes_at_nat)
  then have pre: "rtype ?req = BLK_READ" "bufs_ok disk_encl (rbuf ?req)" "disjoint_bufs (rbuf ?req)" "fits_arena disk_state (rbuf ?req)"
    "unat (rsector ?req) * 512 + bufs_total (rbuf ?req) \<le> 1024" using disk_bufs_ok disk_fits by simp_all
  from disk_read_exact [OF disk_host_serves disk_state_ready pre, of "[]" 5] obtain s' st k where
    h: "blk_request disk_host [] 5 ?req disk_state = Some (s', st)"
      "take k (bufs_data (hmem s') (rbuf ?req)) = load_bytes (disk_file (hmem disk_state)) (rsector ?req * 512) k"
      "k = bufs_total (rbuf ?req) \<and> st = BLK_OK \<or> (\<exists>r. answered disk_host 17 5 (amem (harena disk_state)) (rsector ?req * 512 + of_nat k)
        disk_file (disk_file (hmem disk_state)) r \<and> (is_error r \<or> r = 0))" by blast
  then have k: "k = bufs_total (rbuf ?req)" "st = BLK_OK" using disk_host_answers [of 17] by blast+
  have "take k (bufs_data (hmem s') (rbuf ?req)) = bufs_data (hmem s') (rbuf ?req)"
    unfolding k(1) by (simp only: take_all_iff length_bufs_data)
  with h(1,2) k show ?thesis by auto
qed

end
