(* ===== verification/Net_Device.thy ===== *)
theory Net_Device
  imports Hostcalls
begin

text \<open>
  The network device on a tap interface of the host, \<^verbatim>\<open>src/lkl/virtio_net.c\<close>. The kernel library calls
  \<open>tx\<close>, \<open>rx\<close> and \<open>poll\<close>; a full or empty interface makes the first two set a flag and write a byte to
  a pipe, which wakes a poll that waits without asking for the event. Local variables whose address
  is passed on live on the stack, at addresses that are arguments; their contents are in the memory.
  Setting \<open>LT_ST_PINNED\<close> in the state of the running thread is setting \<open>hsync\<close>. Messages are left out.
\<close>

section \<open>The device\<close>

record lkl_netdev_fd =
  nfd :: i32
  poll_tx :: bool
  poll_rx :: bool
  npipe0 :: i32
  npipe1 :: i32
  nwait_on_io :: bool

definition pinned :: "bool \<Rightarrow> (hst \<Rightarrow> (hst \<times> 'r) option) \<Rightarrow> hst \<Rightarrow> (hst \<times> 'r) option" where
  "pinned p call s = do {
     let lt_old_state = hsync s;
     (s, r) \<leftarrow> call (if p then s\<lparr>hsync := True\<rparr> else s);
     Some (s\<lparr>hsync := lt_old_state\<rparr>, r)
   }"

definition EINTR :: i32 where "EINTR = 4"
definition EAGAIN :: i32 where "EAGAIN = 11"

partial_function (option) retry_eintr :: "(hst \<Rightarrow> (hst \<times> i32) option) \<Rightarrow> hst \<Rightarrow> (hst \<times> i32) option" where
  "retry_eintr call s = do {
     (s, ret) \<leftarrow> call s;
     (if ret = - EINTR then retry_eintr call s else Some (s, ret))
   }"

definition as_int :: "(hst \<times> u64) option \<Rightarrow> (hst \<times> i32) option" where
  "as_int = map_option (\<lambda>(s, r). (s, ucast r))"

text \<open>\<open>tmp\<close> is the address of the byte written to the pipe, which has no particular value.\<close>

definition sgxlkl_fd_net_tx ::
    "host \<Rightarrow> u64 \<Rightarrow> u64 \<Rightarrow> i32 \<Rightarrow> lkl_netdev_fd \<Rightarrow> hst \<Rightarrow> (hst \<times> lkl_netdev_fd \<times> i32) option" where
  "sgxlkl_fd_net_tx host tmp iov cnt nd s = do {
     (s, ret) \<leftarrow> pinned (nwait_on_io nd) (retry_eintr (\<lambda>s. as_int (host_syscall_SYS_writev host (nfd nd) iov cnt s))) s;
     (if ret = - EAGAIN then do {
        let nd = nd\<lparr>poll_tx := True\<rparr>;
        (s, pipe_ret) \<leftarrow> pinned (nwait_on_io nd) (host_syscall_SYS_write host (npipe1 nd) tmp 1) s;
        Some (s, nd, ret)
      } else Some (s, nd, ret))
   }"

definition sgxlkl_fd_net_rx ::
    "host \<Rightarrow> u64 \<Rightarrow> u64 \<Rightarrow> i32 \<Rightarrow> lkl_netdev_fd \<Rightarrow> hst \<Rightarrow> (hst \<times> lkl_netdev_fd \<times> i32) option" where
  "sgxlkl_fd_net_rx host tmp iov cnt nd s = do {
     (s, ret) \<leftarrow> pinned (nwait_on_io nd) (retry_eintr (\<lambda>s. as_int (host_syscall_SYS_readv host (nfd nd) iov cnt s))) s;
     (if ret = - EAGAIN then do {
        let nd = nd\<lparr>poll_rx := True\<rparr>;
        (s, pipe_ret) \<leftarrow> pinned (nwait_on_io nd) (host_syscall_SYS_write host (npipe1 nd) tmp 1) s;
        Some (s, nd, ret)
      } else Some (s, nd, ret))
   }"

text \<open>A \<open>struct pollfd\<close>: the descriptor in four bytes, the events asked for and those reported in two each.\<close>

definition POLLIN :: u16 where "POLLIN = 1"
definition POLLPRI :: u16 where "POLLPRI = 2"
definition POLLOUT :: u16 where "POLLOUT = 4"
definition POLLHUP :: u16 where "POLLHUP = 16"
definition POLLNVAL :: u16 where "POLLNVAL = 32"
definition PIPE_BUF :: u64 where "PIPE_BUF = 4096"

definition pollfd :: "i32 \<Rightarrow> u16 \<Rightarrow> u64" where
  "pollfd fd events = ucast fd OR push_bit 32 (ucast events)"

definition pf_events :: "memory \<Rightarrow> u64 \<Rightarrow> u16" where
  "pf_events m p = ucast (drop_bit 32 (load64 m p))"

definition pf_revents :: "memory \<Rightarrow> u64 \<Rightarrow> u16" where
  "pf_revents m p = ucast (drop_bit 48 (load64 m p))"

datatype poll_result = NET_POLL (rx_ready: bool) (tx_ready: bool) | NET_HUP

definition poll_events :: "lkl_netdev_fd \<Rightarrow> u16" where
  "poll_events nd = (if poll_rx nd then POLLIN OR POLLPRI else 0) OR (if poll_tx nd then POLLOUT else 0)"

text \<open>The result 0 is \<open>NET_POLL False False\<close>. \<open>pfds\<close> and \<open>tmp\<close> are the addresses of the two arrays.\<close>

definition poll_answer :: "u64 \<Rightarrow> lkl_netdev_fd \<Rightarrow> memory \<Rightarrow> lkl_netdev_fd \<times> poll_result" where
  "poll_answer pfds nd m =
     (let r = pf_revents m pfds AND (POLLIN OR POLLPRI) \<noteq> 0;
          t = pf_revents m pfds AND POLLOUT \<noteq> 0;
          nd = (if r then nd\<lparr>poll_rx := False\<rparr> else nd);
          nd = (if t then nd\<lparr>poll_tx := False\<rparr> else nd)
      in (nd, NET_POLL r t))"

definition sgxlkl_fd_net_poll ::
    "host \<Rightarrow> u64 \<Rightarrow> u64 \<Rightarrow> lkl_netdev_fd \<Rightarrow> hst \<Rightarrow> (hst \<times> lkl_netdev_fd \<times> poll_result) option" where
  "sgxlkl_fd_net_poll host pfds tmp nd s = do {
     let s = s\<lparr>hmem := store64 (pfds + 8) (pollfd (npipe0 nd) POLLIN) (store64 pfds (pollfd (nfd nd) (poll_events nd)) (hmem s))\<rparr>;
     (s, ret) \<leftarrow> retry_eintr (host_syscall_SYS_poll host pfds 2 (- 1)) s;
     (if sint ret < 0 then Some (s, nd, NET_POLL False False)
      else if pf_revents (hmem s) (pfds + 8) AND (POLLHUP OR POLLNVAL) \<noteq> 0 then Some (s, nd, NET_HUP)
      else if pf_revents (hmem s) (pfds + 8) AND POLLIN \<noteq> 0 then do {
        (s, r) \<leftarrow> pinned (nwait_on_io nd) (host_syscall_SYS_read host (npipe0 nd) tmp PIPE_BUF) s;
        (if (ucast r :: i32) = 0 then Some (s, nd, NET_HUP)
         else let (nd, r) = poll_answer pfds nd (hmem s) in Some (s, nd, r))
      }
      else let (nd, r) = poll_answer pfds nd (hmem s) in Some (s, nd, r))
   }"

definition sgxlkl_fd_net_poll_hup :: "host \<Rightarrow> lkl_netdev_fd \<Rightarrow> hst \<Rightarrow> hst option" where
  "sgxlkl_fd_net_poll_hup host nd s = do {
     (s, _) \<leftarrow> host_syscall_SYS_close host (npipe0 nd) s;
     (s, _) \<leftarrow> host_syscall_SYS_close host (npipe1 nd) s;
     Some s
   }"

definition sgxlkl_fd_net_free :: "host \<Rightarrow> lkl_netdev_fd \<Rightarrow> hst \<Rightarrow> hst option" where
  "sgxlkl_fd_net_free host nd s = do {
     (s, _) \<leftarrow> host_syscall_SYS_close host (nfd nd) s;
     Some s
   }"

text \<open>The device is at the address \<open>nd\<close>, 0 when \<open>malloc\<close> fails; the pipe is an array of two \<open>int\<close> in it.\<close>

definition sgxlkl_register_netdev_fd ::
    "host \<Rightarrow> u64 \<Rightarrow> i32 \<Rightarrow> bool \<Rightarrow> hst \<Rightarrow> (hst \<times> lkl_netdev_fd option) option" where
  "sgxlkl_register_netdev_fd host pipe_addr fd wait_on_io s =
     (if pipe_addr = 0 then Some (s, None)
      else do {
        (s, ret) \<leftarrow> host_syscall_SYS_pipe host pipe_addr (s\<lparr>hmem := store64 pipe_addr 0 (hmem s)\<rparr>);
        let p = load64 (hmem s) pipe_addr;
        (if sint ret < 0 then Some (s, None)
         else do {
           let nd = \<lparr>nfd = fd, poll_tx = False, poll_rx = False, npipe0 = ucast p, npipe1 = ucast (drop_bit 32 p), nwait_on_io = wait_on_io\<rparr>;
           (s, ret) \<leftarrow> host_syscall_SYS_fcntl host (npipe0 nd) 4 2048 s;
           (if sint ret < 0
            then do {
              (s, _) \<leftarrow> host_syscall_SYS_close host (npipe0 nd) s;
              (s, _) \<leftarrow> host_syscall_SYS_close host (npipe1 nd) s;
              Some (s, None)
            }
            else Some (s, Some nd))
         })
      })"

section \<open>Interrupted calls\<close>

text \<open>\<open>n\<close> interrupted calls lead from \<open>s\<close> to \<open>s'\<close>.\<close>

inductive interrupted :: "(hst \<Rightarrow> (hst \<times> i32) option) \<Rightarrow> nat \<Rightarrow> hst \<Rightarrow> hst \<Rightarrow> bool" for call where
  interrupted_0: "interrupted call 0 s s"
| interrupted_Suc: "\<lbrakk>call s = Some (s1, - EINTR); interrupted call n s1 s'\<rbrakk> \<Longrightarrow> interrupted call (Suc n) s s'"

text \<open>However often the host interrupts the call, the first other answer is returned.\<close>

lemma retry_eintr_exact:
  assumes "interrupted call n s s'" and "call s' = Some (s'', r)" and "r \<noteq> - EINTR"
  shows "retry_eintr call s = Some (s'', r)"
  using assms
proof (induction rule: interrupted.induct)
  case (interrupted_0 s)
  then show ?case by (subst retry_eintr.simps) simp
next
  case (interrupted_Suc s s1 n s')
  then show ?case by (subst retry_eintr.simps) simp
qed

lemma writev_idle: "host_syscall_SYS_writev host fd iov cnt s = Some (s', r) \<Longrightarrow> idle s'"
  by (auto simp: host_syscall_SYS_writev_def Let_def split_beta idle_def set_status_0_def set_sc_def arena_free_def
      split: Option.bind_splits)

lemma readv_idle: "host_syscall_SYS_readv host fd iov cnt s = Some (s', r) \<Longrightarrow> idle s'"
  by (auto simp: host_syscall_SYS_readv_def Let_def split_beta idle_def set_status_0_def set_sc_def arena_free_def
      split: Option.bind_splits)

lemma pinned_Some:
  assumes "call (if p then s\<lparr>hsync := True\<rparr> else s) = Some (s', r)"
  shows "pinned p call s = Some (s'\<lparr>hsync := hsync s\<rparr>, r)"
  using assms by (auto simp: pinned_def Let_def)

lemma idle_pin [simp]: "idle (s\<lparr>hsync := b\<rparr>) = idle s"
  by (simp add: idle_def)

text \<open>The byte for the pipe can always be written.\<close>

lemma pipe_write_returns:
  assumes "idle s"
  shows "\<exists>s' r. pinned p (host_syscall_SYS_write host fd tmp 1) s = Some (s', r) \<and> idle s' \<and> hsync s' = hsync s"
proof -
  have "idle (if p then s\<lparr>hsync := True\<rparr> else s)" using assms by simp
  from run_hostcall_ok [OF this, of "{}" host "Write fd tmp 1"] obtain s' r where
    "host_syscall_SYS_write host fd tmp 1 (if p then s\<lparr>hsync := True\<rparr> else s) = Some (s', r)" "idle s'"
    by (auto simp: call_ok_def host_keeps_def)
  then show ?thesis using pinned_Some by fastforce
qed

text \<open>
  A transmission returns the first answer that is not an interruption, the thread is pinned
  afterwards exactly when it was before, and the flag for the poll is set when the interface was full.
\<close>

lemma net_tx_exact:
  fixes host :: host and iov :: u64 and cnt :: i32
  defines "call \<equiv> \<lambda>nd s. as_int (host_syscall_SYS_writev host (nfd nd) iov cnt s)"
  assumes "interrupted (call nd) n (if nwait_on_io nd then s\<lparr>hsync := True\<rparr> else s) s1" and "call nd s1 = Some (s2, ret)" and "ret \<noteq> - EINTR"
  shows "\<exists>s'. sgxlkl_fd_net_tx host tmp iov cnt nd s = Some (s', nd\<lparr>poll_tx := poll_tx nd \<or> ret = - EAGAIN\<rparr>, ret) \<and>
    idle s' \<and> hsync s' = hsync s"
proof -
  have p: "pinned (nwait_on_io nd) (retry_eintr (call nd)) s = Some (s2\<lparr>hsync := hsync s\<rparr>, ret)"
    by (rule pinned_Some) (rule retry_eintr_exact [OF assms(2-4)])
  have i: "idle (s2\<lparr>hsync := hsync s\<rparr>)" using assms(3) by (auto simp: call_def as_int_def dest: writev_idle)
  show ?thesis
  proof (cases "ret = - EAGAIN")
    case True
    from pipe_write_returns [OF i, of "nwait_on_io nd" host "npipe1 nd" tmp] show ?thesis
      using True p by (auto simp: sgxlkl_fd_net_tx_def call_def)
  next
    case False
    then show ?thesis using p i by (simp add: sgxlkl_fd_net_tx_def call_def)
  qed
qed

lemma net_rx_exact:
  fixes host :: host and iov :: u64 and cnt :: i32
  defines "call \<equiv> \<lambda>nd s. as_int (host_syscall_SYS_readv host (nfd nd) iov cnt s)"
  assumes "interrupted (call nd) n (if nwait_on_io nd then s\<lparr>hsync := True\<rparr> else s) s1" and "call nd s1 = Some (s2, ret)" and "ret \<noteq> - EINTR"
  shows "\<exists>s'. sgxlkl_fd_net_rx host tmp iov cnt nd s = Some (s', nd\<lparr>poll_rx := poll_rx nd \<or> ret = - EAGAIN\<rparr>, ret) \<and>
    idle s' \<and> hsync s' = hsync s"
proof -
  have p: "pinned (nwait_on_io nd) (retry_eintr (call nd)) s = Some (s2\<lparr>hsync := hsync s\<rparr>, ret)"
    by (rule pinned_Some) (rule retry_eintr_exact [OF assms(2-4)])
  have i: "idle (s2\<lparr>hsync := hsync s\<rparr>)" using assms(3) by (auto simp: call_def as_int_def dest: readv_idle)
  show ?thesis
  proof (cases "ret = - EAGAIN")
    case True
    from pipe_write_returns [OF i, of "nwait_on_io nd" host "npipe1 nd" tmp] show ?thesis
      using True p by (auto simp: sgxlkl_fd_net_rx_def call_def)
  next
    case False
    then show ?thesis using p i by (simp add: sgxlkl_fd_net_rx_def call_def)
  qed
qed

section \<open>Polling\<close>

text \<open>What the host is asked when the arena has room for the two entries, and where its answer goes.\<close>

definition poll_request :: "i32 \<Rightarrow> hst \<Rightarrow> syscall_t" where
  "poll_request timeout s =
     (let sc = (hsc s)\<lparr>syscallno := 7, arg1 := amem (harena s), arg2 := 2, arg3 := scast timeout\<rparr>
      in if hsync s then sc\<lparr>status := 1\<rparr> else sc)"

lemma poll_with_room:
  assumes "idle s" and "16 \<le> asize (harena s)" and "amem (harena s) \<noteq> 0" and "fds \<noteq> 0"
    and "(r, m) = host (poll_request timeout s) (memcpy (amem (harena s)) fds 16 (hmem s))"
  shows "\<exists>s'. host_syscall_SYS_poll host fds 2 timeout s = Some (s', ucast r) \<and> hmem s' = memcpy fds (amem (harena s)) 16 m"
proof -
  let ?A = "amem (harena s)"
  have sz: "sizeof_pollfd * 2 = 16" by (simp add: sizeof_pollfd_def)
  have al: "arena_alloc 16 s = (?A, s\<lparr>harena := (harena s)\<lparr>allocated := 16\<rparr>\<rparr>)" using assms(1) by (simp add: arena_alloc_def idle_def)
  define t where "t = set_sc (\<lambda>sc. sc\<lparr>syscallno := 7, arg1 := ?A, arg2 := 2, arg3 := scast timeout\<rparr>)
    (copy_if True ?A fds 16 (s\<lparr>harena := (harena s)\<lparr>allocated := 16\<rparr>\<rparr>))"
  have t: "status (hsc t) = 0" "hmem t = memcpy ?A fds 16 (hmem s)"
    "(if hsync t then (hsc t)\<lparr>status := 1\<rparr> else hsc t) = poll_request timeout s"
    using assms(1) by (simp_all add: t_def set_sc_def copy_if_def idle_def poll_request_def Let_def)
  from threadswitch_idle [OF t(1), of host] obtain t' where t': "threadswitch host t = Some t'" "hmem t' = m" "ret_val (hsc t') = r"
    unfolding t(2,3) assms(5) [symmetric] by auto
  have "arena_ensure host 16 s = Some s" using assms(2) by (simp add: arena_ensure_def not_less [symmetric])
  then have "host_syscall_SYS_poll host fds 2 timeout s = Some (set_status_0 (arena_free (copy_if True fds ?A 16 t')), ucast r)"
    using t'(1,3) assms(3,4) unfolding t_def by (simp add: host_syscall_SYS_poll_def sz al)
  moreover have "hmem (set_status_0 (arena_free (copy_if True fds ?A 16 t'))) = memcpy fds ?A 16 m"
    by (simp add: set_status_0_def set_sc_def arena_free_def copy_if_def t'(2))
  ultimately show ?thesis by blast
qed

lemma load64_memcpy:
  assumes "k = 0 \<or> k = 8"
  shows "load64 (memcpy d src 16 m) (d + k) = load64 m (src + k)"
  unfolding load64_def
proof (intro foldr_cong refl)
  fix i w assume "i \<in> set [0..<8]"
  then have "k + of_nat i < (16 :: u64)" using assms by (auto simp: word_less_nat_alt unat_of_nat_small unat_word_ariths)
  from memcpy_dst [OF this, of d src m] show "push_bit 8 w OR ucast (memcpy d src 16 m (d + k + of_nat i)) = push_bit 8 w OR ucast (m (src + k + of_nat i))"
    by (simp add: add.assoc)
qed

lemma pf_pollfd: "ucast (drop_bit 32 (pollfd fd ev)) = ev" "ucast (pollfd fd ev) = fd"
  by (rule bit_word_eqI, auto simp: pollfd_def bit_simps dest: bit_imp_le_length)+

definition pf_fd :: "memory \<Rightarrow> u64 \<Rightarrow> i32" where
  "pf_fd m p = ucast (load64 m p)"

text \<open>Bits 0, 1, 2, 4 and 5 of events are input, urgent input, room for output, the other end gone, and a descriptor that is not open.\<close>

lemma poll_bits:
  "bit POLLIN b \<longleftrightarrow> b = 0" "bit POLLPRI b \<longleftrightarrow> b = 1" "bit POLLOUT b \<longleftrightarrow> b = 2" "bit POLLHUP b \<longleftrightarrow> b = 4" "bit POLLNVAL b \<longleftrightarrow> b = 5"
proof -
  have "bit (2 ^ k :: u16) b \<longleftrightarrow> b = k" if "k < 16" for k using that by (auto simp: bit_exp_iff)
  from this [of 0] this [of 1] this [of 2] this [of 4] this [of 5]
  show "bit POLLIN b \<longleftrightarrow> b = 0" "bit POLLPRI b \<longleftrightarrow> b = 1" "bit POLLOUT b \<longleftrightarrow> b = 2" "bit POLLHUP b \<longleftrightarrow> b = 4" "bit POLLNVAL b \<longleftrightarrow> b = 5"
    by (simp_all add: POLLIN_def POLLPRI_def POLLOUT_def POLLHUP_def POLLNVAL_def)
qed

lemma and_bits: "(w AND v \<noteq> 0) \<longleftrightarrow> (\<exists>b. bit w b \<and> bit v b)" for w v :: u16
proof -
  have "w AND v = 0 \<longleftrightarrow> (\<forall>b. \<not> bit (w AND v) b)" by (auto intro: bit_word_eqI)
  then show ?thesis by (simp add: bit_and_iff)
qed

lemma event_bits:
  "w AND POLLIN \<noteq> 0 \<longleftrightarrow> bit w 0" "w AND (POLLIN OR POLLPRI) \<noteq> 0 \<longleftrightarrow> bit w 0 \<or> bit w 1" "w AND POLLOUT \<noteq> 0 \<longleftrightarrow> bit w 2"
  "w AND (POLLHUP OR POLLNVAL) \<noteq> 0 \<longleftrightarrow> bit w 4 \<or> bit w 5"
  unfolding and_bits by (auto simp: bit_or_iff poll_bits)

text \<open>What a poll reports, and the flags after it, when the host has answered \<open>r\<close> and left \<open>ev\<close> and \<open>pipe\<close> as the events of the two entries.\<close>

definition poll_outcome :: "lkl_netdev_fd \<Rightarrow> i32 \<Rightarrow> u16 \<Rightarrow> u16 \<Rightarrow> lkl_netdev_fd \<times> poll_result" where
  "poll_outcome nd r ev pipe =
     (if sint r < 0 then (nd, NET_POLL False False)
      else if bit pipe 4 \<or> bit pipe 5 then (nd, NET_HUP)
      else (nd\<lparr>poll_rx := poll_rx nd \<and> \<not> (bit ev 0 \<or> bit ev 1), poll_tx := poll_tx nd \<and> \<not> bit ev 2\<rparr>,
            NET_POLL (bit ev 0 \<or> bit ev 1) (bit ev 2)))"

section \<open>Properties\<close>

text \<open>
  C32. A poll of the device, when the arena has room, makes one request to the host, the same whatever the host does: \<open>poll\<close> without
  time limit on two entries, the first with the descriptor
  of the interface and asking for input and urgent input exactly when the flag for receiving is set and for room exactly when the
  flag for sending is set, the second asking for input on the pipe. Unless the host answers that
  the call was interrupted, this is what it returns: nothing, with the flags as
  they were, on an error; a hang-up when the pipe is gone; and when nothing has come through the pipe, the
  events the host has left in the first entry, with the flags of those cleared and no others.
\<close>

theorem net_poll_exact:
  assumes "idle s" and "16 \<le> asize (harena s)" and "amem (harena s) \<noteq> 0" and "pfds \<noteq> 0"
  shows "\<exists>sc m. syscallno sc = 7 \<and> arg1 sc = amem (harena s) \<and> arg2 sc = 2 \<and> sint (arg3 sc) = - 1 \<and>
    pf_fd m (arg1 sc) = nfd nd \<and> pf_fd m (arg1 sc + 8) = npipe0 nd \<and>
    (\<forall>b. bit (pf_events m (arg1 sc)) b \<longleftrightarrow> poll_rx nd \<and> b \<in> {0, 1} \<or> poll_tx nd \<and> b = 2) \<and>
    (\<forall>b. bit (pf_events m (arg1 sc + 8)) b \<longleftrightarrow> b = 0) \<and>
    (\<forall>host r m'. host sc m = (r, m') \<and> (ucast r :: i32) \<noteq> - EINTR \<and> \<not> bit (pf_revents m' (arg1 sc + 8)) 0 \<longrightarrow>
      (\<exists>s'. sgxlkl_fd_net_poll host pfds tmp nd s =
         Some (s', poll_outcome nd (ucast r) (pf_revents m' (arg1 sc)) (pf_revents m' (arg1 sc + 8)))))"
proof -
  define m0 where "m0 = store64 (pfds + 8) (pollfd (npipe0 nd) POLLIN) (store64 pfds (pollfd (nfd nd) (poll_events nd)) (hmem s))"
  define sc where "sc = poll_request (- 1) s"
  define m where "m = memcpy (amem (harena s)) pfds 16 m0"
  let ?s = "s\<lparr>hmem := m0\<rparr>"
  have sc: "syscallno sc = 7" "arg1 sc = amem (harena s)" "arg2 sc = 2" "sint (arg3 sc) = - 1"
    by (simp_all add: sc_def poll_request_def Let_def)
  have "bytes_at pfds 8 \<inter> bytes_at (pfds + 8) 8 = {}" using bytes_at_tail [of 8 16 pfds] by auto
  then have l: "load64 m (arg1 sc) = pollfd (nfd nd) (poll_events nd)" "load64 m (arg1 sc + 8) = pollfd (npipe0 nd) POLLIN"
    using load64_memcpy [of 0 "arg1 sc" pfds m0] load64_memcpy [of 8 "arg1 sc" pfds m0]
    by (simp_all add: m_def sc(2) m0_def load64_store64_other)
  have q: "pf_fd m (arg1 sc) = nfd nd" "pf_fd m (arg1 sc + 8) = npipe0 nd"
    "\<forall>b. bit (pf_events m (arg1 sc)) b \<longleftrightarrow> poll_rx nd \<and> b \<in> {0, 1} \<or> poll_tx nd \<and> b = 2" "\<forall>b. bit (pf_events m (arg1 sc + 8)) b \<longleftrightarrow> b = 0"
    using l by (auto simp: pf_fd_def pf_events_def pf_pollfd poll_events_def bit_or_iff poll_bits)
  have ans: "\<exists>s'. sgxlkl_fd_net_poll host pfds tmp nd s =
      Some (s', poll_outcome nd (ucast r) (pf_revents m' (arg1 sc)) (pf_revents m' (arg1 sc + 8)))"
    if "host sc m = (r, m')" "(ucast r :: i32) \<noteq> - EINTR" "\<not> bit (pf_revents m' (arg1 sc + 8)) 0" for host r m'
  proof -
    have "(r, m') = host (poll_request (- 1) ?s) (memcpy (amem (harena ?s)) pfds 16 (hmem ?s))"
      using that(1) by (simp add: sc_def m_def poll_request_def)
    with poll_with_room [of ?s pfds r m' host "- 1"] assms obtain s' where
      s': "host_syscall_SYS_poll host pfds 2 (- 1) ?s = Some (s', ucast r)" "hmem s' = memcpy pfds (amem (harena s)) 16 m'"
      by (auto simp: idle_def)
    have "retry_eintr (host_syscall_SYS_poll host pfds 2 (- 1)) ?s = Some (s', ucast r)"
      using retry_eintr_exact [of "host_syscall_SYS_poll host pfds 2 (- 1)", OF interrupted_0 s'(1) that(2)] .
    moreover have "pf_revents (hmem s') pfds = pf_revents m' (arg1 sc)" "pf_revents (hmem s') (pfds + 8) = pf_revents m' (arg1 sc + 8)"
      using load64_memcpy [of 0 pfds "arg1 sc" m'] load64_memcpy [of 8 pfds "arg1 sc" m'] by (simp_all add: pf_revents_def s'(2) sc(2))
    ultimately show ?thesis
      by (intro exI [of _ s']) (use that(3) in \<open>simp add: sgxlkl_fd_net_poll_def poll_answer_def poll_outcome_def event_bits m0_def [symmetric] Let_def\<close>)
  qed
  show ?thesis using sc q ans by (intro exI [of _ sc] exI [of _ m] conjI allI impI) auto
qed

text \<open>A host on whose interface there is room again.\<close>

definition net_host :: host where
  "net_host sc m = (1, store64 (arg1 sc + 8) 0 (store64 (arg1 sc) 0x4000000000000 m))"

definition net_state :: hst where
  "net_state = \<lparr>hmem = (\<lambda>_. 0), hsc = zero_call, harena = \<lparr>amem = 0x1000, asize = 16, allocated = 0\<rparr>, hsync = False\<rparr>"

definition net_dev :: lkl_netdev_fd where
  "net_dev = \<lparr>nfd = 3, poll_tx = True, poll_rx = True, npipe0 = 4, npipe1 = 5, nwait_on_io = False\<rparr>"

theorem net_poll_exact_witness:
  "\<exists>s'. sgxlkl_fd_net_poll net_host 0x9000 0x8000 net_dev net_state = Some (s', net_dev\<lparr>poll_tx := False\<rparr>, NET_POLL False True)"
proof -
  have pre: "idle net_state" "16 \<le> asize (harena net_state)" "amem (harena net_state) \<noteq> 0" "(0x9000 :: u64) \<noteq> 0"
    by (simp_all add: idle_def net_state_def zero_call_def)
  from net_poll_exact [OF pre, of net_dev "0x8000"] obtain sc :: syscall_t and m where
    h: "\<forall>host r m'. host sc m = (r, m') \<and> (ucast r :: i32) \<noteq> - EINTR \<and> \<not> bit (pf_revents m' (arg1 sc + 8)) 0 \<longrightarrow>
      (\<exists>s'. sgxlkl_fd_net_poll host 0x9000 0x8000 net_dev net_state =
         Some (s', poll_outcome net_dev (ucast r) (pf_revents m' (arg1 sc)) (pf_revents m' (arg1 sc + 8))))" by (elim exE conjE)
  let ?m = "store64 (arg1 sc + 8) 0 (store64 (arg1 sc) 0x4000000000000 m)"
  have n: "net_host sc m = (1, ?m)" by (simp add: net_host_def)
  have "bytes_at (arg1 sc) 8 \<inter> bytes_at (arg1 sc + 8) 8 = {}" using bytes_at_tail [of 8 16 "arg1 sc"] by auto
  then have rev: "pf_revents ?m (arg1 sc) = 4" "pf_revents ?m (arg1 sc + 8) = 0"
    by (simp_all add: pf_revents_def load64_store64_other)
  have "(ucast (1 :: u64) :: i32) \<noteq> - EINTR" by (simp add: EINTR_def)
  then obtain s' where "sgxlkl_fd_net_poll net_host 0x9000 0x8000 net_dev net_state = Some (s', poll_outcome net_dev (ucast (1 :: u64)) 4 0)"
    using h [rule_format, of net_host 1 ?m] n rev by auto
  then show ?thesis by (simp add: poll_outcome_def net_dev_def bit_numeral_word_iff)
qed

end
