(* ===== verification/Lthread_Switch.thy ===== *)
theory Lthread_Switch
  imports Hostcalls
begin

text \<open>
  The context switch of \<^verbatim>\<open>src/sched/lthread.c\<close>, \<open>_switch (new_ctx, cur_ctx)\<close>: the assembler code for x86-64 as a list of
  instructions, run on registers and byte memory, and \<open>_lthread_init\<close>, which prepares the context and the stack
  of a new thread so that the first switch enters \<open>_exec\<close>. Registers the code does not mention and flags are left out:
  the calling convention lets a callee change them.
\<close>

section \<open>The code\<close>

datatype reg = RAX | RBX | RBP | RSP | RSI | RDI | R12 | R13 | R14 | R15

record machine =
  mregs :: "reg \<Rightarrow> u64"
  mpc :: u64
  mmem :: memory

text \<open>\<open>movq src, off(base)\<close>, \<open>movq off(base), dst\<close>, and \<open>ret\<close>.\<close>

datatype insn = Store reg u64 reg | Load u64 reg reg | Ret

fun exec :: "insn \<Rightarrow> machine \<Rightarrow> machine" where
  "exec (Store src off base) s = s\<lparr>mmem := store64 (mregs s base + off) (mregs s src) (mmem s)\<rparr>"
| "exec (Load off base dst) s = s\<lparr>mregs := (mregs s)(dst := load64 (mmem s) (mregs s base + off))\<rparr>"
| "exec Ret s = s\<lparr>mpc := load64 (mmem s) (mregs s RSP), mregs := (mregs s)(RSP := mregs s RSP + 8)\<rparr>"

definition save_code :: "insn list" where
  "save_code =
     [Store RSP 0 RSI, Store RBP 8 RSI, Load 0 RSP RAX, Store RAX 16 RSI, Store RBX 24 RSI,
      Store R12 32 RSI, Store R13 40 RSI, Store R14 48 RSI, Store R15 56 RSI]"

definition restore_code :: "insn list" where
  "restore_code =
     [Load 56 RDI R15, Load 48 RDI R14, Load 40 RDI R13, Load 32 RDI R12, Load 24 RDI RBX,
      Load 8 RDI RBP, Load 0 RDI RSP, Load 16 RDI RAX, Store RAX 0 RSP, Ret]"

definition run_code :: "insn list \<Rightarrow> machine \<Rightarrow> machine" where
  "run_code = fold exec"

definition switch :: "machine \<Rightarrow> machine" where
  "switch s = run_code (save_code @ restore_code) s"

text \<open>
  \<open>_lthread_init\<close> of the thread at \<open>lt\<close>, whose first member is its context: \<open>stack\<close> is the end of its stack, and
  \<open>entry\<close> the address of \<open>_exec\<close>. Its lock and its state are part of the theory \<open>Lthread_Sched\<close>.
\<close>

definition lthread_init_ctx :: "u64 \<Rightarrow> u64 \<Rightarrow> u64 \<Rightarrow> memory \<Rightarrow> memory" where
  "lthread_init_ctx lt stack entry m =
     (let m = store64 (stack - 24) 0 m;
          m = store64 (stack - 16) lt m;
          m = store64 lt (stack - 32) m;
          m = store64 (lt + 8) (stack - 24) m
      in store64 (lt + 16) entry m)"

section \<open>Contexts\<close>

text \<open>The eight words of a context in the order of their offsets.\<close>

definition ctx_words :: "memory \<Rightarrow> u64 \<Rightarrow> u64 list" where
  "ctx_words m c = map (\<lambda>i. load64 m (c + 8 * of_nat i)) [0..<8]"

definition callee_saved :: "machine \<Rightarrow> u64 list" where
  "callee_saved s = map (mregs s) [RBP, RBX, R12, R13, R14, R15]"

lemma bytes_at_word:
  assumes "k \<le> 56"
  shows "bytes_at (c + k) 8 \<subseteq> bytes_at c 64"
proof
  fix a assume "a \<in> bytes_at (c + k) 8"
  then have d: "a - (c + k) < 8" by (simp add: bytes_at_def)
  define e where "e = a - (c + k)"
  have "a - c = k + e" by (simp add: e_def)
  moreover have "unat (k + e) = unat k + unat e"
    by (rule unat_add_small) (use assms d in \<open>simp add: e_def word_less_nat_alt word_le_nat_alt\<close>)
  ultimately show "a \<in> bytes_at c 64" using assms d by (simp add: bytes_at_def e_def word_less_nat_alt word_le_nat_alt)
qed

lemma words_apart:
  assumes "j \<noteq> k" and "j mod 8 = 0" and "k mod 8 = 0" and "unat j \<le> 56" and "unat k \<le> 56"
  shows "bytes_at (c + j) 8 \<inter> bytes_at (c + k) 8 = {}"
proof (rule ccontr)
  assume "\<not> ?thesis"
  then obtain a where a: "a - (c + j) < 8" "a - (c + k) < 8" by (auto simp: bytes_at_def)
  define e where "e = a - c"
  have e: "e - j < 8" "e - k < 8" using a by (simp_all add: e_def diff_diff_eq)
  define x y where "x = e - j" and "y = e - k"
  have "j + x = k + y" by (simp add: x_def y_def)
  then have "unat (j + x) = unat (k + y)" by simp
  moreover have "unat (j + x) = unat j + unat x"
    by (rule unat_add_small) (use assms e in \<open>simp add: x_def word_less_nat_alt\<close>)
  moreover have "unat (k + y) = unat k + unat y"
    by (rule unat_add_small) (use assms e in \<open>simp add: y_def word_less_nat_alt\<close>)
  moreover have "unat j mod 8 = 0" "unat k mod 8 = 0" using assms(2,3) [THEN arg_cong [of _ _ unat]] by (simp_all add: unat_mod)
  moreover have "unat x < 8" "unat y < 8" using e by (simp_all add: x_def y_def word_less_nat_alt)
  ultimately have "unat j = unat k" by presburger
  then show False using assms(1) by (simp add: word_unat_eq_iff)
qed

lemmas words_apart_0 = words_apart [where j = 0, simplified] words_apart [where k = 0, simplified]

lemma load64_ctx_cong:
  assumes "\<And>a. a \<in> bytes_at c 64 \<Longrightarrow> m a = m' a" and "k \<le> 56"
  shows "load64 m (c + k) = load64 m' (c + k)"
  by (rule load64_cong) (use assms bytes_at_word [OF assms(2), of c] in blast)

lemma ctx_words_eq:
  "ctx_words m c = [load64 m c, load64 m (c + 8), load64 m (c + 16), load64 m (c + 24), load64 m (c + 32),
     load64 m (c + 40), load64 m (c + 48), load64 m (c + 56)]"
  by (simp add: ctx_words_def upt_rec)

lemma ctx_words_cong: "(\<And>a. a \<in> bytes_at c 64 \<Longrightarrow> m a = m' a) \<Longrightarrow> ctx_words m c = ctx_words m' c"
  using load64_ctx_cong [of c m m'] load64_ctx_cong [of c m m' 0] by (simp add: ctx_words_eq)

lemma store_in_ctx: "a \<notin> bytes_at c 64 \<Longrightarrow> k \<le> 56 \<Longrightarrow> store64 (c + k) v m a = m a"
  using bytes_at_word [of k c] by (intro store64_outside) blast

lemma save_exact:
  assumes "bytes_at (mregs s RSP) 8 \<inter> bytes_at (mregs s RSI) 64 = {}"
  shows "ctx_words (mmem (run_code save_code s)) (mregs s RSI) =
      [mregs s RSP, mregs s RBP, load64 (mmem s) (mregs s RSP), mregs s RBX, mregs s R12, mregs s R13, mregs s R14, mregs s R15]"
    and "a \<notin> bytes_at (mregs s RSI) 64 \<Longrightarrow> mmem (run_code save_code s) a = mmem s a"
    and "r \<noteq> RAX \<Longrightarrow> mregs (run_code save_code s) r = mregs s r"
proof -
  let ?c = "mregs s RSI"
  have ret: "load64 (store64 (?c + 8) v (store64 ?c w m)) (mregs s RSP) = load64 m (mregs s RSP)" for v w m
  proof (rule load64_cong)
    fix a assume "a \<in> bytes_at (mregs s RSP) 8"
    then have "a \<notin> bytes_at ?c 64" using assms by blast
    then show "store64 (?c + 8) v (store64 ?c w m) a = m a" using store_in_ctx [of a ?c 0] by (simp add: store_in_ctx)
  qed
  show "ctx_words (mmem (run_code save_code s)) ?c =
      [mregs s RSP, mregs s RBP, load64 (mmem s) (mregs s RSP), mregs s RBX, mregs s R12, mregs s R13, mregs s R14, mregs s R15]"
    by (simp add: run_code_def save_code_def ctx_words_eq ret load64_store64_other words_apart words_apart_0)
  show "a \<notin> bytes_at ?c 64 \<Longrightarrow> mmem (run_code save_code s) a = mmem s a"
    using store_in_ctx [of a ?c 0] by (simp add: run_code_def save_code_def store_in_ctx)
  show "r \<noteq> RAX \<Longrightarrow> mregs (run_code save_code s) r = mregs s r"
    by (simp add: run_code_def save_code_def)
qed

lemma restore_exact:
  assumes "ctx_words (mmem s) (mregs s RDI) = [sp, bp, ip, bx, a, b, c, d]"
  shows "mpc (run_code restore_code s) = ip" and "mregs (run_code restore_code s) RSP = sp + 8"
    and "callee_saved (run_code restore_code s) = [bp, bx, a, b, c, d]"
    and "mregs (run_code restore_code s) RDI = mregs s RDI"
    and "mmem (run_code restore_code s) = store64 sp ip (mmem s)"
  using assms by (auto simp: ctx_words_eq run_code_def restore_code_def callee_saved_def)

lemma switch_unfold: "switch s = run_code restore_code (run_code save_code s)"
  by (simp add: switch_def run_code_def)

text \<open>One switch: the current context is saved, and the new one is in the registers.\<close>

lemma switch_exact:
  assumes own: "bytes_at (mregs s RSP) 8 \<inter> bytes_at (mregs s RSI) 64 = {}"
    and apart: "bytes_at (mregs s RDI) 64 \<inter> bytes_at (mregs s RSI) 64 = {}"
    and new: "ctx_words (mmem s) (mregs s RDI) = [sp, bp, ip, bx, a, b, c, d]"
  shows "mpc (switch s) = ip" and "mregs (switch s) RSP = sp + 8" and "callee_saved (switch s) = [bp, bx, a, b, c, d]"
    and "mregs (switch s) RDI = mregs s RDI"
    and "x \<notin> bytes_at (mregs s RSI) 64 \<Longrightarrow> x \<notin> bytes_at sp 8 \<Longrightarrow> mmem (switch s) x = mmem s x"
    and "bytes_at sp 8 \<inter> bytes_at (mregs s RSI) 64 = {} \<Longrightarrow> ctx_words (mmem (switch s)) (mregs s RSI) =
      [mregs s RSP, mregs s RBP, load64 (mmem s) (mregs s RSP), mregs s RBX, mregs s R12, mregs s R13, mregs s R14, mregs s R15]"
proof -
  let ?t = "run_code save_code s"
  note sv = save_exact [OF own]
  have di: "mregs ?t RDI = mregs s RDI" by (rule sv(3)) simp
  have "ctx_words (mmem ?t) (mregs ?t RDI) = [sp, bp, ip, bx, a, b, c, d]"
    unfolding di new [symmetric] by (rule ctx_words_cong) (use apart sv(2) in auto)
  note rs = restore_exact [OF this]
  show "mpc (switch s) = ip" "mregs (switch s) RSP = sp + 8" "callee_saved (switch s) = [bp, bx, a, b, c, d]"
    "mregs (switch s) RDI = mregs s RDI"
    unfolding switch_unfold using rs di by simp_all
  show "mmem (switch s) x = mmem s x" if "x \<notin> bytes_at (mregs s RSI) 64" "x \<notin> bytes_at sp 8"
    unfolding switch_unfold rs(5) using that by (simp add: store64_outside sv(2))
  show "ctx_words (mmem (switch s)) (mregs s RSI) =
      [mregs s RSP, mregs s RBP, load64 (mmem s) (mregs s RSP), mregs s RBX, mregs s R12, mregs s R13, mregs s R14, mregs s R15]"
    if "bytes_at sp 8 \<inter> bytes_at (mregs s RSI) 64 = {}"
    unfolding switch_unfold rs(5) sv(1) [symmetric]
    by (rule ctx_words_cong) (use that in \<open>auto intro!: store64_outside\<close>)
qed

section \<open>New threads\<close>

text \<open>
  The first switch to a thread enters \<open>_exec\<close> with the thread as its argument, 24 bytes below the end of its stack, so
  aligned as the calling convention wants it, and with a null return address.
\<close>

lemma init_ctx_words:
  assumes "bytes_at (stack - 24) 16 \<inter> bytes_at lt 64 = {}"
  shows "take 3 (ctx_words (lthread_init_ctx lt stack entry m) lt) = [stack - 32, stack - 24, entry]"
    and "load64 (lthread_init_ctx lt stack entry m) (stack - 24) = 0"
proof -
  show "take 3 (ctx_words (lthread_init_ctx lt stack entry m) lt) = [stack - 32, stack - 24, entry]"
    by (simp add: lthread_init_ctx_def ctx_words_eq Let_def load64_store64_other words_apart words_apart_0)
  have out: "load64 (store64 (lt + k) v n) (stack - 24) = load64 n (stack - 24)" if "k \<le> 56" for k v n
  proof (rule load64_cong, rule store_in_ctx [OF _ that])
    fix a assume "a \<in> bytes_at (stack - 24) 8"
    then have "a \<in> bytes_at (stack - 24) 16" by (auto simp: bytes_at_def word_less_nat_alt)
    then show "a \<notin> bytes_at lt 64" using assms by blast
  qed
  have "bytes_at (stack - 24) 8 \<inter> bytes_at (stack - 16) 8 = {}" using words_apart_0(1) [of 8 "stack - 24"] by simp
  then show "load64 (lthread_init_ctx lt stack entry m) (stack - 24) = 0"
    using out [of 0] by (simp add: lthread_init_ctx_def Let_def out load64_store64_other)
qed

lemma first_switch:
  assumes m: "mmem s = lthread_init_ctx lt stack entry m" and lt: "mregs s RDI = lt"
    and own: "bytes_at (mregs s RSP) 8 \<inter> bytes_at (mregs s RSI) 64 = {}" and apart: "bytes_at lt 64 \<inter> bytes_at (mregs s RSI) 64 = {}"
    and st: "bytes_at (stack - 24) 16 \<inter> bytes_at lt 64 = {}" and al: "unat stack mod 16 = 0"
  shows "mpc (switch s) = entry \<and> mregs (switch s) RDI = lt \<and> mregs (switch s) RSP = stack - 24 \<and>
    unat (mregs (switch s) RSP) mod 16 = 8"
proof -
  obtain bx a b c d where w: "ctx_words (mmem s) lt = [stack - 32, stack - 24, entry, bx, a, b, c, d]"
    using init_ctx_words(1) [OF st, of entry m] unfolding m ctx_words_eq by simp
  note ex = switch_exact [OF own, unfolded lt, OF apart w]
  have "(unat stack + (2 ^ 64 - 24)) mod 16 = 8" using al by (simp add: mod_add_eq [symmetric, of "unat stack"])
  moreover have "stack - 24 = stack + of_nat (2 ^ 64 - 24)" by (simp add: diff_conv_add_uminus del: add_uminus_conv_diff)
  moreover have "unat (stack + of_nat (2 ^ 64 - 24)) mod 16 = (unat stack + (2 ^ 64 - 24)) mod 16"
    by (rule unat_add_mod [where e = 4]) simp_all
  ultimately have "unat (stack - 24) mod 16 = 8" by (simp only:)
  then show ?thesis using ex(1,2,4) by simp
qed

section \<open>Properties\<close>

text \<open>
  C22. A thread that gives up the processor gets it back unharmed. Suppose \<open>_switch\<close> is called in the state \<open>s\<close>, and, after whatever
  else has run, called again in a state \<open>t\<close> with the thread's context as the new one, with the saved context untouched.
  Then execution continues at the return address of the first call, with the stack pointer as after a return,
  and all registers a callee must preserve have the values they had in \<open>s\<close>: for the thread the first call has
  returned. Of the memory, the second switch changes only the other context and the eight bytes of
  the return address, where it writes that address again. Contexts do not overlap each other or the
  stack slots in use.
\<close>

theorem switch_round_trip:
  assumes "bytes_at (mregs s RSP) 8 \<inter> bytes_at (mregs s RSI) 64 = {}" and "bytes_at (mregs s RDI) 64 \<inter> bytes_at (mregs s RSI) 64 = {}"
    and "bytes_at (load64 (mmem s) (mregs s RDI)) 8 \<inter> bytes_at (mregs s RSI) 64 = {}"
    and "mregs t RDI = mregs s RSI" and "\<forall>a \<in> bytes_at (mregs s RSI) 64. mmem t a = mmem (switch s) a"
    and "bytes_at (mregs t RSP) 8 \<inter> bytes_at (mregs t RSI) 64 = {}" and "bytes_at (mregs t RDI) 64 \<inter> bytes_at (mregs t RSI) 64 = {}"
  shows "mpc (switch t) = load64 (mmem s) (mregs s RSP) \<and> mregs (switch t) RSP = mregs s RSP + 8 \<and>
    callee_saved (switch t) = callee_saved s \<and>
    (\<forall>a. a \<notin> bytes_at (mregs t RSI) 64 \<longrightarrow> a \<notin> bytes_at (mregs s RSP) 8 \<longrightarrow> mmem (switch t) a = mmem t a)"
proof -
  let ?w = "ctx_words (mmem s) (mregs s RDI)"
  have w: "?w = [?w ! 0, ?w ! 1, ?w ! 2, ?w ! 3, ?w ! 4, ?w ! 5, ?w ! 6, ?w ! 7]" and w0: "?w ! 0 = load64 (mmem s) (mregs s RDI)"
    by (simp_all add: ctx_words_eq)
  note ex = switch_exact [OF assms(1,2) w, unfolded w0]
  have "ctx_words (mmem t) (mregs t RDI) = ctx_words (mmem (switch s)) (mregs s RSI)"
    unfolding assms(4) by (rule ctx_words_cong) (use assms(5) in blast)
  also have "\<dots> = [mregs s RSP, mregs s RBP, load64 (mmem s) (mregs s RSP), mregs s RBX, mregs s R12, mregs s R13, mregs s R14, mregs s R15]"
    by (rule ex(6) [OF assms(3)])
  finally have c: "ctx_words (mmem t) (mregs t RDI) =
    [mregs s RSP, mregs s RBP, load64 (mmem s) (mregs s RSP), mregs s RBX, mregs s R12, mregs s R13, mregs s R14, mregs s R15]" .
  note res = switch_exact [OF assms(6,7) c]
  show ?thesis using res(1,2,3,5) by (simp add: callee_saved_def)
qed

definition sample_yield :: machine where
  "sample_yield = \<lparr>mregs = (\<lambda>_. 0)(RSP := 0x5000, RSI := 0x1000, RDI := 0x2000, RBP := 1, RBX := 2, R12 := 3, R13 := 4, R14 := 5, R15 := 6),
     mpc = 0, mmem = store64 0x5000 0x4242 (store64 0x2000 0x6000 (\<lambda>_. 0))\<rparr>"

definition sample_resume :: machine where
  "sample_resume = (switch sample_yield)\<lparr>mregs := (\<lambda>_. 9)(RSP := 0x6100, RSI := 0x2000, RDI := 0x1000)\<rparr>"

theorem switch_round_trip_witness:
  "mpc (switch sample_resume) = 0x4242 \<and> mregs (switch sample_resume) RSP = 0x5008 \<and>
   callee_saved (switch sample_resume) = [1, 2, 3, 4, 5, 6]"
proof -
  have "load64 (mmem sample_yield) 0x2000 = 0x6000" "load64 (mmem sample_yield) 0x5000 = 0x4242"
    by (simp_all add: sample_yield_def load64_store64_other bytes_at_nat disjoint_iff)
  moreover have "bytes_at 0x5000 8 \<inter> bytes_at 0x1000 64 = {}" "bytes_at 0x2000 64 \<inter> bytes_at 0x1000 64 = {}"
    "bytes_at 0x6000 8 \<inter> bytes_at 0x1000 64 = {}" "bytes_at 0x6100 8 \<inter> bytes_at 0x2000 64 = {}"
    by (auto simp: bytes_at_nat)
  ultimately show ?thesis
    using switch_round_trip [of sample_yield sample_resume]
    by (simp add: sample_yield_def sample_resume_def callee_saved_def Int_commute)
qed

end
