(* ===== verification/App_Config.thy ===== *)
theory App_Config
  imports Json_Util
begin

text \<open>
  The configuration of the application, \<^verbatim>\<open>src/sgx/sgxlkl_app_config.c\<close>: the program to run with its arguments and
  environment, the disks with their keys and the WireGuard peers, read from a JSON object. JSON
  values are a datatype, with \<open>None\<close> for \<open>null\<close>, and strings are those the library returns, without NUL. Memory allocation
  succeeds. A pointer that may be null is an option; in an array of strings, \<open>None\<close> is an element that has not
  been set. Messages are left out.
\<close>

section \<open>Entries\<close>

datatype json =
    JS_string string
  | JS_boolean bool
  | JS_int int
  | JS_double
  | JS_array "json option list"
  | JS_object "(string \<times> json option) list"

datatype json_type = T_string | T_boolean | T_int | T_double | T_array | T_object

fun json_object_get_type :: "json \<Rightarrow> json_type" where
  "json_object_get_type (JS_string s) = T_string"
| "json_object_get_type (JS_boolean b) = T_boolean"
| "json_object_get_type (JS_int i) = T_int"
| "json_object_get_type JS_double = T_double"
| "json_object_get_type (JS_array vs) = T_array"
| "json_object_get_type (JS_object es) = T_object"

record app_disk =
  mnt :: string
  dkey :: "u8 list option"
  key_len :: u64
  enc :: bool
  ro :: bool
  roothash :: "string option"
  roothash_offset :: u64

record app_peer =
  pkey :: "string option"
  allowed_ips :: "string option"
  endpoint :: "string option"

record app_config =
  run :: "string option"
  cwd :: "string option"
  argc :: nat
  argv :: "string option list option"
  envp :: "string option list option"
  num_disks :: nat
  disks :: "app_disk list option"
  num_peers :: nat
  peers :: "app_peer list option"

definition STRING_KEYS :: "string list" where
  "STRING_KEYS = [''run'', ''cwd'', ''disk'', ''key'', ''roothash'', ''allowedips'', ''endpoint'']"

definition BOOL_KEYS :: "string list" where
  "BOOL_KEYS = [''readonly'']"

definition INT_KEYS :: "string list" where
  "INT_KEYS = [''roothash_offset'']"

definition ARRAY_KEYS :: "string list" where
  "ARRAY_KEYS = [''disk_config'', ''peers'']"

definition assert_entry_type :: "string \<Rightarrow> json \<Rightarrow> bool" where
  "assert_entry_type key v =
     (let err = False;
          err = (if key \<in> set STRING_KEYS then json_object_get_type v \<noteq> T_string else err);
          err = (if key \<in> set BOOL_KEYS then json_object_get_type v \<noteq> T_boolean else err);
          err = (if key \<in> set INT_KEYS then json_object_get_type v \<noteq> T_int else err);
          err = (if key \<in> set ARRAY_KEYS then json_object_get_type v \<noteq> T_array else err)
      in err)"

text \<open>The loop of \<open>parse_args\<close> from index \<open>i\<close> on.\<close>

fun args_loop :: "json option list \<Rightarrow> nat \<Rightarrow> string option list \<Rightarrow> string option list \<times> int" where
  "args_loop [] i a = (a, 0)"
| "args_loop (Some (JS_string s) # vs) i a = args_loop vs (Suc i) (a[i := Some s])"
| "args_loop (_ # vs) i a = (a, 1)"

definition parse_args :: "json \<Rightarrow> app_config \<Rightarrow> app_config \<times> int" where
  "parse_args args_val config =
     (case args_val of
        JS_array vs \<Rightarrow>
          (let n = length vs + 1;
               (a, r) = args_loop vs 1 (replicate n None)
           in (config\<lparr>argc := n, argv := Some a\<rparr>, r))
      | _ \<Rightarrow> (config, 1))"

definition env_entry :: "string \<Rightarrow> json \<Rightarrow> nat \<times> string option list \<Rightarrow> (nat \<times> string option list) \<times> int" where
  "env_entry key v = (\<lambda>(i, a).
     (case v of JS_string s \<Rightarrow> ((Suc i, a[i := Some (key @ ''='' @ s)]), 0) | _ \<Rightarrow> ((i, a), 1)))"

definition parse_env :: "json \<Rightarrow> app_config \<Rightarrow> app_config \<times> int" where
  "parse_env env_val config =
     (case env_val of
        JS_object es \<Rightarrow>
          (let ((_, a), r) = parse_json env_entry es (0, replicate (length es) None)
           in (config\<lparr>envp := Some a\<rparr>, r))
      | _ \<Rightarrow> (config, 1))"

text \<open>
  \<open>key_len\<close> is unsigned, so the test for a negative result of \<open>hex_to_bytes\<close> never succeeds; on an error
  the pointer is left as it was.
\<close>

definition parse_enclave_disk_config_entry :: "string \<Rightarrow> json \<Rightarrow> app_disk \<Rightarrow> app_disk \<times> int" where
  "parse_enclave_disk_config_entry key v disk =
     (if assert_entry_type key v then (disk, 1)
      else (case v of
              JS_string s \<Rightarrow>
                if key = ''disk'' then (disk\<lparr>mnt := take 255 s\<rparr>, 0)
                else if key = ''key'' then
                  (case hex_to_bytes s True of
                     Inl _ \<Rightarrow> (disk\<lparr>key_len := - 1, enc := True\<rparr>, 0)
                   | Inr bs \<Rightarrow> (disk\<lparr>dkey := Some bs, key_len := of_nat (length bs), enc := True\<rparr>, 0))
                else if key = ''roothash'' then (disk\<lparr>roothash := Some s\<rparr>, 0)
                else (disk, 1)
            | JS_int i \<Rightarrow> if key = ''roothash_offset'' then (disk\<lparr>roothash_offset := of_int i\<rparr>, 0) else (disk, 1)
            | JS_boolean b \<Rightarrow> if key = ''readonly'' then (disk\<lparr>ro := b\<rparr>, 0) else (disk, 1)
            | _ \<Rightarrow> (disk, 1)))"

definition disk_zero :: app_disk where
  "disk_zero = \<lparr>mnt = '''', dkey = None, key_len = 0, enc = False, ro = False, roothash = None, roothash_offset = 0\<rparr>"

text \<open>
  The elements of an array, each read by \<open>parse_json\<close> into a zeroed structure; \<open>None\<close> when an
  element is not an object: the library may not iterate over it, and the process crashes.
\<close>

fun objects_loop :: "(string \<Rightarrow> json \<Rightarrow> 'a \<Rightarrow> 'a \<times> int) \<Rightarrow> 'a \<Rightarrow> json option list \<Rightarrow> ('a list \<times> int) option" where
  "objects_loop cb z [] = Some ([], 0)"
| "objects_loop cb z (Some (JS_object es) # vs) =
     (case parse_json cb es z of
        (d, r) \<Rightarrow> if r \<noteq> 0 then Some ([], r)
                 else (case objects_loop cb z vs of
                         None \<Rightarrow> None
                       | Some (ds, r) \<Rightarrow> Some (d # ds, r)))"
| "objects_loop cb z (_ # vs) = None"

definition parse_disks :: "json \<Rightarrow> app_config \<Rightarrow> (app_config \<times> int) option" where
  "parse_disks disks_val config =
     (case disks_val of
        JS_array vs \<Rightarrow>
          (case objects_loop parse_enclave_disk_config_entry disk_zero vs of
             None \<Rightarrow> None
           | Some (ds, r) \<Rightarrow>
               if r \<noteq> 0 then Some (config, r) else Some (config\<lparr>num_disks := length vs, disks := Some ds\<rparr>, 0))
      | _ \<Rightarrow> Some (config, 1))"

definition parse_enclave_wg_peer_config_entry :: "string \<Rightarrow> json \<Rightarrow> app_peer \<Rightarrow> app_peer \<times> int" where
  "parse_enclave_wg_peer_config_entry key v peer =
     (if assert_entry_type key v then (peer, 1)
      else (case v of
              JS_string s \<Rightarrow>
                if key = ''key'' then (peer\<lparr>pkey := Some s\<rparr>, 0)
                else if key = ''allowedips'' then (peer\<lparr>allowed_ips := Some s\<rparr>, 0)
                else if key = ''endpoint'' then (peer\<lparr>endpoint := Some s\<rparr>, 0)
                else (peer, 1)
            | _ \<Rightarrow> (peer, 1)))"

definition peer_zero :: app_peer where
  "peer_zero = \<lparr>pkey = None, allowed_ips = None, endpoint = None\<rparr>"

fun network_loop :: "(string \<times> json option) list \<Rightarrow> app_config \<Rightarrow> (app_config \<times> int) option" where
  "network_loop [] config = Some (config, 0)"
| "network_loop ((key, None) # es) config = Some (config, 0)"
| "network_loop ((key, Some v) # es) config =
     (if key \<noteq> ''peers'' then network_loop es config
      else if assert_entry_type key v then Some (config, 1)
      else (case v of
              JS_array vs \<Rightarrow>
                (case objects_loop parse_enclave_wg_peer_config_entry peer_zero vs of
                   None \<Rightarrow> None
                 | Some (ps, r) \<Rightarrow>
                     if r \<noteq> 0 then Some (config, r) else Some (config\<lparr>num_peers := length vs, peers := Some ps\<rparr>, 0))
            | _ \<Rightarrow> Some (config, 0)))"

definition parse_network :: "json \<Rightarrow> app_config \<Rightarrow> (app_config \<times> int) option" where
  "parse_network net_val config =
     (case net_val of JS_object es \<Rightarrow> network_loop es config | _ \<Rightarrow> Some (config, 1))"

text \<open>The state of the traversal is \<open>None\<close> after a crash, which also ends it.\<close>

definition crashing :: "(app_config \<Rightarrow> (app_config \<times> int) option) \<Rightarrow> app_config option \<Rightarrow> app_config option \<times> int" where
  "crashing f config = (case config of None \<Rightarrow> (None, 1) | Some c \<Rightarrow>
     (case f c of None \<Rightarrow> (None, 1) | Some (c, r) \<Rightarrow> (Some c, r)))"

definition app_config_entry :: "string \<Rightarrow> json \<Rightarrow> app_config \<Rightarrow> (app_config \<times> int) option" where
  "app_config_entry key v config =
    (if key = ''run'' then
       Some (case v of JS_string s \<Rightarrow> (config\<lparr>run := Some s\<rparr>, 0) | _ \<Rightarrow> (config, 1))
     else if key = ''cwd'' then
       Some (case v of JS_string s \<Rightarrow> (config\<lparr>cwd := Some s\<rparr>, 0) | _ \<Rightarrow> (config, 1))
     else if key = ''args'' then Some (parse_args v config)
     else if key = ''environment'' then Some (parse_env v config)
     else if key = ''disk_config'' then parse_disks v config
     else if key = ''network_config'' then parse_network v config
     else Some (config, 1))"

definition parse_sgxlkl_app_config_entry :: "string \<Rightarrow> json \<Rightarrow> app_config option \<Rightarrow> app_config option \<times> int" where
  "parse_sgxlkl_app_config_entry key v = crashing (app_config_entry key v)"

text \<open>The defaults for arguments and environment, and the program as argument 0.\<close>

definition finish_config :: "string \<Rightarrow> app_config \<Rightarrow> app_config" where
  "finish_config r config =
     (let config = (case argv config of None \<Rightarrow> config\<lparr>argc := 1, argv := Some [None]\<rparr> | Some _ \<Rightarrow> config);
          config = (case envp config of None \<Rightarrow> config\<lparr>envp := Some []\<rparr> | Some _ \<Rightarrow> config)
      in config\<lparr>argv := map_option (\<lambda>a. a[0 := Some r]) (argv config)\<rparr>)"

definition parse_sgxlkl_app_config_from_str ::
    "(string \<Rightarrow> (string \<times> json option) list option) \<Rightarrow> string \<Rightarrow> app_config \<Rightarrow> (app_config \<times> int) option" where
  "parse_sgxlkl_app_config_from_str tokener str config =
     (case parse_json_from_str tokener str parse_sgxlkl_app_config_entry (Some config) of
        (None, _) \<Rightarrow> None
      | (Some config, res) \<Rightarrow>
          if res \<noteq> 0 then Some (config, res)
          else (case run config of
                  None \<Rightarrow> Some (config, 1)
                | Some r \<Rightarrow> Some (finish_config r config, 0)))"

definition config_zero :: app_config where
  "config_zero = \<lparr>run = None, cwd = None, argc = 0, argv = None, envp = None, num_disks = 0, disks = None,
     num_peers = 0, peers = None\<rparr>"

section \<open>What a configuration says\<close>

text \<open>The meaning of the entries of an object, as a function of its keys.\<close>

fun str :: "json \<Rightarrow> string" where
  "str (JS_string s) = s"
| "str _ = ''''"

fun arr :: "json \<Rightarrow> json option list" where
  "arr (JS_array vs) = vs"
| "arr _ = []"

fun obj :: "json \<Rightarrow> (string \<times> json option) list" where
  "obj (JS_object es) = es"
| "obj _ = []"

definition the_entries :: "(string \<times> json option) list \<Rightarrow> (string \<times> json) list" where
  "the_entries es = map (\<lambda>(k, v). (k, the v)) es"

lemma length_present [simp]: "length (present es) = length es"
  by (simp add: present_def)

lemma the_entries_simps [simp]: "the_entries [] = []" "the_entries ((k, v) # es) = (k, the v) # the_entries es"
  by (simp_all add: the_entries_def)

lemma the_entries_present [simp]: "the_entries (present es) = es"
  by (simp add: the_entries_def present_def comp_def case_prod_beta)

definition disk_of :: "(string \<rightharpoonup> json) \<Rightarrow> app_disk" where
  "disk_of m =
     \<lparr>mnt = (case m ''disk'' of Some v \<Rightarrow> take 255 (str v) | None \<Rightarrow> ''''),
      dkey = (case m ''key'' of Some v \<Rightarrow> hex_bytes (str v) | None \<Rightarrow> None),
      key_len = (case m ''key'' of Some v \<Rightarrow> of_nat (length (the (hex_bytes (str v)))) | None \<Rightarrow> 0),
      enc = (m ''key'' \<noteq> None),
      ro = (m ''readonly'' = Some (JS_boolean True)),
      roothash = map_option str (m ''roothash''),
      roothash_offset = (case m ''roothash_offset'' of Some (JS_int i) \<Rightarrow> of_int i | _ \<Rightarrow> 0)\<rparr>"

definition disk_ok :: "string \<Rightarrow> json \<Rightarrow> bool" where
  "disk_ok k v \<longleftrightarrow>
     k \<in> {''disk'', ''roothash''} \<and> json_object_get_type v = T_string \<or>
     k = ''key'' \<and> json_object_get_type v = T_string \<and> hex_bytes (str v) \<noteq> None \<or>
     k = ''roothash_offset'' \<and> json_object_get_type v = T_int \<or>
     k = ''readonly'' \<and> json_object_get_type v = T_boolean"

definition peer_of :: "(string \<rightharpoonup> json) \<Rightarrow> app_peer" where
  "peer_of m = \<lparr>pkey = map_option str (m ''key''), allowed_ips = map_option str (m ''allowedips''),
     endpoint = map_option str (m ''endpoint'')\<rparr>"

definition peer_ok :: "string \<Rightarrow> json \<Rightarrow> bool" where
  "peer_ok k v \<longleftrightarrow> k \<in> {''key'', ''allowedips'', ''endpoint''} \<and> json_object_get_type v = T_string"

lemma type_cases:
  "json_object_get_type v = T_string \<longleftrightarrow> (\<exists>s. v = JS_string s)"
  "json_object_get_type v = T_boolean \<longleftrightarrow> (\<exists>b. v = JS_boolean b)"
  "json_object_get_type v = T_int \<longleftrightarrow> (\<exists>i. v = JS_int i)"
  "json_object_get_type v = T_array \<longleftrightarrow> (\<exists>vs. v = JS_array vs)"
  "json_object_get_type v = T_object \<longleftrightarrow> (\<exists>es. v = JS_object es)"
  by (cases v; simp)+

lemmas key_lists = assert_entry_type_def STRING_KEYS_def BOOL_KEYS_def INT_KEYS_def ARRAY_KEYS_def

lemma disk_entry_ok:
  assumes "disk_ok k v" and "m k = None"
  shows "parse_enclave_disk_config_entry k v (disk_of m) = (disk_of (m(k \<mapsto> v)), 0)"
proof -
  from assms(1) consider s where "k = ''disk''" "v = JS_string s" | s where "k = ''key''" "v = JS_string s"
    | s where "k = ''roothash''" "v = JS_string s" | i where "k = ''roothash_offset''" "v = JS_int i"
    | b where "k = ''readonly''" "v = JS_boolean b"
    unfolding disk_ok_def type_cases insert_iff empty_iff by (elim disjE conjE exE) simp_all
  then show ?thesis
  proof cases
    case (2 s)
    then obtain bs where "hex_bytes s = Some bs" using assms(1) by (auto simp: disk_ok_def)
    then show ?thesis using 2 assms(2) hex_to_bytes_text by (simp add: parse_enclave_disk_config_entry_def key_lists disk_of_def)
  qed (use assms(2) in \<open>simp_all add: parse_enclave_disk_config_entry_def key_lists disk_of_def\<close>)
qed

text \<open>A key that is a string is hexadecimal. Malformed ones are treated at the end of this theory.\<close>

definition hex_key :: "string \<Rightarrow> json \<Rightarrow> bool" where
  "hex_key k v \<longleftrightarrow> (k = ''key'' \<longrightarrow> (\<forall>s. v = JS_string s \<longrightarrow> hex_bytes s \<noteq> None))"

lemma disk_entry_bad: "hex_key k v \<Longrightarrow> \<not> disk_ok k v \<Longrightarrow> snd (parse_enclave_disk_config_entry k v d) \<noteq> 0"
  by (cases v) (simp_all add: parse_enclave_disk_config_entry_def disk_ok_def hex_key_def)

lemma peer_entry_ok:
  assumes "peer_ok k v" and "m k = None"
  shows "parse_enclave_wg_peer_config_entry k v (peer_of m) = (peer_of (m(k \<mapsto> v)), 0)"
proof -
  from assms(1) consider s where "k = ''key''" "v = JS_string s" | s where "k = ''allowedips''" "v = JS_string s"
    | s where "k = ''endpoint''" "v = JS_string s"
    unfolding peer_ok_def type_cases insert_iff empty_iff by (elim disjE conjE exE) simp_all
  then show ?thesis
    by cases (use assms(2) in \<open>simp_all add: parse_enclave_wg_peer_config_entry_def key_lists peer_of_def\<close>)
qed

lemma peer_entry_bad: "\<not> peer_ok k v \<Longrightarrow> snd (parse_enclave_wg_peer_config_entry k v d) \<noteq> 0"
  by (cases v) (simp_all add: parse_enclave_wg_peer_config_entry_def peer_ok_def)

text \<open>
  What the library promises of the value of an array of objects, and what it takes for the code to cope: all elements are objects,
  with distinct keys and without \<open>null\<close>.
\<close>

definition plain_objects :: "json option list \<Rightarrow> bool" where
  "plain_objects vs \<longleftrightarrow> (\<forall>v\<in>set vs. \<exists>es. v = Some (JS_object (present es)) \<and> distinct (map fst es))"

definition objects :: "json option list \<Rightarrow> (string \<rightharpoonup> json) list" where
  "objects vs = map (\<lambda>v. map_of (the_entries (obj (the v)))) vs"

definition objects_ok :: "(string \<Rightarrow> json \<Rightarrow> bool) \<Rightarrow> json option list \<Rightarrow> bool" where
  "objects_ok ok vs \<longleftrightarrow> (\<forall>v\<in>set vs. \<forall>(k, w)\<in>set (the_entries (obj (the v))). ok k w)"

lemma objects_loop_exact:
  assumes "plain_objects vs" and "objects_ok P vs"
    and good: "\<And>k v m. ok k v \<Longrightarrow> m k = None \<Longrightarrow> cb k v (g m) = (g (m(k \<mapsto> v)), 0)"
    and bad: "\<And>k v s. P k v \<Longrightarrow> \<not> ok k v \<Longrightarrow> snd (cb k v s) \<noteq> 0"
  shows "\<exists>ds r. objects_loop cb (g Map.empty) vs = Some (ds, r) \<and> (r = 0 \<longleftrightarrow> objects_ok ok vs) \<and>
    (objects_ok ok vs \<longrightarrow> ds = map g (objects vs))"
  using assms(1,2)
proof (induction vs)
  case Nil
  then show ?case by (simp add: objects_ok_def objects_def)
next
  case (Cons v vs)
  then obtain es where v: "v = Some (JS_object (present es))" and d: "distinct (map fst es)" by (auto simp: plain_objects_def)
  have "P k w" if "(k, w) \<in> set es" for k w using Cons.prems(2) that by (auto simp: objects_ok_def v)
  note po = parse_object [OF d, of ok cb g, OF good bad [OF this]]
  have "plain_objects vs" "objects_ok P vs" using Cons.prems by (simp_all add: plain_objects_def objects_ok_def)
  then obtain ds r where ih: "objects_loop cb (g Map.empty) vs = Some (ds, r)" "r = 0 \<longleftrightarrow> objects_ok ok vs"
    "objects_ok ok vs \<longrightarrow> ds = map g (objects vs)" using Cons.IH by blast
  have split: "objects_ok ok (v # vs) \<longleftrightarrow> (\<forall>(k, w)\<in>set es. ok k w) \<and> objects_ok ok vs"
    by (simp add: objects_ok_def v)
  show ?case
  proof (cases "\<forall>(k, w)\<in>set es. ok k w")
    case True
    have "parse_json cb (present es) (g Map.empty) = (g (map_of es), 0)" by (rule po(2)) (use True in auto)
    then show ?thesis using ih True unfolding split by (simp add: v objects_def)
  next
    case False
    have "snd (parse_json cb (present es) (g Map.empty)) \<noteq> 0" using po(1) False by auto
    then show ?thesis using False unfolding split by (auto simp: v split_beta)
  qed
qed

lemma disk_of_empty: "disk_of Map.empty = disk_zero"
  by (simp add: disk_of_def disk_zero_def)

lemma peer_of_empty: "peer_of Map.empty = peer_zero"
  by (simp add: peer_of_def peer_zero_def)

lemmas disks_exact = objects_loop_exact [of _ hex_key disk_ok parse_enclave_disk_config_entry disk_of, OF _ _ disk_entry_ok disk_entry_bad,
  unfolded disk_of_empty]

lemma no_condition: "objects_ok (\<lambda>_ _. True) vs"
  by (simp add: objects_ok_def)

lemmas peers_exact = objects_loop_exact [of _ "\<lambda>_ _. True" peer_ok parse_enclave_wg_peer_config_entry peer_of,
  OF _ no_condition peer_entry_ok peer_entry_bad, unfolded peer_of_empty]

text \<open>The configuration before the defaults for arguments and environment are filled in.\<close>

definition raw_config :: "(string \<rightharpoonup> json) \<Rightarrow> app_config" where
  "raw_config m =
     \<lparr>run = map_option str (m ''run''), cwd = map_option str (m ''cwd''),
      argc = (case m ''args'' of Some v \<Rightarrow> length (arr v) + 1 | None \<Rightarrow> 0),
      argv = map_option (\<lambda>v. None # map (map_option str) (arr v)) (m ''args''),
      envp = map_option (\<lambda>v. map (\<lambda>(k, w). Some (k @ ''='' @ str w)) (the_entries (obj v))) (m ''environment''),
      num_disks = (case m ''disk_config'' of Some v \<Rightarrow> length (arr v) | None \<Rightarrow> 0),
      disks = map_option (\<lambda>v. map disk_of (objects (arr v))) (m ''disk_config''),
      num_peers = (case m ''network_config'' of
          Some v \<Rightarrow> (case map_of (the_entries (obj v)) ''peers'' of Some p \<Rightarrow> length (arr p) | None \<Rightarrow> 0) | None \<Rightarrow> 0),
      peers = (case m ''network_config'' of
          Some v \<Rightarrow> map_option (\<lambda>p. map peer_of (objects (arr p))) (map_of (the_entries (obj v)) ''peers'') | None \<Rightarrow> None)\<rparr>"

definition config_of :: "(string \<rightharpoonup> json) \<Rightarrow> app_config" where
  "config_of m = (raw_config m)
     \<lparr>argc := (case m ''args'' of Some v \<Rightarrow> length (arr v) + 1 | None \<Rightarrow> 1),
      argv := Some (map_option str (m ''run'') # (case m ''args'' of Some v \<Rightarrow> map (map_option str) (arr v) | None \<Rightarrow> [])),
      envp := Some (case m ''environment'' of
         Some v \<Rightarrow> map (\<lambda>(k, w). Some (k @ ''='' @ str w)) (the_entries (obj v)) | None \<Rightarrow> [])\<rparr>"

definition network_ok :: "json \<Rightarrow> bool" where
  "network_ok v = (case map_of (the_entries (obj v)) ''peers'' of
     None \<Rightarrow> True | Some p \<Rightarrow> json_object_get_type p = T_array \<and> objects_ok peer_ok (arr p))"

definition entry_ok :: "string \<Rightarrow> json \<Rightarrow> bool" where
  "entry_ok k v \<longleftrightarrow>
     k \<in> {''run'', ''cwd''} \<and> json_object_get_type v = T_string \<or>
     k = ''args'' \<and> json_object_get_type v = T_array \<and> (\<forall>w\<in>set (arr v). \<exists>s. w = Some (JS_string s)) \<or>
     k = ''environment'' \<and> json_object_get_type v = T_object \<and> (\<forall>(n, w)\<in>set (the_entries (obj v)). json_object_get_type w = T_string) \<or>
     k = ''disk_config'' \<and> json_object_get_type v = T_array \<and> objects_ok disk_ok (arr v) \<or>
     k = ''network_config'' \<and> json_object_get_type v = T_object \<and> network_ok v"

text \<open>
  A value without \<open>null\<close> in an object and without anything but objects in the arrays of disks and peers, in which the keys of disks are
  hexadecimal. A \<open>null\<close> ends
  the loop it occurs in, the library may not iterate over anything but an object, and a malformed key goes unnoticed.
\<close>

definition plain_entry :: "string \<Rightarrow> json \<Rightarrow> bool" where
  "plain_entry k v \<longleftrightarrow>
     (\<forall>es. v = JS_object es \<longrightarrow> (\<exists>fs. es = present fs \<and> distinct (map fst fs) \<and>
        (\<forall>vs. map_of fs ''peers'' = Some (JS_array vs) \<longrightarrow> plain_objects vs))) \<and>
     (k = ''disk_config'' \<longrightarrow> plain_objects (arr v) \<and> objects_ok hex_key (arr v))"

lemma take_Suc_update: "i < length a \<Longrightarrow> take (Suc i) (a[i := x]) = take i a @ [x]"
  by (simp add: take_Suc_conv_app_nth)

lemma args_loop_exact:
  assumes "length a = i + length vs"
  shows "snd (args_loop vs i a) = 0 \<longleftrightarrow> (\<forall>w\<in>set vs. \<exists>s. w = Some (JS_string s))"
    and "(\<forall>w\<in>set vs. \<exists>s. w = Some (JS_string s)) \<Longrightarrow> args_loop vs i a = (take i a @ map (map_option str) vs, 0)"
  using assms
proof (induction vs i a rule: args_loop.induct)
  case (2 s vs i a)
  {
    case 1
    then show ?case using 2 by simp
  next
    case _: 2
    then show ?case using 2 by (simp add: take_Suc_update)
  }
qed auto

lemma env_loop_exact:
  assumes "length a = i + length es"
  shows "snd (parse_json env_entry (present es) (i, a)) = 0 \<longleftrightarrow> (\<forall>(n, w)\<in>set es. json_object_get_type w = T_string)"
    and "(\<forall>(n, w)\<in>set es. json_object_get_type w = T_string) \<Longrightarrow> parse_json env_entry (present es) (i, a) =
      ((i + length es, take i a @ map (\<lambda>(k, w). Some (k @ ''='' @ str w)) es), 0)"
  using assms
proof (induction es arbitrary: i a)
  case (Cons e es)
  obtain k v where e: "e = (k, v)" by (cases e)
  {
    case 1
    then show ?case using Cons.IH(1) [of "a[i := Some (k @ ''='' @ str v)]" "Suc i"]
      by (cases v) (simp_all add: e env_entry_def)
  next
    case 2
    then show ?case using Cons.IH(2) [of "a[i := Some (k @ ''='' @ str v)]" "Suc i"]
      by (cases v) (simp_all add: e env_entry_def take_Suc_update)
  }
qed simp_all

lemma network_loop_exact:
  assumes "distinct (map fst fs)" and "\<And>vs. map_of fs ''peers'' = Some (JS_array vs) \<Longrightarrow> plain_objects vs"
  shows "\<exists>c' r. network_loop (present fs) c = Some (c', r) \<and> (r = 0 \<longleftrightarrow> network_ok (JS_object (present fs))) \<and>
    (network_ok (JS_object (present fs)) \<longrightarrow> c' = (case map_of fs ''peers'' of
       Some p \<Rightarrow> c\<lparr>num_peers := length (arr p), peers := Some (map peer_of (objects (arr p)))\<rparr> | None \<Rightarrow> c))"
  using assms
proof (induction fs)
  case Nil
  then show ?case by (simp add: network_ok_def)
next
  case (Cons e fs)
  obtain k v where e: "e = (k, v)" by (cases e)
  show ?case
  proof (cases "k = ''peers''")
    case False
    then show ?thesis using Cons by (simp add: e network_ok_def)
  next
    case True
    show ?thesis
    proof (cases "json_object_get_type v = T_array")
      case False
      then show ?thesis using True by (simp add: e network_ok_def key_lists)
    next
      case arr: True
      then obtain vs where v: "v = JS_array vs" by (auto simp: type_cases)
      have "plain_objects vs" using Cons.prems(2) True by (simp add: e v)
      from peers_exact [OF this] obtain ds r where
        "objects_loop parse_enclave_wg_peer_config_entry peer_zero vs = Some (ds, r)" "r = 0 \<longleftrightarrow> objects_ok peer_ok vs"
        "objects_ok peer_ok vs \<longrightarrow> ds = map peer_of (objects vs)" by blast
      then show ?thesis using True by (auto simp: e v network_ok_def key_lists)
    qed
  qed
qed

lemma entry_keys [case_names run_cwd args environment disk_config network_config other]:
  obtains "k = ''run'' \<or> k = ''cwd''" | "k = ''args''" | "k = ''environment''" | "k = ''disk_config''" | "k = ''network_config''"
    | "k \<notin> {''run'', ''cwd'', ''args'', ''environment'', ''disk_config'', ''network_config''}"
  by fast

lemma entry_exact:
  assumes "plain_entry k v" and "m k = None"
  shows "\<exists>c r. parse_sgxlkl_app_config_entry k v (Some (raw_config m)) = (Some c, r) \<and> (r = 0 \<longleftrightarrow> entry_ok k v) \<and>
    (entry_ok k v \<longrightarrow> c = raw_config (m(k \<mapsto> v)))"
proof -
  show ?thesis
  proof (cases k rule: entry_keys)
    case run_cwd
    then show ?thesis using assms(2)
      by (cases v) (auto simp: parse_sgxlkl_app_config_entry_def crashing_def app_config_entry_def entry_ok_def raw_config_def)
  next
    case args
    show ?thesis
    proof (cases "json_object_get_type v = T_array")
      case True
      then obtain vs where v: "v = JS_array vs" by (auto simp: type_cases)
      note al = args_loop_exact [of "replicate (length vs + 1) None" 1 vs]
      show ?thesis using args al(1) al(2) assms(2)
        by (cases "\<forall>w\<in>set vs. \<exists>s. w = Some (JS_string s)")
          (auto simp: v parse_sgxlkl_app_config_entry_def crashing_def app_config_entry_def parse_args_def entry_ok_def raw_config_def split_beta Let_def)
    next
      case False
      then show ?thesis using args by (cases v) (simp_all add: parse_sgxlkl_app_config_entry_def crashing_def app_config_entry_def parse_args_def entry_ok_def)
    qed
  next
    case environment
    show ?thesis
    proof (cases "json_object_get_type v = T_object")
      case True
      then obtain es where v: "v = JS_object (present es)" using assms(1) by (auto simp: type_cases plain_entry_def)
      note el = env_loop_exact [of "replicate (length es) None" 0 es]
      show ?thesis using environment el(1) el(2) assms(2)
        by (cases "\<forall>(n, w)\<in>set es. json_object_get_type w = T_string")
          (auto simp: v parse_sgxlkl_app_config_entry_def crashing_def app_config_entry_def parse_env_def entry_ok_def raw_config_def split_beta Let_def)
    next
      case False
      then show ?thesis using environment by (cases v) (simp_all add: parse_sgxlkl_app_config_entry_def crashing_def app_config_entry_def parse_env_def entry_ok_def)
    qed
  next
    case disk_config
    show ?thesis
    proof (cases "json_object_get_type v = T_array")
      case True
      then obtain vs where v: "v = JS_array vs" by (auto simp: type_cases)
      have "plain_objects vs" "objects_ok hex_key vs" using assms(1) disk_config by (simp_all add: plain_entry_def v)
      from disks_exact [OF this] obtain ds r where
        "objects_loop parse_enclave_disk_config_entry disk_zero vs = Some (ds, r)" "r = 0 \<longleftrightarrow> objects_ok disk_ok vs"
        "objects_ok disk_ok vs \<longrightarrow> ds = map disk_of (objects vs)" by blast
      then show ?thesis using disk_config assms(2)
        by (auto simp: v parse_sgxlkl_app_config_entry_def crashing_def app_config_entry_def parse_disks_def entry_ok_def raw_config_def)
    next
      case False
      then show ?thesis using disk_config by (cases v) (simp_all add: parse_sgxlkl_app_config_entry_def crashing_def app_config_entry_def parse_disks_def entry_ok_def)
    qed
  next
    case network_config
    show ?thesis
    proof (cases "json_object_get_type v = T_object")
      case True
      then obtain fs where v: "v = JS_object (present fs)" and fs: "distinct (map fst fs)"
        "\<And>vs. map_of fs ''peers'' = Some (JS_array vs) \<Longrightarrow> plain_objects vs"
        using assms(1) by (auto simp: type_cases plain_entry_def)
      from network_loop_exact [OF fs, of "raw_config m"] show ?thesis using network_config assms(2)
        by (auto simp: v parse_sgxlkl_app_config_entry_def crashing_def app_config_entry_def parse_network_def entry_ok_def raw_config_def split: option.splits)
    next
      case False
      then show ?thesis using network_config by (cases v) (simp_all add: parse_sgxlkl_app_config_entry_def crashing_def app_config_entry_def parse_network_def entry_ok_def)
    qed
  next
    case other
    then show ?thesis by (simp add: parse_sgxlkl_app_config_entry_def crashing_def app_config_entry_def entry_ok_def)
  qed
qed

lemma finish_config_of:
  assumes "m ''run'' = Some v"
  shows "finish_config (str v) (raw_config m) = config_of m"
  using assms by (cases "m ''args''"; cases "m ''environment''") (simp_all add: finish_config_def raw_config_def config_of_def)

lemma raw_config_empty: "raw_config Map.empty = config_zero"
  by (simp add: raw_config_def config_zero_def)

lemma entry_keeps_running:
  assumes "plain_entry k v"
  shows "fst (parse_sgxlkl_app_config_entry k v (Some c)) \<noteq> None"
proof -
  have 1: "parse_disks v c \<noteq> None" if "k = ''disk_config''"
  proof (cases v)
    case (JS_array vs)
    then have "plain_objects vs" "objects_ok hex_key vs" using assms that by (simp_all add: plain_entry_def)
    from disks_exact [OF this] show ?thesis by (auto simp: parse_disks_def JS_array)
  qed (simp_all add: parse_disks_def)
  have 2: "parse_network v c \<noteq> None"
  proof (cases v)
    case (JS_object es)
    then obtain fs where fs: "es = present fs" "distinct (map fst fs)" "\<And>vs. map_of fs ''peers'' = Some (JS_array vs) \<Longrightarrow> plain_objects vs"
      using assms by (auto simp: plain_entry_def)
    from network_loop_exact [OF fs(2,3), of c] show ?thesis by (auto simp: parse_network_def JS_object fs(1))
  qed (simp_all add: parse_network_def)
  have "app_config_entry k v c \<noteq> None"
  proof (cases "k = ''disk_config''")
    case True
    then show ?thesis using 1 by (simp add: app_config_entry_def)
  next
    case False
    then show ?thesis using 2 by (simp add: app_config_entry_def)
  qed
  then show ?thesis by (auto simp: parse_sgxlkl_app_config_entry_def crashing_def)
qed

lemma entry_fails:
  assumes "plain_entry k v" and "\<not> entry_ok k v"
  shows "snd (parse_sgxlkl_app_config_entry k v (Some c)) \<noteq> 0"
proof -
  have 1: "\<exists>c' r. parse_disks v c = Some (c', r) \<and> r \<noteq> 0" if "k = ''disk_config''"
  proof (cases v)
    case (JS_array vs)
    then have "plain_objects vs" "objects_ok hex_key vs" "\<not> objects_ok disk_ok vs" using assms that by (simp_all add: plain_entry_def entry_ok_def)
    with disks_exact [of vs] show ?thesis by (auto simp: parse_disks_def JS_array)
  qed (simp_all add: parse_disks_def)
  have 2: "\<exists>c' r. parse_network v c = Some (c', r) \<and> r \<noteq> 0" if "k = ''network_config''"
  proof (cases v)
    case (JS_object es)
    then obtain fs where fs: "es = present fs" "distinct (map fst fs)" "\<And>vs. map_of fs ''peers'' = Some (JS_array vs) \<Longrightarrow> plain_objects vs"
      using assms(1) by (auto simp: plain_entry_def)
    then have "\<not> network_ok (JS_object (present fs))" using assms(2) that by (simp add: JS_object entry_ok_def)
    with network_loop_exact [OF fs(2,3), of c] show ?thesis by (auto simp: parse_network_def JS_object fs(1))
  qed (simp_all add: parse_network_def)
  have 3: "snd (parse_args v c) \<noteq> 0" if "k = ''args''"
    using assms(2) that args_loop_exact(1) [of "replicate (length (arr v) + 1) None" 1 "arr v"]
    by (cases v) (auto simp: parse_args_def entry_ok_def split_beta Let_def)
  have 4: "snd (parse_env v c) \<noteq> 0" if "k = ''environment''"
  proof (cases v)
    case (JS_object es)
    then obtain fs where fs: "es = present fs" using assms(1) by (auto simp: plain_entry_def)
    then show ?thesis using assms(2) that env_loop_exact(1) [of "replicate (length fs) None" 0 fs]
      by (auto simp: parse_env_def JS_object entry_ok_def split_beta Let_def)
  qed (simp_all add: parse_env_def)
  have 5: "snd (case v of JS_string s \<Rightarrow> (x s, 0 :: int) | _ \<Rightarrow> (c, 1)) \<noteq> 0" if "k = ''run'' \<or> k = ''cwd''" for x :: "string \<Rightarrow> app_config"
    using assms(2) that by (cases v) (auto simp: entry_ok_def)
  have "app_config_entry k v c = Some (c', r) \<Longrightarrow> r \<noteq> 0" for c' r
  proof (cases k rule: entry_keys)
    case run_cwd
    then show "app_config_entry k v c = Some (c', r) \<Longrightarrow> r \<noteq> 0"
      using 5 by (auto simp: app_config_entry_def split: if_splits) (metis snd_conv)+
  next
    case args
    then show "app_config_entry k v c = Some (c', r) \<Longrightarrow> r \<noteq> 0" using 3 by (auto simp: app_config_entry_def)
  next
    case environment
    then show "app_config_entry k v c = Some (c', r) \<Longrightarrow> r \<noteq> 0" using 4 by (auto simp: app_config_entry_def)
  next
    case disk_config
    then show "app_config_entry k v c = Some (c', r) \<Longrightarrow> r \<noteq> 0" using 1 by (auto simp: app_config_entry_def)
  next
    case network_config
    then show "app_config_entry k v c = Some (c', r) \<Longrightarrow> r \<noteq> 0" using 2 by (auto simp: app_config_entry_def)
  next
    case other
    then show "app_config_entry k v c = Some (c', r) \<Longrightarrow> r \<noteq> 0" by (simp add: app_config_entry_def)
  qed
  then show ?thesis by (simp add: parse_sgxlkl_app_config_entry_def crashing_def split: option.split prod.split)
qed

text \<open>
  C20. A configuration is accepted exactly when it names a program to run and every entry has a known
  key and a value of the right form, whatever the order of the entries, and then it is taken over exactly: the program and its
  arguments, the environment as assignments, every disk with its mount point (its first 255 characters), the bytes its key stands for and its
  hash, and every
  peer (what else the network configuration has is ignored). Whether it is accepted or not, the call returns. The text is one object for the JSON library, whose keys are
  distinct, without \<open>null\<close> in objects, disks and peers are objects, and the keys of disks, where they are strings, are
  hexadecimal with two digits for every byte: other keys are not covered.
\<close>

theorem app_config_exact:
  assumes "tokener txt = Some (present es)" and "take 1 (dropWhile isspace txt) = ''{''"
    and "distinct (map fst es)" and "\<forall>(k, v)\<in>set es. plain_entry k v"
  shows "\<exists>c r. parse_sgxlkl_app_config_from_str tokener txt config_zero = Some (c, r) \<and>
    (r = 0 \<longleftrightarrow> (\<forall>(k, v)\<in>set es. entry_ok k v) \<and> map_of es ''run'' \<noteq> None) \<and>
    (r = 0 \<longrightarrow> c = config_of (map_of es))"
proof -
  let ?p = "parse_json parse_sgxlkl_app_config_entry (present es) (Some config_zero)"
  have run: "fst ?p \<noteq> None"
    by (rule parse_json_inv [where I = "\<lambda>s. s \<noteq> None"]) (use assms(4) entry_keeps_running in auto)
  have good: "parse_sgxlkl_app_config_entry k v (Some (raw_config m)) = (Some (raw_config (m(k \<mapsto> v))), 0)"
    if "(k, v) \<in> set es" "entry_ok k v" "m k = None" for k v m
  proof -
    have "plain_entry k v" using assms(4) that(1) by auto
    from entry_exact [of k v m, OF this that(3)] that(2) show ?thesis by auto
  qed
  have bad: "snd (parse_sgxlkl_app_config_entry k v s) \<noteq> 0" if "(k, v) \<in> set es" "\<not> entry_ok k v" for k v s
  proof (cases s)
    case None
    then show ?thesis by (simp add: parse_sgxlkl_app_config_entry_def crashing_def)
  next
    case (Some c)
    have "plain_entry k v" using assms(4) that(1) by auto
    then show ?thesis unfolding Some using that(2) by (rule entry_fails)
  qed
  have po: "snd ?p = 0 \<longleftrightarrow> (\<forall>(k, v)\<in>set es. entry_ok k v)"
    "(\<forall>(k, v)\<in>set es. entry_ok k v) \<Longrightarrow> ?p = (Some (raw_config (map_of es)), 0)"
    unfolding raw_config_empty [symmetric]
    by (rule parse_object [OF assms(3), where g = "\<lambda>m. Some (raw_config m)"], erule good, assumption, assumption, erule bad, assumption)+
  have str: "parse_json_from_str tokener txt parse_sgxlkl_app_config_entry (Some config_zero) = (fst ?p, if snd ?p \<noteq> 0 then - 1 else 0)"
    using assms(1,2) by (simp add: parse_json_from_str_def Let_def split_beta)
  obtain c where c: "fst ?p = Some c" using run by blast
  show ?thesis
  proof (cases "\<forall>(k, v)\<in>set es. entry_ok k v")
    case False
    then have "snd ?p \<noteq> 0" using po(1) by simp
    then have "parse_sgxlkl_app_config_from_str tokener txt config_zero = Some (c, - 1)"
      by (simp add: parse_sgxlkl_app_config_from_str_def str c)
    then show ?thesis using False by simp
  next
    case True
    have p: "?p = (Some (raw_config (map_of es)), 0)" by (rule po(2) [OF True])
    show ?thesis
    proof (cases "map_of es ''run''")
      case None
      then have "run (raw_config (map_of es)) = None" by (simp add: raw_config_def)
      then show ?thesis using None by (simp add: parse_sgxlkl_app_config_from_str_def str p)
    next
      case (Some v)
      then have "run (raw_config (map_of es)) = Some (str v)" by (simp add: raw_config_def)
      then have "parse_sgxlkl_app_config_from_str tokener txt config_zero = Some (finish_config (str v) (raw_config (map_of es)), 0)"
        by (simp add: parse_sgxlkl_app_config_from_str_def str p Let_def)
      then show ?thesis using True finish_config_of [of "map_of es", OF Some] Some by simp
    qed
  qed
qed

definition sample_entries :: "(string \<times> json) list" where
  "sample_entries =
     [(''args'', JS_array [Some (JS_string ''-v'')]),
      (''environment'', JS_object (present [(''HOME'', JS_string ''/'')])),
      (''run'', JS_string ''/bin/sh''),
      (''disk_config'', JS_array [Some (JS_object (present [(''disk'', JS_string ''/''), (''key'', JS_string ''0aF0'')]))])]"

theorem app_config_exact_witness:
  "\<exists>c. parse_sgxlkl_app_config_from_str (\<lambda>_. Some (present sample_entries)) ''{}'' config_zero = Some (c, 0) \<and>
     argv c = Some [Some ''/bin/sh'', Some ''-v''] \<and> envp c = Some [Some ''HOME=/''] \<and>
     map_option (map mnt) (disks c) = Some [''/''] \<and> map_option (map dkey) (disks c) = Some [Some [0x0a, 0xf0]]"
proof -
  have "plain_entry ''environment'' (JS_object (present [(''HOME'', JS_string ''/'')]))"
    unfolding plain_entry_def by (intro conjI allI impI exI [of _ "[(''HOME'', JS_string ''/'')]"]) (simp_all del: present_simps)
  moreover have "plain_objects [Some (JS_object (present [(''disk'', JS_string ''/''), (''key'', JS_string ''0aF0'')]))]"
    unfolding plain_objects_def by (simp del: present_simps) (rule exI [of _ "[(''disk'', JS_string ''/''), (''key'', JS_string ''0aF0'')]"], simp)
  ultimately have plain: "\<forall>(k, v)\<in>set sample_entries. plain_entry k v"
    unfolding sample_entries_def by (simp del: present_simps) (simp add: plain_entry_def objects_ok_def hex_key_def hex_digit_def)
  have ok: "(\<forall>(k, v)\<in>set sample_entries. entry_ok k v) \<and> map_of sample_entries ''run'' \<noteq> None"
    by (simp add: sample_entries_def entry_ok_def objects_ok_def disk_ok_def hex_digit_def)
  have "distinct (map fst sample_entries)" by (simp add: sample_entries_def)
  note inst = app_config_exact [of "\<lambda>_. Some (present sample_entries)" "''{}''", OF refl _ this plain]
  have "take 1 (dropWhile isspace ''{}'') = ''{''" by (simp add: isspace_def)
  note inst = inst [OF this]
  then obtain c r where h: "parse_sgxlkl_app_config_from_str (\<lambda>_. Some (present sample_entries)) ''{}'' config_zero = Some (c, r)"
    "r = 0 \<longleftrightarrow> (\<forall>(k, v)\<in>set sample_entries. entry_ok k v) \<and> map_of sample_entries ''run'' \<noteq> None"
    "r = 0 \<longrightarrow> c = config_of (map_of sample_entries)" by (elim exE conjE)
  have "r = 0" unfolding h(2) by (rule ok)
  with h have c: "parse_sgxlkl_app_config_from_str (\<lambda>_. Some (present sample_entries)) ''{}'' config_zero = Some (c, 0)"
    "c = config_of (map_of sample_entries)" by (simp_all only: simp_thms)
  have "argv c = Some [Some ''/bin/sh'', Some ''-v'']" "envp c = Some [Some ''HOME=/'']" "map_option (map mnt) (disks c) = Some [''/'']"
    "map_option (map dkey) (disks c) = Some [Some [0x0a, 0xf0]]"
    unfolding c(2) by (simp_all add: config_of_def raw_config_def sample_entries_def objects_def disk_of_def hex_digit_def)
  with c(1) show ?thesis by (intro exI [of _ c] conjI)
qed

section \<open>Where the reader differs from its intention\<close>

text \<open>A disk whose key is not hexadecimal is taken as encrypted with a key of \<open>2 ^ 64 - 1\<close> bytes at a null pointer, not refused.\<close>

lemma bad_key_accepted:
  assumes "hex_to_bytes s True = Inl e"
  shows "parse_enclave_disk_config_entry ''key'' (JS_string s) disk_zero = (disk_zero\<lparr>key_len := - 1, enc := True\<rparr>, 0)"
  using assms by (simp add: parse_enclave_disk_config_entry_def key_lists)

text \<open>A \<open>null\<close> among the environment variables leaves elements of the array unset, and succeeds.\<close>

lemma null_variable_unset:
  "parse_env (JS_object [(''A'', None), (''B'', Some (JS_string ''1''))]) c = (c\<lparr>envp := Some [None, None]\<rparr>, 0)"
  by (simp add: parse_env_def)

text \<open>Anything but an object among the disks crashes the process.\<close>

lemma disk_not_object_crashes: "parse_disks (JS_array [Some (JS_string s)]) c = None"
  by (simp add: parse_disks_def)

end
