(* ===== verification/Ring_Buff.thy ===== *)
theory Ring_Buff
  imports Prelude "HOL-Library.Monad_Syntax"
begin

text \<open>
  The buffer for messages of \<^verbatim>\<open>src/shared/ring_buff.c\<close>: a producer reserves and commits pieces of a ring of
  bytes, a consumer reads and frees them, and on top of that messages are written with their length in front. A
  handle is \<open>None\<close> for a null pointer; so is an argument through which a result is returned, which otherwise
  carries its present contents. Fields that the code declares \<open>int\<close> are 32 bit words too, read as signed
  where the code compares them with an \<open>int\<close> only. An operation of one side is one step: accesses
  of the other side in the middle of it are not considered. Debug messages are left out.

  In every order of sending, receiving and releasing messages the buffer is a queue that delivers them unchanged
  and keeps a message while it is held, provided all lengths are multiples of four (C17). For other
  lengths it delivers wrong bytes: \<open>stale_end_of_data\<close>.
\<close>

section \<open>The buffer\<close>

datatype ring_buff_err = RING_BUFF_ERR_OK | RING_BUFF_ERR_BAD_ARG | RING_BUFF_ERR_GENERAL | RING_BUFF_ERR_NO_MEM
  | RING_BUFF_ERR_OVERRUN | RING_BUFF_ERR_SIZE | RING_BUFF_ERR_INTERNAL | RING_BUFF_ERR_PERM

record ring_buff_attr =
  ra_buff :: u64
  ra_size :: u32

record ring_buff_obj =
  write_buff :: u64
  read_buff :: u64
  rsize :: u32
  rread :: u32
  rwrite :: u32
  racc :: u32
  eod :: u32
  acc_size :: u32
  isEmpty :: u32

text \<open>Two pointers and seven integers, padded to a multiple of eight bytes.\<close>

definition ring_buff_struct_size :: int where
  "ring_buff_struct_size = 48"

definition ring_buff_set_read_buff :: "u64 \<Rightarrow> ring_buff_obj \<Rightarrow> ring_buff_obj" where
  "ring_buff_set_read_buff p obj = obj\<lparr>read_buff := p\<rparr>"

definition ring_buff_set_write_buff :: "u64 \<Rightarrow> ring_buff_obj \<Rightarrow> ring_buff_obj" where
  "ring_buff_set_write_buff p obj = obj\<lparr>write_buff := p\<rparr>"

text \<open>
  A handle that is given is used in place of new memory, whose allocation succeeds or fails as
  \<open>malloc_ok\<close> says. On every failure the handle is set to null.
\<close>

definition ring_buff_create ::
    "bool \<Rightarrow> ring_buff_attr option \<Rightarrow> ring_buff_obj option option \<Rightarrow> ring_buff_obj option option \<times> ring_buff_err" where
  "ring_buff_create malloc_ok attr handle =
     (case (attr, handle) of
        (Some attr, Some given) \<Rightarrow>
          if ra_size attr = 0 \<or> ra_buff attr = 0 then (Some None, RING_BUFF_ERR_BAD_ARG)
          else if given = None \<and> \<not> malloc_ok then (Some None, RING_BUFF_ERR_NO_MEM)
          else (Some (Some \<lparr>write_buff = ra_buff attr, read_buff = ra_buff attr, rsize = ra_size attr, rread = 0,
                  rwrite = 0, racc = 0, eod = - 1, acc_size = 0, isEmpty = 0\<rparr>), RING_BUFF_ERR_OK)
      | (_, None) \<Rightarrow> (None, RING_BUFF_ERR_BAD_ARG)
      | (None, Some _) \<Rightarrow> (Some None, RING_BUFF_ERR_BAD_ARG))"

definition ring_buff_destroy :: "ring_buff_obj option \<Rightarrow> ring_buff_err" where
  "ring_buff_destroy handle = (case handle of None \<Rightarrow> RING_BUFF_ERR_GENERAL | Some _ \<Rightarrow> RING_BUFF_ERR_OK)"

definition ring_buff_reserve ::
    "ring_buff_obj option \<Rightarrow> u64 option \<Rightarrow> u32 \<Rightarrow> ring_buff_obj option \<times> u64 option \<times> ring_buff_err" where
  "ring_buff_reserve handle buff sz =
     (case (handle, buff) of
        (Some obj, Some _) \<Rightarrow>
          if sz > rsize obj then (handle, buff, RING_BUFF_ERR_SIZE)
          else let read = rread obj in
            if sz \<le> rsize obj - rwrite obj then
              if (rwrite obj < read \<and> rwrite obj + sz > read) \<or> (rwrite obj = read \<and> sint (isEmpty obj) > 0)
              then (handle, buff, RING_BUFF_ERR_NO_MEM)
              else (Some (obj\<lparr>rwrite := rwrite obj + sz, isEmpty := isEmpty obj + sz\<rparr>),
                    Some (write_buff obj + ucast (rwrite obj)), RING_BUFF_ERR_OK)
            else
              if read < sz \<or> read > rwrite obj \<or> (rwrite obj = read \<and> sint (isEmpty obj) > 0)
              then (handle, buff, RING_BUFF_ERR_NO_MEM)
              else (Some (obj\<lparr>eod := rwrite obj, rwrite := sz, isEmpty := isEmpty obj + sz\<rparr>),
                    Some (write_buff obj), RING_BUFF_ERR_OK)
      | _ \<Rightarrow> (handle, buff, RING_BUFF_ERR_BAD_ARG))"

definition ring_buff_commit ::
    "ring_buff_obj option \<Rightarrow> u64 \<Rightarrow> u32 \<Rightarrow> ring_buff_obj option \<times> ring_buff_err" where
  "ring_buff_commit handle buff sz =
     (case handle of
        None \<Rightarrow> (None, RING_BUFF_ERR_BAD_ARG)
      | Some obj \<Rightarrow>
          if buff = 0 then (handle, RING_BUFF_ERR_BAD_ARG)
          else (Some (obj\<lparr>acc_size := acc_size obj + sz\<rparr>), RING_BUFF_ERR_OK))"

definition ring_buff_free ::
    "ring_buff_obj option \<Rightarrow> u64 \<Rightarrow> u32 \<Rightarrow> ring_buff_obj option \<times> ring_buff_err" where
  "ring_buff_free handle buff sz =
     (case handle of
        None \<Rightarrow> (None, RING_BUFF_ERR_BAD_ARG)
      | Some obj \<Rightarrow>
          (Some (obj\<lparr>rread := ucast ((buff - read_buff obj) + ucast sz), isEmpty := isEmpty obj - sz\<rparr>),
           RING_BUFF_ERR_OK))"

definition ring_buff_read ::
    "ring_buff_obj option \<Rightarrow> u64 option \<Rightarrow> u32 \<Rightarrow> u32 option \<Rightarrow>
     ring_buff_obj option \<times> u64 option \<times> u32 option \<times> ring_buff_err" where
  "ring_buff_read handle buff sz read =
     (case (handle, buff, read) of
        (Some obj, Some _, Some _) \<Rightarrow>
          if sz > rsize obj then (handle, buff, read, RING_BUFF_ERR_BAD_ARG)
          else if sz > acc_size obj then (handle, buff, read, RING_BUFF_ERR_NO_MEM)
          else let obj = (if racc obj + sz > rsize obj then obj\<lparr>racc := 0\<rparr> else obj);
                   buff = read_buff obj + ucast (racc obj)
            in if eod obj \<noteq> - 1 \<and> racc obj + sz > eod obj then
                 let read = eod obj - racc obj;
                     (read, buff, obj) =
                       (if read = 0 then (sz, read_buff obj, obj\<lparr>racc := sz\<rparr>)
                        else (read, buff, obj\<lparr>racc := 0\<rparr>))
                 in (Some (obj\<lparr>acc_size := acc_size obj - read, eod := - 1\<rparr>), Some buff, Some read, RING_BUFF_ERR_OK)
               else (Some (obj\<lparr>acc_size := acc_size obj - sz, racc := racc obj + sz\<rparr>), Some buff, Some sz,
                     RING_BUFF_ERR_OK)
      | _ \<Rightarrow> (handle, buff, read, RING_BUFF_ERR_BAD_ARG))"

section \<open>Messages\<close>

definition load32 :: "(u64 \<Rightarrow> u8) \<Rightarrow> u64 \<Rightarrow> u32" where
  "load32 m a = foldr (\<lambda>i w. push_bit 8 w OR ucast (m (a + of_nat i))) [0..<4] 0"

definition store32 :: "u64 \<Rightarrow> u32 \<Rightarrow> (u64 \<Rightarrow> u8) \<Rightarrow> u64 \<Rightarrow> u8" where
  "store32 a v m = (\<lambda>x. if x - a < 4 then ucast (drop_bit (8 * unat (x - a)) v) else m x)"

definition ring_buff_write_msg ::
    "ring_buff_obj option \<Rightarrow> u64 \<Rightarrow> u32 \<Rightarrow> (u64 \<Rightarrow> u8) \<Rightarrow> ring_buff_obj option \<times> (u64 \<Rightarrow> u8) \<times> ring_buff_err" where
  "ring_buff_write_msg handle data sz m =
     (case handle of
        None \<Rightarrow> (handle, m, RING_BUFF_ERR_BAD_ARG)
      | Some obj \<Rightarrow>
          if data = 0 \<or> sz = 0 \<or> (ucast sz + 4 :: u64) > ucast (rsize obj) then (handle, m, RING_BUFF_ERR_BAD_ARG)
          else let (handle, sizePointer, err) = ring_buff_reserve handle (Some 0) (sz + 4) in
            if err \<noteq> RING_BUFF_ERR_OK then (handle, m, err)
            else let p = the sizePointer;
                     m = memcpy (p + 4) data (ucast sz) (store32 p sz m);
                     (handle, err) = ring_buff_commit handle p (sz + 4)
                 in (handle, m, err))"

text \<open>\<open>None\<close>: the length is stored through \<open>messageSize\<close> without a test for a null pointer.\<close>

definition ring_buff_read_msg ::
    "ring_buff_obj option \<Rightarrow> u64 option \<Rightarrow> u32 option \<Rightarrow> (u64 \<Rightarrow> u8) \<Rightarrow>
     (ring_buff_obj option \<times> u64 option \<times> u32 option \<times> ring_buff_err) option" where
  "ring_buff_read_msg handle data messageSize m =
     (if handle = None \<or> data = None then Some (handle, data, messageSize, RING_BUFF_ERR_BAD_ARG)
      else let (handle, dataPointer, read, err) = ring_buff_read handle (Some 0) 4 (Some 0) in
        if err \<noteq> RING_BUFF_ERR_OK then Some (handle, data, messageSize, err)
        else if the read \<noteq> 4 then Some (handle, data, messageSize, RING_BUFF_ERR_INTERNAL)
        else case messageSize of None \<Rightarrow> None
        | Some _ \<Rightarrow>
            let sz = load32 m (the dataPointer);
                (handle, err) = ring_buff_free handle (the dataPointer) (the read)
            in if err \<noteq> RING_BUFF_ERR_OK then Some (handle, data, Some sz, err)
               else let (handle, data, read, err) = ring_buff_read handle data sz read in
                 if err \<noteq> RING_BUFF_ERR_OK then Some (handle, data, Some sz, err)
                 else if the read \<noteq> sz then Some (handle, data, Some sz, RING_BUFF_ERR_INTERNAL)
                 else Some (handle, data, Some sz, err))"

section \<open>A client\<close>

text \<open>
  A producer that prepares a message at some address and sends it, and a consumer that receives a message and,
  after it has used it, releases it with \<open>ring_buff_free\<close>. It holds one message at a time: reading the next one
  frees what is in front of it. The outcomes are the errors of the calls and the bytes that the consumer finds at the
  pointer it was given, on receipt and again on release.
\<close>

record ring_client =
  rc_obj :: "ring_buff_obj option"
  rc_mem :: "u64 \<Rightarrow> u8"
  rc_held :: "(u64 \<times> u32) option"

datatype ring_op = Send u64 "u8 list" | Receive | Release

datatype ring_out = Sent ring_buff_err | Received ring_buff_err "u8 list" | Released ring_buff_err "u8 list" | Idle

fun ring_step :: "ring_op \<Rightarrow> ring_client \<Rightarrow> (ring_client \<times> ring_out) option" where
  "ring_step (Send src d) c =
     (let (h, m, err) = ring_buff_write_msg (rc_obj c) src (of_nat (length d)) (write_bytes src d (rc_mem c))
      in Some (c\<lparr>rc_obj := h, rc_mem := m\<rparr>, Sent err))"
| "ring_step Receive c =
     (case rc_held c of Some _ \<Rightarrow> Some (c, Idle)
      | None \<Rightarrow>
          (case ring_buff_read_msg (rc_obj c) (Some 0) (Some 0) (rc_mem c) of
             None \<Rightarrow> None
           | Some (h, p, n, err) \<Rightarrow>
               if err \<noteq> RING_BUFF_ERR_OK then Some (c\<lparr>rc_obj := h\<rparr>, Received err [])
               else Some (c\<lparr>rc_obj := h, rc_held := Some (the p, the n)\<rparr>,
                          Received err (load_bytes (rc_mem c) (the p) (unat (the n))))))"
| "ring_step Release c =
     (case rc_held c of None \<Rightarrow> Some (c, Idle)
      | Some (p, n) \<Rightarrow>
          let (h, err) = ring_buff_free (rc_obj c) p n
          in Some (c\<lparr>rc_obj := h, rc_held := None\<rparr>, Released err (load_bytes (rc_mem c) p (unat n))))"

fun ring_run :: "ring_op list \<Rightarrow> ring_client \<Rightarrow> (ring_client \<times> ring_out list) option" where
  "ring_run [] c = Some (c, [])"
| "ring_run (a # ops) c = do {
     (c, r) \<leftarrow> ring_step a c;
     (c, rs) \<leftarrow> ring_run ops c;
     Some (c, r # rs)
   }"

section \<open>Words as numbers\<close>

text \<open>An object whose fields are given as numbers, with both sides at the same address.\<close>

definition robj :: "u64 \<Rightarrow> nat \<Rightarrow> nat \<Rightarrow> nat \<Rightarrow> nat \<Rightarrow> u32 \<Rightarrow> nat \<Rightarrow> nat \<Rightarrow> ring_buff_obj" where
  "robj b S R W A e C N = \<lparr>write_buff = b, read_buff = b, rsize = of_nat S, rread = of_nat R, rwrite = of_nat W,
     racc = of_nat A, eod = e, acc_size = of_nat C, isEmpty = of_nat N\<rparr>"

lemma nat32_less: "a < 2 ^ 32 \<Longrightarrow> b < 2 ^ 32 \<Longrightarrow> (of_nat a :: u32) < of_nat b \<longleftrightarrow> a < b"
  by (simp add: word_less_nat_alt unat_of_nat_small)

lemma nat32_le: "a < 2 ^ 32 \<Longrightarrow> b < 2 ^ 32 \<Longrightarrow> (of_nat a :: u32) \<le> of_nat b \<longleftrightarrow> a \<le> b"
  by (simp add: word_le_nat_alt unat_of_nat_small)

lemma nat32_eq: "a < 2 ^ 32 \<Longrightarrow> b < 2 ^ 32 \<Longrightarrow> (of_nat a :: u32) = of_nat b \<longleftrightarrow> a = b"
  by (rule of_nat_word_eq_iff) simp_all

lemma nat32_minus_one:
  assumes "a < 2 ^ 31"
  shows "(of_nat a :: u32) \<noteq> - 1"
proof -
  have "unat (- 1 :: u32) = 2 ^ 32 - 1" by (simp add: unsigned_minus_1_eq_mask mask_eq_exp_minus_1)
  moreover have "unat (of_nat a :: u32) = a" using assms by (simp add: unat_of_nat_small)
  ultimately show ?thesis using assms by force
qed

lemma nat32_widen:
  assumes "a < 2 ^ 32"
  shows "(ucast (of_nat a :: u32) :: u64) = of_nat a"
proof -
  have "unat (ucast (of_nat a :: u32) :: u64) = a" using assms by (simp add: unsigned_ucast_eq unat_of_nat_small take_bit_nat_eq_self)
  then show ?thesis by (rule unat_eq_of_nat_word)
qed

lemma nat32_narrow: "a < 2 ^ 32 \<Longrightarrow> (ucast (of_nat a :: u64) :: u32) = of_nat a"
  by (simp add: unsigned_of_nat take_bit_nat_eq_self)

lemma nat32_positive: "a < 2 ^ 31 \<Longrightarrow> 0 < sint (of_nat a :: u32) \<longleftrightarrow> 0 < a"
  by (simp add: sint_of_nat_small)

text \<open>The operations on such objects.\<close>

lemma reserve_robj:
  assumes "S < 2 ^ 31" and "W \<le> S" and "R \<le> S" and "N \<le> S" and "n \<le> S"
  shows "ring_buff_reserve (Some (robj b S R W A e C N)) (Some x) (of_nat n) =
    (if n \<le> S - W then
       if W < R \<and> R < W + n \<or> W = R \<and> 0 < N then (Some (robj b S R W A e C N), Some x, RING_BUFF_ERR_NO_MEM)
       else (Some (robj b S R (W + n) A e C (N + n)), Some (b + of_nat W), RING_BUFF_ERR_OK)
     else
       if R < n \<or> W < R \<or> W = R \<and> 0 < N then (Some (robj b S R W A e C N), Some x, RING_BUFF_ERR_NO_MEM)
       else (Some (robj b S R n A (of_nat W) C (N + n)), Some b, RING_BUFF_ERR_OK))"
proof -
  have c: "(of_nat S :: u32) < of_nat n \<longleftrightarrow> False" "(of_nat n :: u32) \<le> of_nat S - of_nat W \<longleftrightarrow> n \<le> S - W"
    "(of_nat W :: u32) < of_nat R \<longleftrightarrow> W < R" "(of_nat W :: u32) = of_nat R \<longleftrightarrow> W = R" "(of_nat R :: u32) < of_nat n \<longleftrightarrow> R < n"
    "(of_nat R :: u32) < of_nat W + of_nat n \<longleftrightarrow> R < W + n" "0 < sint (of_nat N :: u32) \<longleftrightarrow> 0 < N"
    using assms nat32_less [of R "W + n"] nat32_le [of n "S - W"]
    by (simp_all add: nat32_less nat32_eq nat32_positive of_nat_diff)
  have w: "(ucast (of_nat W :: u32) :: u64) = of_nat W" using assms by (simp add: nat32_widen)
  show ?thesis
    unfolding ring_buff_reserve_def robj_def
    by (simp only: prod.case option.case ring_buff_obj.simps Let_def c w if_False of_nat_add)
qed

lemma commit_robj:
  "p \<noteq> 0 \<Longrightarrow> ring_buff_commit (Some (robj b S R W A e C N)) p (of_nat n) = (Some (robj b S R W A e (C + n) N), RING_BUFF_ERR_OK)"
  by (simp add: ring_buff_commit_def robj_def)

lemma free_robj:
  assumes "k + n < 2 ^ 32" and "n \<le> N"
  shows "ring_buff_free (Some (robj b S R W A e C N)) (b + of_nat k) (of_nat n) =
    (Some (robj b S (k + n) W A e C (N - n)), RING_BUFF_ERR_OK)"
  using assms nat32_narrow [of "k + n"] by (simp add: ring_buff_free_def robj_def nat32_widen of_nat_diff)

lemma read_robj:
  assumes "S < 2 ^ 31" and "A + n \<le> S" and "n \<le> C" and "C \<le> S" and "e = - 1 \<or> of_nat (A + n) \<le> e"
  shows "ring_buff_read (Some (robj b S R W A e C N)) (Some x) (of_nat n) (Some y) =
    (Some (robj b S R W (A + n) e (C - n) N), Some (b + of_nat A), Some (of_nat n), RING_BUFF_ERR_OK)"
proof -
  have c: "(of_nat S :: u32) < of_nat n \<longleftrightarrow> False" "(of_nat C :: u32) < of_nat n \<longleftrightarrow> False"
    "(of_nat S :: u32) < of_nat A + of_nat n \<longleftrightarrow> False" "(e \<noteq> - 1 \<and> e < of_nat A + of_nat n) \<longleftrightarrow> False"
    using assms nat32_less [of S "A + n"] by (auto simp: nat32_less)
  have w: "(ucast (of_nat A :: u32) :: u64) = of_nat A" using assms by (simp add: nat32_widen)
  show ?thesis
    unfolding ring_buff_read_def robj_def
    by (simp only: prod.case option.case ring_buff_obj.simps Let_def c w if_False of_nat_add of_nat_diff [OF assms(3)])
qed

lemma read_empty:
  assumes "C < n" and "n \<le> S" and "S < 2 ^ 31"
  shows "ring_buff_read (Some (robj b S R W A e C N)) (Some x) (of_nat n) (Some y) =
    (Some (robj b S R W A e C N), Some x, Some y, RING_BUFF_ERR_NO_MEM)"
  unfolding ring_buff_read_def robj_def using assms by (simp add: nat32_less)

lemma read_jump:
  assumes "S < 2 ^ 31" and "A \<le> S" and "S < A + n" and "n \<le> C" and "C \<le> S" and "e = - 1 \<or> of_nat n \<le> e"
  shows "ring_buff_read (Some (robj b S R W A e C N)) (Some x) (of_nat n) (Some y) =
    (Some (robj b S R W n e (C - n) N), Some b, Some (of_nat n), RING_BUFF_ERR_OK)"
proof -
  have c: "(of_nat S :: u32) < of_nat n \<longleftrightarrow> False" "(of_nat C :: u32) < of_nat n \<longleftrightarrow> False"
    "(of_nat S :: u32) < of_nat A + of_nat n \<longleftrightarrow> True" "(e \<noteq> - 1 \<and> e < of_nat n) \<longleftrightarrow> False"
    using assms nat32_less [of S "A + n"] by (auto simp: nat32_less)
  show ?thesis
    unfolding ring_buff_read_def robj_def
    by (simp only: prod.case option.case ring_buff_obj.simps Let_def c if_False if_True of_nat_0 unsigned_0 add_0_left add_0_right
        of_nat_diff [OF assms(4)])
qed

lemma read_wrap:
  assumes "S < 2 ^ 31" and "A + n \<le> S" and "0 < n" and "n \<le> C" and "C \<le> S"
  shows "ring_buff_read (Some (robj b S R W A (of_nat A) C N)) (Some x) (of_nat n) (Some y) =
    (Some (robj b S R W n (- 1) (C - n) N), Some b, Some (of_nat n), RING_BUFF_ERR_OK)"
  unfolding ring_buff_read_def robj_def using assms nat32_minus_one [of A]
  by (simp add: nat32_less nat32_widen of_nat_diff of_nat_add [symmetric] Let_def del: of_nat_add)

section \<open>What is in the buffer\<close>

text \<open>The bytes from offset \<open>k\<close> of the buffer on, and what is stored for a message.\<close>

definition bytes_hold :: "u64 \<Rightarrow> (u64 \<Rightarrow> u8) \<Rightarrow> nat \<Rightarrow> u8 list \<Rightarrow> bool" where
  "bytes_hold b m k xs \<longleftrightarrow> (\<forall>i < length xs. m (b + of_nat (k + i)) = xs ! i)"

definition frame :: "u8 list \<Rightarrow> u8 list" where
  "frame d = map (\<lambda>i. ucast (drop_bit (8 * i) (of_nat (length d) :: u32))) [0..<4] @ d"

definition frames :: "u8 list list \<Rightarrow> u8 list" where
  "frames q = concat (map frame q)"

lemma length_frame [simp]: "length (frame d) = length d + 4"
  by (simp add: frame_def)

lemma frames_simps [simp]: "frames [] = []" "frames (d # q) = frame d @ frames q" "frames (q @ r) = frames q @ frames r"
  by (simp_all add: frames_def)

lemma bytes_hold_Nil [simp]: "bytes_hold b m k []"
  by (simp add: bytes_hold_def)

lemma bytes_hold_append [simp]: "bytes_hold b m k (xs @ ys) \<longleftrightarrow> bytes_hold b m k xs \<and> bytes_hold b m (k + length xs) ys"
proof
  assume l: "bytes_hold b m k (xs @ ys)"
  have "m (b + of_nat (k + length xs + i)) = ys ! i" if "i < length ys" for i
    using l [unfolded bytes_hold_def, rule_format, of "length xs + i"] that by (simp add: add.assoc)
  moreover have "m (b + of_nat (k + i)) = xs ! i" if "i < length xs" for i
    using l [unfolded bytes_hold_def, rule_format, of i] that by (simp add: nth_append)
  ultimately show "bytes_hold b m k xs \<and> bytes_hold b m (k + length xs) ys" by (simp add: bytes_hold_def)
next
  assume r: "bytes_hold b m k xs \<and> bytes_hold b m (k + length xs) ys"
  have "m (b + of_nat (k + i)) = (xs @ ys) ! i" if "i < length xs + length ys" for i
  proof (cases "i < length xs")
    case False
    then have "k + length xs + (i - length xs) = k + i" by simp
    then show ?thesis
      using r [THEN conjunct2, unfolded bytes_hold_def, rule_format, of "i - length xs"] False that
      by (simp add: nth_append del: of_nat_add)
  qed (use r in \<open>simp add: bytes_hold_def nth_append\<close>)
  then show "bytes_hold b m k (xs @ ys)" by (simp add: bytes_hold_def)
qed

lemma bytes_hold_cong:
  assumes "bytes_hold b m k xs" and "\<And>i. k \<le> i \<Longrightarrow> i < k + length xs \<Longrightarrow> m' (b + of_nat i) = m (b + of_nat i)"
  shows "bytes_hold b m' k xs"
  using assms unfolding bytes_hold_def by (metis add_less_cancel_left le_add1)

lemma load_bytes_hold: "bytes_hold b m k d \<Longrightarrow> load_bytes m (b + of_nat k) (length d) = d"
  by (rule nth_equalityI) (simp_all add: load_bytes_def bytes_hold_def add.assoc)

lemma load32_frame:
  assumes "bytes_hold b m k (frame d)"
  shows "load32 m (b + of_nat k) = of_nat (length d)"
proof -
  define v where "v = (of_nat (length d) :: u32)"
  have "m (b + of_nat k + of_nat i) = ucast (drop_bit (8 * i) v)" if "i < 4" for i
    using assms [unfolded bytes_hold_def, rule_format, of i] that by (simp add: frame_def v_def nth_append add.assoc)
  moreover have "ucast (ucast x :: u8) = take_bit 8 x" for x :: u32 by (rule bit_word_eqI) (simp add: bit_simps)
  ultimately have "load32 m (b + of_nat k) = foldr (\<lambda>i w. push_bit 8 w OR take_bit 8 (drop_bit (8 * i) v)) [0..<4] 0"
    unfolding load32_def by (intro foldr_cong refl) auto
  also have "\<dots> = v"
    using join_bytes [of v 4] drop_bit_exp_eq by simp
  finally show ?thesis by (simp add: v_def)
qed

lemma ring_addr_in:
  assumes "i < 2 ^ 33" and "k < 2 ^ 33" and "n < 2 ^ 33"
  shows "(b :: u64) + of_nat i - (b + of_nat k) < of_nat n \<longleftrightarrow> k \<le> i \<and> i < k + n"
proof -
  have u: "unat (of_nat i :: u64) = i" "unat (of_nat k :: u64) = k" "unat (of_nat n :: u64) = n"
    using assms by (simp_all add: unat_of_nat_small)
  have "b + of_nat i - (b + of_nat k) = of_nat i - of_nat k" by simp
  moreover have "unat (of_nat i - of_nat k :: u64) = (if k \<le> i then i - k else i + 2 ^ 64 - k)"
    by (simp add: unat_sub_if' u)
  ultimately show ?thesis using assms by (auto simp: word_less_nat_alt u)
qed

text \<open>The memory after a message was written at offset \<open>k\<close>.\<close>

lemma written_frame:
  assumes "length d < 2 ^ 31" and "k < 2 ^ 31" and "load_bytes m src (length d) = d"
    and "\<And>i j. i < length d \<Longrightarrow> j < k + 4 \<Longrightarrow> src + of_nat i \<noteq> b + of_nat j"
  defines "m' \<equiv> memcpy (b + of_nat k + 4) src (of_nat (length d)) (store32 (b + of_nat k) (of_nat (length d)) m)"
  shows "bytes_hold b m' k (frame d)" 
    and "\<And>i. i < 2 ^ 33 \<Longrightarrow> i < k \<or> k + 4 + length d \<le> i \<Longrightarrow> m' (b + of_nat i) = m (b + of_nat i)"
proof -
  have a4: "b + of_nat k + 4 = b + of_nat (k + 4)" by (simp add: add.assoc)
  have m': "m' (b + of_nat i) =
      (if k + 4 \<le> i \<and> i < k + 4 + length d then store32 (b + of_nat k) (of_nat (length d)) m (src + of_nat (i - (k + 4)))
       else if k \<le> i \<and> i < k + 4 then ucast (drop_bit (8 * (i - k)) (of_nat (length d) :: u32)) else m (b + of_nat i))"
    if "i < 2 ^ 33" for i
  proof -
    have s: "b + of_nat i - (b + of_nat k) = of_nat (i - k)" if "k \<le> i" for k using that by (simp add: of_nat_diff)
    have u: "unat (of_nat i - of_nat k :: u64) = i - k" if "k \<le> i"
      using \<open>i < 2 ^ 33\<close> that unat_of_nat_small [of "i - k", where 'a = 64] by (simp add: of_nat_diff)
    show ?thesis
      unfolding m'_def memcpy_def a4 store32_def
      using that assms(1,2) ring_addr_in [of i "k + 4" "length d" b] ring_addr_in [of i k 4 b]
      by (simp add: s u del: of_nat_add)
  qed
  have src: "store32 (b + of_nat k) v m (src + of_nat i) = d ! i" if "i < length d" for i v
  proof -
    have "\<not> src + of_nat i - (b + of_nat k) < 4"
    proof
      assume a: "src + of_nat i - (b + of_nat k) < 4"
      define j where "j = unat (src + of_nat i - (b + of_nat k))"
      have "j < 4" using a by (simp add: j_def word_less_nat_alt)
      moreover have "src + of_nat i = b + of_nat (k + j)" by (simp add: j_def)
      ultimately show False using assms(4) [OF that, of "k + j"] by simp
    qed
    moreover have "load_bytes m src (length d) ! i = m (src + of_nat i)" using that by (simp add: load_bytes_def)
    ultimately show ?thesis using assms(3) by (simp add: store32_def)
  qed
  show "bytes_hold b m' k (frame d)"
    unfolding bytes_hold_def
  proof (intro allI impI)
    fix i assume "i < length (frame d)"
    then show "m' (b + of_nat (k + i)) = frame d ! i"
      using assms(1,2) by (subst m') (auto simp: src frame_def nth_append simp del: of_nat_diff)
  qed
  show "\<And>i. i < 2 ^ 33 \<Longrightarrow> i < k \<or> k + 4 + length d \<le> i \<Longrightarrow> m' (b + of_nat i) = m (b + of_nat i)"
    using m' by auto
qed

section \<open>Places in the buffer\<close>

text \<open>Where \<open>ring_buff_reserve\<close> puts \<open>n\<close> bytes, if anywhere.\<close>

definition place :: "nat \<Rightarrow> nat \<Rightarrow> nat \<Rightarrow> nat \<Rightarrow> nat \<Rightarrow> nat option" where
  "place S R W N n =
     (if n \<le> S - W then if W < R \<and> R < W + n \<or> W = R \<and> 0 < N then None else Some W
      else if R < n \<or> W < R \<or> W = R \<and> 0 < N then None else Some 0)"

text \<open>
  The messages \<open>q1 @ q2\<close> that are still to be read lie in one piece from the offset \<open>A\<close> to the write pointer \<open>W\<close>, or
  \<open>q1\<close> lies from \<open>A\<close> to the end of the data and \<open>q2\<close> at the beginning of the buffer. Then the bytes lost at
  the end are fewer than the longest message needs. What is before \<open>A\<close> and not before the read pointer \<open>R\<close> is in use by the consumer.
\<close>

definition layout :: "u64 \<Rightarrow> (u64 \<Rightarrow> u8) \<Rightarrow> nat \<Rightarrow> nat \<Rightarrow> nat \<Rightarrow> nat \<Rightarrow> nat \<Rightarrow> u32 \<Rightarrow> u8 list list \<Rightarrow> u8 list list \<Rightarrow> bool" where
  "layout b m L S R A W e q1 q2 \<longleftrightarrow>
     R \<le> A \<and> A + length (frames q1) \<le> S \<and> bytes_hold b m A (frames q1) \<and> bytes_hold b m 0 (frames q2) \<and>
     (if q2 = [] then W = A + length (frames q1) \<and> (e = - 1 \<or> e = of_nat S)
      else e = of_nat (A + length (frames q1)) \<and> S < A + length (frames q1) + L \<and> W = length (frames q2) \<and> W \<le> R)"

definition used :: "nat \<Rightarrow> nat \<Rightarrow> u8 list list \<Rightarrow> nat" where
  "used R A q = length (frames q) + (A - R)"

lemma frames_positive: "q \<noteq> [] \<Longrightarrow> 0 < length (frames q)"
  by (cases q) simp_all

lemma layout_bounds:
  assumes "layout b m L S R A W e q1 q2"
  shows "used R A (q1 @ q2) \<le> S" and "W \<le> S" and "R \<le> S" and "length (frames (q1 @ q2)) \<le> S"
  using assms by (auto simp: layout_def used_def split: if_splits)

lemma layout_full:
  assumes "layout b m L S R A W e q1 q2" and "place S R W (used R A (q1 @ q2)) n = None" and "n \<le> L"
  shows "S < used R A (q1 @ q2) + 2 * L"
  using assms frames_positive [of q2] by (auto simp: layout_def used_def place_def split: if_splits)

lemma layout_put:
  assumes "layout b m L S R A W e q1 q2" and "place S R W (used R A (q1 @ q2)) (length d + 4) = Some k"
    and "length d + 4 \<le> L" and "S < 2 ^ 31"
    and "bytes_hold b m' k (frame d)" and "\<And>i. i < k \<or> k + 4 + length d \<le> i \<Longrightarrow> i < S \<Longrightarrow> m' (b + of_nat i) = m (b + of_nat i)"
  defines "e' \<equiv> if length d + 4 \<le> S - W then e else of_nat W"
  shows "k + length d + 4 \<le> R \<or> A \<le> k" 
    and "\<exists>q1' q2'. q1' @ q2' = q1 @ q2 @ [d] \<and> layout b m' L S R A (k + (length d + 4)) e' q1' q2'"
proof -
  have keep: "bytes_hold b m' j xs" if "bytes_hold b m j xs" "k + (length d + 4) \<le> j \<or> j + length xs \<le> k" "j + length xs \<le> S" for j xs
    using that(1) by (rule bytes_hold_cong) (use assms(6) that(2,3) in auto)
  note l = assms(1) [unfolded layout_def]
  have "(k + length d + 4 \<le> R \<or> A \<le> k) \<and>
    (\<exists>q1' q2'. q1' @ q2' = q1 @ q2 @ [d] \<and> layout b m' L S R A (k + (length d + 4)) e' q1' q2')"
  proof (cases "length d + 4 \<le> S - W")
    case True
    then have k: "k = W" "\<not> (W < R \<and> R < W + (length d + 4) \<or> W = R \<and> 0 < used R A (q1 @ q2))"
      using assms(2) by (auto simp: place_def split: if_splits)
    show ?thesis
    proof (cases "q2 = []")
      case True
      then have "layout b m' L S R A (k + (length d + 4)) e' (q1 @ [d]) []"
        using l k \<open>length d + 4 \<le> S - W\<close> keep assms(5) layout_bounds(2) [OF assms(1)] by (auto simp: layout_def e'_def)
      with True l k show ?thesis by (intro conjI exI [of _ "q1 @ [d]"] exI [of _ "[]"]) auto
    next
      case False
      then have "W < R" "W + (length d + 4) \<le> R" using l k frames_positive [OF False] by (auto simp: used_def)
      then have "layout b m' L S R A (k + (length d + 4)) e' q1 (q2 @ [d])"
        using False l k \<open>length d + 4 \<le> S - W\<close> keep assms(5) by (auto simp: layout_def e'_def)
      with k \<open>W + (length d + 4) \<le> R\<close> show ?thesis by auto
    qed
  next
    case False
    then have k: "k = 0" "length d + 4 \<le> R" "R \<le> W" "W = R \<longrightarrow> used R A (q1 @ q2) = 0"
      using assms(2) by (auto simp: place_def split: if_splits)
    then have "q2 = []" using l frames_positive [of q2] by (auto simp: used_def split: if_splits)
    then have "layout b m' L S R A (k + (length d + 4)) e' q1 [d]"
      using False l k keep assms(3,5) by (auto simp: layout_def e'_def)
    with \<open>q2 = []\<close> k show ?thesis by auto
  qed
  then show "k + length d + 4 \<le> R \<or> A \<le> k"
    and "\<exists>q1' q2'. q1' @ q2' = q1 @ q2 @ [d] \<and> layout b m' L S R A (k + (length d + 4)) e' q1' q2'" by blast+
qed

section \<open>Sending\<close>

lemma write_msg_robj:
  assumes "S < 2 ^ 31" and "W \<le> S" and "R \<le> S" and "N \<le> S" and "0 < length d" and "length d + 4 \<le> S"
    and "src \<noteq> 0" and "b \<noteq> 0" and "unat b + S \<le> 2 ^ 64"
  shows "ring_buff_write_msg (Some (robj b S R W A e C N)) src (of_nat (length d)) m =
    (case place S R W N (length d + 4) of
       None \<Rightarrow> (Some (robj b S R W A e C N), m, RING_BUFF_ERR_NO_MEM)
     | Some k \<Rightarrow>
         (Some (robj b S R (k + (length d + 4)) A (if length d + 4 \<le> S - W then e else of_nat W) (C + (length d + 4)) (N + (length d + 4))),
          memcpy (b + of_nat k + 4) src (of_nat (length d)) (store32 (b + of_nat k) (of_nat (length d)) m), RING_BUFF_ERR_OK))"
proof -
  have n0: "(of_nat (length d) :: u32) \<noteq> 0" using assms nat32_eq [of "length d" 0] by auto
  have n4: "(of_nat (length d) + 4 :: u32) = of_nat (length d + 4)" by simp
  have "(ucast (of_nat (length d) :: u32) + 4 :: u64) = of_nat (length d + 4)" using assms by (simp add: nat32_widen)
  then have le: "\<not> (ucast (rsize (robj b S R W A e C N)) :: u64) < ucast (of_nat (length d) :: u32) + 4"
    using assms by (simp add: robj_def nat32_widen word_less_nat_alt unat_of_nat_small del: of_nat_add)
  have nz: "b + of_nat W \<noteq> 0" if "W < S" for W
  proof -
    have "unat (b + of_nat W) = unat b + W" using that assms by (subst unat_add_small) (simp_all add: unat_of_nat_small)
    moreover have "0 < unat b" using assms by (simp add: unat_gt_0)
    ultimately show ?thesis by auto
  qed
  have W: "W < S" if "length d + 4 \<le> S - W" using that by simp
  show ?thesis
    unfolding ring_buff_write_msg_def option.case n4 reserve_robj [OF assms(1-4,6)] place_def
    using n0 le assms(7,8) nz W assms
    by (simp add: commit_robj nat32_widen Let_def del: of_nat_add)
qed

section \<open>Receiving\<close>

definition good_msg :: "nat \<Rightarrow> u8 list \<Rightarrow> bool" where
  "good_msg L d \<longleftrightarrow> 0 < length d \<and> 4 dvd length d \<and> length d + 4 \<le> L"

lemma read_msg_robj:
  assumes "ring_buff_read (Some (robj b S R W A e C N)) (Some 0) 4 (Some 0) =
      (Some (robj b S R W (k + 4) e' (C - 4) N), Some (b + of_nat k), Some 4, RING_BUFF_ERR_OK)"
    and "bytes_hold b m k (frame d)" and "k + 4 + length d \<le> S" and "length d + 4 \<le> C" and "C \<le> S" and "4 \<le> N"
    and "S < 2 ^ 31" and "e' = - 1 \<or> of_nat (k + 4 + length d) \<le> e'"
  shows "ring_buff_read_msg (Some (robj b S R W A e C N)) (Some x) (Some y) m =
    Some (Some (robj b S (k + 4) W (k + 4 + length d) e' (C - (length d + 4)) (N - 4)), Some (b + of_nat (k + 4)),
      Some (of_nat (length d)), RING_BUFF_ERR_OK)"
proof -
  have f: "ring_buff_free (Some (robj b S R W (k + 4) e' (C - 4) N)) (b + of_nat k) 4 =
      (Some (robj b S (k + 4) W (k + 4) e' (C - 4) (N - 4)), RING_BUFF_ERR_OK)"
    using free_robj [of k 4 N b S R W "k + 4" e' "C - 4"] assms by simp
  have g: "ring_buff_read (Some (robj b S (k + 4) W (k + 4) e' (C - 4) (N - 4))) (Some x) (of_nat (length d)) (Some 4) =
      (Some (robj b S (k + 4) W (k + 4 + length d) e' (C - 4 - length d) (N - 4)), Some (b + of_nat (k + 4)),
       Some (of_nat (length d)), RING_BUFF_ERR_OK)"
    by (rule read_robj) (use assms in auto)
  show ?thesis
    by (simp add: ring_buff_read_msg_def assms(1) load32_frame [OF assms(2)] f g Let_def del: of_nat_add) (simp add: add.commute)
qed

lemma read_msg_empty:
  assumes "4 \<le> S" and "S < 2 ^ 31"
  shows "ring_buff_read_msg (Some (robj b S R W A e 0 N)) (Some x) (Some y) m =
    Some (Some (robj b S R W A e 0 N), Some x, Some y, RING_BUFF_ERR_NO_MEM)"
  using read_empty [of 0 4 S b R W A e N 0 0] assms by (simp add: ring_buff_read_msg_def)

lemma layout_take:
  assumes "layout b m L S R R W e q1 q2" and "q1 @ q2 = d # q" and "S < 2 ^ 31" and "4 dvd R" and "4 dvd S"
  shows "\<exists>k e' q1' q2'. q1' @ q2' = q \<and> layout b m L S (k + 4) (k + 4 + length d) W e' q1' q2' \<and> 4 dvd k \<and>
    bytes_hold b m k (frame d) \<and> (e' = - 1 \<or> of_nat (k + 4 + length d) \<le> e') \<and>
    ring_buff_read (Some (robj b S R W R e (length (frames (d # q))) N)) (Some 0) 4 (Some 0) =
      (Some (robj b S R W (k + 4) e' (length (frames (d # q)) - 4) N), Some (b + of_nat k), Some 4, RING_BUFF_ERR_OK)"
proof -
  note l = assms(1) [unfolded layout_def]
  have C: "length (frames (d # q)) \<le> S" using layout_bounds(4) [OF assms(1)] assms(2) by simp
  show ?thesis
  proof (cases q1)
    case (Cons d' r)
    then have q: "q1 = d # r" "r @ q2 = q" using assms(2) by auto
    have len: "R + 4 + length d \<le> S" using l q by simp
    have e: "e = - 1 \<or> (of_nat (R + 4 + length d) :: u32) \<le> e" "e = - 1 \<or> (of_nat (R + 4) :: u32) \<le> e"
      using l q assms(3) by (auto simp: nat32_le simp del: of_nat_add split: if_splits)
    have "layout b m L S (R + 4) (R + 4 + length d) W e r q2" using l q by (auto simp: layout_def ac_simps)
    then show ?thesis
      using q e assms(4) l read_robj [OF assms(3), of R 4 "length (frames (d # q))" e] C len
      by (intro exI [of _ R] exI [of _ e] exI [of _ r] exI [of _ q2]) simp
  next
    case Nil
    then have q: "q2 = d # q" using assms(2) by simp
    then have w: "e = of_nat R" "W = length (frames (d # q))" "W \<le> R" "R \<le> S" using l Nil by auto
    have lay: "layout b m L S (0 + 4) (0 + 4 + length d) W e' q []" if "e' = - 1 \<or> e' = of_nat S" for e'
      using that l q w Nil by (auto simp: layout_def ac_simps)
    show ?thesis
    proof (cases "R + 4 \<le> S")
      case True
      show ?thesis
        using lay [of "- 1"] q l read_wrap [OF assms(3) True, of "length (frames (d # q))"] C w(1)
        by (intro exI [of _ 0] exI [of _ "- 1"] exI [of _ q] exI [of _ "[]"]) simp
    next
      case False
      with assms(4,5) w(4) have "R = S" by (auto elim!: dvdE)
      moreover have "(of_nat (0 + 4 + length d) :: u32) \<le> of_nat S" "(of_nat 4 :: u32) \<le> of_nat S"
        using w assms(3) C by (auto simp: nat32_le simp del: of_nat_add of_nat_numeral)
      ultimately show ?thesis
        using lay [of "of_nat S"] q l read_jump [OF assms(3) w(4), of 4 "length (frames (d # q))" e] C w(1)
        by (intro exI [of _ 0] exI [of _ "of_nat S"] exI [of _ q] exI [of _ "[]"]) simp
    qed
  qed
qed

section \<open>A queue of messages\<close>

text \<open>
  Messages whose length is a positive multiple of four and that need at most \<open>L\<close> bytes with their length, at an
  address outside the buffer.
\<close>

fun op_ok :: "u64 \<Rightarrow> nat \<Rightarrow> nat \<Rightarrow> ring_op \<Rightarrow> bool" where
  "op_ok b L S (Send src d) \<longleftrightarrow> src \<noteq> 0 \<and> good_msg L d \<and> unat src + length d \<le> 2 ^ 64 \<and>
     (unat src + length d \<le> unat b \<or> unat b + S \<le> unat src)"
| "op_ok b L S Receive \<longleftrightarrow> True"
| "op_ok b L S Release \<longleftrightarrow> True"

definition held_length :: "u8 list option \<Rightarrow> nat" where
  "held_length h = (case h of None \<Rightarrow> 0 | Some d \<Rightarrow> length d)"

text \<open>
  The outcomes of a queue of messages: \<open>q\<close> is in the queue, \<open>h\<close> is the message the consumer holds. A message may be refused
  only if the buffer would not hold the present messages and two of the longest ones.
\<close>

inductive ring_spec :: "nat \<Rightarrow> nat \<Rightarrow> ring_op list \<Rightarrow> ring_out list \<Rightarrow> u8 list list \<Rightarrow> u8 list option \<Rightarrow> bool"
  for L S where
  spec_done: "ring_spec L S [] [] q h"
| spec_sent: "ring_spec L S ops outs (q @ [d]) h \<Longrightarrow> ring_spec L S (Send src d # ops) (Sent RING_BUFF_ERR_OK # outs) q h"
| spec_full: "S < length (frames q) + held_length h + 2 * L \<Longrightarrow> ring_spec L S ops outs q h \<Longrightarrow>
    ring_spec L S (Send src d # ops) (Sent RING_BUFF_ERR_NO_MEM # outs) q h"
| spec_received: "ring_spec L S ops outs q (Some d) \<Longrightarrow>
    ring_spec L S (Receive # ops) (Received RING_BUFF_ERR_OK d # outs) (d # q) None"
| spec_empty: "ring_spec L S ops outs [] None \<Longrightarrow> ring_spec L S (Receive # ops) (Received RING_BUFF_ERR_NO_MEM [] # outs) [] None"
| spec_holding: "ring_spec L S ops outs q (Some d) \<Longrightarrow> ring_spec L S (Receive # ops) (Idle # outs) q (Some d)"
| spec_released: "ring_spec L S ops outs q None \<Longrightarrow>
    ring_spec L S (Release # ops) (Released RING_BUFF_ERR_OK d # outs) q (Some d)"
| spec_not_holding: "ring_spec L S ops outs q None \<Longrightarrow> ring_spec L S (Release # ops) (Idle # outs) q None"

text \<open>The invariant.\<close>

definition held_ok :: "u64 \<Rightarrow> nat \<Rightarrow> (u64 \<Rightarrow> u8) \<Rightarrow> nat \<Rightarrow> (u64 \<times> u32) option \<Rightarrow> u8 list option \<Rightarrow> bool" where
  "held_ok b L m R held h \<longleftrightarrow> (case h of None \<Rightarrow> held = None
     | Some d \<Rightarrow> good_msg L d \<and> bytes_hold b m R d \<and> held = Some (b + of_nat R, of_nat (length d)))"

definition ring_state ::
    "u64 \<Rightarrow> nat \<Rightarrow> nat \<Rightarrow> ring_client \<Rightarrow> u8 list option \<Rightarrow> nat \<Rightarrow> nat \<Rightarrow> u32 \<Rightarrow> u8 list list \<Rightarrow> u8 list list \<Rightarrow> bool" where
  "ring_state b L S c h R W e q1 q2 \<longleftrightarrow>
     layout b (rc_mem c) L S R (R + held_length h) W e q1 q2 \<and> 4 dvd R \<and> (\<forall>d \<in> set (q1 @ q2). good_msg L d) \<and>
     held_ok b L (rc_mem c) R (rc_held c) h \<and>
     rc_obj c = Some (robj b S R W (R + held_length h) e (length (frames (q1 @ q2))) (used R (R + held_length h) (q1 @ q2)))"

definition ring_inv :: "u64 \<Rightarrow> nat \<Rightarrow> nat \<Rightarrow> ring_client \<Rightarrow> u8 list list \<Rightarrow> u8 list option \<Rightarrow> bool" where
  "ring_inv b L S c q h \<longleftrightarrow> (\<exists>R W e q1 q2. q = q1 @ q2 \<and> ring_state b L S c h R W e q1 q2)"

lemma ring_invI: "ring_state b L S c h R W e q1 q2 \<Longrightarrow> q1 @ q2 = q \<Longrightarrow> ring_inv b L S c q h"
  unfolding ring_inv_def by blast

definition ring_ok :: "u64 \<Rightarrow> nat \<Rightarrow> nat \<Rightarrow> bool" where
  "ring_ok b L S \<longleftrightarrow> b \<noteq> 0 \<and> unat b + S \<le> 2 ^ 64 \<and> 4 dvd S \<and> 0 < S \<and> S < 2 ^ 31 \<and> L \<le> S"

text \<open>A step keeps the invariant and its outcome is one the queue allows.\<close>

definition steps_to :: "nat \<Rightarrow> nat \<Rightarrow> u64 \<Rightarrow> ring_op \<Rightarrow> ring_client \<Rightarrow> u8 list list \<Rightarrow> u8 list option \<Rightarrow> bool" where
  "steps_to L S b a c q h \<longleftrightarrow> (\<exists>c' out q' h'. ring_step a c = Some (c', out) \<and> ring_inv b L S c' q' h' \<and>
     (\<forall>ops outs. ring_spec L S ops outs q' h' \<longrightarrow> ring_spec L S (a # ops) (out # outs) q h))"

lemma write_bytes_outside: "(\<And>i. i < length d \<Longrightarrow> a \<noteq> src + of_nat i) \<Longrightarrow> write_bytes src d m a = m a"
proof -
  assume o: "\<And>i. i < length d \<Longrightarrow> a \<noteq> src + of_nat i"
  have "a = src + of_nat (unat (a - src))" by simp
  with o have "\<not> unat (a - src) < length d" by blast
  then show ?thesis by (simp add: write_bytes_def)
qed

lemma load_write_bytes: "length d < 2 ^ 64 \<Longrightarrow> load_bytes (write_bytes a d m) a (length d) = d"
  by (rule nth_equalityI) (simp_all add: load_bytes_def write_bytes_def unat_of_nat_small)

lemma op_ok_apart:
  assumes "ring_ok b L S" and "op_ok b L S (Send src d)" and "i < length d" and "j < S"
  shows "src + of_nat i \<noteq> b + of_nat j"
proof -
  have "length d < 2 ^ 31" using assms(1,2) by (auto simp: ring_ok_def good_msg_def)
  then have "unat (src + of_nat i) = unat src + i" "unat (b + of_nat j) = unat b + j"
    using assms by (auto simp: ring_ok_def unat_of_nat_small intro!: trans [OF unat_add_small])
  moreover have "unat src + i \<noteq> unat b + j" using assms(2-4) by auto
  ultimately show ?thesis by metis
qed

lemma layout_cong:
  assumes "layout b m L S R A W e q1 q2" and "\<And>i. i < S \<Longrightarrow> m' (b + of_nat i) = m (b + of_nat i)"
  shows "layout b m' L S R A W e q1 q2"
proof -
  note l = assms(1) [unfolded layout_def]
  have "length (frames q2) \<le> S" using layout_bounds(4) [OF assms(1)] by simp
  then have "bytes_hold b m' A (frames q1)" "bytes_hold b m' 0 (frames q2)"
    using l assms(2) by (auto intro!: bytes_hold_cong [of b m])
  with l show ?thesis by (cases "q2 = []") (auto simp: layout_def)
qed

lemma held_cong:
  assumes "held_ok b L m R held h" and "\<And>i. R \<le> i \<Longrightarrow> i < R + held_length h \<Longrightarrow> m' (b + of_nat i) = m (b + of_nat i)"
  shows "held_ok b L m' R held h"
  using assms by (auto simp: held_ok_def held_length_def intro: bytes_hold_cong [of b m] split: option.splits)

lemma held_length_bound: "layout b m L S R (R + held_length h) W e q1 q2 \<Longrightarrow> R + held_length h \<le> S"
  by (simp add: layout_def)

text \<open>The client prepares the bytes of a message outside the buffer.\<close>

lemma prepare_message:
  assumes "ring_ok b L S" and "ring_state b L S c h R W e q1 q2" and "op_ok b L S (Send src d)"
  defines "m \<equiv> write_bytes src d (rc_mem c)"
  shows "ring_state b L S (c\<lparr>rc_mem := m\<rparr>) h R W e q1 q2" and "load_bytes m src (length d) = d"
proof -
  have m: "m (b + of_nat i) = rc_mem c (b + of_nat i)" if "i < S" for i
    unfolding m_def using op_ok_apart [OF assms(1,3) _ that] by (intro write_bytes_outside) metis
  have l: "layout b (rc_mem c) L S R (R + held_length h) W e q1 q2" "held_ok b L (rc_mem c) R (rc_held c) h"
    using assms(2) by (simp_all add: ring_state_def)
  have "layout b m L S R (R + held_length h) W e q1 q2" using l(1) m by (rule layout_cong)
  moreover have "held_ok b L m R (rc_held c) h"
    using l(2) by (rule held_cong) (use m held_length_bound [OF l(1)] in simp)
  ultimately show "ring_state b L S (c\<lparr>rc_mem := m\<rparr>) h R W e q1 q2"
    using assms(2) by (simp add: ring_state_def)
  show "load_bytes m src (length d) = d"
    unfolding m_def using assms(1,3) by (intro load_write_bytes) (simp add: ring_ok_def good_msg_def)
qed

lemma send_placed:
  assumes "ring_ok b L S" and "ring_state b L S c h R W e q1 q2" and "op_ok b L S (Send src d)"
    and "load_bytes (rc_mem c) src (length d) = d"
    and "place S R W (used R (R + held_length h) (q1 @ q2)) (length d + 4) = Some k"
  defines "m' \<equiv> memcpy (b + of_nat k + 4) src (of_nat (length d)) (store32 (b + of_nat k) (of_nat (length d)) (rc_mem c))"
  shows "ring_inv b L S (c\<lparr>rc_obj := Some (robj b S R (k + (length d + 4)) (R + held_length h)
      (if length d + 4 \<le> S - W then e else of_nat W) (length (frames (q1 @ q2)) + (length d + 4))
      (used R (R + held_length h) (q1 @ q2) + (length d + 4))), rc_mem := m'\<rparr>) (q1 @ q2 @ [d]) h"
proof -
  have r: "S < 2 ^ 31" "L \<le> S" using assms(1) by (auto simp: ring_ok_def)
  have l: "layout b (rc_mem c) L S R (R + held_length h) W e q1 q2" "held_ok b L (rc_mem c) R (rc_held c) h"
    using assms(2) by (simp_all add: ring_state_def)
  have g: "good_msg L d" "length d + 4 \<le> L" using assms(3) by (auto simp: good_msg_def)
  have kS: "k + length d + 4 \<le> S" using assms(5) g r layout_bounds(2) [OF l(1)] by (auto simp: place_def split: if_splits)
  have fr: "bytes_hold b m' k (frame d)"
    "\<And>i. i < 2 ^ 33 \<Longrightarrow> i < k \<or> k + 4 + length d \<le> i \<Longrightarrow> m' (b + of_nat i) = rc_mem c (b + of_nat i)"
    unfolding m'_def using written_frame [of d k "rc_mem c" src b] op_ok_apart [OF assms(1,3)] assms(4) kS r(1) by auto
  have p: "k + length d + 4 \<le> R \<or> R + held_length h \<le> k" "\<exists>q1' q2'. q1' @ q2' = q1 @ q2 @ [d] \<and>
    layout b m' L S R (R + held_length h) (k + (length d + 4)) (if length d + 4 \<le> S - W then e else of_nat W) q1' q2'"
    using layout_put [OF l(1), of d k m'] assms(5) g r(1) fr by auto
  from p(2) obtain q1' q2' where q': "q1' @ q2' = q1 @ q2 @ [d]"
    "layout b m' L S R (R + held_length h) (k + (length d + 4)) (if length d + 4 \<le> S - W then e else of_nat W) q1' q2'" by blast
  have "held_ok b L m' R (rc_held c) h"
    using l(2) by (rule held_cong) (use p(1) fr(2) held_length_bound [OF l(1)] r(1) in auto)
  with q' assms(2) g(1) have "ring_state b L S (c\<lparr>rc_obj := Some (robj b S R (k + (length d + 4)) (R + held_length h)
      (if length d + 4 \<le> S - W then e else of_nat W) (length (frames (q1 @ q2)) + (length d + 4))
      (used R (R + held_length h) (q1 @ q2) + (length d + 4))), rc_mem := m'\<rparr>) h R (k + (length d + 4))
      (if length d + 4 \<le> S - W then e else of_nat W) q1' q2'"
    unfolding ring_state_def q'(1) by (simp add: used_def ac_simps)
  then show ?thesis using q'(1) by (rule ring_invI)
qed

lemma step_send:
  assumes "ring_ok b L S" and "ring_inv b L S c q h" and "op_ok b L S (Send src d)"
  shows "steps_to L S b (Send src d) c q h"
proof -
  from assms(2) obtain R W e q1 q2 where q: "q = q1 @ q2" and "ring_state b L S c h R W e q1 q2"
    unfolding ring_inv_def by blast
  define c' where "c' = c\<lparr>rc_mem := write_bytes src d (rc_mem c)\<rparr>"
  note s = prepare_message [OF assms(1) \<open>ring_state b L S c h R W e q1 q2\<close> assms(3), folded c'_def]
  have ld: "load_bytes (rc_mem c') src (length d) = d" using s(2) by (simp add: c'_def)
  have l: "layout b (rc_mem c') L S R (R + held_length h) W e q1 q2" using s(1) by (simp add: ring_state_def)
  have step: "ring_step (Send src d) c =
      (let (h, m, err) = ring_buff_write_msg (rc_obj c') src (of_nat (length d)) (rc_mem c')
       in Some (c'\<lparr>rc_obj := h, rc_mem := m\<rparr>, Sent err))" by (simp add: c'_def Let_def split_beta)
  have o: "rc_obj c' = Some (robj b S R W (R + held_length h) e (length (frames q)) (used R (R + held_length h) q))"
    using s(1) q by (simp add: ring_state_def)
  have w: "ring_buff_write_msg (rc_obj c') src (of_nat (length d)) (rc_mem c') =
    (case place S R W (used R (R + held_length h) q) (length d + 4) of
       None \<Rightarrow> (rc_obj c', rc_mem c', RING_BUFF_ERR_NO_MEM)
     | Some k \<Rightarrow>
         (Some (robj b S R (k + (length d + 4)) (R + held_length h) (if length d + 4 \<le> S - W then e else of_nat W)
            (length (frames q) + (length d + 4)) (used R (R + held_length h) q + (length d + 4))),
          memcpy (b + of_nat k + 4) src (of_nat (length d)) (store32 (b + of_nat k) (of_nat (length d)) (rc_mem c')), RING_BUFF_ERR_OK))"
    unfolding o by (rule write_msg_robj) (use layout_bounds [OF l] assms(1,3) q in \<open>auto simp: ring_ok_def good_msg_def\<close>)
  show ?thesis
  proof (cases "place S R W (used R (R + held_length h) q) (length d + 4)")
    case None
    have "S < length (frames q) + held_length h + 2 * L"
      using layout_full [OF l] None assms(3) q by (simp add: used_def good_msg_def)
    moreover have "ring_inv b L S c' q h" using ring_invI [OF s(1)] q by simp
    ultimately show ?thesis
      unfolding steps_to_def step w None by (auto intro!: spec_full exI [of _ q] exI [of _ h])
  next
    case (Some k)
    from send_placed [OF assms(1) s(1) assms(3) ld Some [unfolded q]] q show ?thesis
      unfolding steps_to_def step w Some by (auto intro!: spec_sent exI [of _ "q @ [d]"] exI [of _ h])
  qed
qed

lemma receive_first:
  assumes "ring_ok b L S" and "ring_state b L S c None R W e q1 q2" and q: "q1 @ q2 = d # q"
  shows "\<exists>c'. ring_step Receive c = Some (c', Received RING_BUFF_ERR_OK d) \<and> ring_inv b L S c' q (Some d)"
proof -
  let ?C = "length (frames (d # q))"
  have r: "S < 2 ^ 31" "4 dvd S" using assms(1) by (auto simp: ring_ok_def)
  have l: "layout b (rc_mem c) L S R R W e q1 q2" "4 dvd R" "rc_held c = None" "rc_obj c = Some (robj b S R W R e ?C ?C)"
    "\<forall>d \<in> set (d # q). good_msg L d"
    using assms(2) unfolding ring_state_def q by (simp_all add: held_length_def held_ok_def used_def)
  from layout_take [OF l(1) q r(1) l(2) r(2)] obtain k e' q1' q2' where
    k: "q1' @ q2' = q" "layout b (rc_mem c) L S (k + 4) (k + 4 + length d) W e' q1' q2'" "4 dvd k"
      "bytes_hold b (rc_mem c) k (frame d)" "e' = - 1 \<or> of_nat (k + 4 + length d) \<le> e'"
      "ring_buff_read (Some (robj b S R W R e ?C ?C)) (Some 0) 4 (Some 0) =
        (Some (robj b S R W (k + 4) e' (?C - 4) ?C), Some (b + of_nat k), Some 4, RING_BUFF_ERR_OK)"
    by metis
  have b: "k + 4 + length d \<le> S" "?C \<le> S" using k(2) layout_bounds(4) [OF l(1)] q by (auto simp: layout_def)
  define c' where "c' = c\<lparr>rc_obj := Some (robj b S (k + 4) W (k + 4 + length d) e' (length (frames q)) (?C - 4)),
    rc_held := Some (b + of_nat (k + 4), of_nat (length d))\<rparr>"
  have h: "bytes_hold b (rc_mem c) (k + 4) d" using k(4) by (simp add: frame_def)
  have u: "unat (of_nat (length d) :: u32) = length d" using b(1) r(1) by (simp add: unat_of_nat_small)
  have rd: "ring_buff_read_msg (rc_obj c) (Some 0) (Some 0) (rc_mem c) =
    Some (rc_obj c', Some (b + of_nat (k + 4)), Some (of_nat (length d)), RING_BUFF_ERR_OK)"
    unfolding l(4) using read_msg_robj [OF k(6,4) b(1) _ b(2) _ r(1) k(5)] by (simp add: c'_def)
  have "ring_step Receive c = Some (c', Received RING_BUFF_ERR_OK d)"
    using rd load_bytes_hold [OF h] u by (simp add: l(3) c'_def del: of_nat_add)
  moreover have "ring_state b L S c' (Some d) (k + 4) W e' q1' q2'"
    using k h l(5) by (auto simp: ring_state_def c'_def held_length_def held_ok_def used_def ac_simps simp del: of_nat_add)
  then have "ring_inv b L S c' q (Some d)" using k(1) by (rule ring_invI)
  ultimately show ?thesis by blast
qed

lemma step_receive:
  assumes "ring_ok b L S" and "ring_inv b L S c q h"
  shows "steps_to L S b Receive c q h"
proof -
  from assms(2) obtain R W e q1 q2 where q: "q = q1 @ q2" and s: "ring_state b L S c h R W e q1 q2"
    unfolding ring_inv_def by blast
  consider (holding) d where "h = Some d" | (empty) "h = None" "q = []" | (first) d q' where "h = None" "q = d # q'"
    by (cases h; cases q) auto
  then show ?thesis
  proof cases
    case holding
    then have "ring_step Receive c = Some (c, Idle)" using s by (auto simp: ring_state_def held_ok_def)
    with holding assms(2) show ?thesis unfolding steps_to_def by (blast intro: spec_holding)
  next
    case empty
    have "S < 2 ^ 31" "4 \<le> S" using assms(1) by (auto simp: ring_ok_def elim!: dvdE)
    then have "ring_step Receive c = Some (c, Received RING_BUFF_ERR_NO_MEM [])"
      using empty s q by (simp add: ring_state_def held_ok_def read_msg_empty)
    with empty assms(2) show ?thesis unfolding steps_to_def by (blast intro: spec_empty)
  next
    case (first d q')
    with receive_first [OF assms(1), of c R W e q1 q2 d q'] s q obtain c' where
      "ring_step Receive c = Some (c', Received RING_BUFF_ERR_OK d)" "ring_inv b L S c' q' (Some d)" by auto
    with first show ?thesis unfolding steps_to_def by (blast intro: spec_received)
  qed
qed

lemma step_release:
  assumes "ring_ok b L S" and "ring_inv b L S c q h"
  shows "steps_to L S b Release c q h"
proof (cases h)
  case None
  then have "ring_step Release c = Some (c, Idle)"
    using assms(2) by (auto simp: ring_inv_def ring_state_def held_ok_def)
  with None assms(2) show ?thesis unfolding steps_to_def by (blast intro: spec_not_holding)
next
  case (Some d)
  from assms(2) Some obtain R W e q1 q2 where q: "q = q1 @ q2" and s: "ring_state b L S c (Some d) R W e q1 q2"
    unfolding ring_inv_def by blast
  then have l: "layout b (rc_mem c) L S R (R + length d) W e q1 q2" "4 dvd R" "good_msg L d" "bytes_hold b (rc_mem c) R d"
    "rc_held c = Some (b + of_nat R, of_nat (length d))"
    "rc_obj c = Some (robj b S R W (R + length d) e (length (frames q)) (used R (R + length d) q))"
    by (simp_all add: ring_state_def held_length_def held_ok_def)
  define c' where "c' = c\<lparr>rc_obj := Some (robj b S (R + length d) W (R + length d) e (length (frames q)) (length (frames q))), rc_held := None\<rparr>"
  have b: "R + length d \<le> S" "S < 2 ^ 31" using l(1) assms(1) by (auto simp: layout_def ring_ok_def)
  then have "ring_buff_free (rc_obj c) (b + of_nat R) (of_nat (length d)) = (rc_obj c', RING_BUFF_ERR_OK)"
    using free_robj [of R "length d" "used R (R + length d) q"] by (simp add: l(6) c'_def used_def)
  then have "ring_step Release c = Some (c', Released RING_BUFF_ERR_OK d)"
    using load_bytes_hold [OF l(4)] b by (simp add: l(5) c'_def unat_of_nat_small)
  moreover have "layout b (rc_mem c) L S (R + length d) (R + length d) W e q1 q2"
    using l(1) by (auto simp: layout_def split: if_splits)
  then have "ring_state b L S c' None (R + length d) W e q1 q2"
    using s l(2,3) q by (auto simp: ring_state_def c'_def held_length_def held_ok_def used_def good_msg_def)
  then have "ring_inv b L S c' q None" using q by (simp add: ring_invI)
  ultimately show ?thesis using Some unfolding steps_to_def by (blast intro: spec_released)
qed

lemma ring_run_spec:
  assumes "ring_ok b L S"
  shows "ring_inv b L S c q h \<Longrightarrow> \<forall>a \<in> set ops. op_ok b L S a \<Longrightarrow>
    \<exists>c' outs. ring_run ops c = Some (c', outs) \<and> ring_spec L S ops outs q h"
proof (induction ops arbitrary: c q h)
  case (Cons a ops)
  have "steps_to L S b a c q h"
    using step_send [OF assms Cons.prems(1)] step_receive [OF assms Cons.prems(1)] step_release [OF assms Cons.prems(1)]
      Cons.prems(2) by (cases a) auto
  then obtain c1 out q1 h1 where a: "ring_step a c = Some (c1, out)" "ring_inv b L S c1 q1 h1"
    "\<And>ops outs. ring_spec L S ops outs q1 h1 \<Longrightarrow> ring_spec L S (a # ops) (out # outs) q h" unfolding steps_to_def by blast
  from Cons.IH [OF a(2)] Cons.prems(2) obtain c2 outs where "ring_run ops c1 = Some (c2, outs)" "ring_spec L S ops outs q1 h1"
    by auto
  with a show ?case by auto
qed (auto intro: spec_done)

text \<open>
  C17. The buffer is a queue of messages. A buffer of \<open>sz\<close> bytes is created, \<open>sz\<close> a multiple of four below
  \<open>2 ^ 31\<close>, and any sequence of sending, receiving and releasing is carried out, the lengths of the
  messages being multiples of four and no message with its length word taking more than half the buffer. Then every operation returns, each message that is accepted is received exactly
  once, in the order of sending and with the bytes that were sent, and still has these bytes when it is
  released, whatever was sent in between. Receiving fails exactly when nothing is queued, and
  sending fails only when the bytes in use and two messages of the greatest length exceed the buffer: with
  nothing in use it never fails.
\<close>

theorem ring_messages_fifo:
  assumes "b \<noteq> 0" and "unat b + unat sz \<le> 2 ^ 64" and "sz \<noteq> 0" and "sz < 2 ^ 31" and "4 dvd unat sz"
    and "2 * L \<le> unat sz" and "\<forall>a \<in> set ops. op_ok b L (unat sz) a"
  shows "\<exists>obj c outs. ring_buff_create True (Some \<lparr>ra_buff = b, ra_size = sz\<rparr>) (Some None) = (Some (Some obj), RING_BUFF_ERR_OK) \<and>
    ring_run ops \<lparr>rc_obj = Some obj, rc_mem = m, rc_held = None\<rparr> = Some (c, outs) \<and> ring_spec L (unat sz) ops outs [] None"
proof -
  let ?obj = "robj b (unat sz) 0 0 0 (- 1) 0 0"
  have "ring_ok b L (unat sz)" using assms by (simp add: ring_ok_def word_less_nat_alt unat_gt_0)
  moreover have "ring_state b L (unat sz) \<lparr>rc_obj = Some ?obj, rc_mem = m, rc_held = None\<rparr> None 0 0 (- 1) [] []"
    by (simp add: ring_state_def layout_def held_length_def held_ok_def used_def)
  then have "ring_inv b L (unat sz) \<lparr>rc_obj = Some ?obj, rc_mem = m, rc_held = None\<rparr> [] None" by (rule ring_invI) simp
  moreover have "ring_buff_create True (Some \<lparr>ra_buff = b, ra_size = sz\<rparr>) (Some None) = (Some (Some ?obj), RING_BUFF_ERR_OK)"
    using assms(1,3) by (simp add: ring_buff_create_def robj_def)
  ultimately show ?thesis using ring_run_spec assms(7) by blast
qed

theorem ring_messages_fifo_witness:
  "\<exists>obj c outs. ring_buff_create True (Some \<lparr>ra_buff = 16, ra_size = 32\<rparr>) (Some None) = (Some (Some obj), RING_BUFF_ERR_OK) \<and>
    ring_run [Send 64 [1, 2, 3, 4], Receive, Send 64 [5, 6, 7, 8], Release] \<lparr>rc_obj = Some obj, rc_mem = (\<lambda>_. 0), rc_held = None\<rparr> =
      Some (c, outs) \<and>
    ring_spec 8 32 [Send 64 [1, 2, 3, 4], Receive, Send 64 [5, 6, 7, 8], Release] outs [] None"
proof -
  let ?ops = "[Send 64 [1, 2, 3, 4], Receive, Send 64 [5, 6, 7, 8], Release]"
  have "4 dvd Suc (Suc (Suc (Suc 0)))" by (simp add: numeral_eq_Suc)
  then have "\<forall>a \<in> set ?ops. op_ok 16 8 (unat (32 :: u32)) a" by (simp add: good_msg_def)
  then show ?thesis using ring_messages_fifo [of 16 32 8 ?ops "\<lambda>_. 0"] by simp
qed

text \<open>Behaviour outside these conditions, on a buffer at address 16.\<close>

definition ring_of :: "u32 \<Rightarrow> ring_client" where
  "ring_of sz = \<lparr>rc_obj = the (fst (ring_buff_create True (Some \<lparr>ra_buff = 16, ra_size = sz\<rparr>) (Some None))), rc_mem = (\<lambda>_. 0), rc_held = None\<rparr>"

lemmas ring_defs = ring_buff_create_def ring_buff_reserve_def ring_buff_commit_def ring_buff_free_def ring_buff_read_def
  ring_buff_write_msg_def ring_buff_read_msg_def write_bytes_def memcpy_def store32_def load32_def load_bytes_def

text \<open>
  Fewer than four bytes are left at the end. The reader then starts over without resetting the end of data, and meets it again
  when the third message reaches the end of the buffer: the bytes 3 were sent and 1 is received.
\<close>

lemma stale_end_of_data:
  "map_option snd (ring_run [Send 64 [1, 1, 1, 1, 1], Receive, Release, Send 64 [2], Receive, Release, Send 64 [3], Receive] (ring_of 10)) =
   Some [Sent RING_BUFF_ERR_OK, Received RING_BUFF_ERR_OK [1, 1, 1, 1, 1], Released RING_BUFF_ERR_OK [1, 1, 1, 1, 1],
     Sent RING_BUFF_ERR_OK, Received RING_BUFF_ERR_OK [2], Released RING_BUFF_ERR_OK [2],
     Sent RING_BUFF_ERR_OK, Received RING_BUFF_ERR_OK [1]]"
  by (simp add: ring_of_def ring_defs Let_def upt_rec word_le_nat_alt)

text \<open>An empty buffer refuses a message that it could hold, and will do so for ever.\<close>

lemma empty_buffer_refuses:
  "map_option snd (ring_run [Send 64 [1, 2, 3, 4], Receive, Release, Send 64 [5, 6, 7, 8, 9], Receive] (ring_of 16)) =
   Some [Sent RING_BUFF_ERR_OK, Received RING_BUFF_ERR_OK [1, 2, 3, 4], Released RING_BUFF_ERR_OK [1, 2, 3, 4],
     Sent RING_BUFF_ERR_NO_MEM, Received RING_BUFF_ERR_NO_MEM []]"
  by code_simp

text \<open>With a bad argument the handle of an existing buffer is overwritten with null.\<close>

lemma create_loses_handle:
  "ring_buff_create True (Some \<lparr>ra_buff = b, ra_size = 0\<rparr>) (Some (Some obj)) = (Some None, RING_BUFF_ERR_BAD_ARG)"
  by (simp add: ring_buff_create_def)

end
