(* ===== verification/Spec2Isabelle.thy ===== *)
theory Spec2Isabelle
  imports Bitmap_Regions Lthread_Sched Critical_Section Mpmc_Concurrent Enclave_Syscalls Futex Base64
    Sgxlkl_Util Lthread_Tls Hostcalls Curve25519 Wg_Peers Enclave_Config Run_Config Block_Device
    Net_Device Lthread_Switch App_Config Ring_Buff
begin

text \<open>
  Verification of the core of rkt-io, a library operating system that runs unmodified Linux programs
  in SGX enclaves. File names are relative to the directory \<^verbatim>\<open>src/\<close> of the repository.

  \<^bold>\<open>The program.\<close> A launcher outside the enclave (\<^verbatim>\<open>src/main/\<close>) reads its options, prepares
  memory, queues and devices and starts a number of threads inside the enclave. In the enclave
  these threads become schedulers of lightweight threads (\<^verbatim>\<open>src/sched/\<close>), which run the
  application, its C library and a Linux kernel built as a library. Memory comes from a page
  allocator over the enclave heap (\<^verbatim>\<open>src/sgx/enclave_mem.c\<close>); threads block and wake each other
  through futexes (\<^verbatim>\<open>src/sched/futex.c\<close>); a system call that only the host can serve is written to
  a slot, sent through a lock-free queue to host threads, and its answer comes back through a second
  queue (\<^verbatim>\<open>src/host/\<close>, \<^verbatim>\<open>src/shared/mpmc_queue.c\<close>); exceptions and illegal instructions leave
  and reenter the enclave (\<^verbatim>\<open>src/sgx/\<close>). The configuration from the host is examined and
  copied, and WireGuard keys and peers are set from it (\<^verbatim>\<open>src/wireguard/\<close>).

  \<^bold>\<open>Foundations.\<close>
  \<^item> \<open>Prelude\<close>: machine integers, conversions, the collections \<open>word_nat_simps\<close> and \<open>step_simps\<close>,
    generic lemmas.
  \<^item> \<open>Region_Alloc\<close>, \<open>Codec\<close>, \<open>Key_Store\<close>: contracts as locales, an allocator of
    regions, an encoder with its decoder, a table of values. \<open>bounded_fifo\<close> in \<open>Mpmc_Queue\<close> and
    \<open>mutex\<close> in \<open>Critical_Section\<close> are two more. Each is interpreted on the definitions that
    model the code: \<open>em\<close> on the page allocator, \<open>sl\<close> on the slots, \<open>b64\<close> and \<open>hex\<close> on the two text encodings,
    \<open>tls\<close> on thread specific data, \<open>mq\<close> on the queue and \<open>tlk\<close> on the ticket lock.

  \<^bold>\<open>Synchronisation.\<close>
  \<^item> \<open>Ticketlock\<close> (\<^verbatim>\<open>src/include/ticketlock.h\<close>): one step per atomic access of \<open>ticket_lock\<close>,
    \<open>ticket_trylock\<close> and \<open>ticket_unlock\<close> by any number of threads, with 32 bit counters. The
    lock refines a first-come-first-served list of requests across the wrap-around (C1).
  \<^item> \<open>Critical_Section\<close>: code between lock and unlock is exclusive, and the sections act as if run one after the other in the order of entry (C2),
    which is why \<open>Futex\<close> and \<open>Enclave_Mem\<close> model locked operations as functions.
  \<^item> \<open>Mpmc_Queue\<close> and \<open>Mpmc_Concurrent\<close> (\<^verbatim>\<open>src/shared/mpmc_queue.c\<close>): the operations run alone
    are a bounded queue (C3), and in every interleaving of their loads, stores and compare-and-swaps
    data is delivered once and in order (C4).
  \<^item> \<open>Ring_Buff\<close> (\<^verbatim>\<open>src/shared/ring_buff.c\<close>): a ring of bytes that carries messages from one producer to one consumer, for any
    sequence of operations, when the size and the lengths are multiples of four and no message takes more than half the buffer (C17). The
    lemmas \<open>stale_end_of_data\<close> and \<open>empty_buffer_refuses\<close> show what happens otherwise: messages are delivered wrong, or an empty buffer refuses
    one.

  \<^bold>\<open>Memory.\<close>
  \<^item> \<open>Bitops\<close> and \<open>Bitmap_Regions\<close> (\<^verbatim>\<open>src/include/bitops.h\<close>): bitmaps as lists of 64 bit words; the
    word-wise operations agree with the set of bits (C34), and regions are found first-fit
    and can be released (C35).
  \<^item> \<open>Enclave_Mem\<close> (\<^verbatim>\<open>src/sgx/enclave_mem.c\<close>): \<open>enclave_mmap\<close>, \<open>enclave_munmap\<close>,
    \<open>enclave_mremap\<close> and their initialisation; exactness of each operation (C5, C7, C8) and that
    mappings never overlap in any sequence of calls (C6). The lemmas \<open>enclave_munmap_last_page\<close>
    and \<open>enclave_munmap_wrap_diverges\<close> show two defects at the borders of the address range.
  \<^item> \<open>Enclave_Syscalls\<close>: \<open>mmap\<close> of anonymous memory and of files, \<open>munmap\<close>, \<open>mremap\<close> and
    \<open>msync\<close> on top of the allocator. A new mapping holds zeros or the bytes of the file (C36); the lemmas after it show the cases that C36
    leaves out, where old contents of the memory remain. \<open>lseek\<close> and \<open>read\<close> of the kernel library are an argument.

  \<^bold>\<open>Threads.\<close>
  \<^item> \<open>Lthread_Sched\<close> (\<^verbatim>\<open>src/sched/lthread.c\<close>): creation, resumption, yield, exit, join and detach as
    steps of any number of schedulers, for programs that join or detach each thread at most once. A thread runs on one scheduler (C30)
    and a join reads the
    exit value of a thread that is not freed (C29). Freed memory is never touched with one scheduler (C33), does get touched with
    two (lemma \<open>join_use_after_free\<close>), and then only after the joiner was woken (lemma \<open>freed_touched_only_after_wake\<close>).
  \<^item> \<open>Lthread_Switch\<close>: the assembler code of the context switch; a thread that is switched away and back
    finds its registers and stack as they were (C22), and a new thread starts in \<open>_exec\<close>.
  \<^item> \<open>Lthread_Tls\<close>: keys and values of threads (C21).
  \<^item> \<open>Futex\<close> (\<^verbatim>\<open>src/sched/futex.c\<close>): the list of waiters and the system call; exactness of wake (C11)
    and of the timeouts (C13), no lost wake-ups (C12), no lost waiters in a requeue (C14).

  \<^bold>\<open>Host calls.\<close>
  \<^item> \<open>Hostcall_Slots\<close> (\<^verbatim>\<open>src/host/sgx_hostcall_interface.c\<close>): the table of slots; slots in use are different (C23).
  \<^item> \<open>Hostcall_Protocol\<close>: slots, both queues, enclave threads and host threads as interleaved
    steps; answers reach their own requests and the queues never fill up (C24), and every call
    completes (C25).
  \<^item> \<open>Hostcalls\<close> (\<^verbatim>\<open>src/host/sgx_hostcalls.c\<close>): every forwarded system call with its copies to
    and from the shared arena; all but \<open>readv\<close> and \<open>writev\<close> change nothing of the enclave's memory but the buffers they are to fill (C26), and \<open>write\<close> and \<open>read\<close> transfer
    exactly the bytes in question. The host is an argument: it may leave anything in the
    arena and answer with anything, except that C26 needs an answer to \<open>mremap\<close> outside the enclave, which the code does not check
    (lemma \<open>mremap_answer_believed\<close>).
  \<^item> \<open>Block_Device\<close> (\<^verbatim>\<open>src/lkl/disk.c\<close>, \<^verbatim>\<open>src/lkl/disk_mem.c\<close>): requests of the kernel on a disk. On a host that
    keeps a file as its documentation promises, however few bytes it transfers at a time, requests write and read
    exactly their sectors, or end early for an error or an answer of 0 (C27, C28). The buffers fit into the arena, so that it need not grow.
  \<^item> \<open>Net_Device\<close> (\<^verbatim>\<open>src/lkl/virtio_net.c\<close>): sending, receiving and polling on a tap interface; a poll asks the host for
    the events whose flags are set and reports those it answers with (C32).
  \<^item> \<open>Enclave_Exceptions\<close> (\<^verbatim>\<open>src/sgx/enclave_signal.c\<close>, parts of
    \<^verbatim>\<open>src/sgx/sgx_enclave_config.c\<close>): leaving the enclave, emulated instructions and the signal
    handler; the interrupted thread resumes with the registers its handler left, or those of the
    emulated instruction (C9). What \<open>CPUID\<close> returns for leaves other than 7 is not what was meant (lemma \<open>ecall_cpuid_result\<close>).

  \<^bold>\<open>Configuration and keys.\<close>
  \<^item> \<open>Json_Util\<close> (\<^verbatim>\<open>src/shared/json_util.c\<close>): the traversal of JSON objects by callbacks, with the lemma
    \<open>parse_object\<close> that its two clients share. \<open>Run_Config\<close> (\<^verbatim>\<open>src/main/sgxlkl_config.c\<close>): precedence of environment,
    file and default for every option, the numeric ones without a maximum excepted (C40). \<open>App_Config\<close> (\<^verbatim>\<open>src/sgx/sgxlkl_app_config.c\<close>): which configurations of
    an application are accepted, and what they mean, when the keys of disks are hexadecimal (C20).
  \<^item> \<open>Enclave_Config\<close> (\<^verbatim>\<open>src/sgx/sgx_enclave_config.c\<close>): a configuration with a range inside the
    enclave is refused, one whose ranges all lie outside is copied (C15); ranges across a border are accepted too often (lemma \<open>range_below_accepted\<close>).
  \<^item> \<open>Sgxlkl_Util\<close> (\<^verbatim>\<open>src/shared/sgxlkl_util.c\<close>) and \<open>Base64\<close> (\<^verbatim>\<open>src/shared/base64.c\<close>):
    sizes, powers of two, hexadecimal and base64 text (C16, C18, C19) and the buffers for it (C31).
  \<^item> \<open>Wg_Keys\<close>, \<open>Curve25519\<close> (end of \<^verbatim>\<open>src/wireguard/wireguard.c\<close>): keys as text (C39), the
    field arithmetic without overflow (C38) and the public key as X25519 of RFC 7748 (C37).
  \<^item> \<open>Wg_Peers\<close> (\<^verbatim>\<open>src/wireguard/wireguard_util.c\<close>): peers written as text are added to the device (C10).

  \<^bold>\<open>Conventions and bounds.\<close> State is a record that operations return updated; errors are values of
  an option or sum type, or negative results as in the code; a crash of the program (a failed
  assertion, \<open>sgxlkl_fail\<close>, \<open>a_crash\<close>) is \<open>None\<close> or a constructor of its own. Loops are
  recursive functions with a termination proof where they end; loops that may go on for ever
  (\<open>next_pow2\<close>, the retries of the queue, of \<open>getaddrinfo\<close> and of transfers to devices, the searches of the page
  allocator, \<open>strlen\<close>) are partial functions into an option type, and the theorems state that
  there is a result, or that there is none. No fuel is used. Concurrent components
  are step relations, or functions from schedules to states, over sequentially consistent memory; C4
  considers executions of fewer than \<open>2 ^ 62\<close> steps, so that the 64 bit positions of the queue
  do not wrap around, and C1 fewer than \<open>2 ^ 32\<close> threads at the lock, which is what its tickets can tell apart.

  \<^bold>\<open>Not modelled.\<close> The set-up of devices, timers and memory in the launcher, the start of the kernel in
  \<^verbatim>\<open>src/lkl/setup.c\<close> and the drivers for SPDK and DPDK consist of calls into the operating system, the Linux
  Kernel Library, SPDK and DPDK, which are not part of the sources. The netlink client of
  \<^verbatim>\<open>src/wireguard/wireguard.c\<close> exchanges messages with that kernel. Loading, measuring and
  signing of enclaves, attestation and remote control rest on SGX instructions, mbedtls and protobuf-c.
  Of the lightweight threads, cancellation, timed sleep (which nothing calls) and pinning are left
  out; the steps of the two sides of the ring buffer are not interleaved. Weak memory, page protections and messages to the user are not part of any model.
\<close>

end
